(* ===== verification/Prelude.thy ===== *)
theory Prelude
  imports Main "HOL-Library.Word" "HOL-Library.AList" "HOL-Library.Multiset"
begin

text \<open>
  Shared vocabulary of the development: the machine-integer widths the sources use, the
  exceptions the code can throw as values of a sum type, the standard containers as the
  code uses them, and the generic lemmas that the component theories share.

  \<^item> A \<open>std::unordered_map\<close> is an association list with distinct keys, kept in the order in
    which the keys were first inserted (\<open>um_\<close> operations); a \<open>std::unordered_set\<close> is a
    duplicate-free list in insertion order (\<open>us_\<close> operations).
  \<^item> The C++ standard leaves the iteration order of these containers open. Every loop of the
    sources over such a container therefore goes through a \<^emph>\<open>hash order\<close>, a parameter that
    rearranges the keys; \<open>hash_order_ok\<close> says that it only rearranges them. Theorems hold for
    every such order.
  \<^item> A \<open>std::map\<close> is an association list sorted by key (\<open>om_\<close> operations).
\<close>

section \<open>Automation\<close>

named_theorems um_simps \<open>lookups in the hash containers after an update\<close>
named_theorems inv_intros \<open>invariants kept by the operations of a component\<close>

section \<open>Machine integers and pointers\<close>

type_synonym u8 = "8 word"
type_synonym u16 = "16 word"
type_synonym u32 = "32 word"
type_synonym u64 = "64 word"

text \<open>An address; the null pointer is address 0.\<close>

type_synonym ptr = nat

abbreviation (input) nullptr :: ptr where
  "nullptr \<equiv> 0"

text \<open>The largest size of a \<open>std::vector\<close> of pointers (\<open>max_size\<close>: the bytes of a signed 64-bit offset).\<close>

definition VECTOR_MAX :: nat where
  "VECTOR_MAX = 2 ^ 60 - 1"

lemma mset_concat_update:
  "i < length xss \<Longrightarrow> mset (concat (xss[i := ys])) + mset (xss ! i) = mset (concat xss) + mset ys"
  by (induction xss arbitrary: i) (auto simp: ac_simps split: nat.splits)

section \<open>Exceptions as values\<close>

text \<open>
  What a call can end with instead of returning: the \<open>std::runtime_error\<close> of the sources with
  its message, an exception of yaml-cpp that is not caught, and the undefined behaviour of
  C++ (an access out of bounds, a division by zero), which the model makes a value of its own.
\<close>

datatype exn =
    Runtime_error string
  | Yaml_exception string
  | Undefined_behaviour string

type_synonym 'a result = "exn + 'a"

fun is_ok :: "'a result \<Rightarrow> bool" where
  "is_ok (Inl e) = False"
| "is_ok (Inr x) = True"

text \<open>A \<open>for\<close> loop whose body can throw: the first exception ends the loop.\<close>

fun for_each :: "('a \<Rightarrow> 's \<Rightarrow> 's result) \<Rightarrow> 'a list \<Rightarrow> 's \<Rightarrow> 's result" where
  "for_each f [] s = Inr s"
| "for_each f (x # xs) s = (case f x s of Inl e \<Rightarrow> Inl e | Inr s' \<Rightarrow> for_each f xs s')"

section \<open>Hash containers\<close>

type_synonym ('k, 'v) umap = "('k \<times> 'v) list"
type_synonym 'a uset = "'a list"

definition um_keys :: "('k, 'v) umap \<Rightarrow> 'k list" where
  "um_keys m = map fst m"

definition um_ok :: "('k, 'v) umap \<Rightarrow> bool" where
  "um_ok m \<longleftrightarrow> distinct (um_keys m)"

definition um_contains :: "'k \<Rightarrow> ('k, 'v) umap \<Rightarrow> bool" where
  "um_contains k m \<longleftrightarrow> map_of m k \<noteq> None"

text \<open>\<open>m[k] = v\<close>.\<close>

definition um_set :: "'k \<Rightarrow> 'v \<Rightarrow> ('k, 'v) umap \<Rightarrow> ('k, 'v) umap" where
  "um_set k v m = AList.update k v m"

text \<open>\<open>m.emplace(k, v)\<close>: no effect when the key is there.\<close>

definition um_emplace :: "'k \<Rightarrow> 'v \<Rightarrow> ('k, 'v) umap \<Rightarrow> ('k, 'v) umap" where
  "um_emplace k v m = (if um_contains k m then m else um_set k v m)"

text \<open>\<open>m[k]\<close> as a value: a default-constructed \<open>d\<close> when the key is missing (\<open>um_touch\<close> is its
  effect on the map).\<close>

definition um_get :: "'v \<Rightarrow> 'k \<Rightarrow> ('k, 'v) umap \<Rightarrow> 'v" where
  "um_get d k m = (case map_of m k of None \<Rightarrow> d | Some v \<Rightarrow> v)"

definition um_touch :: "'v \<Rightarrow> 'k \<Rightarrow> ('k, 'v) umap \<Rightarrow> ('k, 'v) umap" where
  "um_touch d k m = um_emplace k d m"

text \<open>An update through the reference \<open>m[k]\<close>.\<close>

definition um_modify :: "'v \<Rightarrow> 'k \<Rightarrow> ('v \<Rightarrow> 'v) \<Rightarrow> ('k, 'v) umap \<Rightarrow> ('k, 'v) umap" where
  "um_modify d k f m = um_set k (f (um_get d k m)) m"

definition us_insert :: "'a \<Rightarrow> 'a uset \<Rightarrow> 'a uset" where
  "us_insert x xs = (if x \<in> set xs then xs else xs @ [x])"

text \<open>The order in which a hash container is iterated, as a rearrangement of the insertion order.\<close>

record hash_order =
  ord_string :: "string list \<Rightarrow> string list"
  ord_int :: "int list \<Rightarrow> int list"

definition hash_order_ok :: "hash_order \<Rightarrow> bool" where
  "hash_order_ok h \<longleftrightarrow>
     (\<forall>ks. mset (ord_string h ks) = mset ks) \<and> (\<forall>ks. mset (ord_int h ks) = mset ks)"

text \<open>Iterating over the pairs of a hash map.\<close>

definition um_iter :: "('k list \<Rightarrow> 'k list) \<Rightarrow> ('k, 'v) umap \<Rightarrow> ('k \<times> 'v) list" where
  "um_iter ord m = List.map_filter (\<lambda>k. map_option (Pair k) (map_of m k)) (ord (um_keys m))"

text \<open>The two orders used to evaluate examples.\<close>

definition insertion_order :: hash_order where
  "insertion_order = \<lparr>ord_string = (\<lambda>ks. ks), ord_int = (\<lambda>ks. ks)\<rparr>"

definition reverse_order :: hash_order where
  "reverse_order = \<lparr>ord_string = rev, ord_int = rev\<rparr>"

section \<open>Ordered maps\<close>

type_synonym ('k, 'v) omap = "('k \<times> 'v) list"

fun om_modify :: "'v \<Rightarrow> 'k::linorder \<Rightarrow> ('v \<Rightarrow> 'v) \<Rightarrow> ('k, 'v) omap \<Rightarrow> ('k, 'v) omap" where
  "om_modify d k f [] = [(k, f d)]"
| "om_modify d k f ((k', v) # m) =
     (if k < k' then (k, f d) # (k', v) # m
      else if k = k' then (k', f v) # m
      else (k', v) # om_modify d k f m)"

section \<open>Lemmas on results and loops\<close>

lemma for_each_append:
  "for_each f (xs @ ys) s =
     (case for_each f xs s of Inl e \<Rightarrow> Inl e | Inr s' \<Rightarrow> for_each f ys s')"
  by (induction xs arbitrary: s) (auto split: sum.splits)

lemma for_each_invariant:
  assumes "for_each f xs s = Inr t" "P s"
    and "\<And>x s t. x \<in> set xs \<Longrightarrow> P s \<Longrightarrow> f x s = Inr t \<Longrightarrow> P t"
  shows "P t"
  using assms
proof (induction xs arbitrary: s)
  case (Cons x xs)
  then obtain s' where s': "f x s = Inr s'" "for_each f xs s' = Inr t"
    by (auto split: sum.splits)
  moreover have "P s'" using Cons.prems s' by auto
  ultimately show ?case using Cons by auto
qed simp

lemma for_each_total:
  assumes "\<And>x s. x \<in> set xs \<Longrightarrow> f x s = Inr (g x s)"
  shows "for_each f xs s = Inr (fold g xs s)"
  using assms by (induction xs arbitrary: s) auto

section \<open>Lemmas on hash containers\<close>

lemma map_of_um_set [simp, um_simps]: "map_of (um_set k v m) = (map_of m)(k \<mapsto> v)"
  by (simp add: um_set_def update_conv')

lemma um_keys_um_set:
  "um_keys (um_set k v m) = (if k \<in> set (um_keys m) then um_keys m else um_keys m @ [k])"
  by (simp add: um_keys_def um_set_def update_keys)

lemma set_um_keys [simp]: "set (um_keys m) = dom (map_of m)"
  by (simp add: um_keys_def dom_map_of_conv_image_fst)

lemma um_ok_Nil [simp]: "um_ok []"
  by (simp add: um_ok_def um_keys_def)

lemma um_ok_um_set [simp, inv_intros]: "um_ok m \<Longrightarrow> um_ok (um_set k v m)"
  by (auto simp: um_ok_def um_keys_um_set)

lemma um_ok_um_emplace [simp, inv_intros]: "um_ok m \<Longrightarrow> um_ok (um_emplace k v m)"
  by (simp add: um_emplace_def)

lemma um_ok_um_modify [simp, inv_intros]: "um_ok m \<Longrightarrow> um_ok (um_modify d k f m)"
  by (simp add: um_modify_def)

lemma um_ok_um_touch [simp, inv_intros]: "um_ok m \<Longrightarrow> um_ok (um_touch d k m)"
  by (simp add: um_touch_def)

lemma map_of_um_modify [simp, um_simps]:
  "map_of (um_modify d k f m) = (map_of m)(k \<mapsto> f (um_get d k m))"
  by (simp add: um_modify_def)

lemma map_of_um_emplace [simp, um_simps]:
  "map_of (um_emplace k v m) = (if map_of m k = None then (map_of m)(k \<mapsto> v) else map_of m)"
  by (simp add: um_emplace_def um_contains_def)

lemma um_touch_present [simp]: "map_of m k = Some v \<Longrightarrow> um_touch d k m = m"
  by (simp add: um_touch_def um_emplace_def um_contains_def)

lemma map_of_um_touch [simp, um_simps]:
  "map_of (um_touch d k m) = (if map_of m k = None then (map_of m)(k \<mapsto> d) else map_of m)"
  by (simp add: um_touch_def)

lemma um_get_Some [simp]: "map_of m k = Some v \<Longrightarrow> um_get d k m = v"
  by (simp add: um_get_def)

lemma um_get_None [simp]: "map_of m k = None \<Longrightarrow> um_get d k m = d"
  by (simp add: um_get_def)

lemma set_us_insert [simp]: "set (us_insert x xs) = insert x (set xs)"
  by (auto simp: us_insert_def)

lemma distinct_us_insert [simp, inv_intros]: "distinct xs \<Longrightarrow> distinct (us_insert x xs)"
  by (simp add: us_insert_def)

lemma us_insert_neq_Nil [simp]: "us_insert x xs \<noteq> []"
  by (auto simp: us_insert_def)

lemma hash_order_set [simp]:
  assumes "hash_order_ok h"
  shows "set (ord_string h ks) = set ks" "set (ord_int h is) = set is"
  using assms unfolding hash_order_ok_def by (metis mset_eq_setD)+

lemma hash_order_distinct [simp]:
  assumes "hash_order_ok h"
  shows "distinct (ord_string h ks) = distinct ks" "distinct (ord_int h is) = distinct is"
  using assms unfolding hash_order_ok_def by (metis mset_eq_imp_distinct_iff)+

lemma hash_order_length [simp]:
  assumes "hash_order_ok h"
  shows "length (ord_string h ks) = length ks" "length (ord_int h is) = length is"
  using assms unfolding hash_order_ok_def by (metis size_mset)+

lemma insertion_order_ok [simp]: "hash_order_ok insertion_order"
  by (simp add: hash_order_ok_def insertion_order_def)

lemma reverse_order_ok [simp]: "hash_order_ok reverse_order"
  by (simp add: hash_order_ok_def reverse_order_def)

text \<open>Iterating over a hash map meets every entry, each once.\<close>

lemma set_um_iter:
  assumes "\<And>ks. set (ord ks) = set ks"
  shows "set (um_iter ord m) = {(k, v). map_of m k = Some v}"
  using assms by (force simp: um_iter_def List.map_filter_def)

lemma set_um_iter_order [simp]:
  assumes "hash_order_ok h"
  shows "set (um_iter (ord_string h) ms) = {(k, v). map_of ms k = Some v}"
    and "set (um_iter (ord_int h) mi) = {(k, v). map_of mi k = Some v}"
  using assms by (simp_all add: set_um_iter)

lemma map_fst_um_iter:
  assumes "\<And>ks. set (ord ks) = set ks"
  shows "map fst (um_iter ord m) = ord (um_keys m)"
proof -
  have "\<forall>k \<in> set (ord (um_keys m)). \<exists>v. map_of m k = Some v"
    using assms by auto
  then have "map fst (List.map_filter (\<lambda>k. map_option (Pair k) (map_of m k)) ks) = ks"
    if "set ks \<subseteq> set (ord (um_keys m))" for ks
    using that by (induction ks) (auto simp: List.map_filter_simps)
  then show ?thesis by (simp add: um_iter_def)
qed

section \<open>Lemmas on ordered maps\<close>

lemma map_of_om_modify [simp]:
  "sorted (map fst m) \<Longrightarrow> distinct (map fst m) \<Longrightarrow>
     map_of (om_modify d k f m) = (map_of m)(k \<mapsto> f (case map_of m k of None \<Rightarrow> d | Some v \<Rightarrow> v))"
proof (induction m)
  case (Cons p m)
  obtain k' v where p: "p = (k', v)" by (cases p)
  have none: "map_of m k = None" if "k \<le> k'" "k \<noteq> k'"
    using Cons.prems that p by (force simp: map_of_eq_None_iff)
  from Cons p none show ?case by (auto simp: fun_eq_iff)
qed simp

lemma set_keys_om_modify [simp]: "fst ` set (om_modify d k f m) = insert k (fst ` set m)"
  by (induction d k f m rule: om_modify.induct) (auto simp: image_iff)

lemma sorted_om_modify [simp, inv_intros]:
  "sorted (map fst m) \<Longrightarrow> sorted (map fst (om_modify d k f m))"
  by (induction d k f m rule: om_modify.induct) auto

lemma distinct_om_modify [simp, inv_intros]:
  "sorted (map fst m) \<Longrightarrow> distinct (map fst m) \<Longrightarrow> distinct (map fst (om_modify d k f m))"
  by (induction d k f m rule: om_modify.induct) auto

end
