(* ===== verification/Chain_Yaml.thy ===== *)
theory Chain_Yaml
  imports Prelude
begin

text \<open>
  The chain configuration parser (\<open>yaml_parser.hpp\<close>, \<open>yaml_parser.cpp\<close>): the \<open>userChain\<close>
  record, the parser object with its document and its map of chains, and the operations
  \<open>load_yaml_file\<close>, \<open>parse\<close> and \<open>get_user_chains\<close>. An exception leaves the chains stored so
  far in the object, so \<open>parse\<close> returns the object next to its outcome.

  yaml-cpp is not part of the repository: its node interface is the parameter
  \<open>'n yaml_api\<close>, over any type \<open>'n\<close> of nodes. A conversion that throws \<open>YAML::Exception\<close> is
  \<open>Inl\<close> of the exception's text.
\<close>

section \<open>Data\<close>

record userChain =
  chain_name :: string
  callbacks :: "string list"
  deadline :: u32
  period :: u32

record 'n yaml_api =
  y_LoadFile :: "string \<Rightarrow> string + 'n"
  y_IsNull :: "'n \<Rightarrow> bool"
  y_IsMap :: "'n \<Rightarrow> bool"
  y_IsSequence :: "'n \<Rightarrow> bool"
  y_IsScalar :: "'n \<Rightarrow> bool"
  y_defined :: "'n \<Rightarrow> bool"
  y_child :: "'n \<Rightarrow> string \<Rightarrow> 'n"
  y_entries :: "'n \<Rightarrow> ('n \<times> 'n) list"
  y_size :: "'n \<Rightarrow> nat"
  y_as_string :: "'n \<Rightarrow> string + string"
  y_as_strings :: "'n \<Rightarrow> string + string list"
  y_as_uint32 :: "'n \<Rightarrow> string + u32"

record 'n ChainYamlParser =
  yaml_node :: 'n
  user_chains :: "(string, userChain) umap"

definition CALLBACKS_KEY :: string where
  "CALLBACKS_KEY = ''callbacks''"

definition DEADLINE_KEY :: string where
  "DEADLINE_KEY = ''deadline''"

definition PERIOD_KEY :: string where
  "PERIOD_KEY = ''period''"

section \<open>Operations\<close>

definition quoted :: "string \<Rightarrow> string" where
  "quoted s = [CHR 0x27] @ s @ [CHR 0x27]"

definition bad_field :: "string \<Rightarrow> string \<Rightarrow> string \<Rightarrow> exn" where
  "bad_field name what key =
     Runtime_error (''Chain '' @ quoted name @ '' has missing or '' @ what @ '' '' @ quoted key @ '' field'')"

definition load_yaml_file ::
  "'n yaml_api \<Rightarrow> string \<Rightarrow> 'n ChainYamlParser \<Rightarrow> 'n ChainYamlParser result" where
  "load_yaml_file y new_yaml_file p =
     (case y_LoadFile y new_yaml_file of
        Inl e \<Rightarrow> Inl (Runtime_error (''Failed to load YAML file: '' @ e))
      | Inr n \<Rightarrow> Inr (p\<lparr>yaml_node := n\<rparr>))"

text \<open>The \<open>try\<close> block at the end of the loop body: the three conversions, in the code's order.\<close>

definition convert_chain ::
  "'n yaml_api \<Rightarrow> string \<Rightarrow> 'n \<Rightarrow> 'n \<Rightarrow> 'n \<Rightarrow> string + userChain" where
  "convert_chain y name callbacks_node deadline_node period_node =
     (case y_as_strings y callbacks_node of Inl e \<Rightarrow> Inl e
      | Inr callbacks_list \<Rightarrow>
     (case y_as_uint32 y deadline_node of Inl e \<Rightarrow> Inl e
      | Inr d \<Rightarrow>
     (case y_as_uint32 y period_node of Inl e \<Rightarrow> Inl e
      | Inr p \<Rightarrow>
          Inr \<lparr>chain_name = name, callbacks = callbacks_list, deadline = d, period = p\<rparr>)))"

text \<open>One iteration of the loop over the chains: validation, then conversion.\<close>

definition parse_chain :: "'n yaml_api \<Rightarrow> 'n \<times> 'n \<Rightarrow> userChain result" where
  "parse_chain y chain_entry =
     (case y_as_string y (fst chain_entry) of
        Inl e \<Rightarrow> Inl (Yaml_exception e)
      | Inr name \<Rightarrow>
        (let chain_node = snd chain_entry;
             callbacks_node = y_child y chain_node CALLBACKS_KEY;
             deadline_node = y_child y chain_node DEADLINE_KEY;
             period_node = y_child y chain_node PERIOD_KEY
         in if name = [] then Inl (Runtime_error ''Chain with empty name in YAML file'')
         else if \<not> y_IsMap y chain_node
           then Inl (Runtime_error (''Chain '' @ quoted name @ '' is not a map''))
         else if \<not> y_defined y callbacks_node \<or> \<not> y_IsSequence y callbacks_node \<or>
                 y_size y callbacks_node = 0
           then Inl (bad_field name ''empty'' CALLBACKS_KEY)
         else if \<not> y_defined y deadline_node \<or> \<not> y_IsScalar y deadline_node
           then Inl (bad_field name ''invalid'' DEADLINE_KEY)
         else if \<not> y_defined y period_node \<or> \<not> y_IsScalar y period_node
           then Inl (bad_field name ''invalid'' PERIOD_KEY)
         else (case convert_chain y name callbacks_node deadline_node period_node of
             Inl e \<Rightarrow> Inl (Runtime_error (''Failed to parse chain '' @ quoted name @ '': '' @ e))
           | Inr c \<Rightarrow> Inr c)))"

fun parse_chains ::
  "'n yaml_api \<Rightarrow> ('n \<times> 'n) list \<Rightarrow> (string, userChain) umap \<Rightarrow>
     exn option \<times> (string, userChain) umap" where
  "parse_chains y [] m = (None, m)"
| "parse_chains y (e # es) m =
     (case parse_chain y e of
        Inl x \<Rightarrow> (Some x, m)
      | Inr c \<Rightarrow> parse_chains y es (um_set (chain_name c) c m))"

definition parse ::
  "'n yaml_api \<Rightarrow> 'n ChainYamlParser \<Rightarrow> bool result \<times> 'n ChainYamlParser" where
  "parse y p =
     (if y_IsNull y (yaml_node p) \<or> \<not> y_IsMap y (yaml_node p) then (Inr False, p)
      else let chains_node = y_child y (yaml_node p) ''chains''
      in if \<not> y_defined y chains_node \<or> \<not> y_IsMap y chains_node then (Inr False, p)
      else case parse_chains y (y_entries y chains_node) (user_chains p) of
          (Some x, m) \<Rightarrow> (Inl x, p\<lparr>user_chains := m\<rparr>)
        | (None, m) \<Rightarrow> (Inr (m \<noteq> []), p\<lparr>user_chains := m\<rparr>))"

definition get_user_chains :: "'n ChainYamlParser \<Rightarrow> (string, userChain) umap" where
  "get_user_chains p = user_chains p"

section \<open>Specification and lemmas\<close>

text \<open>What the rest of the program relies on for a chain: a name and at least one callback.\<close>

definition chain_ok :: "string \<Rightarrow> userChain \<Rightarrow> bool" where
  "chain_ok k c \<longleftrightarrow> k \<noteq> [] \<and> chain_name c = k \<and> callbacks c \<noteq> []"

definition chains_ok :: "(string, userChain) umap \<Rightarrow> bool" where
  "chains_ok m \<longleftrightarrow> um_ok m \<and> (\<forall>k c. map_of m k = Some c \<longrightarrow> chain_ok k c)"

text \<open>
  The documented behaviour of yaml-cpp used below: converting a sequence node to a vector of
  strings gives as many strings as the node has children.
\<close>

definition yaml_sequence_law :: "'n yaml_api \<Rightarrow> bool" where
  "yaml_sequence_law y \<longleftrightarrow> (\<forall>n xs. y_as_strings y n = Inr xs \<longrightarrow> length xs = y_size y n)"


lemma convert_chain_InrD:
  "convert_chain y name cn dn pn = Inr c \<Longrightarrow>
     chain_name c = name \<and> y_as_strings y cn = Inr (callbacks c)"
  by (auto simp: convert_chain_def split: sum.splits)

lemma parse_chain_InrD:
  assumes "parse_chain y e = Inr c" "yaml_sequence_law y"
  shows "chain_ok (chain_name c) c"
  using assms
  by (fastforce simp: parse_chain_def chain_ok_def yaml_sequence_law_def Let_def
      split: sum.splits if_splits dest!: convert_chain_InrD)

lemma parse_chains_append:
  "parse_chains y (es @ es') m =
     (case parse_chains y es m of
        (Some x, m') \<Rightarrow> (Some x, m') | (None, m') \<Rightarrow> parse_chains y es' m')"
  by (induction es arbitrary: m) (auto split: sum.splits option.splits)


lemma chains_ok_um_set:
  "chains_ok m \<Longrightarrow> chain_ok (chain_name c) c \<Longrightarrow> chains_ok (um_set (chain_name c) c m)"
  by (auto simp: chains_ok_def)

lemma parse_chains_ok:
  assumes "yaml_sequence_law y" "chains_ok m"
  shows "chains_ok (snd (parse_chains y es m))"
  using assms(2)
  by (induction es arbitrary: m)
    (auto split: sum.splits intro: chains_ok_um_set parse_chain_InrD [OF _ assms(1)])

section \<open>Properties\<close>

text \<open>
  Whatever \<open>parse\<close> ends with (true, false or an exception), the chains held by the parser stay
  well formed: distinct keys, every chain stored under its own non-empty name and with at least
  one callback. This is the input the callback registry is built from.
\<close>

theorem parse_keeps_chains_ok:
  assumes "yaml_sequence_law y" and "chains_ok (user_chains p)"
  shows "chains_ok (get_user_chains (snd (parse y p)))"
  using assms parse_chains_ok [OF assms]
  by (auto simp: parse_def get_user_chains_def Let_def split: prod.splits option.splits)
    (metis snd_conv)+


section \<open>A concrete instance of the node interface\<close>

text \<open>
  Documents as trees, to evaluate the parser on: \<open>Undefined\<close> is what a missing key gives. Only
  scalars that hold a number convert to an integer.
\<close>

datatype node =
    Undefined
  | Null
  | Word_scalar string
  | Number_scalar u32
  | Seq "node list"
  | Dict "(string \<times> node) list"

fun node_string :: "node \<Rightarrow> string + string" where
  "node_string (Word_scalar s) = Inr s"
| "node_string n = Inl ''bad conversion''"

fun node_strings :: "node list \<Rightarrow> string + string list" where
  "node_strings [] = Inr []"
| "node_strings (n # ns) =
     (case node_string n of Inl e \<Rightarrow> Inl e
      | Inr s \<Rightarrow> (case node_strings ns of Inl e \<Rightarrow> Inl e | Inr ss \<Rightarrow> Inr (s # ss)))"

definition node_api :: "node yaml_api" where
  "node_api = \<lparr>
     y_LoadFile = (\<lambda>f. Inr Null),
     y_IsNull = (\<lambda>n. n = Null),
     y_IsMap = (\<lambda>n. case n of Dict _ \<Rightarrow> True | _ \<Rightarrow> False),
     y_IsSequence = (\<lambda>n. case n of Seq _ \<Rightarrow> True | _ \<Rightarrow> False),
     y_IsScalar = (\<lambda>n. case n of Word_scalar _ \<Rightarrow> True | Number_scalar _ \<Rightarrow> True | _ \<Rightarrow> False),
     y_defined = (\<lambda>n. n \<noteq> Undefined),
     y_child = (\<lambda>n k. case n of Dict kvs \<Rightarrow> (case map_of kvs k of None \<Rightarrow> Undefined | Some v \<Rightarrow> v)
                 | _ \<Rightarrow> Undefined),
     y_entries = (\<lambda>n. case n of Dict kvs \<Rightarrow> map (\<lambda>(k, v). (Word_scalar k, v)) kvs | _ \<Rightarrow> []),
     y_size = (\<lambda>n. case n of Seq ns \<Rightarrow> length ns | Dict kvs \<Rightarrow> length kvs | _ \<Rightarrow> 0),
     y_as_string = node_string,
     y_as_strings = (\<lambda>n. case n of Seq ns \<Rightarrow> node_strings ns | _ \<Rightarrow> Inl ''bad conversion''),
     y_as_uint32 = (\<lambda>n. case n of Number_scalar w \<Rightarrow> Inr w | _ \<Rightarrow> Inl ''bad conversion'')\<rparr>"

lemma node_strings_length: "node_strings ns = Inr ss \<Longrightarrow> length ss = length ns"
  by (induction ns arbitrary: ss) (auto split: sum.splits)

lemma node_api_sequence_law: "yaml_sequence_law node_api"
  by (auto simp: yaml_sequence_law_def node_api_def dest: node_strings_length split: node.splits)

definition example_document :: node where
  "example_document = Dict [(''chains'', Dict [
     (''lidar'', Dict [(''callbacks'', Seq [Word_scalar ''a'', Word_scalar ''b'']),
                      (''deadline'', Number_scalar 40), (''period'', Number_scalar 20)]),
     (''camera'', Dict [(''callbacks'', Seq [])])])]"

definition example_parser :: "node ChainYamlParser" where
  "example_parser = \<lparr>yaml_node = example_document, user_chains = []\<rparr>"


theorem parse_keeps_chains_ok_witness:
  "yaml_sequence_law node_api \<and> chains_ok (user_chains example_parser) \<and>
   chains_ok (get_user_chains (snd (parse node_api example_parser)))"
proof -
  have h: "chains_ok (user_chains example_parser)"
    by (simp add: chains_ok_def example_parser_def)
  show ?thesis
    using node_api_sequence_law h parse_keeps_chains_ok [OF node_api_sequence_law h] by blast
qed


end
