(* ===== verification/Callback_Registry.thy ===== *)
theory Callback_Registry
  imports Chain_Yaml
begin

text \<open>
  The callback registry (\<open>callback_registry.hpp\<close>, \<open>callback_registry.cpp\<close>): the callback
  entities and their names, the graph of callbacks built from the user chains, the two recursive
  traversals that cut the graph into thread groups and count their threads, the assignment of
  fixed priorities and the export to the executor. This theory holds the definitions;
  \<open>Registry_Traversal\<close> and \<open>Registry_Allocation\<close> hold their theory.

  Modelling decisions.
  \<^item> A shared pointer is an address. What the registry sees of an \<open>rclcpp::CallbackGroup\<close> is
    the record \<open>callback_group\<close>: its address, its type, its \<open>can_be_taken_from\<close> flag and the
    pointers that \<open>collect_all_ptrs\<close> hands out, in that order. A weak pointer that has expired
    is \<open>None\<close>.
  \<^item> References into \<open>std::unordered_map\<close> stay valid under insertion, so updating through one
    is an update of the map.
  \<^item> The recursions carry fuel, one unit per level of the call stack; \<open>None\<close> means that it ran
    out. \<open>Registry_Traversal\<close> proves how much is enough for the callback traversal, and
    \<open>Registry_Allocation\<close> that no amount is enough for the thread-group traversal on a cyclic graph.
  \<^item> Console output is left out.
\<close>

section \<open>Callback entities\<close>

datatype CallbackEntityType = Subscription | Timer | Service | Client | Waitable

datatype EntityVariant =
    SubscriptionPtr ptr
  | TimerPtr ptr
  | ServicePtr ptr
  | ClientPtr ptr
  | WaitablePtr ptr

record CallbackEntity =
  ce_entity :: EntityVariant
  ce_type :: CallbackEntityType

text \<open>The five constructors, by the type of their argument.\<close>

fun callback_entity :: "EntityVariant \<Rightarrow> CallbackEntity" where
  "callback_entity (SubscriptionPtr p) = \<lparr>ce_entity = SubscriptionPtr p, ce_type = Subscription\<rparr>"
| "callback_entity (TimerPtr p) = \<lparr>ce_entity = TimerPtr p, ce_type = Timer\<rparr>"
| "callback_entity (ServicePtr p) = \<lparr>ce_entity = ServicePtr p, ce_type = Service\<rparr>"
| "callback_entity (ClientPtr p) = \<lparr>ce_entity = ClientPtr p, ce_type = Client\<rparr>"
| "callback_entity (WaitablePtr p) = \<lparr>ce_entity = WaitablePtr p, ce_type = Waitable\<rparr>"

definition get_type :: "CallbackEntity \<Rightarrow> CallbackEntityType" where
  "get_type e = ce_type e"

definition as_subscription :: "CallbackEntity \<Rightarrow> ptr" where
  "as_subscription e = (case ce_entity e of SubscriptionPtr p \<Rightarrow> p | _ \<Rightarrow> nullptr)"

definition as_timer :: "CallbackEntity \<Rightarrow> ptr" where
  "as_timer e = (case ce_entity e of TimerPtr p \<Rightarrow> p | _ \<Rightarrow> nullptr)"

definition as_service :: "CallbackEntity \<Rightarrow> ptr" where
  "as_service e = (case ce_entity e of ServicePtr p \<Rightarrow> p | _ \<Rightarrow> nullptr)"

definition as_client :: "CallbackEntity \<Rightarrow> ptr" where
  "as_client e = (case ce_entity e of ClientPtr p \<Rightarrow> p | _ \<Rightarrow> nullptr)"

definition as_waitable :: "CallbackEntity \<Rightarrow> ptr" where
  "as_waitable e = (case ce_entity e of WaitablePtr p \<Rightarrow> p | _ \<Rightarrow> nullptr)"

fun variant_ptr :: "EntityVariant \<Rightarrow> ptr" where
  "variant_ptr (SubscriptionPtr p) = p"
| "variant_ptr (TimerPtr p) = p"
| "variant_ptr (ServicePtr p) = p"
| "variant_ptr (ClientPtr p) = p"
| "variant_ptr (WaitablePtr p) = p"

definition get_raw_pointer :: "CallbackEntity \<Rightarrow> ptr" where
  "get_raw_pointer e = variant_ptr (ce_entity e)"

definition entity_eq :: "CallbackEntity \<Rightarrow> CallbackEntity \<Rightarrow> bool" where
  "entity_eq a b \<longleftrightarrow> get_raw_pointer a = get_raw_pointer b"

section \<open>Data\<close>

datatype CallbackGroupType = MutuallyExclusive | Reentrant

record callback_group =
  cg_addr :: ptr
  cg_type :: CallbackGroupType
  cg_can_be_taken_from :: bool
  cg_ptrs :: "EntityVariant list"

type_synonym weak_groups_to_nodes = "(callback_group option \<times> ptr option) list"

record CallbackInfo =
  ci_entity :: CallbackEntity
  ci_callback_group :: callback_group
  ci_node :: ptr
  ci_callback_name :: string
  ci_threadgroup_id :: int

record ThreadGroupInfo =
  tgi_threadgroup_id :: int
  tgi_callbacks :: "string list"
  fixed_priority :: u16
  num_threads :: u16
  is_mutex_group :: bool

definition default_ThreadGroupInfo :: ThreadGroupInfo where
  "default_ThreadGroupInfo = \<lparr>tgi_threadgroup_id = 0, tgi_callbacks = [], fixed_priority = 0,
     num_threads = 1, is_mutex_group = False\<rparr>"

record ThreadGroupAttributes =
  tg_id :: int
  number_of_threads :: int
  tg_priority :: int
  tg_is_mutex_group :: bool

record TimingExport =
  te_callback_handle_to_threadgroup_id :: "(ptr, int) umap"
  te_threadgroup_attributes :: "(int, ThreadGroupAttributes) umap"

record CallbackAdjacencyInfo =
  outgoing :: "string uset"
  indegree :: u8
  deadlines :: "u32 list"
  periods :: "u32 list"
  min_deadline :: u32

definition default_CallbackAdjacencyInfo :: CallbackAdjacencyInfo where
  "default_CallbackAdjacencyInfo = \<lparr>outgoing = [], indegree = 0, deadlines = [], periods = [],
     min_deadline = 0xFFFFFFFF\<rparr>"

record ThreadGroupAdjacencyInfo =
  tg_outgoing :: "int uset"
  tg_incoming :: "int uset"

definition default_ThreadGroupAdjacencyInfo :: ThreadGroupAdjacencyInfo where
  "default_ThreadGroupAdjacencyInfo = \<lparr>tg_outgoing = [], tg_incoming = []\<rparr>"

text \<open>\<open>std::uint8_t indegree() const { return incoming.size(); }\<close> truncates the size.\<close>

definition tg_indegree :: "ThreadGroupAdjacencyInfo \<Rightarrow> u8" where
  "tg_indegree a = of_nat (length (tg_incoming a))"

record CallbackRegistry =
  adjacency_list :: "(string, CallbackAdjacencyInfo) umap"
  threadgroup_adjacency_list :: "(int, ThreadGroupAdjacencyInfo) umap"
  mutex_threadgroup_map :: "(ptr, int) umap"
  callback_map :: "(string, CallbackInfo) umap"
  threadgroup_callback_map :: "(int, ThreadGroupInfo) umap"
  next_threadgroup_id :: int

definition empty_registry :: CallbackRegistry where
  "empty_registry = \<lparr>adjacency_list = [], threadgroup_adjacency_list = [],
     mutex_threadgroup_map = [], callback_map = [], threadgroup_callback_map = [],
     next_threadgroup_id = 1\<rparr>"

section \<open>Names\<close>

type_synonym registered_names = "(CallbackEntity \<times> string) list"

definition find_name :: "registered_names \<Rightarrow> CallbackEntity \<Rightarrow> string option" where
  "find_name names e = map_option snd (List.find (\<lambda>(k, _). entity_eq k e) names)"

definition register_callback_name ::
  "CallbackEntity \<Rightarrow> string \<Rightarrow> registered_names \<Rightarrow> registered_names result" where
  "register_callback_name e name names =
     (if name = [] then Inl (Runtime_error ''Callback name is empty'')
      else if find_name names e \<noteq> None then Inl (Runtime_error ''Callback already registered'')
      else Inr (names @ [(e, name)]))"

definition get_callback_name :: "registered_names \<Rightarrow> CallbackEntity \<Rightarrow> string result" where
  "get_callback_name names e =
     (case find_name names e of
        Some name \<Rightarrow> Inr name
      | None \<Rightarrow> Inl (Runtime_error ''Callback not registered''))"

section \<open>Construction\<close>

definition register_callback_entity ::
  "registered_names \<Rightarrow> CallbackEntity \<Rightarrow> callback_group \<Rightarrow> ptr \<Rightarrow> CallbackRegistry \<Rightarrow> CallbackRegistry" where
  "register_callback_entity names e grp node r =
     (case find_name names e of
        None \<Rightarrow> r
      | Some name \<Rightarrow> r\<lparr>callback_map := um_emplace name
          \<lparr>ci_entity = e, ci_callback_group = grp, ci_node = node, ci_callback_name = name,
           ci_threadgroup_id = 0\<rparr> (callback_map r)\<rparr>)"

definition register_group ::
  "registered_names \<Rightarrow> callback_group option \<times> ptr option \<Rightarrow> CallbackRegistry \<Rightarrow> CallbackRegistry" where
  "register_group names pair r =
     (case pair of
        (Some grp, Some node) \<Rightarrow>
          if \<not> cg_can_be_taken_from grp then r
          else fold (\<lambda>p. register_callback_entity names (callback_entity p) grp node) (cg_ptrs grp) r
      | _ \<Rightarrow> r)"

text \<open>The body of the loop over the positions of one chain.\<close>

definition link_callback ::
  "userChain \<Rightarrow> nat \<Rightarrow> (string, CallbackAdjacencyInfo) umap \<Rightarrow> (string, CallbackAdjacencyInfo) umap" where
  "link_callback c i adj =
     (let d = default_CallbackAdjacencyInfo; cbs = callbacks c;
          adj1 = (if i > 0 then
              um_modify d (cbs ! i) (\<lambda>a. a\<lparr>indegree := indegree a + 1\<rparr>)
                (um_modify d (cbs ! (i - 1)) (\<lambda>a. a\<lparr>outgoing := us_insert (cbs ! i) (outgoing a)\<rparr>) adj)
            else adj)
      in um_modify d (cbs ! i) (\<lambda>a. a\<lparr>deadlines := deadlines a @ [deadline c],
           periods := periods a @ [period c],
           min_deadline := min (min_deadline a) (deadline c)\<rparr>) adj1)"

definition add_chain :: "userChain \<Rightarrow> CallbackRegistry \<Rightarrow> CallbackRegistry result" where
  "add_chain c r =
     (if length (callbacks c) < 2 then
        (case callbacks c of
           [] \<Rightarrow> Inl (Undefined_behaviour ''callbacks[0] of an empty vector'')
         | cb # _ \<Rightarrow> Inr (r\<lparr>adjacency_list := um_set cb default_CallbackAdjacencyInfo (adjacency_list r)\<rparr>))
      else Inr (r\<lparr>adjacency_list := fold (link_callback c) [0..<length (callbacks c)] (adjacency_list r)\<rparr>))"

definition make_registry ::
  "hash_order \<Rightarrow> registered_names \<Rightarrow> weak_groups_to_nodes \<Rightarrow> (string, userChain) umap \<Rightarrow>
     CallbackRegistry result" where
  "make_registry h names groups ucs =
     for_each (\<lambda>(_, c). add_chain c) (um_iter (ord_string h) ucs)
       (fold (register_group names) groups empty_registry)"

text \<open>The function-local static of \<open>get_instance\<close>: constructed by the first call only.\<close>

definition get_instance ::
  "hash_order \<Rightarrow> registered_names \<Rightarrow> weak_groups_to_nodes \<Rightarrow> (string, userChain) umap \<Rightarrow>
     CallbackRegistry option \<Rightarrow> CallbackRegistry result" where
  "get_instance h names groups ucs inst =
     (case inst of Some r \<Rightarrow> Inr r | None \<Rightarrow> make_registry h names groups ucs)"

section \<open>Cutting the callback graph into thread groups\<close>

definition generate_threadgroup_id :: "CallbackRegistry \<Rightarrow> int \<times> CallbackRegistry" where
  "generate_threadgroup_id r =
     (next_threadgroup_id r, r\<lparr>next_threadgroup_id := next_threadgroup_id r + 1\<rparr>)"

type_synonym deadline_map = "(u32, int list) omap"

definition set_threadgroup :: "string \<Rightarrow> int \<Rightarrow> CallbackRegistry \<Rightarrow> CallbackRegistry" where
  "set_threadgroup name tg r =
     (case map_of (callback_map r) name of
        None \<Rightarrow> r
      | Some ci \<Rightarrow> r\<lparr>callback_map := um_set name (ci\<lparr>ci_threadgroup_id := tg\<rparr>) (callback_map r)\<rparr>)"

text \<open>The thread group a callback that starts one belongs to: the one of its mutually exclusive
  callback group if that has one already, else a fresh one.\<close>

definition choose_threadgroup :: "callback_group \<Rightarrow> CallbackRegistry \<Rightarrow> int \<times> CallbackRegistry" where
  "choose_threadgroup grp r =
     (let is_mutex = (cg_type grp = MutuallyExclusive)
      in if is_mutex \<and> um_contains (cg_addr grp) (mutex_threadgroup_map r)
         then (um_get 0 (cg_addr grp) (mutex_threadgroup_map r), r)
         else case generate_threadgroup_id r of (new_id, r1) \<Rightarrow>
           (new_id,
            if is_mutex then
              r1\<lparr>mutex_threadgroup_map := um_set (cg_addr grp) new_id (mutex_threadgroup_map r1),
                 threadgroup_callback_map := um_modify default_ThreadGroupInfo new_id
                   (\<lambda>t. t\<lparr>is_mutex_group := True\<rparr>) (threadgroup_callback_map r1)\<rparr>
            else r1))"

definition join_threadgroup :: "string \<Rightarrow> int \<Rightarrow> CallbackRegistry \<Rightarrow> CallbackRegistry" where
  "join_threadgroup name new_id r =
     set_threadgroup name new_id
       (r\<lparr>threadgroup_callback_map := um_modify default_ThreadGroupInfo new_id
            (\<lambda>t. t\<lparr>tgi_callbacks := tgi_callbacks t @ [name], tgi_threadgroup_id := new_id\<rparr>)
            (threadgroup_callback_map r)\<rparr>)"

definition link_threadgroups :: "int \<Rightarrow> int \<Rightarrow> CallbackRegistry \<Rightarrow> CallbackRegistry" where
  "link_threadgroups prev new_id r =
     r\<lparr>threadgroup_adjacency_list :=
         um_modify default_ThreadGroupAdjacencyInfo new_id (\<lambda>a. a\<lparr>tg_incoming := us_insert prev (tg_incoming a)\<rparr>)
           (um_modify default_ThreadGroupAdjacencyInfo prev (\<lambda>a. a\<lparr>tg_outgoing := us_insert new_id (tg_outgoing a)\<rparr>)
             (threadgroup_adjacency_list r))\<rparr>"

text \<open>The part of the traversal before the recursion: it gives the callback its thread group and
  returns the thread group that the chain continues in.\<close>

definition assign_threadgroup ::
  "string \<Rightarrow> CallbackInfo \<Rightarrow> int \<Rightarrow> int \<Rightarrow> CallbackRegistry \<times> deadline_map \<Rightarrow>
     int \<times> CallbackRegistry \<times> deadline_map" where
  "assign_threadgroup name info tg prev s =
     (let (r, dm) = s;
          r0 = (if tg \<noteq> 0 then set_threadgroup name tg r else r);
          grp = ci_callback_group info
      in if tg = 0 \<or> cg_type grp = MutuallyExclusive then
           (let (new_id, r1) = choose_threadgroup grp r0;
                r2 = join_threadgroup name new_id r1;
                d = default_CallbackAdjacencyInfo;
                dm' = om_modify [] (min_deadline (um_get d name (adjacency_list r2))) (\<lambda>ids. ids @ [new_id]) dm;
                r3 = r2\<lparr>adjacency_list := um_touch d name (adjacency_list r2)\<rparr>
            in if tg = 0 then (new_id, if prev \<noteq> 0 then link_threadgroups prev new_id r3 else r3, dm')
               else (tg, r3, dm'))
         else (tg, r0, dm))"

definition push_callback :: "int \<Rightarrow> string \<Rightarrow> CallbackRegistry \<Rightarrow> CallbackRegistry" where
  "push_callback tg name r =
     r\<lparr>threadgroup_callback_map := um_modify default_ThreadGroupInfo tg
         (\<lambda>t. t\<lparr>tgi_callbacks := tgi_callbacks t @ [name]\<rparr>) (threadgroup_callback_map r)\<rparr>"

definition touch_callback :: "string \<Rightarrow> CallbackRegistry \<Rightarrow> CallbackRegistry" where
  "touch_callback name r =
     r\<lparr>adjacency_list := um_touch default_CallbackAdjacencyInfo name (adjacency_list r)\<rparr>"

definition touch_threadgroup :: "int \<Rightarrow> CallbackRegistry \<Rightarrow> CallbackRegistry" where
  "touch_threadgroup tg r =
     r\<lparr>threadgroup_callback_map := um_touch default_ThreadGroupInfo tg (threadgroup_callback_map r)\<rparr>"

definition adjacency_of :: "string \<Rightarrow> CallbackRegistry \<Rightarrow> CallbackAdjacencyInfo" where
  "adjacency_of name r = um_get default_CallbackAdjacencyInfo name (adjacency_list r)"

text \<open>A visit up to the recursion: the thread group the chain continues in, the state, and the
  successors in the order of the set; with a single successor, the thread group lists it already.\<close>

definition visit_callback ::
  "hash_order \<Rightarrow> string \<Rightarrow> CallbackInfo \<Rightarrow> int \<Rightarrow> int \<Rightarrow> CallbackRegistry \<times> deadline_map \<Rightarrow>
     int \<times> string list \<times> CallbackRegistry \<times> deadline_map" where
  "visit_callback h name info tg prev s =
     (let (tg', r1, dm1) = assign_threadgroup name info tg prev s;
          r2 = touch_callback name r1;
          outs = ord_string h (outgoing (adjacency_of name r2))
      in (tg', outs,
          (case outs of
             [] \<Rightarrow> r2
           | next_callback # _ \<Rightarrow>
               (let r3 = touch_callback next_callback r2
                in if length outs = 1 then push_callback tg' next_callback r3 else r3)),
          dm1))"

fun recursive_callback_traversal ::
  "hash_order \<Rightarrow> nat \<Rightarrow> string \<Rightarrow> int \<Rightarrow> int \<Rightarrow> CallbackRegistry \<times> deadline_map \<Rightarrow>
     (CallbackRegistry \<times> deadline_map) result option"
and traverse_outgoing ::
  "hash_order \<Rightarrow> nat \<Rightarrow> string list \<Rightarrow> int \<Rightarrow> CallbackRegistry \<times> deadline_map \<Rightarrow>
     (CallbackRegistry \<times> deadline_map) result option" where
  "recursive_callback_traversal h 0 name tg prev s = None"
| "recursive_callback_traversal h (Suc n) name tg prev s =
     (case map_of (callback_map (fst s)) name of
        None \<Rightarrow> Some (Inl (Runtime_error ''Callback not found in callback map''))
      | Some info \<Rightarrow>
        if ci_threadgroup_id info \<noteq> 0 then Some (Inr s)
        else (case visit_callback h name info tg prev s of (tg', outs, s') \<Rightarrow>
          if outs = [] then Some (Inr s')
          else if indegree (adjacency_of (hd outs) (fst s')) = 1
          then recursive_callback_traversal h n (hd outs) tg' prev s'
          else traverse_outgoing h n outs tg' s'))"
| "traverse_outgoing h n [] tg s = Some (Inr s)"
| "traverse_outgoing h n (name # names) tg s =
     (case recursive_callback_traversal h n name 0 tg (touch_threadgroup tg (fst s), snd s) of
        None \<Rightarrow> None
      | Some (Inl e) \<Rightarrow> Some (Inl e)
      | Some (Inr s') \<Rightarrow> traverse_outgoing h n names tg s')"

text \<open>The loop over the roots of the callback graph.\<close>

fun traverse_roots ::
  "hash_order \<Rightarrow> nat \<Rightarrow> (string \<times> CallbackAdjacencyInfo) list \<Rightarrow> CallbackRegistry \<times> deadline_map \<Rightarrow>
     (CallbackRegistry \<times> deadline_map) result option" where
  "traverse_roots h n [] s = Some (Inr s)"
| "traverse_roots h n ((name, a) # rest) s =
     (if indegree a = 0 then
        (case recursive_callback_traversal h n name 0 0 s of
           None \<Rightarrow> None
         | Some (Inl e) \<Rightarrow> Some (Inl e)
         | Some (Inr s') \<Rightarrow> traverse_roots h n rest s')
      else traverse_roots h n rest s)"

section \<open>Fixed priorities\<close>

definition assign_priority ::
  "int \<Rightarrow> u16 \<times> (int, ThreadGroupInfo) umap \<Rightarrow> u16 \<times> (int, ThreadGroupInfo) umap" where
  "assign_priority tg s =
     (let (counter, tcm) = s
      in if fixed_priority (um_get default_ThreadGroupInfo tg tcm) = 0
         then (counter + 1, um_modify default_ThreadGroupInfo tg (\<lambda>t. t\<lparr>fixed_priority := counter\<rparr>) tcm)
         else (counter, um_touch default_ThreadGroupInfo tg tcm))"

definition assign_priorities :: "deadline_map \<Rightarrow> CallbackRegistry \<Rightarrow> CallbackRegistry" where
  "assign_priorities dm r =
     r\<lparr>threadgroup_callback_map :=
         snd (fold assign_priority (concat (map snd dm)) (1, threadgroup_callback_map r))\<rparr>"

section \<open>Numbers of threads\<close>

definition set_num_threads :: "int \<Rightarrow> u16 \<Rightarrow> CallbackRegistry \<Rightarrow> CallbackRegistry" where
  "set_num_threads tg n r =
     r\<lparr>threadgroup_callback_map := um_modify default_ThreadGroupInfo tg
         (\<lambda>t. t\<lparr>num_threads := n\<rparr>) (threadgroup_callback_map r)\<rparr>"

definition threadgroup_of :: "int \<Rightarrow> CallbackRegistry \<Rightarrow> ThreadGroupInfo" where
  "threadgroup_of tg r = um_get default_ThreadGroupInfo tg (threadgroup_callback_map r)"

definition threadgroup_adjacency_of :: "int \<Rightarrow> CallbackRegistry \<Rightarrow> ThreadGroupAdjacencyInfo" where
  "threadgroup_adjacency_of tg r =
     um_get default_ThreadGroupAdjacencyInfo tg (threadgroup_adjacency_list r)"

text \<open>\<open>std::ceil(*deadline / period)\<close> for a root: the division is on \<open>uint32_t\<close>, so it truncates
  before \<open>std::ceil\<close> sees the quotient; converting a \<open>double\<close> above 65535 to \<open>uint16_t\<close> is
  undefined.\<close>

definition root_num_threads :: "CallbackAdjacencyInfo \<Rightarrow> u16 result" where
  "root_num_threads a =
     (case (periods a, deadlines a) of
        ([], _) \<Rightarrow> Inl (Undefined_behaviour ''periods[0] of an empty vector'')
      | (_, []) \<Rightarrow> Inl (Undefined_behaviour ''dereference of max_element of an empty range'')
      | (p # _, d # ds) \<Rightarrow>
          if p = 0 then Inl (Undefined_behaviour ''division by zero'')
          else (let q = fold max ds d div p
                in if uint q < 2 ^ 16 then Inr (ucast q)
                   else Inl (Undefined_behaviour ''conversion of double to uint16_t'')))"

text \<open>The first half of \<open>recursive_threadgroup_traversal\<close>: the number of threads of one group.\<close>

definition count_threads :: "hash_order \<Rightarrow> int \<Rightarrow> CallbackRegistry \<Rightarrow> CallbackRegistry result" where
  "count_threads h tg r =
     (let r0 = set_num_threads tg 0 r;
          adj = threadgroup_adjacency_of tg r0;
          r1 = r0\<lparr>threadgroup_adjacency_list :=
                 um_touch default_ThreadGroupAdjacencyInfo tg (threadgroup_adjacency_list r0)\<rparr>
      in if tg_indegree adj = 0 then
           (case tgi_callbacks (threadgroup_of tg r1) of
              [] \<Rightarrow> Inl (Undefined_behaviour ''callbacks[0] of an empty vector'')
            | name # _ \<Rightarrow>
              (case root_num_threads (adjacency_of name r1) of
                 Inl e \<Rightarrow> Inl e
               | Inr k \<Rightarrow> Inr (set_num_threads tg k (touch_callback name r1))))
         else Inr (fold (\<lambda>prev s. set_num_threads tg
                (num_threads (threadgroup_of tg s) + num_threads (threadgroup_of prev s)) (touch_threadgroup prev s))
                (ord_int h (tg_incoming adj)) r1))"

fun recursive_threadgroup_traversal ::
  "hash_order \<Rightarrow> nat \<Rightarrow> int \<Rightarrow> CallbackRegistry \<Rightarrow> CallbackRegistry result option"
and traverse_next_threadgroups ::
  "hash_order \<Rightarrow> nat \<Rightarrow> int list \<Rightarrow> CallbackRegistry \<Rightarrow> CallbackRegistry result option" where
  "recursive_threadgroup_traversal h 0 tg r = None"
| "recursive_threadgroup_traversal h (Suc n) tg r =
     (case count_threads h tg r of
        Inl e \<Rightarrow> Some (Inl e)
      | Inr r1 \<Rightarrow> traverse_next_threadgroups h n
          (ord_int h (tg_outgoing (threadgroup_adjacency_of tg r1))) r1)"
| "traverse_next_threadgroups h n [] r = Some (Inr r)"
| "traverse_next_threadgroups h n (tg # tgs) r =
     (case recursive_threadgroup_traversal h n tg r of
        None \<Rightarrow> None
      | Some (Inl e) \<Rightarrow> Some (Inl e)
      | Some (Inr r1) \<Rightarrow> traverse_next_threadgroups h n tgs r1)"

fun traverse_root_threadgroups ::
  "hash_order \<Rightarrow> nat \<Rightarrow> (int \<times> ThreadGroupAdjacencyInfo) list \<Rightarrow> CallbackRegistry \<Rightarrow>
     CallbackRegistry result option" where
  "traverse_root_threadgroups h n [] r = Some (Inr r)"
| "traverse_root_threadgroups h n ((tg, a) # rest) r =
     (if tg_indegree a = 0 \<and> \<not> is_mutex_group (threadgroup_of tg r) then
        (case recursive_threadgroup_traversal h n tg (touch_threadgroup tg r) of
           None \<Rightarrow> None
         | Some (Inl e) \<Rightarrow> Some (Inl e)
         | Some (Inr r1) \<Rightarrow> traverse_root_threadgroups h n rest r1)
      else traverse_root_threadgroups h n rest
             (if tg_indegree a = 0 then touch_threadgroup tg r else r))"

section \<open>Export\<close>

definition threadgroup_attributes :: "ThreadGroupInfo \<Rightarrow> ThreadGroupAttributes" where
  "threadgroup_attributes t = \<lparr>tg_id = tgi_threadgroup_id t, number_of_threads = uint (num_threads t),
     tg_priority = uint (fixed_priority t), tg_is_mutex_group = is_mutex_group t\<rparr>"

definition export_callback :: "string \<times> CallbackInfo \<Rightarrow> (ptr, int) umap \<Rightarrow> (ptr, int) umap result" where
  "export_callback pair m =
     (let info = snd pair
      in if ci_threadgroup_id info = 0
         then Inl (Runtime_error (''Callback '' @ ci_callback_name info @ '' has not been assigned to any threadgroup''))
         else Inr (um_set (get_raw_pointer (ci_entity info)) (ci_threadgroup_id info) m))"

definition export_timing_information ::
  "hash_order \<Rightarrow> CallbackRegistry \<Rightarrow> (TimingExport \<times> CallbackRegistry) result" where
  "export_timing_information h r =
     (let attributes = fold (\<lambda>(_, t). um_emplace (tgi_threadgroup_id t) (threadgroup_attributes t))
                         (um_iter (ord_int h) (threadgroup_callback_map r)) []
      in case for_each export_callback (um_iter (ord_string h) (callback_map r)) [] of
           Inl e \<Rightarrow> Inl e
         | Inr handles \<Rightarrow> Inr (\<lparr>te_callback_handle_to_threadgroup_id = handles,
               te_threadgroup_attributes = attributes\<rparr>, empty_registry))"

section \<open>The whole allocation\<close>

text \<open>Fuel that lets the callback traversal finish: one level per registered callback.\<close>

definition callback_fuel :: "CallbackRegistry \<Rightarrow> nat" where
  "callback_fuel r = Suc (length (callback_map r))"

definition cut_into_threadgroups ::
  "hash_order \<Rightarrow> CallbackRegistry \<Rightarrow> (CallbackRegistry \<times> deadline_map) result option" where
  "cut_into_threadgroups h r =
     traverse_roots h (callback_fuel r) (um_iter (ord_string h) (adjacency_list r)) (r, [])"

definition callback_threadgroup_allocation ::
  "hash_order \<Rightarrow> nat \<Rightarrow> CallbackRegistry \<Rightarrow> (TimingExport \<times> CallbackRegistry) result option" where
  "callback_threadgroup_allocation h fuel r =
     (case cut_into_threadgroups h r of
        None \<Rightarrow> None
      | Some (Inl e) \<Rightarrow> Some (Inl e)
      | Some (Inr (r1, dm)) \<Rightarrow>
        (let r2 = assign_priorities dm r1
         in case traverse_root_threadgroups h fuel
                   (um_iter (ord_int h) (threadgroup_adjacency_list r2)) r2 of
              None \<Rightarrow> None
            | Some (Inl e) \<Rightarrow> Some (Inl e)
            | Some (Inr r3) \<Rightarrow> Some (export_timing_information h r3)))"

end
