(* ===== verification/Registry_Traversal.thy ===== *)
theory Registry_Traversal
  imports Callback_Registry
begin

text \<open>
  The theory of the first traversal, which cuts the callback graph into thread groups: the
  invariant that relates the maps of the registry, its preservation by every step, what a step
  may change (\<open>reg_le\<close>), and the total correctness of the traversal: with one unit of fuel per
  registered callback it always returns, and it assigns every callback it is called on.
\<close>

section \<open>Invariant\<close>

text \<open>The ids in use are \<open>1\<close> up to the next fresh id, and each has its entry.\<close>

definition ids_ok :: "CallbackRegistry \<Rightarrow> bool" where
  "ids_ok r \<longleftrightarrow> 1 \<le> next_threadgroup_id r \<and>
     um_ok (threadgroup_callback_map r) \<and>
     dom (map_of (threadgroup_callback_map r)) = {1..<next_threadgroup_id r} \<and>
     (\<forall>tg t. map_of (threadgroup_callback_map r) tg = Some t \<longrightarrow> tgi_threadgroup_id t = tg)"

text \<open>A callback has no thread group (0) or one in use.\<close>

definition callbacks_ok :: "CallbackRegistry \<Rightarrow> bool" where
  "callbacks_ok r \<longleftrightarrow> um_ok (callback_map r) \<and>
     (\<forall>name ci. map_of (callback_map r) name = Some ci \<longrightarrow>
        0 \<le> ci_threadgroup_id ci \<and> ci_threadgroup_id ci < next_threadgroup_id r)"

text \<open>Mutually exclusive callback groups and mutex thread groups correspond one to one, and a
  callback of such a group can only be in the thread group of its callback group.\<close>

definition mutex_ok :: "CallbackRegistry \<Rightarrow> bool" where
  "mutex_ok r \<longleftrightarrow>
     (\<forall>a tg. map_of (mutex_threadgroup_map r) a = Some tg \<longrightarrow>
        1 \<le> tg \<and> tg < next_threadgroup_id r \<and> is_mutex_group (threadgroup_of tg r)) \<and>
     (\<forall>a b tg. map_of (mutex_threadgroup_map r) a = Some tg \<longrightarrow>
        map_of (mutex_threadgroup_map r) b = Some tg \<longrightarrow> a = b) \<and>
     (\<forall>tg t. map_of (threadgroup_callback_map r) tg = Some t \<longrightarrow> is_mutex_group t \<longrightarrow>
        (\<exists>a. map_of (mutex_threadgroup_map r) a = Some tg)) \<and>
     (\<forall>name ci. map_of (callback_map r) name = Some ci \<longrightarrow> ci_threadgroup_id ci \<noteq> 0 \<longrightarrow>
        cg_type (ci_callback_group ci) = MutuallyExclusive \<longrightarrow>
        map_of (mutex_threadgroup_map r) (cg_addr (ci_callback_group ci)) = Some (ci_threadgroup_id ci))"

definition reg_inv :: "CallbackRegistry \<Rightarrow> bool" where
  "reg_inv r \<longleftrightarrow> ids_ok r \<and> callbacks_ok r \<and> mutex_ok r"

text \<open>Every edge of the callback graph leads to a node of it.\<close>

definition adj_closed :: "CallbackRegistry \<Rightarrow> bool" where
  "adj_closed r \<longleftrightarrow> (\<forall>name a. map_of (adjacency_list r) name = Some a \<longrightarrow>
     set (outgoing a) \<subseteq> dom (map_of (adjacency_list r)))"

text \<open>The deadline map lists every thread group in use.\<close>

definition deadlines_ok :: "CallbackRegistry \<Rightarrow> deadline_map \<Rightarrow> bool" where
  "deadlines_ok r dm \<longleftrightarrow> sorted (map fst dm) \<and> distinct (map fst dm) \<and>
     set (concat (map snd dm)) = {1..<next_threadgroup_id r}"

text \<open>The graph of thread groups has only thread groups in use.\<close>

definition links_ok :: "CallbackRegistry \<Rightarrow> bool" where
  "links_ok r \<longleftrightarrow> (\<forall>tg a. map_of (threadgroup_adjacency_list r) tg = Some a \<longrightarrow>
     insert tg (set (tg_outgoing a) \<union> set (tg_incoming a)) \<subseteq> {1..<next_threadgroup_id r})"

definition trav_inv :: "CallbackRegistry \<times> deadline_map \<Rightarrow> bool" where
  "trav_inv s \<longleftrightarrow> reg_inv (fst s) \<and> adj_closed (fst s) \<and> deadlines_ok (fst s) (snd s) \<and> links_ok (fst s)"

text \<open>What the traversal may change: callbacks get a thread group for good, ids and mutex groups
  are only added, the callback graph stays.\<close>

definition reg_le :: "CallbackRegistry \<Rightarrow> CallbackRegistry \<Rightarrow> bool" where
  "reg_le r r' \<longleftrightarrow> um_keys (callback_map r') = um_keys (callback_map r) \<and>
     (\<forall>name ci. map_of (callback_map r) name = Some ci \<longrightarrow>
        (\<exists>tg. map_of (callback_map r') name = Some (ci\<lparr>ci_threadgroup_id := tg\<rparr>) \<and>
              (ci_threadgroup_id ci \<noteq> 0 \<longrightarrow> tg = ci_threadgroup_id ci))) \<and>
     next_threadgroup_id r \<le> next_threadgroup_id r' \<and>
     map_of (mutex_threadgroup_map r) \<subseteq>\<^sub>m map_of (mutex_threadgroup_map r') \<and>
     adjacency_list r' = adjacency_list r"

definition assigned :: "CallbackRegistry \<Rightarrow> string \<Rightarrow> bool" where
  "assigned r name \<longleftrightarrow> (\<exists>ci. map_of (callback_map r) name = Some ci \<and> ci_threadgroup_id ci \<noteq> 0)"

definition unassigned :: "CallbackRegistry \<Rightarrow> string set" where
  "unassigned r = {name. \<exists>ci. map_of (callback_map r) name = Some ci \<and> ci_threadgroup_id ci = 0}"

section \<open>The order on registries\<close>

lemma same_threadgroup [simp]:
  "\<exists>tg. c = c\<lparr>ci_threadgroup_id := tg\<rparr> \<and> (ci_threadgroup_id c \<noteq> 0 \<longrightarrow> tg = ci_threadgroup_id c)"
  by (rule exI [of _ "ci_threadgroup_id c"]) simp

lemma reg_le_refl [simp]: "reg_le r r"
  by (auto simp: reg_le_def intro!: exI)

lemma reg_le_trans:
  assumes "reg_le r s" "reg_le s t" shows "reg_le r t"
proof -
  have "\<exists>tg. map_of (callback_map t) name = Some (ci\<lparr>ci_threadgroup_id := tg\<rparr>) \<and>
              (ci_threadgroup_id ci \<noteq> 0 \<longrightarrow> tg = ci_threadgroup_id ci)"
    if "map_of (callback_map r) name = Some ci" for name ci
  proof -
    from assms(1) that obtain tg where
      1: "map_of (callback_map s) name = Some (ci\<lparr>ci_threadgroup_id := tg\<rparr>)"
         "ci_threadgroup_id ci \<noteq> 0 \<longrightarrow> tg = ci_threadgroup_id ci"
      unfolding reg_le_def by blast
    with assms(2) obtain tg' where
      "map_of (callback_map t) name = Some (ci\<lparr>ci_threadgroup_id := tg\<rparr>\<lparr>ci_threadgroup_id := tg'\<rparr>)"
      "tg \<noteq> 0 \<longrightarrow> tg' = tg"
      unfolding reg_le_def by force
    with 1 show ?thesis by auto
  qed
  with assms show ?thesis
    unfolding reg_le_def by (auto intro: map_le_trans)
qed

lemma reg_le_dom: "reg_le r r' \<Longrightarrow> dom (map_of (callback_map r')) = dom (map_of (callback_map r))"
  unfolding reg_le_def by (metis set_um_keys)

lemma reg_le_assigned: "reg_le r r' \<Longrightarrow> assigned r name \<Longrightarrow> assigned r' name"
  unfolding reg_le_def assigned_def by fastforce

lemma reg_le_unassigned:
  assumes "reg_le r r'" shows "unassigned r' \<subseteq> unassigned r"
proof
  fix name assume "name \<in> unassigned r'"
  then obtain ci where ci: "map_of (callback_map r') name = Some ci" "ci_threadgroup_id ci = 0"
    by (auto simp: unassigned_def)
  then obtain ci0 where ci0: "map_of (callback_map r) name = Some ci0"
    using reg_le_dom [OF assms] by blast
  with assms ci have "ci_threadgroup_id ci0 = 0"
    unfolding reg_le_def by fastforce
  with ci0 show "name \<in> unassigned r" by (simp add: unassigned_def)
qed

lemma finite_unassigned [simp]: "finite (unassigned r)"
  by (rule finite_subset [of _ "dom (map_of (callback_map r))"])
    (auto simp: unassigned_def finite_dom_map_of)

lemma unassigned_iff: "name \<in> dom (map_of (callback_map r)) \<Longrightarrow> name \<in> unassigned r \<longleftrightarrow> \<not> assigned r name"
  by (auto simp: unassigned_def assigned_def)

section \<open>Steps\<close>

lemma touch_callback_present [simp]:
  "name \<in> dom (map_of (adjacency_list r)) \<Longrightarrow> touch_callback name r = r"
  by (auto simp: touch_callback_def)

lemma touch_threadgroup_present [simp]:
  "ids_ok r \<Longrightarrow> 1 \<le> tg \<Longrightarrow> tg < next_threadgroup_id r \<Longrightarrow> touch_threadgroup tg r = r"
proof -
  assume "ids_ok r" "1 \<le> tg" "tg < next_threadgroup_id r"
  then have "tg \<in> dom (map_of (threadgroup_callback_map r))" by (simp add: ids_ok_def)
  then show ?thesis by (auto simp: touch_threadgroup_def)
qed

lemma push_callback_frame [simp]:
  "callback_map (push_callback tg name r) = callback_map r"
  "adjacency_list (push_callback tg name r) = adjacency_list r"
  "mutex_threadgroup_map (push_callback tg name r) = mutex_threadgroup_map r"
  "next_threadgroup_id (push_callback tg name r) = next_threadgroup_id r"
  by (simp_all add: push_callback_def)

lemma push_callback_le [simp]: "reg_le r (push_callback tg name r)"
  by (auto simp: reg_le_def intro!: exI)

lemma push_callback_inv:
  assumes "trav_inv (r, dm)" "1 \<le> tg" "tg < next_threadgroup_id r"
  shows "trav_inv (push_callback tg name r, dm)"
proof -
  have "tg \<in> dom (map_of (threadgroup_callback_map r))"
    using assms by (auto simp: trav_inv_def reg_inv_def ids_ok_def)
  then obtain t where t: "map_of (threadgroup_callback_map r) tg = Some t" by blast
  with assms show ?thesis
    by (auto simp: trav_inv_def reg_inv_def ids_ok_def callbacks_ok_def mutex_ok_def adj_closed_def
        deadlines_ok_def links_ok_def push_callback_def threadgroup_of_def um_get_def split: option.splits)
qed

lemma um_keys_set_threadgroup [simp]:
  "um_keys (callback_map (set_threadgroup name tg r)) = um_keys (callback_map r)"
  by (auto simp: set_threadgroup_def um_keys_um_set split: option.splits)


text \<open>The effect of starting or joining a thread group, field by field.\<close>

definition start_threadgroup :: "string \<Rightarrow> callback_group \<Rightarrow> CallbackRegistry \<Rightarrow> int \<times> CallbackRegistry" where
  "start_threadgroup name grp r =
     (case choose_threadgroup grp r of (new_id, r1) \<Rightarrow> (new_id, join_threadgroup name new_id r1))"

lemma um_set_um_set [simp]: "um_set k v (um_set k w m) = um_set k v m"
  unfolding um_set_def by (induction m) auto

lemma join_choose_set_threadgroup:
  "start_threadgroup name grp (set_threadgroup name tg r) = start_threadgroup name grp r"
  by (auto simp: start_threadgroup_def join_threadgroup_def set_threadgroup_def choose_threadgroup_def
      generate_threadgroup_id_def Let_def split: option.splits)

lemma adjacency_start_threadgroup [simp]:
  "start_threadgroup name grp r = (new_id, r') \<Longrightarrow> adjacency_list r' = adjacency_list r"
  "start_threadgroup name grp r = (new_id, r') \<Longrightarrow> threadgroup_adjacency_list r' = threadgroup_adjacency_list r"
  by (auto simp: start_threadgroup_def join_threadgroup_def set_threadgroup_def choose_threadgroup_def
      generate_threadgroup_id_def Let_def split: option.splits if_splits prod.splits)

lemma choose_threadgroup_cases:
  assumes "choose_threadgroup grp r = (new_id, r1)"
  obtains
    (reused) "cg_type grp = MutuallyExclusive"
      "map_of (mutex_threadgroup_map r) (cg_addr grp) = Some new_id" "r1 = r"
  | (mutex) "cg_type grp = MutuallyExclusive"
      "map_of (mutex_threadgroup_map r) (cg_addr grp) = None" "new_id = next_threadgroup_id r"
      "r1 = r\<lparr>next_threadgroup_id := new_id + 1,
         mutex_threadgroup_map := um_set (cg_addr grp) new_id (mutex_threadgroup_map r),
         threadgroup_callback_map := um_modify default_ThreadGroupInfo new_id
           (\<lambda>t. t\<lparr>is_mutex_group := True\<rparr>) (threadgroup_callback_map r)\<rparr>"
  | (fresh) "cg_type grp \<noteq> MutuallyExclusive" "new_id = next_threadgroup_id r"
      "r1 = r\<lparr>next_threadgroup_id := new_id + 1\<rparr>"
  using assms
  by (auto simp: choose_threadgroup_def generate_threadgroup_id_def um_contains_def Let_def
      split: if_splits)

text \<open>Joining a thread group that is in use, or the next one.\<close>

lemma join_frame [simp]:
  "next_threadgroup_id (join_threadgroup name tg r) = next_threadgroup_id r"
  "mutex_threadgroup_map (join_threadgroup name tg r) = mutex_threadgroup_map r"
  "adjacency_list (join_threadgroup name tg r) = adjacency_list r"
  "um_keys (callback_map (join_threadgroup name tg r)) = um_keys (callback_map r)"
  by (auto simp: join_threadgroup_def set_threadgroup_def um_keys_um_set split: option.splits)

lemma join_callback_map:
  "map_of (callback_map r) name = Some ci \<Longrightarrow>
   map_of (callback_map (join_threadgroup name tg r)) =
     (map_of (callback_map r))(name \<mapsto> ci\<lparr>ci_threadgroup_id := tg\<rparr>)"
  by (simp add: join_threadgroup_def set_threadgroup_def)

lemma join_threadgroup_map:
  "map_of (threadgroup_callback_map (join_threadgroup name tg r)) =
     (map_of (threadgroup_callback_map r))(tg \<mapsto> (threadgroup_of tg r)\<lparr>
        tgi_callbacks := tgi_callbacks (threadgroup_of tg r) @ [name], tgi_threadgroup_id := tg\<rparr>)"
  by (auto simp: join_threadgroup_def set_threadgroup_def threadgroup_of_def split: option.splits)

lemma join_um_ok:
  "um_ok (callback_map r) \<Longrightarrow> um_ok (callback_map (join_threadgroup name tg r))"
  "um_ok (threadgroup_callback_map r) \<Longrightarrow> um_ok (threadgroup_callback_map (join_threadgroup name tg r))"
  by (auto simp: join_threadgroup_def set_threadgroup_def split: option.splits)

lemma threadgroup_of_join:
  "threadgroup_of tg' (join_threadgroup name tg r) =
     (if tg' = tg then (threadgroup_of tg r)\<lparr>
        tgi_callbacks := tgi_callbacks (threadgroup_of tg r) @ [name], tgi_threadgroup_id := tg\<rparr>
      else threadgroup_of tg' r)"
  using join_threadgroup_map [of name tg r] by (simp add: threadgroup_of_def um_get_def)

lemma mutex_ok_fresh:
  assumes old: "mutex_ok r" and a: "map_of (mutex_threadgroup_map r) a = None"
    and mm: "map_of (mutex_threadgroup_map r') = (map_of (mutex_threadgroup_map r))(a \<mapsto> next_threadgroup_id r)"
    and nx: "next_threadgroup_id r' = next_threadgroup_id r + 1" "1 \<le> next_threadgroup_id r"
    and tcm: "\<exists>t. is_mutex_group t \<and> map_of (threadgroup_callback_map r') =
               (map_of (threadgroup_callback_map r))(next_threadgroup_id r \<mapsto> t)"
    and ci: "map_of (callback_map r') = (map_of (callback_map r))(name \<mapsto> ci\<lparr>ci_threadgroup_id := next_threadgroup_id r\<rparr>)"
    and addr: "cg_addr (ci_callback_group ci) = a"
  shows "mutex_ok r'"
proof -
  obtain t0 where t0: "is_mutex_group t0"
    "map_of (threadgroup_callback_map r') = (map_of (threadgroup_callback_map r))(next_threadgroup_id r \<mapsto> t0)"
    using tcm by blast
  have tg: "threadgroup_of tg r' = (if tg = next_threadgroup_id r then t0 else threadgroup_of tg r)" for tg
    by (simp add: threadgroup_of_def um_get_def t0)
  show ?thesis
    unfolding mutex_ok_def
  proof (intro conjI allI impI)
    fix b tg assume "map_of (mutex_threadgroup_map r') b = Some tg"
    then show "1 \<le> tg" "tg < next_threadgroup_id r'" "is_mutex_group (threadgroup_of tg r')"
      using old nx t0(1) unfolding mm tg mutex_ok_def by (fastforce split: if_splits)+
  next
    fix b c tg
    assume "map_of (mutex_threadgroup_map r') b = Some tg" "map_of (mutex_threadgroup_map r') c = Some tg"
    then show "b = c"
      using old unfolding mm mutex_ok_def by (fastforce split: if_splits)
  next
    fix tg t assume "map_of (threadgroup_callback_map r') tg = Some t" "is_mutex_group t"
    then show "\<exists>b. map_of (mutex_threadgroup_map r') b = Some tg"
      using old a unfolding mm t0 mutex_ok_def by (auto split: if_splits) (metis option.distinct(1))
  next
    fix nm c
    assume "map_of (callback_map r') nm = Some c" "ci_threadgroup_id c \<noteq> 0"
      "cg_type (ci_callback_group c) = MutuallyExclusive"
    then show "map_of (mutex_threadgroup_map r') (cg_addr (ci_callback_group c)) = Some (ci_threadgroup_id c)"
      using old a addr unfolding mm ci mutex_ok_def by (auto split: if_splits) (metis option.distinct(1))
  qed
qed

lemma mutex_ok_plain:
  assumes old: "mutex_ok r" and mm: "mutex_threadgroup_map r' = mutex_threadgroup_map r"
    and nx: "next_threadgroup_id r \<le> next_threadgroup_id r'"
    and tcm: "\<exists>t. \<not> is_mutex_group t \<and> map_of (threadgroup_callback_map r') =
               (map_of (threadgroup_callback_map r))(next_threadgroup_id r \<mapsto> t)"
    and ci: "map_of (callback_map r') = (map_of (callback_map r))(name \<mapsto> ci\<lparr>ci_threadgroup_id := tg\<rparr>)"
    and type: "cg_type (ci_callback_group ci) \<noteq> MutuallyExclusive"
  shows "mutex_ok r'"
proof -
  obtain t0 where t0: "\<not> is_mutex_group t0"
    "map_of (threadgroup_callback_map r') = (map_of (threadgroup_callback_map r))(next_threadgroup_id r \<mapsto> t0)"
    using tcm by blast
  have tg: "threadgroup_of tg r' = threadgroup_of tg r" if "tg < next_threadgroup_id r" for tg
    using that by (simp add: threadgroup_of_def um_get_def t0)
  show ?thesis
    unfolding mutex_ok_def mm
  proof (intro conjI allI impI)
    fix b tg' assume "map_of (mutex_threadgroup_map r) b = Some tg'"
    then have "1 \<le> tg'" "tg' < next_threadgroup_id r" "is_mutex_group (threadgroup_of tg' r)"
      using old unfolding mutex_ok_def by blast+
    then show "1 \<le> tg'" "tg' < next_threadgroup_id r'" "is_mutex_group (threadgroup_of tg' r')"
      using nx tg by auto
  next
    fix b c tg
    assume "map_of (mutex_threadgroup_map r) b = Some tg" "map_of (mutex_threadgroup_map r) c = Some tg"
    then show "b = c" using old unfolding mutex_ok_def by blast
  next
    fix tg t assume "map_of (threadgroup_callback_map r') tg = Some t" "is_mutex_group t"
    then show "\<exists>b. map_of (mutex_threadgroup_map r) b = Some tg"
      using old t0 unfolding mutex_ok_def by (auto split: if_splits)
  next
    fix nm c
    assume "map_of (callback_map r') nm = Some c" "ci_threadgroup_id c \<noteq> 0"
      "cg_type (ci_callback_group c) = MutuallyExclusive"
    then show "map_of (mutex_threadgroup_map r) (cg_addr (ci_callback_group c)) = Some (ci_threadgroup_id c)"
      using old type unfolding ci mutex_ok_def by (auto split: if_splits)
  qed
qed

lemma start_threadgroup_inv:
  assumes inv: "reg_inv r" and ci: "map_of (callback_map r) name = Some ci"
    and start: "start_threadgroup name (ci_callback_group ci) r = (new_id, r')"
  shows "reg_inv r'"
    and "1 \<le> new_id" and "new_id < next_threadgroup_id r'"
    and "next_threadgroup_id r' = (if new_id = next_threadgroup_id r then new_id + 1 else next_threadgroup_id r)"
    and "map_of (mutex_threadgroup_map r) \<subseteq>\<^sub>m map_of (mutex_threadgroup_map r')"
    and "map_of (callback_map r') = (map_of (callback_map r))(name \<mapsto> ci\<lparr>ci_threadgroup_id := new_id\<rparr>)"
    and "um_keys (callback_map r') = um_keys (callback_map r)"
proof -
  let ?grp = "ci_callback_group ci"
  obtain id1 r1 where ch1: "choose_threadgroup ?grp r = (id1, r1)" by fastforce
  with start have ch: "choose_threadgroup ?grp r = (new_id, r1)" and r': "r' = join_threadgroup name new_id r1"
    by (auto simp: start_threadgroup_def)
  have all: "reg_inv r' \<and> 1 \<le> new_id \<and> new_id < next_threadgroup_id r' \<and>
    next_threadgroup_id r' = (if new_id = next_threadgroup_id r then new_id + 1 else next_threadgroup_id r) \<and>
    map_of (mutex_threadgroup_map r) \<subseteq>\<^sub>m map_of (mutex_threadgroup_map r') \<and>
    map_of (callback_map r') = (map_of (callback_map r))(name \<mapsto> ci\<lparr>ci_threadgroup_id := new_id\<rparr>) \<and>
    um_keys (callback_map r') = um_keys (callback_map r)"
    using ch
  proof (cases rule: choose_threadgroup_cases)
    case reused
    with inv have id: "1 \<le> new_id" "new_id < next_threadgroup_id r" "is_mutex_group (threadgroup_of new_id r)"
      by (auto simp: reg_inv_def mutex_ok_def)
    with inv obtain t where t: "map_of (threadgroup_callback_map r) new_id = Some t"
      by (fastforce simp: reg_inv_def ids_ok_def)
    have "ids_ok r'" using inv t id reused(3)
      by (auto simp: reg_inv_def ids_ok_def r' join_um_ok join_threadgroup_map)
    moreover have "callbacks_ok r'" using inv ci id reused(3)
      by (auto simp: reg_inv_def callbacks_ok_def r' join_um_ok join_callback_map)
    moreover have "mutex_ok r'" using inv ci t id reused
      by (auto simp: reg_inv_def mutex_ok_def r' join_callback_map join_threadgroup_map threadgroup_of_join
          threadgroup_of_def [of _ r] split: if_splits)
    ultimately show ?thesis using id ci reused(3) by (simp add: reg_inv_def r' join_callback_map)
  next
    case mutex
    let ?n = "next_threadgroup_id r"
    have new: "map_of (threadgroup_callback_map r) ?n = None" "1 \<le> ?n"
      using inv by (auto simp: reg_inv_def ids_ok_def domIff [symmetric] simp del: domIff)
    have r1: "threadgroup_of new_id r1 = default_ThreadGroupInfo\<lparr>is_mutex_group := True\<rparr>"
      "map_of (threadgroup_callback_map r1) = (map_of (threadgroup_callback_map r))(?n \<mapsto> default_ThreadGroupInfo\<lparr>is_mutex_group := True\<rparr>)"
      "map_of (mutex_threadgroup_map r1) = (map_of (mutex_threadgroup_map r))(cg_addr ?grp \<mapsto> ?n)"
      "callback_map r1 = callback_map r" "next_threadgroup_id r1 = ?n + 1"
      using mutex new by (simp_all add: threadgroup_of_def um_get_def)
    have "ids_ok r'" using inv new mutex r1
      by (auto simp: reg_inv_def ids_ok_def r' join_um_ok join_threadgroup_map)
    moreover have "callbacks_ok r'" using inv ci new mutex r1
      by (fastforce simp: reg_inv_def callbacks_ok_def r' join_um_ok join_callback_map)
    moreover have "mutex_ok r'"
    proof (rule mutex_ok_fresh [where r = r and a = "cg_addr ?grp" and name = name and ci = ci])
      show "\<exists>t. is_mutex_group t \<and> map_of (threadgroup_callback_map r') =
          (map_of (threadgroup_callback_map r))(?n \<mapsto> t)"
        by (rule exI [of _ "threadgroup_of ?n r'"]) (use mutex(3) r1 in \<open>simp add: r' join_threadgroup_map threadgroup_of_join\<close>)
    qed (use inv ci mutex r1 in \<open>auto simp: reg_inv_def ids_ok_def r' join_callback_map\<close>)
    ultimately show ?thesis using new ci mutex r1
      by (auto simp: reg_inv_def r' join_callback_map map_le_def)
  next
    case fresh
    let ?n = "next_threadgroup_id r"
    have new: "map_of (threadgroup_callback_map r) ?n = None" "1 \<le> ?n"
      using inv by (auto simp: reg_inv_def ids_ok_def domIff [symmetric] simp del: domIff)
    have "ids_ok r'" using inv new fresh
      by (auto simp: reg_inv_def ids_ok_def r' join_um_ok join_threadgroup_map threadgroup_of_def default_ThreadGroupInfo_def)
    moreover have "callbacks_ok r'" using inv ci new fresh
      by (fastforce simp: reg_inv_def callbacks_ok_def r' join_um_ok join_callback_map)
    moreover have "mutex_ok r'"
    proof (rule mutex_ok_plain [where r = r and name = name and ci = ci and tg = ?n])
      show "\<exists>t. \<not> is_mutex_group t \<and> map_of (threadgroup_callback_map r') =
          (map_of (threadgroup_callback_map r))(?n \<mapsto> t)"
        by (rule exI [of _ "threadgroup_of ?n r'"])
          (use fresh new in \<open>simp add: r' join_threadgroup_map threadgroup_of_join, simp add: threadgroup_of_def default_ThreadGroupInfo_def\<close>)
    qed (use inv ci fresh in \<open>auto simp: reg_inv_def ids_ok_def r' join_callback_map\<close>)
    ultimately show ?thesis using new ci fresh
      by (auto simp: reg_inv_def r' join_callback_map)
  qed
  then show "reg_inv r'"
    and "1 \<le> new_id" and "new_id < next_threadgroup_id r'"
    and "next_threadgroup_id r' = (if new_id = next_threadgroup_id r then new_id + 1 else next_threadgroup_id r)"
    and "map_of (mutex_threadgroup_map r) \<subseteq>\<^sub>m map_of (mutex_threadgroup_map r')"
    and "map_of (callback_map r') = (map_of (callback_map r))(name \<mapsto> ci\<lparr>ci_threadgroup_id := new_id\<rparr>)"
    and "um_keys (callback_map r') = um_keys (callback_map r)"
    by blast+
qed


text \<open>The first half of a visit.\<close>

lemma assign_threadgroup_start:
  assumes "tg = 0 \<or> cg_type (ci_callback_group ci) = MutuallyExclusive"
    and "start_threadgroup name (ci_callback_group ci) r = (new_id, r')"
  shows "assign_threadgroup name ci tg prev (r, dm) =
     (let r3 = touch_callback name r';
          dm' = om_modify [] (min_deadline (adjacency_of name r)) (\<lambda>ids. ids @ [new_id]) dm
      in if tg = 0 then (new_id, if prev \<noteq> 0 then link_threadgroups prev new_id r3 else r3, dm')
         else (tg, r3, dm'))"
proof -
  have "start_threadgroup name (ci_callback_group ci) (if tg \<noteq> 0 then set_threadgroup name tg r else r) = (new_id, r')"
    using assms(2) by (simp add: join_choose_set_threadgroup)
  moreover obtain id1 r1 where
    ch: "choose_threadgroup (ci_callback_group ci) (if tg \<noteq> 0 then set_threadgroup name tg r else r) = (id1, r1)"
    by fastforce
  ultimately have "id1 = new_id" "r' = join_threadgroup name new_id r1"
    by (auto simp: start_threadgroup_def)
  moreover have "adjacency_list r' = adjacency_list r" using assms(2) by simp
  ultimately show ?thesis
    using assms(1) ch by (simp add: assign_threadgroup_def Let_def touch_callback_def adjacency_of_def)
qed

lemma link_threadgroups_frame [simp]:
  "callback_map (link_threadgroups p t r) = callback_map r"
  "adjacency_list (link_threadgroups p t r) = adjacency_list r"
  "mutex_threadgroup_map (link_threadgroups p t r) = mutex_threadgroup_map r"
  "threadgroup_callback_map (link_threadgroups p t r) = threadgroup_callback_map r"
  "next_threadgroup_id (link_threadgroups p t r) = next_threadgroup_id r"
  "threadgroup_of tg (link_threadgroups p t r) = threadgroup_of tg r"
  by (simp_all add: link_threadgroups_def threadgroup_of_def)

lemma link_threadgroups_le [simp]: "reg_le s (link_threadgroups p t r) = reg_le s r"
  by (simp add: reg_le_def)

lemma link_threadgroups_inv:
  assumes "trav_inv (r, dm)" "1 \<le> p" "p < next_threadgroup_id r" "1 \<le> t" "t < next_threadgroup_id r"
  shows "trav_inv (link_threadgroups p t r, dm)"
proof -
  have ok: "links_ok r" using assms(1) by (simp add: trav_inv_def)
  have get: "set (tg_outgoing (um_get default_ThreadGroupAdjacencyInfo tg (threadgroup_adjacency_list r))) \<union>
      set (tg_incoming (um_get default_ThreadGroupAdjacencyInfo tg (threadgroup_adjacency_list r)))
      \<subseteq> {1..<next_threadgroup_id r}" for tg
    using ok by (auto simp: links_ok_def um_get_def default_ThreadGroupAdjacencyInfo_def split: option.splits)
  have "links_ok (link_threadgroups p t r)"
    using ok get [of p] get [of t] assms(2-5)
    unfolding links_ok_def link_threadgroups_def by (auto simp: um_get_def split: if_splits)
  with assms(1) show ?thesis
    by (simp add: trav_inv_def reg_inv_def ids_ok_def callbacks_ok_def mutex_ok_def adj_closed_def deadlines_ok_def)
qed

lemma set_threadgroup_frame [simp]:
  "adjacency_list (set_threadgroup name tg r) = adjacency_list r"
  "mutex_threadgroup_map (set_threadgroup name tg r) = mutex_threadgroup_map r"
  "threadgroup_callback_map (set_threadgroup name tg r) = threadgroup_callback_map r"
  "next_threadgroup_id (set_threadgroup name tg r) = next_threadgroup_id r"
  "threadgroup_of t (set_threadgroup name tg r) = threadgroup_of t r"
  "threadgroup_adjacency_list (set_threadgroup name tg r) = threadgroup_adjacency_list r"
  by (simp_all add: set_threadgroup_def threadgroup_of_def split: option.splits)

text \<open>A callback of a reentrant group continues the thread group of its predecessor.\<close>

lemma set_threadgroup_inv:
  assumes "trav_inv (r, dm)" "map_of (callback_map r) name = Some ci"
    "ci_threadgroup_id ci = 0" "cg_type (ci_callback_group ci) \<noteq> MutuallyExclusive"
    "1 \<le> tg" "tg < next_threadgroup_id r"
  shows "trav_inv (set_threadgroup name tg r, dm)"
    and "reg_le r (set_threadgroup name tg r)"
    and "assigned (set_threadgroup name tg r) name"
proof -
  have cm: "map_of (callback_map (set_threadgroup name tg r)) =
      (map_of (callback_map r))(name \<mapsto> ci\<lparr>ci_threadgroup_id := tg\<rparr>)"
    "um_ok (callback_map (set_threadgroup name tg r)) = um_ok (callback_map r)"
    using assms(2) by (auto simp: set_threadgroup_def um_ok_def um_keys_um_set)
  show "trav_inv (set_threadgroup name tg r, dm)"
    using assms unfolding trav_inv_def reg_inv_def
    by (auto simp: ids_ok_def callbacks_ok_def mutex_ok_def adj_closed_def deadlines_ok_def links_ok_def cm)
  show "reg_le r (set_threadgroup name tg r)"
    using assms(2,3) by (auto simp: reg_le_def cm)
  show "assigned (set_threadgroup name tg r) name"
    using assms(5) by (simp add: assigned_def cm)
qed

lemma set_concat_om_modify:
  "set (concat (map snd (om_modify [] k (\<lambda>ids. ids @ [x]) m))) = insert x (set (concat (map snd m)))"
proof (induction m)
  case (Cons p m)
  then show ?case by (cases p; cases "k < fst p"; cases "k = fst p") auto
qed simp

lemma assign_threadgroup_inv:
  assumes inv: "trav_inv (r, dm)" and ci: "map_of (callback_map r) name = Some ci" "ci_threadgroup_id ci = 0"
    and adj: "name \<in> dom (map_of (adjacency_list r))"
    and tg: "0 \<le> tg" "tg < next_threadgroup_id r" "0 \<le> prev" "prev < next_threadgroup_id r"
    and res: "assign_threadgroup name ci tg prev (r, dm) = (tg', r', dm')"
  shows "trav_inv (r', dm')" "reg_le r r'" "1 \<le> tg'" "tg' < next_threadgroup_id r'" "assigned r' name"
proof -
  have "trav_inv (r', dm') \<and> reg_le r r' \<and> 1 \<le> tg' \<and> tg' < next_threadgroup_id r' \<and> assigned r' name"
  proof (cases "tg = 0 \<or> cg_type (ci_callback_group ci) = MutuallyExclusive")
    case False
    then have eq: "tg' = tg" "r' = set_threadgroup name tg r" "dm' = dm"
      using res by (auto simp: assign_threadgroup_def)
    show ?thesis
      using set_threadgroup_inv [OF inv ci] False tg unfolding eq by auto
  next
    case True
    obtain new_id r1 where st: "start_threadgroup name (ci_callback_group ci) r = (new_id, r1)" by fastforce
    have ri: "reg_inv r" using inv by (simp add: trav_inv_def)
    note s = start_threadgroup_inv [OF ri ci(1) st]
    have adj1: "adjacency_list r1 = adjacency_list r" using st by simp
    then have touch: "touch_callback name r1 = r1" using adj by simp
    let ?dm = "om_modify [] (min_deadline (adjacency_of name r)) (\<lambda>ids. ids @ [new_id]) dm"
    have le: "reg_le r r1"
      using s(4-7) adj1 ci by (auto simp: reg_le_def)
    have dm: "sorted (map fst dm)" "distinct (map fst dm)"
      and ids: "set (concat (map snd dm)) = {1..<next_threadgroup_id r}"
      using inv by (simp_all add: trav_inv_def deadlines_ok_def)
    have "insert new_id {1..<next_threadgroup_id r} = {1..<next_threadgroup_id r1}"
      using s(2-4) by auto
    then have "deadlines_ok r1 ?dm"
      using dm ids by (simp add: deadlines_ok_def set_concat_om_modify del: set_concat)
    moreover have "links_ok r1"
      using inv le st unfolding trav_inv_def links_ok_def reg_le_def by fastforce
    ultimately have inv1: "trav_inv (r1, ?dm)"
      using s(1) inv adj1 by (auto simp: trav_inv_def adj_closed_def)
    have link: "trav_inv (link_threadgroups prev new_id r1, ?dm)" if "prev \<noteq> 0"
      using link_threadgroups_inv [OF inv1] that tg(3,4) s(2,3) le by (simp add: reg_le_def)
    have as: "assigned r1 name" using s(2,6) by (auto simp: assigned_def)
    have res': "tg' = (if tg = 0 then new_id else tg) \<and> dm' = ?dm \<and>
        r' = (if tg = 0 \<and> prev \<noteq> 0 then link_threadgroups prev new_id r1 else r1)"
      using res assign_threadgroup_start [OF True st] touch by (auto simp: Let_def split: if_splits)
    show ?thesis
      using res' inv1 link le as s(2,3) tg by (auto simp: assigned_def reg_le_def)
  qed
  then show "trav_inv (r', dm')" "reg_le r r'" "1 \<le> tg'" "tg' < next_threadgroup_id r'" "assigned r' name"
    by blast+
qed


section \<open>The traversal\<close>

text \<open>One visit of an unassigned callback: where the traversal goes next, and from which state.\<close>

lemma visit:
  assumes h: "hash_order_ok h" and inv: "trav_inv s"
    and ci: "map_of (callback_map (fst s)) name = Some ci" "ci_threadgroup_id ci = 0"
    and adj: "name \<in> dom (map_of (adjacency_list (fst s)))"
    and tg: "0 \<le> tg" "tg < next_threadgroup_id (fst s)" "0 \<le> prev" "prev < next_threadgroup_id (fst s)"
  obtains tg' r' dm' outs where
    "trav_inv (r', dm')" "reg_le (fst s) r'" "assigned r' name"
    "1 \<le> tg'" "tg' < next_threadgroup_id r'"
    "outs = ord_string h (outgoing (adjacency_of name (fst s)))"
    "set outs \<subseteq> dom (map_of (adjacency_list r'))"
    "recursive_callback_traversal h (Suc n) name tg prev s =
       (if outs = [] then Some (Inr (r', dm'))
        else if indegree (adjacency_of (hd outs) (fst s)) = 1
        then recursive_callback_traversal h n (hd outs) tg' prev (r', dm')
        else traverse_outgoing h n outs tg' (r', dm'))"
proof -
  obtain r dm where s: "s = (r, dm)" by (cases s)
  obtain tg' r1 dm1 where as: "assign_threadgroup name ci tg prev (r, dm) = (tg', r1, dm1)"
    by (metis prod_cases3)
  note a = assign_threadgroup_inv [OF inv [unfolded s] ci [unfolded s fst_conv] adj [unfolded s fst_conv]
      tg [unfolded s fst_conv] as]
  have adj1: "adjacency_list r1 = adjacency_list r" using a(2) by (simp add: reg_le_def)
  define outs where "outs = ord_string h (outgoing (adjacency_of name r))"
  have sub: "set outs \<subseteq> dom (map_of (adjacency_list r1))"
  proof -
    obtain a0 where a0: "map_of (adjacency_list r) name = Some a0" using adj by (auto simp: s)
    then have "set (outgoing a0) \<subseteq> dom (map_of (adjacency_list r))"
      using inv unfolding s trav_inv_def adj_closed_def by force
    with h a0 show ?thesis by (simp add: outs_def adj1 adjacency_of_def)
  qed
  define r2 where "r2 = (if length outs = 1 then push_callback tg' (hd outs) r1 else r1)"
  have r2: "trav_inv (r2, dm1)" "reg_le r1 r2" "next_threadgroup_id r2 = next_threadgroup_id r1"
    "adjacency_list r2 = adjacency_list r1" "assigned r2 name"
    using a push_callback_inv [OF a(1,3,4)] by (auto simp: r2_def assigned_def)
  have "recursive_callback_traversal h (Suc n) name tg prev s =
       (if outs = [] then Some (Inr (r2, dm1))
        else if indegree (adjacency_of (hd outs) (fst s)) = 1
        then recursive_callback_traversal h n (hd outs) tg' prev (r2, dm1)
        else traverse_outgoing h n outs tg' (r2, dm1))"
    using ci as adj sub
    by (cases outs) (auto simp: s Let_def adj1 visit_callback_def adjacency_of_def
        outs_def [unfolded adjacency_of_def, symmetric] r2_def)
  then show ?thesis
    using that [of r2 dm1 tg' outs] r2 a reg_le_trans [OF a(2) r2(2)] sub by (simp add: s outs_def)
qed

lemma traversal_inv:
  assumes h: "hash_order_ok h"
  shows "recursive_callback_traversal h n name tg prev s = Some (Inr s') \<Longrightarrow> trav_inv s \<Longrightarrow>
      name \<in> dom (map_of (adjacency_list (fst s))) \<Longrightarrow> 0 \<le> tg \<Longrightarrow> tg < next_threadgroup_id (fst s) \<Longrightarrow>
      0 \<le> prev \<Longrightarrow> prev < next_threadgroup_id (fst s) \<Longrightarrow>
      trav_inv s' \<and> reg_le (fst s) (fst s') \<and> assigned (fst s') name"
    and "traverse_outgoing h n names tg s = Some (Inr s') \<Longrightarrow> trav_inv s \<Longrightarrow>
      set names \<subseteq> dom (map_of (adjacency_list (fst s))) \<Longrightarrow> 1 \<le> tg \<Longrightarrow> tg < next_threadgroup_id (fst s) \<Longrightarrow>
      trav_inv s' \<and> reg_le (fst s) (fst s') \<and> (\<forall>name \<in> set names. assigned (fst s') name)"
proof (induction n arbitrary: name tg prev s s' names)
  case 0
  {
    case 1 then show ?case by simp
  next
    case 2 then show ?case by (cases names) auto
  }
next
  case (Suc n)
  show one: "recursive_callback_traversal h (Suc n) name tg prev s = Some (Inr s') \<Longrightarrow> trav_inv s \<Longrightarrow>
      name \<in> dom (map_of (adjacency_list (fst s))) \<Longrightarrow> 0 \<le> tg \<Longrightarrow> tg < next_threadgroup_id (fst s) \<Longrightarrow>
      0 \<le> prev \<Longrightarrow> prev < next_threadgroup_id (fst s) \<Longrightarrow>
      trav_inv s' \<and> reg_le (fst s) (fst s') \<and> assigned (fst s') name" for name tg prev s s'
  proof -
    assume res: "recursive_callback_traversal h (Suc n) name tg prev s = Some (Inr s')"
      and inv: "trav_inv s" and adj: "name \<in> dom (map_of (adjacency_list (fst s)))"
      and tg: "0 \<le> tg" "tg < next_threadgroup_id (fst s)" "0 \<le> prev" "prev < next_threadgroup_id (fst s)"
    from res obtain ci where ci: "map_of (callback_map (fst s)) name = Some ci"
      by (cases "map_of (callback_map (fst s)) name") auto
    show ?thesis
    proof (cases "ci_threadgroup_id ci = 0")
      case False
      with res ci have "s' = s" by simp
      with False ci inv show ?thesis by (auto simp: assigned_def)
    next
      case True
      obtain tg' r1 dm1 outs where v: "trav_inv (r1, dm1)" "reg_le (fst s) r1" "assigned r1 name"
        "1 \<le> tg'" "tg' < next_threadgroup_id r1"
        "outs = ord_string h (outgoing (adjacency_of name (fst s)))"
        "set outs \<subseteq> dom (map_of (adjacency_list r1))"
        and eq: "recursive_callback_traversal h (Suc n) name tg prev s =
         (if outs = [] then Some (Inr (r1, dm1))
          else if indegree (adjacency_of (hd outs) (fst s)) = 1
          then recursive_callback_traversal h n (hd outs) tg' prev (r1, dm1)
          else traverse_outgoing h n outs tg' (r1, dm1))"
        by (rule visit [OF h inv ci True adj tg])
      consider "s' = (r1, dm1)"
        | "outs \<noteq> []" "recursive_callback_traversal h n (hd outs) tg' prev (r1, dm1) = Some (Inr s')"
        | "traverse_outgoing h n outs tg' (r1, dm1) = Some (Inr s')"
        using res eq by (metis (full_types) option.inject sum.inject(2))
      moreover have prev1: "prev < next_threadgroup_id r1" using v(2) tg(4) by (simp add: reg_le_def)
      ultimately have "trav_inv s' \<and> reg_le r1 (fst s')"
      proof cases
        case 1 with v show ?thesis by simp
      next
        case 2
        then have "hd outs \<in> dom (map_of (adjacency_list r1))" using v(7) hd_in_set by blast
        with Suc(1) [OF 2(2)] v tg prev1 show ?thesis by auto
      next
        case 3
        with Suc(2) [OF 3] v show ?thesis by auto
      qed
      with v show ?thesis using reg_le_trans reg_le_assigned by blast
    qed
  qed
  show "traverse_outgoing h (Suc n) names tg s = Some (Inr s') \<Longrightarrow> trav_inv s \<Longrightarrow>
      set names \<subseteq> dom (map_of (adjacency_list (fst s))) \<Longrightarrow> 1 \<le> tg \<Longrightarrow> tg < next_threadgroup_id (fst s) \<Longrightarrow>
      trav_inv s' \<and> reg_le (fst s) (fst s') \<and> (\<forall>name \<in> set names. assigned (fst s') name)" for names tg s s'
  proof (induction names arbitrary: s)
    case Nil
    then show ?case by simp
  next
    case (Cons nm names)
    have ids: "ids_ok (fst s)" using Cons.prems by (simp add: trav_inv_def reg_inv_def)
    obtain s1 where s1: "recursive_callback_traversal h (Suc n) nm 0 tg s = Some (Inr s1)"
      "traverse_outgoing h (Suc n) names tg s1 = Some (Inr s')"
      using Cons.prems ids by (auto split: option.splits sum.splits)
    have i1: "trav_inv s1" "reg_le (fst s) (fst s1)" "assigned (fst s1) nm"
      using one [OF s1(1)] Cons.prems by auto
    have rest: "trav_inv s'" "reg_le (fst s1) (fst s')" "\<forall>name \<in> set names. assigned (fst s') name"
      using Cons.IH [OF s1(2)] Cons.prems i1 by (auto simp: reg_le_def)
    from rest reg_le_trans [OF i1(2) rest(2)] reg_le_assigned [OF rest(2) i1(3)] show ?case by simp
  qed
qed

text \<open>A visit assigns a callback, so the number of unassigned callbacks bounds the depth of the
  recursion.\<close>

lemma unassigned_psubset:
  assumes "reg_le r r'" "assigned r' name" "name \<in> unassigned r"
  shows "card (unassigned r') < card (unassigned r)"
proof (rule psubset_card_mono [OF finite_unassigned])
  have "name \<notin> unassigned r'" using assms(2) by (auto simp: assigned_def unassigned_def)
  with assms reg_le_unassigned show "unassigned r' \<subset> unassigned r" by blast
qed

definition closed_in_callbacks :: "CallbackRegistry \<Rightarrow> bool" where
  "closed_in_callbacks r \<longleftrightarrow> dom (map_of (adjacency_list r)) \<subseteq> dom (map_of (callback_map r))"

lemma closed_in_callbacks_le [simp]: "reg_le r r' \<Longrightarrow> closed_in_callbacks r' = closed_in_callbacks r"
  by (simp add: closed_in_callbacks_def reg_le_dom) (simp add: reg_le_def)

lemma traversal_total:
  assumes h: "hash_order_ok h"
  shows "trav_inv s \<Longrightarrow> card (unassigned (fst s)) < n \<Longrightarrow>
      name \<in> dom (map_of (adjacency_list (fst s))) \<Longrightarrow> 0 \<le> tg \<Longrightarrow> tg < next_threadgroup_id (fst s) \<Longrightarrow>
      0 \<le> prev \<Longrightarrow> prev < next_threadgroup_id (fst s) \<Longrightarrow>
      \<exists>res. recursive_callback_traversal h n name tg prev s = Some res \<and>
        (closed_in_callbacks (fst s) \<longrightarrow> is_ok res)"
    and "trav_inv s \<Longrightarrow> card (unassigned (fst s)) < n \<Longrightarrow>
      set names \<subseteq> dom (map_of (adjacency_list (fst s))) \<Longrightarrow> 1 \<le> tg \<Longrightarrow> tg < next_threadgroup_id (fst s) \<Longrightarrow>
      \<exists>res. traverse_outgoing h n names tg s = Some res \<and> (closed_in_callbacks (fst s) \<longrightarrow> is_ok res)"
proof (induction n arbitrary: name tg prev s names)
  case 0
  {
    case 1 then show ?case by simp
  next
    case 2 then show ?case by simp
  }
next
  case (Suc n)
  show one: "trav_inv s \<Longrightarrow> card (unassigned (fst s)) < Suc n \<Longrightarrow>
      name \<in> dom (map_of (adjacency_list (fst s))) \<Longrightarrow> 0 \<le> tg \<Longrightarrow> tg < next_threadgroup_id (fst s) \<Longrightarrow>
      0 \<le> prev \<Longrightarrow> prev < next_threadgroup_id (fst s) \<Longrightarrow>
      \<exists>res. recursive_callback_traversal h (Suc n) name tg prev s = Some res \<and>
        (closed_in_callbacks (fst s) \<longrightarrow> is_ok res)" for name tg prev s
  proof -
    assume inv: "trav_inv s" and un: "card (unassigned (fst s)) < Suc n"
      and adj: "name \<in> dom (map_of (adjacency_list (fst s)))"
      and tg: "0 \<le> tg" "tg < next_threadgroup_id (fst s)" "0 \<le> prev" "prev < next_threadgroup_id (fst s)"
    show ?thesis
    proof (cases "map_of (callback_map (fst s)) name")
      case None
      with adj have "\<not> closed_in_callbacks (fst s)" by (auto simp: closed_in_callbacks_def)
      with None show ?thesis by simp
    next
      case ci: (Some ci)
      show ?thesis
      proof (cases "ci_threadgroup_id ci = 0")
        case False with ci show ?thesis by simp
      next
        case True
        obtain tg' r1 dm1 outs where v: "trav_inv (r1, dm1)" "reg_le (fst s) r1" "assigned r1 name"
          "1 \<le> tg'" "tg' < next_threadgroup_id r1"
          "outs = ord_string h (outgoing (adjacency_of name (fst s)))"
          "set outs \<subseteq> dom (map_of (adjacency_list r1))"
          and eq: "recursive_callback_traversal h (Suc n) name tg prev s =
           (if outs = [] then Some (Inr (r1, dm1))
            else if indegree (adjacency_of (hd outs) (fst s)) = 1
            then recursive_callback_traversal h n (hd outs) tg' prev (r1, dm1)
            else traverse_outgoing h n outs tg' (r1, dm1))"
          by (rule visit [OF h inv ci True adj tg])
        have "name \<in> unassigned (fst s)" using ci True by (simp add: unassigned_def)
        then have un1: "card (unassigned r1) < n"
          using unassigned_psubset [OF v(2,3)] un by simp
        have hd: "hd outs \<in> dom (map_of (adjacency_list r1))" if "outs \<noteq> []"
          using that v(7) hd_in_set by blast
        have rec: "\<exists>res. recursive_callback_traversal h n (hd outs) tg' prev (r1, dm1) = Some res \<and>
          (closed_in_callbacks r1 \<longrightarrow> is_ok res)" if "outs \<noteq> []"
          using Suc(1) [of "(r1, dm1)" "hd outs" tg' prev] v(1,2,4,5) tg(3,4) un1 hd [OF that]
          by (simp add: reg_le_def)
        have out: "\<exists>res. traverse_outgoing h n outs tg' (r1, dm1) = Some res \<and>
          (closed_in_callbacks r1 \<longrightarrow> is_ok res)"
          using Suc(2) [of "(r1, dm1)" outs tg'] v un1 by simp
        show ?thesis
          unfolding eq using rec out v(2) by (cases "outs = []") auto
      qed
    qed
  qed
  show "trav_inv s \<Longrightarrow> card (unassigned (fst s)) < Suc n \<Longrightarrow>
      set names \<subseteq> dom (map_of (adjacency_list (fst s))) \<Longrightarrow> 1 \<le> tg \<Longrightarrow> tg < next_threadgroup_id (fst s) \<Longrightarrow>
      \<exists>res. traverse_outgoing h (Suc n) names tg s = Some res \<and> (closed_in_callbacks (fst s) \<longrightarrow> is_ok res)" for names tg s
  proof (induction names arbitrary: s)
    case Nil
    then show ?case by simp
  next
    case (Cons nm names)
    have ids: "ids_ok (fst s)" using Cons.prems by (simp add: trav_inv_def reg_inv_def)
    have nm: "nm \<in> dom (map_of (adjacency_list (fst s)))" using Cons.prems(3) by simp
    obtain res where res: "recursive_callback_traversal h (Suc n) nm 0 tg s = Some res"
      "closed_in_callbacks (fst s) \<longrightarrow> is_ok res"
      using one [of s nm 0 tg] Cons.prems nm by auto
    show ?case
    proof (cases res)
      case (Inl e)
      with res ids Cons.prems show ?thesis by simp
    next
      case (Inr s1)
      have i1: "trav_inv s1" "reg_le (fst s) (fst s1)"
        using traversal_inv(1) [OF h res(1) [unfolded Inr]] Cons.prems nm by auto
      have "card (unassigned (fst s1)) < Suc n"
        using card_mono [OF finite_unassigned reg_le_unassigned [OF i1(2)]] Cons.prems(2) by simp
      then have "\<exists>res. traverse_outgoing h (Suc n) names tg s1 = Some res \<and>
          (closed_in_callbacks (fst s1) \<longrightarrow> is_ok res)"
        using Cons.IH [of s1] Cons.prems i1 by (auto simp: reg_le_def)
      with res ids Cons.prems i1 Inr show ?thesis by simp
    qed
  qed
qed

section \<open>The loop over the roots\<close>

lemma traverse_roots_inv:
  assumes h: "hash_order_ok h"
  shows "traverse_roots h n roots s = Some (Inr s') \<Longrightarrow> trav_inv s \<Longrightarrow>
    fst ` set roots \<subseteq> dom (map_of (adjacency_list (fst s))) \<Longrightarrow>
    trav_inv s' \<and> reg_le (fst s) (fst s') \<and>
    (\<forall>(name, a) \<in> set roots. indegree a = 0 \<longrightarrow> assigned (fst s') name)"
proof (induction roots arbitrary: s)
  case (Cons p roots)
  obtain name a where p: "p = (name, a)" by (cases p)
  have next_id: "0 < next_threadgroup_id (fst s)" using Cons.prems(2) by (simp add: trav_inv_def reg_inv_def ids_ok_def)
  show ?case
  proof (cases "indegree a = 0")
    case True
    then obtain s1 where s1: "recursive_callback_traversal h n name 0 0 s = Some (Inr s1)"
      "traverse_roots h n roots s1 = Some (Inr s')"
      using Cons.prems p by (auto split: option.splits sum.splits)
    have i1: "trav_inv s1" "reg_le (fst s) (fst s1)" "assigned (fst s1) name"
      using traversal_inv(1) [OF h s1(1)] Cons.prems next_id by (auto simp: p)
    have rest: "trav_inv s'" "reg_le (fst s1) (fst s')"
      "\<forall>(name, a) \<in> set roots. indegree a = 0 \<longrightarrow> assigned (fst s') name"
      using Cons.IH [OF s1(2) i1(1)] Cons.prems(3) i1(2) by (auto simp: reg_le_def)
    from rest reg_le_trans [OF i1(2) rest(2)] reg_le_assigned [OF rest(2) i1(3)] show ?thesis by (simp add: p)
  next
    case False
    with Cons show ?thesis by (auto simp: p)
  qed
qed simp

lemma traverse_roots_total:
  assumes h: "hash_order_ok h"
  shows "trav_inv s \<Longrightarrow> card (unassigned (fst s)) < n \<Longrightarrow>
    fst ` set roots \<subseteq> dom (map_of (adjacency_list (fst s))) \<Longrightarrow>
    \<exists>res. traverse_roots h n roots s = Some res \<and> (closed_in_callbacks (fst s) \<longrightarrow> is_ok res)"
proof (induction roots arbitrary: s)
  case (Cons p roots)
  obtain name a where p: "p = (name, a)" by (cases p)
  have nm: "name \<in> dom (map_of (adjacency_list (fst s)))" using Cons.prems(3) by (simp add: p)
  have next_id: "0 < next_threadgroup_id (fst s)" using Cons.prems(1) by (simp add: trav_inv_def reg_inv_def ids_ok_def)
  have IHs: "\<exists>res. traverse_roots h n roots s = Some res \<and> (closed_in_callbacks (fst s) \<longrightarrow> is_ok res)"
    using Cons.IH [OF Cons.prems(1,2)] Cons.prems(3) by simp
  obtain res where res: "recursive_callback_traversal h n name 0 0 s = Some res"
    "closed_in_callbacks (fst s) \<longrightarrow> is_ok res"
    using traversal_total(1) [OF h, of s n name 0 0] Cons.prems(1,2) nm next_id by auto
  show ?case
  proof (cases res)
    case (Inl e)
    with IHs res show ?thesis by (simp add: p)
  next
    case (Inr s1)
    have i1: "trav_inv s1" "reg_le (fst s) (fst s1)"
      using traversal_inv(1) [OF h res(1) [unfolded Inr] Cons.prems(1) nm] next_id by auto
    have "card (unassigned (fst s1)) < n"
      using card_mono [OF finite_unassigned reg_le_unassigned [OF i1(2)]] Cons.prems(2) by simp
    then have "\<exists>res. traverse_roots h n roots s1 = Some res \<and> (closed_in_callbacks (fst s1) \<longrightarrow> is_ok res)"
      using Cons.IH [of s1] Cons.prems(3) i1 by (simp add: reg_le_def)
    with IHs res i1 Inr show ?thesis by (simp add: p)
  qed
qed simp

section \<open>Construction\<close>

text \<open>A registry as the constructor leaves it: no thread group exists yet.\<close>

definition built :: "CallbackRegistry \<Rightarrow> bool" where
  "built r \<longleftrightarrow> adj_closed r \<and> um_ok (adjacency_list r) \<and> um_ok (callback_map r) \<and>
     (\<forall>name ci. map_of (callback_map r) name = Some ci \<longrightarrow>
        ci_threadgroup_id ci = 0 \<and> ci_callback_name ci = name) \<and>
     threadgroup_adjacency_list r = [] \<and> mutex_threadgroup_map r = [] \<and>
     threadgroup_callback_map r = [] \<and> next_threadgroup_id r = 1"

lemma built_trav_inv: "built r \<Longrightarrow> trav_inv (r, [])"
  by (auto simp: built_def trav_inv_def reg_inv_def ids_ok_def callbacks_ok_def mutex_ok_def deadlines_ok_def links_ok_def)

lemma built_register_callback_entity:
  "built r \<Longrightarrow> built (register_callback_entity names e grp node r)"
  by (auto simp: built_def register_callback_entity_def adj_closed_def split: option.splits if_splits)

lemma built_register_group: "built r \<Longrightarrow> built (register_group names pair r)"
proof -
  assume r: "built r"
  have "built (fold (\<lambda>p. register_callback_entity names (callback_entity p) grp node) ps r)" for grp node ps
    using r by (induction ps arbitrary: r) (auto simp: built_register_callback_entity)
  with r show ?thesis by (auto simp: register_group_def split: prod.splits option.splits)
qed

lemma fold_register_group: "built r \<Longrightarrow> built (fold (register_group names) groups r)"
  by (induction groups arbitrary: r) (auto simp: built_register_group)

text \<open>The edges of the graph, and where they may lead.\<close>

definition edges_in :: "string set \<Rightarrow> (string, CallbackAdjacencyInfo) umap \<Rightarrow> bool" where
  "edges_in N adj \<longleftrightarrow> (\<forall>name a. map_of adj name = Some a \<longrightarrow> set (outgoing a) \<subseteq> N)"

lemma edges_in_mono: "edges_in N adj \<Longrightarrow> N \<subseteq> N' \<Longrightarrow> edges_in N' adj"
  by (auto simp: edges_in_def)

lemma edges_in_get: "edges_in N adj \<Longrightarrow> set (outgoing (um_get default_CallbackAdjacencyInfo name adj)) \<subseteq> N"
  by (auto simp: edges_in_def um_get_def default_CallbackAdjacencyInfo_def split: option.splits)

lemma edges_in_modify:
  "edges_in N adj \<Longrightarrow> set (outgoing (f (um_get default_CallbackAdjacencyInfo k adj))) \<subseteq> N \<Longrightarrow>
   edges_in N (um_modify default_CallbackAdjacencyInfo k f adj)"
  by (auto simp: edges_in_def split: if_splits)

lemma dom_link_callback:
  "dom (map_of (link_callback c i adj)) = dom (map_of adj) \<union> {callbacks c ! i} \<union>
     (if i > 0 then {callbacks c ! (i - 1)} else {})"
  by (auto simp: link_callback_def Let_def)

lemma um_ok_link_callback [simp]: "um_ok adj \<Longrightarrow> um_ok (link_callback c i adj)"
  by (simp add: link_callback_def Let_def)

lemma edges_in_link_callback:
  "edges_in N adj \<Longrightarrow> callbacks c ! i \<in> N \<Longrightarrow> edges_in N (link_callback c i adj)"
  unfolding link_callback_def Let_def by (simp add: edges_in_modify edges_in_get)

lemma edges_in_chain:
  "\<forall>i \<in> set is. i < length (callbacks c) \<Longrightarrow> edges_in N adj \<Longrightarrow> set (callbacks c) \<subseteq> N \<Longrightarrow>
   edges_in N (fold (link_callback c) is adj)"
proof (induction "is" arbitrary: adj)
  case (Cons i "is")
  moreover from Cons.prems have "callbacks c ! i \<in> N" by (simp add: subset_iff)
  ultimately show ?case by (simp add: edges_in_link_callback)
qed simp

lemma dom_chain:
  "\<forall>i \<in> set is. i < length (callbacks c) \<Longrightarrow>
   dom (map_of adj) \<union> (\<lambda>i. callbacks c ! i) ` set is \<subseteq> dom (map_of (fold (link_callback c) is adj)) \<and>
   dom (map_of (fold (link_callback c) is adj)) \<subseteq> dom (map_of adj) \<union> set (callbacks c)"
proof (induction "is" arbitrary: adj)
  case (Cons i "is")
  have "dom (map_of (link_callback c i adj)) \<subseteq> dom (map_of adj) \<union> set (callbacks c)"
    "insert (callbacks c ! i) (dom (map_of adj)) \<subseteq> dom (map_of (link_callback c i adj))"
    using Cons.prems by (auto simp: dom_link_callback)
  with Cons.IH [of "link_callback c i adj"] Cons.prems show ?case
    by (simp del: dom_map_of_conv_image_fst) blast
qed simp

lemma um_ok_chain [simp]: "um_ok adj \<Longrightarrow> um_ok (fold (link_callback c) is adj)"
  by (induction "is" arbitrary: adj) auto

lemma dom_add_chain:
  assumes "add_chain c r = Inr r'"
  shows "dom (map_of (adjacency_list r')) = dom (map_of (adjacency_list r)) \<union> set (callbacks c)"
proof (cases "length (callbacks c) < 2")
  case True
  then obtain cb where "callbacks c = [cb]"
    using assms by (cases "callbacks c") (auto simp: add_chain_def)
  then show ?thesis using assms by (auto simp: add_chain_def)
next
  case False
  let ?is = "[0..<length (callbacks c)]"
  have "set (callbacks c) = (\<lambda>i. callbacks c ! i) ` set ?is"
    by (force simp: in_set_conv_nth)
  moreover have "adjacency_list r' = fold (link_callback c) ?is (adjacency_list r)"
    using False assms by (auto simp: add_chain_def)
  ultimately show ?thesis
    using dom_chain [of ?is c "adjacency_list r"] by simp blast
qed

lemma add_chain_frame:
  "add_chain c r = Inr r' \<Longrightarrow> \<exists>adj. r' = r\<lparr>adjacency_list := adj\<rparr>"
  by (auto simp: add_chain_def split: if_splits list.splits)

lemma adj_closed_edges_in: "adj_closed r = edges_in (dom (map_of (adjacency_list r))) (adjacency_list r)"
  by (simp add: adj_closed_def edges_in_def)

lemma add_chain_edges:
  assumes "add_chain c r = Inr r'" "adj_closed r"
  shows "adj_closed r'"
proof -
  let ?N = "dom (map_of (adjacency_list r'))"
  have N: "?N = dom (map_of (adjacency_list r)) \<union> set (callbacks c)" using dom_add_chain [OF assms(1)] .
  have "edges_in ?N (adjacency_list r)"
    using assms(2) N unfolding adj_closed_edges_in by (auto intro: edges_in_mono)
  moreover have "edges_in ?N (adjacency_list r')" if "length (callbacks c) < 2"
  proof -
    from that assms(1) obtain cb where
      "adjacency_list r' = um_set cb default_CallbackAdjacencyInfo (adjacency_list r)"
      by (auto simp: add_chain_def split: list.splits)
    with calculation show ?thesis by (simp add: edges_in_def default_CallbackAdjacencyInfo_def)
  qed
  moreover have "edges_in ?N (fold (link_callback c) [0..<length (callbacks c)] (adjacency_list r))"
    using calculation N by (intro edges_in_chain) auto
  ultimately show ?thesis
    using assms(1) unfolding adj_closed_edges_in by (auto simp: add_chain_def split: if_splits)
qed

lemma built_add_chain:
  assumes "add_chain c r = Inr r'" "built r"
  shows "built r'"
proof -
  have "um_ok (adjacency_list r')"
    using assms by (auto simp: add_chain_def built_def split: if_splits list.splits)
  with add_chain_frame [OF assms(1)] add_chain_edges [OF assms(1)] assms(2) show ?thesis
    by (auto simp: built_def)
qed

lemma make_registry_built:
  assumes "make_registry h names groups ucs = Inr r"
  shows "built r"
proof -
  have "built empty_registry"
    by (auto simp: built_def empty_registry_def adj_closed_def)
  then have "built (fold (register_group names) groups empty_registry)" by (rule fold_register_group)
  with assms show ?thesis
    unfolding make_registry_def
    by (elim for_each_invariant [where P = built]) (auto intro: built_add_chain)
qed

text \<open>The registry's constructor throws nothing itself: it fails only on a chain without callbacks.\<close>

lemma make_registry_total:
  assumes "hash_order_ok h" "\<forall>name c. map_of ucs name = Some c \<longrightarrow> callbacks c \<noteq> []"
  shows "\<exists>r. make_registry h names groups ucs = Inr r"
proof -
  have "\<exists>r'. for_each (\<lambda>(_, c). add_chain c) cs r = Inr r'" if "\<forall>(_, c) \<in> set cs. callbacks c \<noteq> []" for cs r
    using that
  proof (induction cs arbitrary: r)
    case (Cons p cs)
    then have "\<exists>r1. add_chain (snd p) r = Inr r1"
      by (cases "callbacks (snd p)") (auto simp: add_chain_def)
    with Cons show ?case by (cases p) auto
  qed simp
  from this [of "um_iter (ord_string h) ucs"] assms show ?thesis by (auto simp: make_registry_def)
qed

lemma unassigned_fuel:
  assumes "built r" shows "card (unassigned r) < callback_fuel r"
proof -
  have "card (unassigned r) \<le> card (dom (map_of (callback_map r)))"
    by (rule card_mono) (auto simp: unassigned_def finite_dom_map_of)
  also have "\<dots> = length (callback_map r)"
    using assms unfolding built_def um_ok_def
    by (metis distinct_card length_map set_um_keys um_keys_def)
  finally show ?thesis by (simp add: callback_fuel_def)
qed

lemma roots_in_graph:
  "hash_order_ok h \<Longrightarrow> fst ` set (um_iter (ord_string h) (adjacency_list r)) \<subseteq> dom (map_of (adjacency_list r))"
  by force

section \<open>An example\<close>

text \<open>A timer \<open>A\<close> of a reentrant group and two subscriptions \<open>B\<close>, \<open>C\<close> of one mutually exclusive
  group, on the chain \<open>A, B, C\<close>.\<close>

definition demo_names :: registered_names where
  "demo_names = [(callback_entity (TimerPtr 11), ''A''), (callback_entity (SubscriptionPtr 12), ''B''),
     (callback_entity (SubscriptionPtr 13), ''C'')]"

definition demo_groups :: weak_groups_to_nodes where
  "demo_groups =
     [(Some \<lparr>cg_addr = 1, cg_type = Reentrant, cg_can_be_taken_from = True, cg_ptrs = [TimerPtr 11]\<rparr>, Some 5),
      (Some \<lparr>cg_addr = 2, cg_type = MutuallyExclusive, cg_can_be_taken_from = True,
         cg_ptrs = [SubscriptionPtr 12, SubscriptionPtr 13]\<rparr>, Some 5)]"

definition demo_chains :: "(string, userChain) umap" where
  "demo_chains = [(''c'', \<lparr>chain_name = ''c'', callbacks = [''A'', ''B'', ''C''], deadline = 300, period = 100\<rparr>)]"

definition demo_registry :: CallbackRegistry where
  "demo_registry = projr (make_registry insertion_order demo_names demo_groups demo_chains)"

definition demo_cut :: "CallbackRegistry \<times> deadline_map" where
  "demo_cut = projr (the (cut_into_threadgroups insertion_order demo_registry))"

lemma demo_make: "make_registry insertion_order demo_names demo_groups demo_chains = Inr demo_registry"
  by code_simp

lemma demo_cut_eq: "cut_into_threadgroups insertion_order demo_registry = Some (Inr demo_cut)"
  by code_simp

section \<open>Properties of the cut\<close>

text \<open>
  C18. Termination of the first traversal. On every registry that the constructor builds, for every
  iteration order of the hash containers, the recursion over the callback graph returns: its depth
  is at most one more than the number of registered callbacks, also when the chains form a cycle.
  It returns normally when every callback that a chain names is registered.
\<close>

theorem cut_terminates:
  assumes "hash_order_ok h" "make_registry h0 names groups ucs = Inr r"
  shows "\<exists>res. cut_into_threadgroups h r = Some res \<and> (closed_in_callbacks r \<longrightarrow> is_ok res)"
proof -
  have b: "built r" using assms(2) by (rule make_registry_built)
  show ?thesis
    unfolding cut_into_threadgroups_def
    by (rule traverse_roots_total [OF assms(1), of "(r, [])", unfolded fst_conv,
          OF built_trav_inv [OF b] unassigned_fuel [OF b] roots_in_graph [OF assms(1)]])
qed

theorem cut_terminates_witness:
  "\<exists>res. cut_into_threadgroups reverse_order demo_registry = Some res \<and> is_ok res"
proof -
  have "closed_in_callbacks demo_registry"
    unfolding closed_in_callbacks_def set_um_keys [symmetric] by code_simp
  with cut_terminates [OF reverse_order_ok demo_make] show ?thesis by simp
qed

lemma cut_inv:
  assumes "hash_order_ok h" "make_registry h0 names groups ucs = Inr r"
    "cut_into_threadgroups h r = Some (Inr (r', dm))"
  shows "trav_inv (r', dm)" "reg_le r r'"
    "\<And>name a. map_of (adjacency_list r) name = Some a \<Longrightarrow> indegree a = 0 \<Longrightarrow> assigned r' name"
proof -
  note b = make_registry_built [OF assms(2)]
  have "trav_inv (r', dm) \<and> reg_le r r' \<and>
    (\<forall>(name, a) \<in> set (um_iter (ord_string h) (adjacency_list r)). indegree a = 0 \<longrightarrow> assigned r' name)"
    by (rule traverse_roots_inv [OF assms(1) assms(3) [unfolded cut_into_threadgroups_def],
          unfolded fst_conv, OF built_trav_inv [OF b] roots_in_graph [OF assms(1)]])
  then show "trav_inv (r', dm)" "reg_le r r'"
    "\<And>name a. map_of (adjacency_list r) name = Some a \<Longrightarrow> indegree a = 0 \<Longrightarrow> assigned r' name"
    using assms(1) by auto
qed

text \<open>
  C5. Mutual exclusion. After the cut, two callbacks of mutually exclusive callback groups that
  have a thread group are in the same one exactly when they belong to the same callback group, and
  that thread group is a mutex group, so the executor will run it on a single thread.
\<close>

theorem cut_mutual_exclusion:
  assumes "hash_order_ok h" "make_registry h0 names groups ucs = Inr r"
    "cut_into_threadgroups h r = Some (Inr (r', dm))"
    and c: "map_of (callback_map r') n1 = Some c1" "map_of (callback_map r') n2 = Some c2"
    and a: "ci_threadgroup_id c1 \<noteq> 0" "ci_threadgroup_id c2 \<noteq> 0"
    and m: "cg_type (ci_callback_group c1) = MutuallyExclusive" "cg_type (ci_callback_group c2) = MutuallyExclusive"
  shows "(ci_threadgroup_id c1 = ci_threadgroup_id c2) =
      (cg_addr (ci_callback_group c1) = cg_addr (ci_callback_group c2)) \<and>
    is_mutex_group (threadgroup_of (ci_threadgroup_id c1) r')"
proof -
  have "mutex_ok r'" using cut_inv(1) [OF assms(1-3)] by (simp add: trav_inv_def reg_inv_def)
  then have "map_of (mutex_threadgroup_map r') (cg_addr (ci_callback_group c1)) = Some (ci_threadgroup_id c1)"
    "map_of (mutex_threadgroup_map r') (cg_addr (ci_callback_group c2)) = Some (ci_threadgroup_id c2)"
    and "\<forall>a b tg. map_of (mutex_threadgroup_map r') a = Some tg \<longrightarrow>
        map_of (mutex_threadgroup_map r') b = Some tg \<longrightarrow> a = b"
    and "\<forall>a tg. map_of (mutex_threadgroup_map r') a = Some tg \<longrightarrow> is_mutex_group (threadgroup_of tg r')"
    using c a m unfolding mutex_ok_def by blast+
  then show ?thesis by (metis option.inject)
qed

theorem cut_mutual_exclusion_witness:
  "let c1 = the (map_of (callback_map (fst demo_cut)) ''B''); c2 = the (map_of (callback_map (fst demo_cut)) ''C'')
   in (ci_threadgroup_id c1 = ci_threadgroup_id c2) =
      (cg_addr (ci_callback_group c1) = cg_addr (ci_callback_group c2)) \<and>
    is_mutex_group (threadgroup_of (ci_threadgroup_id c1) (fst demo_cut))"
proof -
  have "map_of (callback_map (fst demo_cut)) ''B'' = Some (the (map_of (callback_map (fst demo_cut)) ''B''))"
    "map_of (callback_map (fst demo_cut)) ''C'' = Some (the (map_of (callback_map (fst demo_cut)) ''C''))"
    "ci_threadgroup_id (the (map_of (callback_map (fst demo_cut)) ''B'')) \<noteq> 0"
    "ci_threadgroup_id (the (map_of (callback_map (fst demo_cut)) ''C'')) \<noteq> 0"
    "cg_type (ci_callback_group (the (map_of (callback_map (fst demo_cut)) ''B''))) = MutuallyExclusive"
    "cg_type (ci_callback_group (the (map_of (callback_map (fst demo_cut)) ''C''))) = MutuallyExclusive"
    by code_simp+
  note facts = this
  have "cut_into_threadgroups insertion_order demo_registry = Some (Inr (fst demo_cut, snd demo_cut))"
    by (simp add: demo_cut_eq)
  from cut_mutual_exclusion [OF insertion_order_ok demo_make this facts] show ?thesis
    by (simp add: Let_def)
qed

text \<open>
  The invariant of the registry. After the cut the thread-group ids in use are exactly
  \<open>1\<close> up to the next fresh id, every thread group is recorded under its own id and in the deadline
  map, the edges between thread groups join groups in use, a callback has id 0 or an id in use, every root of the callback graph has a thread group, and
  the callbacks, their groups and the callback graph are as they were.
\<close>

theorem cut_keeps_registry:
  assumes "hash_order_ok h" "make_registry h0 names groups ucs = Inr r"
    "cut_into_threadgroups h r = Some (Inr (r', dm))"
  shows "reg_inv r' \<and> links_ok r' \<and> reg_le r r' \<and> set (concat (map snd dm)) = dom (map_of (threadgroup_callback_map r')) \<and>
    (\<forall>name a. map_of (adjacency_list r) name = Some a \<and> indegree a = 0 \<longrightarrow> assigned r' name)"
  using cut_inv [OF assms] by (auto simp: trav_inv_def deadlines_ok_def reg_inv_def ids_ok_def)

theorem cut_keeps_registry_witness:
  "reg_inv (fst demo_cut) \<and> links_ok (fst demo_cut) \<and> reg_le demo_registry (fst demo_cut) \<and>
    set (concat (map snd (snd demo_cut))) = dom (map_of (threadgroup_callback_map (fst demo_cut))) \<and>
    assigned (fst demo_cut) ''A''"
proof -
  have root: "map_of (adjacency_list demo_registry) ''A'' = Some (the (map_of (adjacency_list demo_registry) ''A''))"
    "indegree (the (map_of (adjacency_list demo_registry) ''A'')) = 0"
    by code_simp+
  have "cut_into_threadgroups insertion_order demo_registry = Some (Inr (fst demo_cut, snd demo_cut))"
    by (simp add: demo_cut_eq)
  from cut_keeps_registry [OF insertion_order_ok demo_make this] root show ?thesis by blast
qed

end
