(* ===== verification/Registry_Allocation.thy ===== *)
theory Registry_Allocation
  imports Registry_Traversal
begin

text \<open>
  The theory of the second half of \<open>callback_threadgroup_allocation\<close>: fixed priorities, numbers of
  threads, and the export that the executor reads. Facts that every step of the callback traversal
  keeps are proved through the locale \<open>traversal_keeps\<close>.
\<close>

section \<open>Facts that the callback traversal keeps\<close>


section \<open>Thread groups are created without a priority and with one thread\<close>




section \<open>Fixed priorities\<close>



definition priority_of :: "(int, ThreadGroupInfo) umap \<Rightarrow> int \<Rightarrow> u16" where
  "priority_of m tg = fixed_priority (um_get default_ThreadGroupInfo tg m)"

lemma priority_of_modify [simp]:
  "priority_of (um_modify default_ThreadGroupInfo tg (\<lambda>t. t\<lparr>fixed_priority := c\<rparr>) m) =
     (priority_of m)(tg := c)"
  by (auto simp: priority_of_def um_get_def fun_eq_iff)

lemma priority_of_touch [simp]: "priority_of (um_touch default_ThreadGroupInfo tg m) = priority_of m"
  by (auto simp: priority_of_def um_get_def fun_eq_iff)

lemma assign_priority_simp:
  "assign_priority tg (c, m) =
     (if priority_of m tg = 0
      then (c + 1, um_modify default_ThreadGroupInfo tg (\<lambda>t. t\<lparr>fixed_priority := c\<rparr>) m)
      else (c, um_touch default_ThreadGroupInfo tg m))"
  by (simp add: assign_priority_def priority_of_def)














section \<open>What priorities and thread counts leave alone\<close>

definition alloc_le :: "CallbackRegistry \<Rightarrow> CallbackRegistry \<Rightarrow> bool" where
  "alloc_le r r' \<longleftrightarrow> callback_map r' = callback_map r \<and> next_threadgroup_id r' = next_threadgroup_id r \<and>
     (\<forall>tg. threadgroup_adjacency_of tg r' = threadgroup_adjacency_of tg r) \<and>
     (\<forall>tg t. map_of (threadgroup_callback_map r) tg = Some t \<longrightarrow>
        (\<exists>p k. map_of (threadgroup_callback_map r') tg = Some (t\<lparr>fixed_priority := p, num_threads := k\<rparr>)))"

lemma same_group:
  "\<exists>p k. t = t\<lparr>fixed_priority := p, num_threads := k\<rparr>"
  "\<exists>p k. t\<lparr>num_threads := c\<rparr> = t\<lparr>fixed_priority := p, num_threads := k\<rparr>"
  "\<exists>p k. t\<lparr>fixed_priority := c\<rparr> = t\<lparr>fixed_priority := p, num_threads := k\<rparr>"
  by (rule exI [of _ "fixed_priority t"], rule exI [of _ "num_threads t"], simp,
      rule exI [of _ "fixed_priority t"], rule exI [of _ c], simp,
      rule exI [of _ c], rule exI [of _ "num_threads t"], simp)

lemma alloc_le_refl [simp]: "alloc_le r r"
  by (simp add: alloc_le_def same_group)

lemma alloc_le_trans: "alloc_le r s \<Longrightarrow> alloc_le s t \<Longrightarrow> alloc_le r t"
  unfolding alloc_le_def by fastforce

lemma alloc_le_touch_threadgroup [simp]: "alloc_le r (touch_threadgroup tg r)"
  and alloc_le_touch_callback [simp]: "alloc_le r (touch_callback name r)"
  and alloc_le_set_num_threads [simp]: "alloc_le r (set_num_threads tg k r)"
  using same_group
  by (auto simp: alloc_le_def touch_threadgroup_def touch_callback_def set_num_threads_def um_get_def
      threadgroup_adjacency_of_def)

lemma alloc_le_assign_priorities: "alloc_le r (assign_priorities dm r)"
proof -
  have "alloc_le r (r\<lparr>threadgroup_callback_map := snd (fold assign_priority ids (c, threadgroup_callback_map r))\<rparr>)"
    for ids c
  proof (induction ids arbitrary: c r)
    case Nil then show ?case by simp
  next
    case (Cons x ids)
    obtain c1 m1 where f: "assign_priority x (c, threadgroup_callback_map r) = (c1, m1)" by fastforce
    have "alloc_le r (r\<lparr>threadgroup_callback_map := m1\<rparr>)"
      using f by (auto simp: alloc_le_def assign_priority_simp same_group threadgroup_adjacency_of_def split: if_splits)
    moreover have "alloc_le (r\<lparr>threadgroup_callback_map := m1\<rparr>)
      (r\<lparr>threadgroup_callback_map := snd (fold assign_priority ids (c1, m1))\<rparr>)"
      using Cons.IH [of "r\<lparr>threadgroup_callback_map := m1\<rparr>" c1] by simp
    ultimately show ?case using f alloc_le_trans by simp
  qed
  then show ?thesis by (simp add: assign_priorities_def)
qed

definition touch_links :: "int \<Rightarrow> CallbackRegistry \<Rightarrow> CallbackRegistry" where
  "touch_links tg r = r\<lparr>threadgroup_adjacency_list :=
     um_touch default_ThreadGroupAdjacencyInfo tg (threadgroup_adjacency_list r)\<rparr>"

lemma alloc_le_touch_links [simp]: "alloc_le r (touch_links tg r)"
  using same_group by (auto simp: alloc_le_def touch_links_def threadgroup_adjacency_of_def um_get_def)

lemma count_threads_cases:
  assumes "count_threads h tg r = Inr r'"
  obtains name k where "r' = set_num_threads tg k (touch_callback name (touch_links tg (set_num_threads tg 0 r)))"
  | f where "r' = fold (\<lambda>prev s. set_num_threads tg (f prev s) (touch_threadgroup prev s))
      (ord_int h (tg_incoming (threadgroup_adjacency_of tg r))) (touch_links tg (set_num_threads tg 0 r))"
proof -
  have adj: "threadgroup_adjacency_of tg (set_num_threads tg 0 r) = threadgroup_adjacency_of tg r"
    by (simp add: threadgroup_adjacency_of_def set_num_threads_def)
  show ?thesis
    using assms that unfolding count_threads_def Let_def touch_links_def [symmetric] adj
    by (auto split: if_splits list.splits sum.splits)
qed

lemma alloc_le_count_threads:
  assumes "count_threads h tg r = Inr r'" shows "alloc_le r r'"
proof -
  have f: "alloc_le s (fold (\<lambda>prev s. set_num_threads tg (f prev s) (touch_threadgroup prev s)) ps s)" for ps s f
  proof (induction ps arbitrary: s)
    case (Cons p ps)
    have "alloc_le s (set_num_threads tg (f p s) (touch_threadgroup p s))"
      by (meson alloc_le_set_num_threads alloc_le_touch_threadgroup alloc_le_trans)
    with Cons show ?case by (auto intro: alloc_le_trans)
  qed simp
  have 0: "alloc_le r (touch_links tg (set_num_threads tg 0 r))"
    by (meson alloc_le_set_num_threads alloc_le_touch_links alloc_le_trans)
  from assms show ?thesis
  proof (cases rule: count_threads_cases)
    case (1 name k)
    then show ?thesis using 0 by (meson alloc_le_set_num_threads alloc_le_touch_callback alloc_le_trans)
  next
    case (2 g)
    then show ?thesis using 0 f alloc_le_trans by blast
  qed
qed

lemma alloc_le_traversal:
  "recursive_threadgroup_traversal h n tg r = Some (Inr r') \<Longrightarrow> alloc_le r r'"
  "traverse_next_threadgroups h n tgs r = Some (Inr r') \<Longrightarrow> alloc_le r r'"
  by (induction h n tg r and h n tgs r arbitrary: r' and r'
      rule: recursive_threadgroup_traversal_traverse_next_threadgroups.induct)
    (auto split: sum.splits option.splits intro: alloc_le_trans alloc_le_count_threads)

lemma alloc_le_root_traversal:
  "traverse_root_threadgroups h n roots r = Some (Inr r') \<Longrightarrow> alloc_le r r'"
proof (induction roots arbitrary: r)
  case (Cons p roots)
  obtain tg a where p: "p = (tg, a)" by (cases p)
  from Cons.prems have "\<exists>r1. alloc_le r r1 \<and> traverse_root_threadgroups h n roots r1 = Some (Inr r')"
    using alloc_le_trans [OF alloc_le_touch_threadgroup alloc_le_traversal(1)]
    by (auto simp: p split: if_splits option.splits sum.splits)
      (use alloc_le_refl alloc_le_touch_threadgroup in blast)+
  with Cons.IH show ?case using alloc_le_trans by blast
qed simp

section \<open>Export\<close>

text \<open>A callback is stored under the name its entity was registered with, so two callbacks have
  different raw pointers.\<close>

definition names_agree :: "registered_names \<Rightarrow> CallbackRegistry \<Rightarrow> bool" where
  "names_agree names r \<longleftrightarrow> (\<forall>name ci. map_of (callback_map r) name = Some ci \<longrightarrow>
     find_name names (ci_entity ci) = Some name)"

lemma names_agree_inj:
  assumes "names_agree names r" "map_of (callback_map r) n1 = Some c1" "map_of (callback_map r) n2 = Some c2"
    "get_raw_pointer (ci_entity c1) = get_raw_pointer (ci_entity c2)"
  shows "n1 = n2"
proof -
  have "entity_eq k (ci_entity c1) = entity_eq k (ci_entity c2)" for k
    using assms(4) by (simp add: entity_eq_def)
  then have "find_name names (ci_entity c1) = find_name names (ci_entity c2)" by (simp add: find_name_def)
  with assms show ?thesis by (auto simp: names_agree_def)
qed

lemma names_agree_register_entity:
  "names_agree names r \<Longrightarrow> names_agree names (register_callback_entity names e grp node r)"
  by (auto simp: names_agree_def register_callback_entity_def split: option.splits)

lemma names_agree_register_group:
  assumes "names_agree names r" shows "names_agree names (register_group names pair r)"
proof -
  have "names_agree names (fold (\<lambda>p. register_callback_entity names (callback_entity p) grp node) ps r)"
    for grp node ps
    using assms by (induction ps arbitrary: r) (auto simp: names_agree_register_entity)
  with assms show ?thesis by (auto simp: register_group_def split: prod.splits option.splits)
qed

lemma make_registry_names_agree:
  assumes "make_registry h names groups ucs = Inr r" shows "names_agree names r"
proof -
  have "names_agree names (fold (register_group names) groups r0)" if "names_agree names r0" for r0
    using that by (induction groups arbitrary: r0) (auto simp: names_agree_register_group)
  moreover have "names_agree names empty_registry" by (simp add: names_agree_def empty_registry_def)
  ultimately have "names_agree names (fold (register_group names) groups empty_registry)" by blast
  then show ?thesis
    using assms unfolding make_registry_def
    by (elim for_each_invariant [where P = "names_agree names"])
      (auto simp: names_agree_def dest!: add_chain_frame)
qed

lemma reg_le_entity:
  assumes "reg_le r r'" "map_of (callback_map r') name = Some ci'"
  obtains ci where "map_of (callback_map r) name = Some ci" "ci_entity ci' = ci_entity ci"
proof -
  obtain ci where ci: "map_of (callback_map r) name = Some ci" using assms reg_le_dom by blast
  with assms have "ci_entity ci' = ci_entity ci" unfolding reg_le_def by fastforce
  with ci that show ?thesis by blast
qed

lemma names_agree_le: "reg_le r r' \<Longrightarrow> names_agree names r \<Longrightarrow> names_agree names r'"
  unfolding names_agree_def by (metis reg_le_entity)

lemma reg_le_handles:
  assumes "reg_le r r'"
  shows "{get_raw_pointer (ci_entity ci) | name ci. map_of (callback_map r') name = Some ci} =
    {get_raw_pointer (ci_entity ci) | name ci. map_of (callback_map r) name = Some ci}" (is "?A = ?B")
proof
  show "?A \<subseteq> ?B"
  proof
    fix p assume "p \<in> ?A"
    then obtain name ci' where "p = get_raw_pointer (ci_entity ci')" "map_of (callback_map r') name = Some ci'" by blast
    then show "p \<in> ?B" using reg_le_entity [OF assms, of name ci'] by (metis (mono_tags, lifting) mem_Collect_eq)
  qed
  show "?B \<subseteq> ?A"
  proof
    fix p assume "p \<in> ?B"
    then obtain name ci where "p = get_raw_pointer (ci_entity ci)" "map_of (callback_map r) name = Some ci" by blast
    moreover from this(2) obtain tg where "map_of (callback_map r') name = Some (ci\<lparr>ci_threadgroup_id := tg\<rparr>)"
      using assms unfolding reg_le_def by blast
    moreover have "ci_entity (ci\<lparr>ci_threadgroup_id := tg\<rparr>) = ci_entity ci" by simp
    ultimately show "p \<in> ?A" by (metis (mono_tags, lifting) mem_Collect_eq)
  qed
qed

abbreviation handle_of :: "string \<times> CallbackInfo \<Rightarrow> ptr" where
  "handle_of p \<equiv> get_raw_pointer (ci_entity (snd p))"

lemma export_callbacks:
  assumes "for_each export_callback cs m = Inr m'" "inj_on handle_of (set cs)"
  shows "(\<forall>p \<in> set cs. ci_threadgroup_id (snd p) \<noteq> 0 \<and> map_of m' (handle_of p) = Some (ci_threadgroup_id (snd p))) \<and>
         (\<forall>a. a \<notin> handle_of ` set cs \<longrightarrow> map_of m' a = map_of m a)"
  using assms
proof (induction cs arbitrary: m)
  case (Cons x cs)
  let ?m = "um_set (handle_of x) (ci_threadgroup_id (snd x)) m"
  have c: "ci_threadgroup_id (snd x) \<noteq> 0" and rest: "for_each export_callback cs ?m = Inr m'"
    using Cons.prems(1) by (simp_all add: export_callback_def [of x] Let_def split: if_splits)
  have "inj_on handle_of (set cs)" using Cons.prems(2) by simp
  note IH = Cons.IH [OF rest this]
  have "map_of m' (handle_of x) = Some (ci_threadgroup_id (snd x))"
  proof (cases "handle_of x \<in> handle_of ` set cs")
    case True
    then obtain y where y: "y \<in> set cs" "handle_of x = handle_of y" by blast
    then have "x = y" using Cons.prems(2) by (auto simp: inj_on_def)
    with y IH show ?thesis by blast
  next
    case False
    with IH show ?thesis by simp
  qed
  with IH c show ?case by simp
qed simp

lemma export_attributes:
  assumes "\<forall>p \<in> set ts. tgi_threadgroup_id (snd p) = fst p" "distinct (map fst ts)"
    "\<forall>k \<in> fst ` set ts. map_of m k = None"
  shows "map_of (fold (\<lambda>(_, t). um_emplace (tgi_threadgroup_id t) (threadgroup_attributes t)) ts m) =
    map_of m ++ (\<lambda>k. map_option threadgroup_attributes (map_of ts k))"
  using assms
proof (induction ts arbitrary: m)
  case Nil then show ?case by (simp add: map_add_def)
next
  case (Cons x ts)
  obtain k t where x: "x = (k, t)" by (cases x)
  let ?m = "um_emplace k (threadgroup_attributes t) m"
  have k: "map_of m k = None" "map_of ts k = None" "tgi_threadgroup_id t = k"
    using Cons.prems by (simp_all add: x map_of_eq_None_iff)
  have "\<forall>k' \<in> fst ` set ts. map_of ?m k' = None" using Cons.prems k(1) by (force simp: x)
  with Cons.IH [of ?m] Cons.prems(1,2)
  have "map_of (fold (\<lambda>(_, t). um_emplace (tgi_threadgroup_id t) (threadgroup_attributes t)) ts ?m) =
    map_of ?m ++ (\<lambda>k. map_option threadgroup_attributes (map_of ts k))" by simp
  with k show ?case by (auto simp: x fun_eq_iff map_add_def split: option.splits)
qed

text \<open>The thread groups stay the ones in use while threads are counted.\<close>

definition groups_in_use :: "CallbackRegistry \<Rightarrow> bool" where
  "groups_in_use r \<longleftrightarrow> links_ok r \<and> um_ok (threadgroup_callback_map r) \<and>
     dom (map_of (threadgroup_callback_map r)) = {1..<next_threadgroup_id r}"

lemma links_ok_adjacency_of:
  "links_ok r \<Longrightarrow> set (tg_outgoing (threadgroup_adjacency_of tg r)) \<subseteq> {1..<next_threadgroup_id r}"
  "links_ok r \<Longrightarrow> set (tg_incoming (threadgroup_adjacency_of tg r)) \<subseteq> {1..<next_threadgroup_id r}"
  by (auto simp: links_ok_def threadgroup_adjacency_of_def um_get_def default_ThreadGroupAdjacencyInfo_def
      split: option.splits)

lemma groups_in_use_steps [inv_intros]:
  assumes "groups_in_use r"
  shows "tg \<in> {1..<next_threadgroup_id r} \<Longrightarrow> groups_in_use (set_num_threads tg k r)"
    and "tg \<in> {1..<next_threadgroup_id r} \<Longrightarrow> groups_in_use (touch_threadgroup tg r)"
    and "tg \<in> {1..<next_threadgroup_id r} \<Longrightarrow> groups_in_use (touch_links tg r)"
    and "groups_in_use (touch_callback name r)"
  using assms
  by (auto simp: groups_in_use_def links_ok_def set_num_threads_def touch_threadgroup_def touch_links_def
      touch_callback_def default_ThreadGroupAdjacencyInfo_def)

lemma next_id_steps [simp]:
  "next_threadgroup_id (set_num_threads tg k r) = next_threadgroup_id r"
  "next_threadgroup_id (touch_threadgroup tg r) = next_threadgroup_id r"
  "next_threadgroup_id (touch_links tg r) = next_threadgroup_id r"
  "next_threadgroup_id (touch_callback name r) = next_threadgroup_id r"
  by (simp_all add: set_num_threads_def touch_threadgroup_def touch_links_def touch_callback_def)

lemma groups_in_use_count_threads:
  assumes h: "hash_order_ok h" and "count_threads h tg r = Inr r'" "groups_in_use r" "tg \<in> {1..<next_threadgroup_id r}"
  shows "groups_in_use r'"
proof -
  let ?r1 = "touch_links tg (set_num_threads tg 0 r)"
  have r1: "groups_in_use ?r1" "next_threadgroup_id ?r1 = next_threadgroup_id r"
    using assms by (simp_all add: groups_in_use_steps)
  have f: "groups_in_use (fold (\<lambda>prev s. set_num_threads tg (g prev s) (touch_threadgroup prev s)) ps s)"
    if "groups_in_use s" "set ps \<subseteq> {1..<next_threadgroup_id s}" "tg \<in> {1..<next_threadgroup_id s}" for ps s g
    using that by (induction ps arbitrary: s) (auto simp: groups_in_use_steps)
  from assms(2) show ?thesis
  proof (cases rule: count_threads_cases)
    case (1 name k)
    then show ?thesis using r1 assms(4) by (simp add: groups_in_use_steps)
  next
    case (2 g)
    have "set (ord_int h (tg_incoming (threadgroup_adjacency_of tg r))) \<subseteq> {1..<next_threadgroup_id r}"
      using assms(3) h links_ok_adjacency_of(2) by (simp add: groups_in_use_def)
    then show ?thesis using 2 f r1 assms(4) by simp
  qed
qed

lemma groups_in_use_traversal:
  assumes h: "hash_order_ok h"
  shows "recursive_threadgroup_traversal h n tg r = Some (Inr r') \<Longrightarrow> groups_in_use r \<Longrightarrow>
      tg \<in> {1..<next_threadgroup_id r} \<Longrightarrow> groups_in_use r'"
    and "traverse_next_threadgroups h n tgs r = Some (Inr r') \<Longrightarrow> groups_in_use r \<Longrightarrow>
      set tgs \<subseteq> {1..<next_threadgroup_id r} \<Longrightarrow> groups_in_use r'"
proof (induction n arbitrary: tg r r' tgs)
  case 0
  {
    case 1 then show ?case by simp
  next
    case 2 then show ?case by (cases tgs) auto
  }
next
  case (Suc n)
  show one: "recursive_threadgroup_traversal h (Suc n) tg r = Some (Inr r') \<Longrightarrow> groups_in_use r \<Longrightarrow>
      tg \<in> {1..<next_threadgroup_id r} \<Longrightarrow> groups_in_use r'" for tg r r'
  proof -
    assume a: "recursive_threadgroup_traversal h (Suc n) tg r = Some (Inr r')" "groups_in_use r"
      "tg \<in> {1..<next_threadgroup_id r}"
    then obtain r1 where r1: "count_threads h tg r = Inr r1"
      "traverse_next_threadgroups h n (ord_int h (tg_outgoing (threadgroup_adjacency_of tg r1))) r1 = Some (Inr r')"
      by (auto split: sum.splits)
    have "groups_in_use r1" using groups_in_use_count_threads [OF h r1(1)] a by blast
    with Suc(2) [OF r1(2)] h links_ok_adjacency_of(1) show ?thesis by (simp add: groups_in_use_def)
  qed
  show "traverse_next_threadgroups h (Suc n) tgs r = Some (Inr r') \<Longrightarrow> groups_in_use r \<Longrightarrow>
      set tgs \<subseteq> {1..<next_threadgroup_id r} \<Longrightarrow> groups_in_use r'" for tgs r r'
  proof (induction tgs arbitrary: r)
    case (Cons tg tgs)
    then obtain r1 where r1: "recursive_threadgroup_traversal h (Suc n) tg r = Some (Inr r1)"
      "traverse_next_threadgroups h (Suc n) tgs r1 = Some (Inr r')"
      by (auto split: option.splits sum.splits)
    have "groups_in_use r1" using one [OF r1(1)] Cons.prems by simp
    moreover have "next_threadgroup_id r1 = next_threadgroup_id r"
      using alloc_le_traversal(1) [OF r1(1)] by (simp add: alloc_le_def)
    ultimately show ?case using Cons.IH [OF r1(2)] Cons.prems by simp
  qed simp
qed

lemma groups_in_use_roots:
  assumes h: "hash_order_ok h"
  shows "traverse_root_threadgroups h n roots r = Some (Inr r') \<Longrightarrow> groups_in_use r \<Longrightarrow>
    fst ` set roots \<subseteq> {1..<next_threadgroup_id r} \<Longrightarrow> groups_in_use r'"
proof (induction roots arbitrary: r)
  case (Cons p roots)
  obtain tg a where p: "p = (tg, a)" by (cases p)
  have tg: "tg \<in> {1..<next_threadgroup_id r}" using Cons.prems(3) by (simp add: p)
  have t: "groups_in_use (touch_threadgroup tg r)" using groups_in_use_steps(2) [OF Cons.prems(2) tg] .
  have rec: "groups_in_use r1 \<and> next_threadgroup_id r1 = next_threadgroup_id r"
    if "recursive_threadgroup_traversal h n tg (touch_threadgroup tg r) = Some (Inr r1)" for r1
    using groups_in_use_traversal(1) [OF h that t] alloc_le_traversal(1) [OF that] tg by (simp add: alloc_le_def)
  show ?case
    using Cons rec t by (auto simp: p split: if_splits option.splits sum.splits)
qed simp

lemma groups_in_use_priorities:
  assumes "trav_inv (r, dm)"
  shows "groups_in_use (assign_priorities dm r)"
proof -
  have "um_ok (snd (fold assign_priority ids (c, m))) \<and> dom (map_of (snd (fold assign_priority ids (c, m)))) = dom (map_of m)"
    if "um_ok m" "set ids \<subseteq> dom (map_of m)" for ids c m
    using that
  proof (induction ids arbitrary: c m)
    case (Cons x ids)
    obtain c1 m1 where f: "assign_priority x (c, m) = (c1, m1)" by fastforce
    then have "um_ok m1" "dom (map_of m1) = dom (map_of m)"
      using Cons.prems by (auto simp: assign_priority_simp split: if_splits)
    with Cons f show ?case by simp
  qed simp
  from this [of "threadgroup_callback_map r" "concat (map snd dm)" 1] assms show ?thesis
    by (simp add: groups_in_use_def assign_priorities_def links_ok_def trav_inv_def reg_inv_def ids_ok_def
        deadlines_ok_def del: set_concat)
qed

lemma allocation_steps:
  assumes "hash_order_ok h" "make_registry h0 names groups ucs = Inr r"
    "callback_threadgroup_allocation h fuel r = Some (Inr (te, r'))"
  obtains r1 dm r3 where "cut_into_threadgroups h r = Some (Inr (r1, dm))" "trav_inv (r1, dm)" "reg_le r r1"
    "alloc_le r1 r3" "groups_in_use r3" "export_timing_information h r3 = Inr (te, r')"
proof -
  from assms(3) obtain r1 dm r3 where c: "cut_into_threadgroups h r = Some (Inr (r1, dm))"
    and t: "traverse_root_threadgroups h fuel (um_iter (ord_int h) (threadgroup_adjacency_list (assign_priorities dm r1)))
        (assign_priorities dm r1) = Some (Inr r3)"
    and e: "export_timing_information h r3 = Inr (te, r')"
    by (auto simp: callback_threadgroup_allocation_def Let_def split: option.splits sum.splits)
  note inv = cut_inv(1,2) [OF assms(1,2) c]
  have g: "groups_in_use (assign_priorities dm r1)" using inv(1) by (rule groups_in_use_priorities)
  have "fst ` set (um_iter (ord_int h) (threadgroup_adjacency_list (assign_priorities dm r1))) \<subseteq>
      {1..<next_threadgroup_id (assign_priorities dm r1)}"
    using g assms(1) by (force simp: groups_in_use_def links_ok_def)
  from groups_in_use_roots [OF assms(1) t g this] have "groups_in_use r3" .
  moreover have "alloc_le r1 r3"
    using alloc_le_assign_priorities alloc_le_root_traversal [OF t] by (rule alloc_le_trans)
  ultimately show ?thesis using that c inv e by blast
qed

text \<open>What a successful export holds, for the registry at that point.\<close>

lemma export_contents:
  assumes h: "hash_order_ok h" and e: "export_timing_information h r = Inr (te, r')"
    and na: "names_agree names r" and um: "um_ok (threadgroup_callback_map r)"
    and ids: "\<And>tg t. map_of (threadgroup_callback_map r) tg = Some t \<Longrightarrow> tgi_threadgroup_id t = tg"
  shows "\<And>name ci. map_of (callback_map r) name = Some ci \<Longrightarrow> ci_threadgroup_id ci \<noteq> 0 \<and>
      map_of (te_callback_handle_to_threadgroup_id te) (get_raw_pointer (ci_entity ci)) = Some (ci_threadgroup_id ci)"
    and "dom (map_of (te_callback_handle_to_threadgroup_id te)) =
      {get_raw_pointer (ci_entity ci) | name ci. map_of (callback_map r) name = Some ci}"
    and "map_of (te_threadgroup_attributes te) tg = map_option threadgroup_attributes (map_of (threadgroup_callback_map r) tg)"
    and "r' = empty_registry"
proof -
  let ?cs = "um_iter (ord_string h) (callback_map r)" and ?ts = "um_iter (ord_int h) (threadgroup_callback_map r)"
  obtain m where m: "for_each export_callback ?cs [] = Inr m" "te_callback_handle_to_threadgroup_id te = m"
    and a: "te_threadgroup_attributes te =
      fold (\<lambda>(_, t). um_emplace (tgi_threadgroup_id t) (threadgroup_attributes t)) ?ts []"
    and r': "r' = empty_registry"
    using e by (auto simp: export_timing_information_def Let_def split: sum.splits)
  have "inj_on handle_of (set ?cs)"
    using h names_agree_inj [OF na] by (fastforce simp: inj_on_def)
  note ex = export_callbacks [OF m(1) this]
  show c: "ci_threadgroup_id ci \<noteq> 0 \<and>
      map_of (te_callback_handle_to_threadgroup_id te) (get_raw_pointer (ci_entity ci)) = Some (ci_threadgroup_id ci)"
    if "map_of (callback_map r) name = Some ci" for name ci
    using ex that h m(2) by force
  show "dom (map_of (te_callback_handle_to_threadgroup_id te)) =
      {get_raw_pointer (ci_entity ci) | name ci. map_of (callback_map r) name = Some ci}"
  proof (intro equalityI subsetI)
    fix p assume "p \<in> dom (map_of (te_callback_handle_to_threadgroup_id te))"
    then have "p \<in> handle_of ` set ?cs" using ex m(2) by force
    then show "p \<in> {get_raw_pointer (ci_entity ci) | name ci. map_of (callback_map r) name = Some ci}"
      using h by force
  qed (use c in blast)
  have "distinct (map fst ?ts)"
    using um h by (simp add: map_fst_um_iter um_ok_def)
  moreover have "\<forall>p \<in> set ?ts. tgi_threadgroup_id (snd p) = fst p" using h ids by auto
  ultimately have "map_of (te_threadgroup_attributes te) tg = map_option threadgroup_attributes (map_of ?ts tg)" for tg
    using export_attributes [of ?ts "[]"] a by (simp add: map_add_def split: option.splits)
  moreover have "map_of ?ts tg = map_of (threadgroup_callback_map r) tg" for tg
  proof (rule option.exhaust [of "map_of (threadgroup_callback_map r) tg"])
    assume "map_of (threadgroup_callback_map r) tg = None"
    then show ?thesis using h by (auto simp: map_of_eq_None_iff [of ?ts])
  next
    fix t assume "map_of (threadgroup_callback_map r) tg = Some t"
    then show ?thesis using h \<open>distinct (map fst ?ts)\<close> by simp
  qed
  ultimately show "map_of (te_threadgroup_attributes te) tg =
    map_option threadgroup_attributes (map_of (threadgroup_callback_map r) tg)" by simp
  show "r' = empty_registry" by fact
qed

text \<open>What a successful allocation exports, for the registry it started from.\<close>

lemma allocation_export:
  assumes "hash_order_ok h" "make_registry h0 names groups ucs = Inr r"
    "callback_threadgroup_allocation h fuel r = Some (Inr (te, r'))"
  shows "\<And>name ci. map_of (callback_map r) name = Some ci \<Longrightarrow>
      \<exists>tg a. map_of (te_callback_handle_to_threadgroup_id te) (get_raw_pointer (ci_entity ci)) = Some tg \<and>
         map_of (te_threadgroup_attributes te) tg = Some a \<and>
         (cg_type (ci_callback_group ci) = MutuallyExclusive \<longrightarrow> tg_is_mutex_group a)"
    and "\<exists>n. dom (map_of (te_threadgroup_attributes te)) = {1..n}"
    and "\<And>tg a. map_of (te_threadgroup_attributes te) tg = Some a \<Longrightarrow> tg_id a = tg"
    and "dom (map_of (te_callback_handle_to_threadgroup_id te)) =
      {get_raw_pointer (ci_entity ci) | name ci. map_of (callback_map r) name = Some ci}"
    and "r' = empty_registry"
proof -
  obtain r1 dm r3 where s: "cut_into_threadgroups h r = Some (Inr (r1, dm))" "trav_inv (r1, dm)" "reg_le r r1"
    "alloc_le r1 r3" "groups_in_use r3" "export_timing_information h r3 = Inr (te, r')"
    using allocation_steps [OF assms] .
  have "names_agree names r1" using names_agree_le [OF s(3) make_registry_names_agree [OF assms(2)]] .
  then have na: "names_agree names r3" using s(4) by (simp add: names_agree_def alloc_le_def)
  have um: "um_ok (threadgroup_callback_map r3)" using s(5) by (simp add: groups_in_use_def)
  have dom: "dom (map_of (threadgroup_callback_map r3)) = dom (map_of (threadgroup_callback_map r1))"
    using s(2,4,5) by (simp add: groups_in_use_def trav_inv_def reg_inv_def ids_ok_def alloc_le_def)
  have ids: "tgi_threadgroup_id t = tg" "is_mutex_group t = is_mutex_group (threadgroup_of tg r1)"
    if t: "map_of (threadgroup_callback_map r3) tg = Some t" for tg t
  proof -
    obtain t1 where t1: "map_of (threadgroup_callback_map r1) tg = Some t1" using t dom by blast
    with s(4) t obtain p k where "t = t1\<lparr>fixed_priority := p, num_threads := k\<rparr>" by (fastforce simp: alloc_le_def)
    with s(2) t1 show "tgi_threadgroup_id t = tg" "is_mutex_group t = is_mutex_group (threadgroup_of tg r1)"
      by (simp_all add: trav_inv_def reg_inv_def ids_ok_def threadgroup_of_def)
  qed
  note ex = export_contents [OF assms(1) s(6) na um ids(1)]
  have cm: "callback_map r3 = callback_map r1" using s(4) by (simp add: alloc_le_def)
  show "\<exists>tg a. map_of (te_callback_handle_to_threadgroup_id te) (get_raw_pointer (ci_entity ci)) = Some tg \<and>
         map_of (te_threadgroup_attributes te) tg = Some a \<and>
         (cg_type (ci_callback_group ci) = MutuallyExclusive \<longrightarrow> tg_is_mutex_group a)"
    if ci: "map_of (callback_map r) name = Some ci" for name ci
  proof -
    obtain tg where c1: "map_of (callback_map r1) name = Some (ci\<lparr>ci_threadgroup_id := tg\<rparr>)"
      using s(3) ci unfolding reg_le_def by blast
    with ex(1) [of name] cm have tg: "tg \<noteq> 0"
      "map_of (te_callback_handle_to_threadgroup_id te) (get_raw_pointer (ci_entity ci)) = Some tg" by auto
    have "tg \<in> dom (map_of (threadgroup_callback_map r1))"
      using s(2) c1 tg(1) unfolding trav_inv_def reg_inv_def callbacks_ok_def ids_ok_def by fastforce
    then obtain t where t: "map_of (threadgroup_callback_map r3) tg = Some t" using dom by blast
    have "is_mutex_group t" if "cg_type (ci_callback_group ci) = MutuallyExclusive"
      using s(2) c1 tg(1) that ids(2) [OF t] unfolding trav_inv_def reg_inv_def mutex_ok_def by fastforce
    with t tg(2) ex(3) [of tg] show ?thesis by (auto simp: threadgroup_attributes_def)
  qed
  have "dom (map_of (te_threadgroup_attributes te)) = dom (map_of (threadgroup_callback_map r3))"
    using ex(3) by (auto simp: dom_def)
  also have "\<dots> = {1..next_threadgroup_id r3 - 1}" using s(5) by (auto simp: groups_in_use_def)
  finally show "\<exists>n. dom (map_of (te_threadgroup_attributes te)) = {1..n}" by blast
  show "tg_id a = tg" if "map_of (te_threadgroup_attributes te) tg = Some a" for tg a
    using that ex(3) [of tg] ids(1) by (auto simp: threadgroup_attributes_def)
  show "dom (map_of (te_callback_handle_to_threadgroup_id te)) =
      {get_raw_pointer (ci_entity ci) | name ci. map_of (callback_map r) name = Some ci}"
    using ex(2) cm reg_le_handles [OF s(3)] by simp
  show "r' = empty_registry" by (rule ex(4))
qed

text \<open>
  C16. The export is complete. When the allocation returns, every registered callback's raw handle is
  mapped to a thread group, that group has exported attributes under its own id, and these mark it
  as a mutex group when the callback's group is mutually exclusive; no other handles are exported,
  the exported thread groups are \<open>1\<close> to some \<open>n\<close>, and the registry is left empty.
\<close>

theorem allocation_exports_all:
  assumes "hash_order_ok h" "make_registry h0 names groups ucs = Inr r"
    "callback_threadgroup_allocation h fuel r = Some (Inr (te, r'))"
  shows "(\<forall>name ci. map_of (callback_map r) name = Some ci \<longrightarrow>
      (\<exists>tg a. map_of (te_callback_handle_to_threadgroup_id te) (get_raw_pointer (ci_entity ci)) = Some tg \<and>
         map_of (te_threadgroup_attributes te) tg = Some a \<and>
         (cg_type (ci_callback_group ci) = MutuallyExclusive \<longrightarrow> tg_is_mutex_group a))) \<and>
    (\<exists>n. dom (map_of (te_threadgroup_attributes te)) = {1..n}) \<and>
    (\<forall>tg a. map_of (te_threadgroup_attributes te) tg = Some a \<longrightarrow> tg_id a = tg) \<and>
    dom (map_of (te_callback_handle_to_threadgroup_id te)) =
      {get_raw_pointer (ci_entity ci) | name ci. map_of (callback_map r) name = Some ci} \<and>
    r' = empty_registry"
  using allocation_export [OF assms] by blast

definition demo_export :: TimingExport where
  "demo_export = fst (projr (the (callback_threadgroup_allocation insertion_order 5 demo_registry)))"

lemma demo_allocation:
  "callback_threadgroup_allocation insertion_order 5 demo_registry = Some (Inr (demo_export, empty_registry))"
  by code_simp

theorem allocation_exports_all_witness:
  "\<exists>tg a. map_of (te_callback_handle_to_threadgroup_id demo_export) 12 = Some tg \<and>
     map_of (te_threadgroup_attributes demo_export) tg = Some a \<and> tg_is_mutex_group a"
proof -
  let ?ci = "the (map_of (callback_map demo_registry) ''B'')"
  have "map_of (callback_map demo_registry) ''B'' = Some ?ci" "get_raw_pointer (ci_entity ?ci) = 12"
    "cg_type (ci_callback_group ?ci) = MutuallyExclusive"
    by code_simp+
  with allocation_exports_all [OF insertion_order_ok demo_make demo_allocation] show ?thesis by metis
qed

section \<open>Numbers of threads\<close>



text \<open>
  C33. The thread-group traversal returns when the graph of thread groups has no cycle: with a rank
  that falls along every edge, fuel above the rank of the start is enough.
\<close>

theorem thread_count_terminates:
  assumes "hash_order_ok h"
    and "\<forall>t t'. t' \<in> set (tg_outgoing (threadgroup_adjacency_of t r)) \<longrightarrow> rank t' < (rank t :: nat)"
    and "rank tg < n"
  shows "\<exists>res. recursive_threadgroup_traversal h n tg r = Some res"
proof -
  have "\<exists>res. recursive_threadgroup_traversal h n tg r' = Some res"
    if "rank tg < n" "alloc_le r r'" for n tg r'
    using that
  proof (induction n arbitrary: tg r')
    case (Suc n)
    have succs: "\<exists>res. traverse_next_threadgroups h n tgs r1 = Some res"
      if "alloc_le r r1" "\<forall>t \<in> set tgs. rank t < n" for tgs r1
      using that
    proof (induction tgs arbitrary: r1)
      case (Cons t tgs)
      from Suc.IH [of t r1] Cons.prems obtain res where
        res: "recursive_threadgroup_traversal h n t r1 = Some res" by auto
      show ?case
      proof (cases res)
        case (Inr r2)
        with res have "alloc_le r r2" using Cons.prems(1) alloc_le_traversal(1) alloc_le_trans by blast
        with Cons res Inr show ?thesis by simp
      qed (use res in simp)
    qed simp
    show ?case
    proof (cases "count_threads h tg r'")
      case (Inr r1)
      then have le: "alloc_le r r1" using Suc.prems(2) alloc_le_count_threads alloc_le_trans by blast
      then have "\<forall>t \<in> set (ord_int h (tg_outgoing (threadgroup_adjacency_of tg r1))). rank t < n"
        using assms(1,2) Suc.prems(1) by (fastforce simp: alloc_le_def)
      with succs [OF le] Inr show ?thesis by simp
    qed simp
  qed simp
  then show ?thesis using assms(3) by simp
qed

text \<open>The graph with the edges 1 to 2, 1 to 3 and 2 to 3.\<close>

definition demo_links :: CallbackRegistry where
  "demo_links = (fst demo_cut)\<lparr>threadgroup_adjacency_list :=
     [(1, \<lparr>tg_outgoing = [2, 3], tg_incoming = []\<rparr>), (2, \<lparr>tg_outgoing = [3], tg_incoming = [1]\<rparr>),
      (3, \<lparr>tg_outgoing = [], tg_incoming = [1, 2]\<rparr>)]\<rparr>"

theorem thread_count_terminates_witness:
  "\<exists>res. recursive_threadgroup_traversal reverse_order 3 1 demo_links = Some res"
proof (rule thread_count_terminates [of _ _ "\<lambda>t. nat (3 - t)"])
  show "\<forall>t t'. t' \<in> set (tg_outgoing (threadgroup_adjacency_of t demo_links)) \<longrightarrow> nat (3 - t') < nat (3 - t)"
    by (auto simp: demo_links_def threadgroup_adjacency_of_def um_get_def default_ThreadGroupAdjacencyInfo_def
        split: if_splits)
qed simp_all

text \<open>On a cycle of the graph the traversal never returns.\<close>

lemma cycle_never_returns:
  assumes "\<forall>t \<in> C. tg_indegree (threadgroup_adjacency_of t r) \<noteq> 0 \<and>
      (\<exists>t' \<in> C. ord_int h (tg_outgoing (threadgroup_adjacency_of t r)) = [t'])"
  shows "tg \<in> C \<Longrightarrow> alloc_le r r' \<Longrightarrow> recursive_threadgroup_traversal h n tg r' = None"
proof (induction n arbitrary: tg r')
  case (Suc n)
  have adj: "threadgroup_adjacency_of tg (set_num_threads tg 0 r') = threadgroup_adjacency_of tg r"
    using Suc.prems(2) alloc_le_set_num_threads [of r' tg 0] by (simp add: alloc_le_def)
  then obtain r1 where r1: "count_threads h tg r' = Inr r1"
    using assms Suc.prems(1) by (simp add: count_threads_def Let_def)
  have le: "alloc_le r r1" using alloc_le_trans [OF Suc.prems(2) alloc_le_count_threads [OF r1]] .
  then obtain t' where "t' \<in> C" "ord_int h (tg_outgoing (threadgroup_adjacency_of tg r1)) = [t']"
    using assms Suc.prems(1) by (auto simp: alloc_le_def)
  with Suc.IH [OF _ le] r1 show ?case by simp
qed simp

section \<open>Two inputs the allocation does not handle\<close>






definition loop_names :: registered_names where
  "loop_names = [(callback_entity (TimerPtr 31), ''A''), (callback_entity (TimerPtr 32), ''B''),
     (callback_entity (SubscriptionPtr 33), ''X''), (callback_entity (SubscriptionPtr 34), ''Y''),
     (callback_entity (SubscriptionPtr 35), ''Z'')]"

definition loop_groups :: weak_groups_to_nodes where
  "loop_groups =
     [(Some \<lparr>cg_addr = 1, cg_type = Reentrant, cg_can_be_taken_from = True,
         cg_ptrs = [TimerPtr 31, TimerPtr 32, SubscriptionPtr 34]\<rparr>, Some 5),
      (Some \<lparr>cg_addr = 2, cg_type = MutuallyExclusive, cg_can_be_taken_from = True,
         cg_ptrs = [SubscriptionPtr 33, SubscriptionPtr 35]\<rparr>, Some 5)]"

definition loop_chains :: "(string, userChain) umap" where
  "loop_chains = [(''x'', \<lparr>chain_name = ''x'', callbacks = [''A'', ''X'', ''Y'', ''Z''], deadline = 30, period = 10\<rparr>),
     (''y'', \<lparr>chain_name = ''y'', callbacks = [''B'', ''X'', ''Y'', ''Z''], deadline = 20, period = 10\<rparr>)]"

definition loop_registry :: CallbackRegistry where
  "loop_registry = projr (make_registry insertion_order loop_names loop_groups loop_chains)"

text \<open>
  C34. The thread-group recursion can run forever. Two timers \<open>A\<close> and \<open>B\<close> feed the acyclic path
  \<open>X, Y, Z\<close>, where \<open>X\<close> and \<open>Z\<close> share a mutually exclusive callback group and hence a thread group: the
  graph of thread groups then has a cycle, and no depth of recursion is enough, although the
  callback graph has none and every callback is registered.
\<close>

theorem thread_count_diverges:
  "make_registry insertion_order loop_names loop_groups loop_chains = Inr loop_registry \<and>
   callback_threadgroup_allocation insertion_order fuel loop_registry = None"
proof -
  define c where "c = projr (the (cut_into_threadgroups insertion_order loop_registry))"
  define r where "r = assign_priorities (snd c) (fst c)"
  have cut: "cut_into_threadgroups insertion_order loop_registry = Some (Inr (fst c, snd c))"
    unfolding c_def by code_simp
  have adj: "threadgroup_adjacency_of 1 r = \<lparr>tg_outgoing = [2], tg_incoming = []\<rparr>"
    "threadgroup_adjacency_of 2 r = \<lparr>tg_outgoing = [3], tg_incoming = [1, 3]\<rparr>"
    "threadgroup_adjacency_of 3 r = \<lparr>tg_outgoing = [2], tg_incoming = [2]\<rparr>"
    unfolding r_def c_def by code_simp+
  have "is_ok (count_threads insertion_order 1 (touch_threadgroup 1 r))"
    unfolding r_def c_def by code_simp
  then obtain r1 where cnt: "count_threads insertion_order 1 (touch_threadgroup 1 r) = Inr r1"
    by (metis is_ok.elims(2))
  obtain rest where iter: "um_iter (ord_int insertion_order) (threadgroup_adjacency_list r) =
      (1, \<lparr>tg_outgoing = [2], tg_incoming = []\<rparr>) # rest"
  proof
    show "um_iter (ord_int insertion_order) (threadgroup_adjacency_list r) =
      (1, \<lparr>tg_outgoing = [2], tg_incoming = []\<rparr>) # tl (um_iter (ord_int insertion_order) (threadgroup_adjacency_list r))"
      unfolding r_def c_def by code_simp
  qed
  have root: "\<not> is_mutex_group (threadgroup_of 1 r)" "tg_indegree \<lparr>tg_outgoing = [2], tg_incoming = []\<rparr> = 0"
    unfolding r_def c_def by code_simp+
  have deg: "tg_indegree \<lparr>tg_outgoing = [3], tg_incoming = [1, 3]\<rparr> \<noteq> 0"
    "tg_indegree \<lparr>tg_outgoing = [2], tg_incoming = [2]\<rparr> \<noteq> 0"
    by code_simp+
  have cyc: "\<forall>t \<in> {2, 3}. tg_indegree (threadgroup_adjacency_of t r) \<noteq> 0 \<and>
      (\<exists>t' \<in> {2, 3}. ord_int insertion_order (tg_outgoing (threadgroup_adjacency_of t r)) = [t'])"
    using deg by (simp add: adj insertion_order_def)
  have le: "alloc_le r r1"
    using alloc_le_trans [OF alloc_le_touch_threadgroup alloc_le_count_threads [OF cnt]] .
  then have "ord_int insertion_order (tg_outgoing (threadgroup_adjacency_of 1 r1)) = [2]"
    by (simp add: alloc_le_def adj insertion_order_def)
  then have "recursive_threadgroup_traversal insertion_order fuel 1 (touch_threadgroup 1 r) = None"
    using cycle_never_returns [OF cyc _ le, of 2] cnt by (cases fuel) auto
  then have "traverse_root_threadgroups insertion_order fuel
      (um_iter (ord_int insertion_order) (threadgroup_adjacency_list r)) r = None"
    unfolding iter using root by (simp only: traverse_root_threadgroups.simps option.case simp_thms if_True)
  then have "callback_threadgroup_allocation insertion_order fuel loop_registry = None"
    unfolding callback_threadgroup_allocation_def Let_def cut by (simp only: r_def option.case sum.case prod.case)
  moreover have "make_registry insertion_order loop_names loop_groups loop_chains = Inr loop_registry" by code_simp
  ultimately show ?thesis by simp
qed

end
