(* ===== verification/Memory_Strategy.thy ===== *)
theory Memory_Strategy
  imports Callback_Registry "HOL-Library.Sublist"
begin

text \<open>
  The memory strategy (\<open>rt_memory_strategy.hpp\<close>, \<open>rt_allocator_memory_strategy.hpp\<close>): the handles
  that the executor waits on, the wait set filled from them and pruned after the wait, and the ways
  to take ready entities, one at a time (\<open>get_next_\<close>) or all at once (\<open>take_ready_handles\<close>).

  Handles and entities are addresses, the null handle is 0. The rclcpp and rcl calls the code makes
  are fields of the parameter records \<open>rclcpp_api\<close> and \<open>wait_set_api\<close>. The vectors of handles are
  lists; a loop that erases while it iterates is a recursion over the list.
\<close>

section \<open>Parameters\<close>

text \<open>
  The accessors of rclcpp entities and the static lookups of \<open>rclcpp::memory_strategy::MemoryStrategy\<close>
  over the groups of the executor; a null pointer or \<open>None\<close> is a failed lookup. \<open>timer_call\<close> is what
  \<open>TimerBase::call\<close> returns: null when the timer was cancelled. The remaining fields are virtual
  functions of \<open>rclcpp::Waitable\<close>.
\<close>

record 'w rclcpp_api =
  subscription_handle :: "ptr \<Rightarrow> ptr"
  service_handle :: "ptr \<Rightarrow> ptr"
  client_handle :: "ptr \<Rightarrow> ptr"
  timer_handle :: "ptr \<Rightarrow> ptr"
  subscription_by_handle :: "ptr \<Rightarrow> weak_groups_to_nodes \<Rightarrow> ptr"
  service_by_handle :: "ptr \<Rightarrow> weak_groups_to_nodes \<Rightarrow> ptr"
  client_by_handle :: "ptr \<Rightarrow> weak_groups_to_nodes \<Rightarrow> ptr"
  timer_by_handle :: "ptr \<Rightarrow> weak_groups_to_nodes \<Rightarrow> ptr"
  group_by_entity :: "EntityVariant \<Rightarrow> weak_groups_to_nodes \<Rightarrow> callback_group option"
  node_by_group :: "callback_group \<Rightarrow> weak_groups_to_nodes \<Rightarrow> ptr"
  timer_call :: "ptr \<Rightarrow> bool"
  waitable_is_ready :: "ptr \<Rightarrow> 'w \<Rightarrow> bool"
  waitable_subscriptions :: "ptr \<Rightarrow> nat"
  waitable_services :: "ptr \<Rightarrow> nat"
  waitable_events :: "ptr \<Rightarrow> nat"
  waitable_clients :: "ptr \<Rightarrow> nat"
  waitable_guard_conditions :: "ptr \<Rightarrow> nat"
  waitable_timers :: "ptr \<Rightarrow> nat"

text \<open>
  The wait set of rcl. The arrays hold what \<open>rcl_wait\<close> left in them: null for an entity that is not
  ready. The \<open>add\<close> functions report whether they returned \<open>RCL_RET_OK\<close>; the two that have no return
  code throw instead.
\<close>

record 'w wait_set_api =
  ws_subscriptions :: "'w \<Rightarrow> ptr list"
  ws_services :: "'w \<Rightarrow> ptr list"
  ws_clients :: "'w \<Rightarrow> ptr list"
  ws_timers :: "'w \<Rightarrow> ptr list"
  add_subscription :: "ptr \<Rightarrow> 'w \<Rightarrow> bool \<times> 'w"
  add_client :: "ptr \<Rightarrow> 'w \<Rightarrow> bool \<times> 'w"
  add_service :: "ptr \<Rightarrow> 'w \<Rightarrow> bool \<times> 'w"
  add_timer :: "ptr \<Rightarrow> 'w \<Rightarrow> bool \<times> 'w"
  add_guard :: "ptr \<Rightarrow> 'w \<Rightarrow> 'w result"
  add_waitable :: "ptr \<Rightarrow> 'w \<Rightarrow> 'w result"

section \<open>State\<close>

record RTAllocatorMemoryStrategy =
  guard_conditions :: "ptr list"
  subscription_handles :: "ptr list"
  service_handles :: "ptr list"
  client_handles :: "ptr list"
  timer_handles :: "ptr list"
  waitable_handles :: "ptr list"

definition new_memory_strategy :: RTAllocatorMemoryStrategy where
  "new_memory_strategy = \<lparr>guard_conditions = [], subscription_handles = [], service_handles = [],
     client_handles = [], timer_handles = [], waitable_handles = []\<rparr>"

record AnyExecutable =
  ae_subscription :: ptr
  ae_timer :: ptr
  ae_service :: ptr
  ae_client :: ptr
  ae_waitable :: ptr
  ae_callback_group :: "callback_group option"
  ae_node_base :: ptr

definition new_any_executable :: AnyExecutable where
  "new_any_executable = \<lparr>ae_subscription = nullptr, ae_timer = nullptr, ae_service = nullptr,
     ae_client = nullptr, ae_waitable = nullptr, ae_callback_group = None, ae_node_base = nullptr\<rparr>"

section \<open>Guard conditions and handles\<close>

definition add_guard_condition :: "ptr \<Rightarrow> RTAllocatorMemoryStrategy \<Rightarrow> RTAllocatorMemoryStrategy" where
  "add_guard_condition g m =
     (if g \<in> set (guard_conditions m) then m
      else m\<lparr>guard_conditions := guard_conditions m @ [g]\<rparr>)"

definition remove_guard_condition :: "ptr \<Rightarrow> RTAllocatorMemoryStrategy \<Rightarrow> RTAllocatorMemoryStrategy" where
  "remove_guard_condition g m = m\<lparr>guard_conditions := remove1 g (guard_conditions m)\<rparr>"

definition clear_handles :: "RTAllocatorMemoryStrategy \<Rightarrow> RTAllocatorMemoryStrategy" where
  "clear_handles m = m\<lparr>subscription_handles := [], service_handles := [], client_handles := [],
     timer_handles := [], waitable_handles := []\<rparr>"

text \<open>\<open>for (i < handles.size()) if (!array[i]) handles[i].reset()\<close>: reading past the array is
  undefined.\<close>

fun reset_null :: "ptr list \<Rightarrow> ptr list \<Rightarrow> ptr list result" where
  "reset_null [] ws = Inr []"
| "reset_null (h # hs) [] = Inl (Undefined_behaviour ''wait set array index out of range'')"
| "reset_null (h # hs) (w # ws) =
     (case reset_null hs ws of
        Inl e \<Rightarrow> Inl e
      | Inr hs' \<Rightarrow> Inr ((if w = nullptr then nullptr else h) # hs'))"

fun reset_unready :: "('w, 'b) rclcpp_api_scheme \<Rightarrow> 'w \<Rightarrow> ptr list \<Rightarrow> ptr list result" where
  "reset_unready api w [] = Inr []"
| "reset_unready api w (h # hs) =
     (if h = nullptr then Inl (Undefined_behaviour ''call through a null waitable'')
      else case reset_unready api w hs of
        Inl e \<Rightarrow> Inl e
      | Inr hs' \<Rightarrow> Inr ((if waitable_is_ready api h w then h else nullptr) # hs'))"

definition erase_null :: "ptr list \<Rightarrow> ptr list" where
  "erase_null hs = filter (\<lambda>h. h \<noteq> nullptr) hs"

definition remove_null_handles ::
  "('w, 'b) rclcpp_api_scheme \<Rightarrow> ('w, 'c) wait_set_api_scheme \<Rightarrow> 'w \<Rightarrow> RTAllocatorMemoryStrategy \<Rightarrow>
     RTAllocatorMemoryStrategy result" where
  "remove_null_handles api wapi w m =
     (case reset_null (subscription_handles m) (ws_subscriptions wapi w) of Inl e \<Rightarrow> Inl e | Inr ss \<Rightarrow>
      case reset_null (service_handles m) (ws_services wapi w) of Inl e \<Rightarrow> Inl e | Inr sv \<Rightarrow>
      case reset_null (client_handles m) (ws_clients wapi w) of Inl e \<Rightarrow> Inl e | Inr cl \<Rightarrow>
      case reset_null (timer_handles m) (ws_timers wapi w) of Inl e \<Rightarrow> Inl e | Inr tm \<Rightarrow>
      case reset_unready api w (waitable_handles m) of Inl e \<Rightarrow> Inl e | Inr wt \<Rightarrow>
        Inr (m\<lparr>subscription_handles := erase_null ss, service_handles := erase_null sv,
          client_handles := erase_null cl, timer_handles := erase_null tm, waitable_handles := erase_null wt\<rparr>))"

section \<open>Collecting entities\<close>

text \<open>One call of the visitors that \<open>collect_all_ptrs\<close> makes.\<close>

fun collect_entity ::
  "('w, 'b) rclcpp_api_scheme \<Rightarrow> EntityVariant \<Rightarrow> RTAllocatorMemoryStrategy \<Rightarrow> RTAllocatorMemoryStrategy" where
  "collect_entity api (SubscriptionPtr p) m =
     m\<lparr>subscription_handles := subscription_handles m @ [subscription_handle api p]\<rparr>"
| "collect_entity api (ServicePtr p) m =
     m\<lparr>service_handles := service_handles m @ [service_handle api p]\<rparr>"
| "collect_entity api (ClientPtr p) m =
     m\<lparr>client_handles := client_handles m @ [client_handle api p]\<rparr>"
| "collect_entity api (TimerPtr p) m =
     m\<lparr>timer_handles := timer_handles m @ [timer_handle api p]\<rparr>"
| "collect_entity api (WaitablePtr p) m = m\<lparr>waitable_handles := waitable_handles m @ [p]\<rparr>"

fun collect_group ::
  "('w, 'b) rclcpp_api_scheme \<Rightarrow> callback_group option \<times> ptr option \<Rightarrow>
     bool \<times> RTAllocatorMemoryStrategy \<Rightarrow> bool \<times> RTAllocatorMemoryStrategy" where
  "collect_group api (Some grp, Some node) (invalid, m) =
     (invalid, if cg_can_be_taken_from grp then fold (collect_entity api) (cg_ptrs grp) m else m)"
| "collect_group api _ (invalid, m) = (True, m)"

definition collect_entities ::
  "('w, 'b) rclcpp_api_scheme \<Rightarrow> weak_groups_to_nodes \<Rightarrow> RTAllocatorMemoryStrategy \<Rightarrow>
     bool \<times> RTAllocatorMemoryStrategy" where
  "collect_entities api groups m = fold (collect_group api) groups (False, m)"

definition add_waitable_handle :: "ptr \<Rightarrow> RTAllocatorMemoryStrategy \<Rightarrow> RTAllocatorMemoryStrategy result" where
  "add_waitable_handle wt m =
     (if wt = nullptr then Inl (Runtime_error ''waitable object unexpectedly nullptr'')
      else Inr (m\<lparr>waitable_handles := waitable_handles m @ [wt]\<rparr>))"

section \<open>Filling the wait set\<close>

fun add_all :: "(ptr \<Rightarrow> 'w \<Rightarrow> bool \<times> 'w) \<Rightarrow> ptr list \<Rightarrow> 'w \<Rightarrow> bool \<times> 'w" where
  "add_all add [] w = (True, w)"
| "add_all add (h # hs) w = (case add h w of (ok, w') \<Rightarrow> if ok then add_all add hs w' else (False, w'))"

definition add_handles_to_wait_set ::
  "('w, 'c) wait_set_api_scheme \<Rightarrow> RTAllocatorMemoryStrategy \<Rightarrow> 'w \<Rightarrow> (bool \<times> 'w) result" where
  "add_handles_to_wait_set wapi m w0 =
     (case add_all (add_subscription wapi) (subscription_handles m) w0 of (ok1, w1) \<Rightarrow>
      if \<not> ok1 then Inr (False, w1) else
      case add_all (add_client wapi) (client_handles m) w1 of (ok2, w2) \<Rightarrow>
      if \<not> ok2 then Inr (False, w2) else
      case add_all (add_service wapi) (service_handles m) w2 of (ok3, w3) \<Rightarrow>
      if \<not> ok3 then Inr (False, w3) else
      case add_all (add_timer wapi) (timer_handles m) w3 of (ok4, w4) \<Rightarrow>
      if \<not> ok4 then Inr (False, w4) else
      case for_each (add_guard wapi) (guard_conditions m) w4 of Inl e \<Rightarrow> Inl e | Inr w5 \<Rightarrow>
      case for_each (add_waitable wapi) (waitable_handles m) w5 of Inl e \<Rightarrow> Inl e | Inr w6 \<Rightarrow>
        Inr (True, w6))"

section \<open>Taking one entity\<close>

text \<open>
  The scan that the five \<open>get_next_\<close> functions share. \<open>lookup\<close> finds the entity of a handle (null if
  there is none), \<open>find_group\<close> its group, \<open>usable\<close> is the extra test made for timers. Handles without
  entity or group are erased, handles that cannot be used now stay, the first other one is taken.
\<close>

fun scan_handles ::
  "(ptr \<Rightarrow> ptr) \<Rightarrow> (ptr \<Rightarrow> callback_group option) \<Rightarrow> (ptr \<Rightarrow> bool) \<Rightarrow> ptr list \<Rightarrow>
     (ptr \<times> callback_group) option \<times> ptr list" where
  "scan_handles lookup find_group usable [] = (None, [])"
| "scan_handles lookup find_group usable (h # hs) =
     (let e = lookup h
      in if e \<noteq> nullptr then
           (case find_group e of
              None \<Rightarrow> scan_handles lookup find_group usable hs
            | Some grp \<Rightarrow>
              if cg_can_be_taken_from grp \<and> usable e then (Some (e, grp), hs)
              else (case scan_handles lookup find_group usable hs of (found, hs') \<Rightarrow> (found, h # hs')))
         else scan_handles lookup find_group usable hs)"

definition get_next_subscription ::
  "('w, 'b) rclcpp_api_scheme \<Rightarrow> weak_groups_to_nodes \<Rightarrow> AnyExecutable \<times> RTAllocatorMemoryStrategy \<Rightarrow>
     AnyExecutable \<times> RTAllocatorMemoryStrategy" where
  "get_next_subscription api groups s =
     (case scan_handles (\<lambda>h. subscription_by_handle api h groups)
             (\<lambda>e. group_by_entity api (SubscriptionPtr e) groups) (\<lambda>_. True) (subscription_handles (snd s)) of
        (found, hs) \<Rightarrow>
          ((case found of
              None \<Rightarrow> fst s
            | Some (e, grp) \<Rightarrow> (fst s)\<lparr>ae_subscription := e, ae_callback_group := Some grp,
                ae_node_base := node_by_group api grp groups\<rparr>),
           (snd s)\<lparr>subscription_handles := hs\<rparr>))"

definition get_next_service ::
  "('w, 'b) rclcpp_api_scheme \<Rightarrow> weak_groups_to_nodes \<Rightarrow> AnyExecutable \<times> RTAllocatorMemoryStrategy \<Rightarrow>
     AnyExecutable \<times> RTAllocatorMemoryStrategy" where
  "get_next_service api groups s =
     (case scan_handles (\<lambda>h. service_by_handle api h groups)
             (\<lambda>e. group_by_entity api (ServicePtr e) groups) (\<lambda>_. True) (service_handles (snd s)) of
        (found, hs) \<Rightarrow>
          ((case found of
              None \<Rightarrow> fst s
            | Some (e, grp) \<Rightarrow> (fst s)\<lparr>ae_service := e, ae_callback_group := Some grp,
                ae_node_base := node_by_group api grp groups\<rparr>),
           (snd s)\<lparr>service_handles := hs\<rparr>))"

definition get_next_client ::
  "('w, 'b) rclcpp_api_scheme \<Rightarrow> weak_groups_to_nodes \<Rightarrow> AnyExecutable \<times> RTAllocatorMemoryStrategy \<Rightarrow>
     AnyExecutable \<times> RTAllocatorMemoryStrategy" where
  "get_next_client api groups s =
     (case scan_handles (\<lambda>h. client_by_handle api h groups)
             (\<lambda>e. group_by_entity api (ClientPtr e) groups) (\<lambda>_. True) (client_handles (snd s)) of
        (found, hs) \<Rightarrow>
          ((case found of
              None \<Rightarrow> fst s
            | Some (e, grp) \<Rightarrow> (fst s)\<lparr>ae_client := e, ae_callback_group := Some grp,
                ae_node_base := node_by_group api grp groups\<rparr>),
           (snd s)\<lparr>client_handles := hs\<rparr>))"

definition get_next_timer ::
  "('w, 'b) rclcpp_api_scheme \<Rightarrow> weak_groups_to_nodes \<Rightarrow> AnyExecutable \<times> RTAllocatorMemoryStrategy \<Rightarrow>
     AnyExecutable \<times> RTAllocatorMemoryStrategy" where
  "get_next_timer api groups s =
     (case scan_handles (\<lambda>h. timer_by_handle api h groups)
             (\<lambda>e. group_by_entity api (TimerPtr e) groups) (timer_call api) (timer_handles (snd s)) of
        (found, hs) \<Rightarrow>
          ((case found of
              None \<Rightarrow> fst s
            | Some (e, grp) \<Rightarrow> (fst s)\<lparr>ae_timer := e, ae_callback_group := Some grp,
                ae_node_base := node_by_group api grp groups\<rparr>),
           (snd s)\<lparr>timer_handles := hs\<rparr>))"

definition get_next_waitable ::
  "('w, 'b) rclcpp_api_scheme \<Rightarrow> weak_groups_to_nodes \<Rightarrow> AnyExecutable \<times> RTAllocatorMemoryStrategy \<Rightarrow>
     AnyExecutable \<times> RTAllocatorMemoryStrategy" where
  "get_next_waitable api groups s =
     (case scan_handles (\<lambda>h. h)
             (\<lambda>e. group_by_entity api (WaitablePtr e) groups) (\<lambda>_. True) (waitable_handles (snd s)) of
        (found, hs) \<Rightarrow>
          ((case found of
              None \<Rightarrow> fst s
            | Some (e, grp) \<Rightarrow> (fst s)\<lparr>ae_waitable := e, ae_callback_group := Some grp,
                ae_node_base := node_by_group api grp groups\<rparr>),
           (snd s)\<lparr>waitable_handles := hs\<rparr>))"

section \<open>Sizes of the wait set\<close>

definition number_of_ready_subscriptions :: "('w, 'b) rclcpp_api_scheme \<Rightarrow> RTAllocatorMemoryStrategy \<Rightarrow> nat" where
  "number_of_ready_subscriptions api m =
     fold (\<lambda>wt n. n + waitable_subscriptions api wt) (waitable_handles m) (length (subscription_handles m))"

definition number_of_ready_services :: "('w, 'b) rclcpp_api_scheme \<Rightarrow> RTAllocatorMemoryStrategy \<Rightarrow> nat" where
  "number_of_ready_services api m =
     fold (\<lambda>wt n. n + waitable_services api wt) (waitable_handles m) (length (service_handles m))"

definition number_of_ready_events :: "('w, 'b) rclcpp_api_scheme \<Rightarrow> RTAllocatorMemoryStrategy \<Rightarrow> nat" where
  "number_of_ready_events api m = fold (\<lambda>wt n. n + waitable_events api wt) (waitable_handles m) 0"

definition number_of_ready_clients :: "('w, 'b) rclcpp_api_scheme \<Rightarrow> RTAllocatorMemoryStrategy \<Rightarrow> nat" where
  "number_of_ready_clients api m =
     fold (\<lambda>wt n. n + waitable_clients api wt) (waitable_handles m) (length (client_handles m))"

definition number_of_guard_conditions :: "('w, 'b) rclcpp_api_scheme \<Rightarrow> RTAllocatorMemoryStrategy \<Rightarrow> nat" where
  "number_of_guard_conditions api m =
     fold (\<lambda>wt n. n + waitable_guard_conditions api wt) (waitable_handles m) (length (guard_conditions m))"

definition number_of_ready_timers :: "('w, 'b) rclcpp_api_scheme \<Rightarrow> RTAllocatorMemoryStrategy \<Rightarrow> nat" where
  "number_of_ready_timers api m =
     fold (\<lambda>wt n. n + waitable_timers api wt) (waitable_handles m) (length (timer_handles m))"

definition number_of_waitables :: "RTAllocatorMemoryStrategy \<Rightarrow> nat" where
  "number_of_waitables m = length (waitable_handles m)"

section \<open>Taking everything that is ready\<close>

text \<open>The two hash sets of ready handles and the two output vectors.\<close>

record ready_state =
  ready_subscription_handles :: "ptr uset"
  ready_timer_handles :: "ptr uset"
  ready_subscriptions :: "ptr list"
  ready_timers :: "ptr list"

definition ready_set :: "ptr list \<Rightarrow> ptr uset" where
  "ready_set hs = fold (\<lambda>h s. if h \<noteq> nullptr then us_insert h s else s) hs []"

fun take_ready_entity :: "('w, 'b) rclcpp_api_scheme \<Rightarrow> EntityVariant \<Rightarrow> ready_state \<Rightarrow> ready_state" where
  "take_ready_entity api (SubscriptionPtr p) s =
     (let h = subscription_handle api p
      in if ready_subscription_handles s = [] then s
         else if h \<noteq> nullptr \<and> h \<in> set (ready_subscription_handles s)
         then s\<lparr>ready_subscription_handles := remove1 h (ready_subscription_handles s),
                ready_subscriptions := ready_subscriptions s @ [p]\<rparr>
         else s)"
| "take_ready_entity api (TimerPtr p) s =
     (let h = timer_handle api p
      in if ready_timer_handles s = [] then s
         else if h \<noteq> nullptr \<and> h \<in> set (ready_timer_handles s)
         then s\<lparr>ready_timer_handles := remove1 h (ready_timer_handles s),
                ready_timers := ready_timers s @ [p]\<rparr>
         else s)"
| "take_ready_entity api (ServicePtr p) s = s"
| "take_ready_entity api (ClientPtr p) s = s"
| "take_ready_entity api (WaitablePtr p) s = s"

definition take_ready_group ::
  "('w, 'b) rclcpp_api_scheme \<Rightarrow> callback_group option \<times> ptr option \<Rightarrow> ready_state \<Rightarrow> ready_state" where
  "take_ready_group api pair s =
     (case fst pair of None \<Rightarrow> s | Some grp \<Rightarrow> fold (take_ready_entity api) (cg_ptrs grp) s)"

definition take_ready_handles ::
  "('w, 'b) rclcpp_api_scheme \<Rightarrow> weak_groups_to_nodes \<Rightarrow> RTAllocatorMemoryStrategy \<Rightarrow>
     (ptr list \<times> ptr list) \<times> RTAllocatorMemoryStrategy" where
  "take_ready_handles api groups m =
     (if subscription_handles m = [] \<and> timer_handles m = [] then (([], []), m)
      else
        (let rs = ready_set (subscription_handles m); rt = ready_set (timer_handles m);
             m' = m\<lparr>subscription_handles := [], timer_handles := []\<rparr>
         in if rs = [] \<and> rt = [] then (([], []), m')
            else
              (let s = fold (take_ready_group api) groups
                         \<lparr>ready_subscription_handles = rs, ready_timer_handles = rt,
                          ready_subscriptions = [], ready_timers = []\<rparr>
               in ((ready_subscriptions s, ready_timers s), m'))))"

section \<open>Lemmas on pruning\<close>

lemma reset_null_eq:
  "reset_null hs ws =
     (if length hs \<le> length ws then Inr (map (\<lambda>(h, w). if w = nullptr then nullptr else h) (zip hs ws))
      else Inl (Undefined_behaviour ''wait set array index out of range''))"
  by (induction hs ws rule: reset_null.induct) auto

lemma reset_unready_eq:
  "nullptr \<notin> set hs \<Longrightarrow>
   reset_unready api w hs = Inr (map (\<lambda>h. if waitable_is_ready api h w then h else nullptr) hs)"
  by (induction hs) auto

text \<open>The handles that survive, given the array that the wait left.\<close>

definition ready_of :: "ptr list \<Rightarrow> ptr list \<Rightarrow> ptr list" where
  "ready_of hs ws = map fst (filter (\<lambda>(h, w). h \<noteq> nullptr \<and> w \<noteq> nullptr) (zip hs ws))"

lemma erase_null_zip:
  "erase_null (map (\<lambda>(h, w). if w = nullptr then nullptr else h) (zip hs ws)) = ready_of hs ws"
  unfolding erase_null_def ready_of_def by (induction hs ws rule: list_induct2') auto

lemma erase_null_map:
  "nullptr \<notin> set hs \<Longrightarrow>
   erase_null (map (\<lambda>h. if P h then h else nullptr) hs) = filter P hs"
  unfolding erase_null_def by (induction hs) auto

text \<open>
  C32. Pruning after the wait. When the arrays of the wait set are at least as long as the handle vectors
  and no waitable is null, \<open>remove_null_handles\<close> returns, and keeps, in order, exactly the handles whose
  slot in the wait set is not null and the waitables that report ready; extra slots, which belong to
  waitables, do not matter. The guard conditions stay.
\<close>

theorem remove_null_handles_keeps_ready:
  assumes "length (subscription_handles m) \<le> length (ws_subscriptions wapi w)"
    "length (service_handles m) \<le> length (ws_services wapi w)"
    "length (client_handles m) \<le> length (ws_clients wapi w)"
    "length (timer_handles m) \<le> length (ws_timers wapi w)"
    "nullptr \<notin> set (waitable_handles m)"
  shows "remove_null_handles api wapi w m = Inr \<lparr>guard_conditions = guard_conditions m,
     subscription_handles = ready_of (subscription_handles m) (ws_subscriptions wapi w),
     service_handles = ready_of (service_handles m) (ws_services wapi w),
     client_handles = ready_of (client_handles m) (ws_clients wapi w),
     timer_handles = ready_of (timer_handles m) (ws_timers wapi w),
     waitable_handles = filter (\<lambda>h. waitable_is_ready api h w) (waitable_handles m)\<rparr>"
  using assms
  by (simp add: remove_null_handles_def reset_null_eq reset_unready_eq erase_null_zip erase_null_map)

section \<open>Lemmas on the scan\<close>

text \<open>How a handle fares in a scan: erased, left for later, or taken.\<close>

definition erased :: "(ptr \<Rightarrow> ptr) \<Rightarrow> (ptr \<Rightarrow> callback_group option) \<Rightarrow> ptr \<Rightarrow> bool" where
  "erased lookup find_group h \<longleftrightarrow> lookup h = nullptr \<or> find_group (lookup h) = None"

definition busy :: "(ptr \<Rightarrow> ptr) \<Rightarrow> (ptr \<Rightarrow> callback_group option) \<Rightarrow> (ptr \<Rightarrow> bool) \<Rightarrow> ptr \<Rightarrow> bool" where
  "busy lookup find_group usable h \<longleftrightarrow> lookup h \<noteq> nullptr \<and>
     (\<exists>grp. find_group (lookup h) = Some grp \<and> \<not> (cg_can_be_taken_from grp \<and> usable (lookup h)))"

definition takes_first ::
  "(ptr \<Rightarrow> ptr) \<Rightarrow> (ptr \<Rightarrow> callback_group option) \<Rightarrow> (ptr \<Rightarrow> bool) \<Rightarrow> ptr list \<Rightarrow>
     (ptr \<times> callback_group) option \<Rightarrow> ptr list \<Rightarrow> bool" where
  "takes_first lookup find_group usable hs found hs' \<longleftrightarrow>
   (case found of
      None \<Rightarrow> (\<forall>h \<in> set hs. erased lookup find_group h \<or> busy lookup find_group usable h) \<and>
        hs' = filter (busy lookup find_group usable) hs
    | Some (e, grp) \<Rightarrow> \<exists>pre h post. hs = pre @ h # post \<and>
        (\<forall>h \<in> set pre. erased lookup find_group h \<or> busy lookup find_group usable h) \<and>
        e = lookup h \<and> e \<noteq> nullptr \<and> find_group e = Some grp \<and> cg_can_be_taken_from grp \<and> usable e \<and>
        hs' = filter (busy lookup find_group usable) pre @ post)"

lemma scan_handles_spec:
  "scan_handles lookup find_group usable hs = (found, hs') \<Longrightarrow>
   takes_first lookup find_group usable hs found hs'"
proof (induction hs arbitrary: found hs')
  case (Cons h hs)
  have extend: "takes_first lookup find_group usable (h # hs) found
      (if busy lookup find_group usable h then h # hs1 else hs1)"
    if t: "takes_first lookup find_group usable hs found hs1"
      "erased lookup find_group h \<or> busy lookup find_group usable h" for hs1
  proof (cases found)
    case None
    with t show ?thesis by (auto simp: takes_first_def)
  next
    case (Some eg)
    obtain e grp where eg: "eg = (e, grp)" by (cases eg)
    with Some t(1) obtain pre h0 post where "hs = pre @ h0 # post"
      "\<forall>h \<in> set pre. erased lookup find_group h \<or> busy lookup find_group usable h"
      "e = lookup h0" "e \<noteq> nullptr" "find_group e = Some grp" "cg_can_be_taken_from grp" "usable e"
      "hs1 = filter (busy lookup find_group usable) pre @ post"
      by (auto simp: takes_first_def)
    with t(2) show ?thesis
      unfolding takes_first_def Some eg option.case prod.case
      by (intro exI [of _ "h # pre"] exI [of _ h0] exI [of _ post]) simp
  qed
  consider (er) "erased lookup find_group h" | (bu) "busy lookup find_group usable h"
    | (tk) grp where "lookup h \<noteq> nullptr" "find_group (lookup h) = Some grp" "cg_can_be_taken_from grp" "usable (lookup h)"
    unfolding erased_def busy_def by (metis not_None_eq)
  then show ?case
  proof cases
    case er
    then have nb: "\<not> busy lookup find_group usable h" by (auto simp: erased_def busy_def)
    have "scan_handles lookup find_group usable hs = (found, hs')"
      using er Cons.prems by (auto simp: erased_def Let_def split: if_splits)
    from extend [OF Cons.IH [OF this]] er nb show ?thesis by (simp add: takes_first_def)
  next
    case bu
    obtain hs1 where r: "scan_handles lookup find_group usable hs = (found, hs1)" "hs' = h # hs1"
      using bu Cons.prems by (auto simp: busy_def Let_def split: prod.splits)
    from extend [OF Cons.IH [OF r(1)]] bu r(2) show ?thesis by (simp add: takes_first_def)
  next
    case tk
    then have "found = Some (lookup h, grp)" "hs' = hs" using Cons.prems by auto
    with tk show ?thesis by (auto simp: takes_first_def intro!: exI [of _ "[]"])
  qed
qed (simp add: takes_first_def)

text \<open>
  \<open>get_next_timer\<close> takes the first timer handle that has an entity, a group that can be taken from,
  and a timer whose \<open>call\<close> does not report cancellation. Handles before it without entity or group
  are erased, the others before it and all handles after it stay; without such a handle the
  executable is unchanged. The other handle vectors are not touched.
\<close>

theorem get_next_timer_takes_first:
  "\<exists>found hs'. takes_first (\<lambda>h. timer_by_handle api h groups) (\<lambda>e. group_by_entity api (TimerPtr e) groups)
       (timer_call api) (timer_handles m) found hs' \<and>
     get_next_timer api groups (ex, m) =
       ((case found of None \<Rightarrow> ex
         | Some (e, grp) \<Rightarrow> ex\<lparr>ae_timer := e, ae_callback_group := Some grp,
             ae_node_base := node_by_group api grp groups\<rparr>), m\<lparr>timer_handles := hs'\<rparr>)"
proof -
  obtain found hs' where s: "scan_handles (\<lambda>h. timer_by_handle api h groups)
      (\<lambda>e. group_by_entity api (TimerPtr e) groups) (timer_call api) (timer_handles m) = (found, hs')"
    by fastforce
  show ?thesis by (intro exI [of _ found] exI [of _ hs'] conjI scan_handles_spec [OF s]) (simp add: get_next_timer_def s split: option.splits)
qed

text \<open>
  \<open>get_next_subscription\<close> in the same way; no further condition applies to a subscription.
\<close>

theorem get_next_subscription_takes_first:
  "\<exists>found hs'. takes_first (\<lambda>h. subscription_by_handle api h groups)
       (\<lambda>e. group_by_entity api (SubscriptionPtr e) groups) (\<lambda>_. True) (subscription_handles m) found hs' \<and>
     get_next_subscription api groups (ex, m) =
       ((case found of None \<Rightarrow> ex
         | Some (e, grp) \<Rightarrow> ex\<lparr>ae_subscription := e, ae_callback_group := Some grp,
             ae_node_base := node_by_group api grp groups\<rparr>), m\<lparr>subscription_handles := hs'\<rparr>)"
proof -
  obtain found hs' where s: "scan_handles (\<lambda>h. subscription_by_handle api h groups)
      (\<lambda>e. group_by_entity api (SubscriptionPtr e) groups) (\<lambda>_. True) (subscription_handles m) = (found, hs')"
    by fastforce
  show ?thesis by (intro exI [of _ found] exI [of _ hs'] conjI scan_handles_spec [OF s]) (simp add: get_next_subscription_def s split: option.splits)
qed

section \<open>Lemmas on taking everything\<close>

text \<open>One step on one kind of entity: the handle is struck from the set and the entity kept.\<close>

definition strike :: "('e \<Rightarrow> ptr) \<Rightarrow> 'e \<Rightarrow> ptr list \<times> 'e list \<Rightarrow> ptr list \<times> 'e list" where
  "strike h p s = (if h p \<in> set (fst s) then (remove1 (h p) (fst s), snd s @ [p]) else s)"

lemma strike_fold:
  assumes "distinct R"
  shows "\<exists>R' ys. fold (strike h) ps (R, out) = (R', out @ ys) \<and> distinct R' \<and> subseq ys ps \<and>
    distinct (map h ys) \<and> set (map h ys) = set R \<inter> h ` set ps \<and> set R' = set R - h ` set ps"
  using assms
proof (induction ps arbitrary: R out)
  case (Cons p ps)
  show ?case
  proof (cases "h p \<in> set R")
    case True
    from Cons.IH [of "remove1 (h p) R" "out @ [p]"] Cons.prems obtain R' ys where
      "fold (strike h) ps (remove1 (h p) R, out @ [p]) = (R', out @ p # ys)" "distinct R'" "subseq ys ps"
      "distinct (map h ys)" "set (map h ys) = (set R - {h p}) \<inter> h ` set ps" "set R' = set R - {h p} - h ` set ps"
      by auto
    with True show ?thesis by (intro exI [of _ R'] exI [of _ "p # ys"]) (auto simp: strike_def [of h p])
  next
    case False
    from Cons.IH [OF Cons.prems, of out] False show ?thesis
      by (auto simp: strike_def [of h p] intro: list_emb_Cons)
  qed
qed simp

definition entities_of :: "weak_groups_to_nodes \<Rightarrow> EntityVariant list" where
  "entities_of groups = concat (map (\<lambda>(g, _). case g of None \<Rightarrow> [] | Some grp \<Rightarrow> cg_ptrs grp) groups)"

definition subscriptions_in :: "EntityVariant list \<Rightarrow> ptr list" where
  "subscriptions_in es = List.map_filter (\<lambda>e. case e of SubscriptionPtr p \<Rightarrow> Some p | _ \<Rightarrow> None) es"

definition timers_in :: "EntityVariant list \<Rightarrow> ptr list" where
  "timers_in es = List.map_filter (\<lambda>e. case e of TimerPtr p \<Rightarrow> Some p | _ \<Rightarrow> None) es"

lemma fold_take_ready_group:
  "fold (take_ready_group api) groups s = fold (take_ready_entity api) (entities_of groups) s"
  by (induction groups arbitrary: s) (auto simp: entities_of_def take_ready_group_def split: option.splits)

lemma fold_take_ready_entity:
  assumes "nullptr \<notin> set (ready_subscription_handles s)" "nullptr \<notin> set (ready_timer_handles s)"
  shows "(ready_subscription_handles (fold (take_ready_entity api) es s), ready_subscriptions (fold (take_ready_entity api) es s)) =
      fold (strike (subscription_handle api)) (subscriptions_in es) (ready_subscription_handles s, ready_subscriptions s)"
    and "(ready_timer_handles (fold (take_ready_entity api) es s), ready_timers (fold (take_ready_entity api) es s)) =
      fold (strike (timer_handle api)) (timers_in es) (ready_timer_handles s, ready_timers s)"
proof -
  have "(ready_subscription_handles (fold (take_ready_entity api) es s), ready_subscriptions (fold (take_ready_entity api) es s)) =
      fold (strike (subscription_handle api)) (subscriptions_in es) (ready_subscription_handles s, ready_subscriptions s) \<and>
    (ready_timer_handles (fold (take_ready_entity api) es s), ready_timers (fold (take_ready_entity api) es s)) =
      fold (strike (timer_handle api)) (timers_in es) (ready_timer_handles s, ready_timers s)"
    using assms
  proof (induction es arbitrary: s)
    case (Cons e es)
    let ?s = "take_ready_entity api e s"
    have "nullptr \<notin> set (ready_subscription_handles ?s)" "nullptr \<notin> set (ready_timer_handles ?s)"
      using Cons.prems by (cases e; simp add: Let_def)+
    from Cons.IH [OF this] show ?case
    proof (cases e)
      case (SubscriptionPtr p)
      with Cons.IH [of ?s] Cons.prems show ?thesis
        by (auto simp: subscriptions_in_def timers_in_def List.map_filter_simps Let_def
            strike_def [of "subscription_handle api" p])
    next
      case (TimerPtr p)
      with Cons.IH [of ?s] Cons.prems show ?thesis
        by (auto simp: subscriptions_in_def timers_in_def List.map_filter_simps Let_def
            strike_def [of "timer_handle api" p])
    qed (simp_all add: subscriptions_in_def timers_in_def List.map_filter_simps)
  qed (simp add: subscriptions_in_def timers_in_def List.map_filter_simps)
  then show "(ready_subscription_handles (fold (take_ready_entity api) es s), ready_subscriptions (fold (take_ready_entity api) es s)) =
      fold (strike (subscription_handle api)) (subscriptions_in es) (ready_subscription_handles s, ready_subscriptions s)"
    and "(ready_timer_handles (fold (take_ready_entity api) es s), ready_timers (fold (take_ready_entity api) es s)) =
      fold (strike (timer_handle api)) (timers_in es) (ready_timer_handles s, ready_timers s)"
    by blast+
qed

lemma ready_set_props: "set (ready_set hs) = set hs - {nullptr}" "distinct (ready_set hs)"
proof -
  have "set (fold (\<lambda>h s. if h \<noteq> nullptr then us_insert h s else s) hs R) = set R \<union> (set hs - {nullptr})" for R
    by (induction hs arbitrary: R) auto
  then show "set (ready_set hs) = set hs - {nullptr}" by (simp add: ready_set_def)
  have "distinct R \<Longrightarrow> distinct (fold (\<lambda>h s. if h \<noteq> nullptr then us_insert h s else s) hs R)" for R
    by (induction hs arbitrary: R) auto
  then show "distinct (ready_set hs)" by (simp add: ready_set_def)
qed

definition exact_cover :: "(ptr \<Rightarrow> ptr) \<Rightarrow> ptr list \<Rightarrow> ptr list \<Rightarrow> ptr list \<Rightarrow> bool" where
  "exact_cover h handles known taken \<longleftrightarrow> subseq taken known \<and> distinct (map h taken) \<and>
     set (map h taken) = (set handles - {nullptr}) \<inter> h ` set known"

text \<open>
  C30. Taking all ready entities. The subscriptions returned are a subsequence of those of the live
  groups, in group order; no two have the same handle; and their handles are exactly the non-null
  ready handles that some subscription of a live group has. The same holds for timers.
  Afterwards both handle vectors are empty, and the other vectors are as before: each ready handle is handed
  out once, and no ready subscription or timer is lost.
\<close>

theorem take_ready_handles_exact:
  "case take_ready_handles api groups m of ((subs, timers), m') \<Rightarrow>
     exact_cover (subscription_handle api) (subscription_handles m) (subscriptions_in (entities_of groups)) subs \<and>
     exact_cover (timer_handle api) (timer_handles m) (timers_in (entities_of groups)) timers \<and>
     m' = m\<lparr>subscription_handles := [], timer_handles := []\<rparr>"
proof -
  let ?rs = "ready_set (subscription_handles m)" and ?rt = "ready_set (timer_handles m)"
  let ?es = "entities_of groups"
  let ?s0 = "\<lparr>ready_subscription_handles = ?rs, ready_timer_handles = ?rt, ready_subscriptions = [], ready_timers = []\<rparr>"
  have nz: "nullptr \<notin> set (ready_subscription_handles ?s0)" "nullptr \<notin> set (ready_timer_handles ?s0)"
    by (simp_all add: ready_set_props)
  have S: "exact_cover (subscription_handle api) (subscription_handles m) (subscriptions_in ?es)
      (ready_subscriptions (fold (take_ready_entity api) ?es ?s0))"
    using strike_fold [OF ready_set_props(2), of "subscription_handle api" "subscriptions_in ?es" "subscription_handles m" "[]"]
      fold_take_ready_entity(1) [OF nz, of api ?es]
    by (auto simp: exact_cover_def ready_set_props)
  have T: "exact_cover (timer_handle api) (timer_handles m) (timers_in ?es)
      (ready_timers (fold (take_ready_entity api) ?es ?s0))"
    using strike_fold [OF ready_set_props(2), of "timer_handle api" "timers_in ?es" "timer_handles m" "[]"]
      fold_take_ready_entity(2) [OF nz, of api ?es]
    by (auto simp: exact_cover_def ready_set_props)
  have none: "exact_cover h hs known []" if "ready_set hs = []" for h hs known
    using ready_set_props(1) [of hs] that by (auto simp: exact_cover_def)
  have nil: "ready_set [] = []" by (simp add: ready_set_def)
  show ?thesis
    using S T none nil by (auto simp: take_ready_handles_def Let_def fold_take_ready_group)
qed

section \<open>Guard conditions\<close>

text \<open>
  The guard conditions are a set kept as a vector. Adding one twice has no effect, adding and
  removing keep the vector free of duplicates, removing takes out the one copy, and removing a
  freshly added one restores the strategy.
\<close>

theorem guard_conditions_as_set:
  assumes "distinct (guard_conditions m)"
  shows "distinct (guard_conditions (add_guard_condition g m)) \<and>
    set (guard_conditions (add_guard_condition g m)) = insert g (set (guard_conditions m)) \<and>
    distinct (guard_conditions (remove_guard_condition g m)) \<and>
    set (guard_conditions (remove_guard_condition g m)) = set (guard_conditions m) - {g} \<and>
    add_guard_condition g (add_guard_condition g m) = add_guard_condition g m \<and>
    (g \<notin> set (guard_conditions m) \<longrightarrow> remove_guard_condition g (add_guard_condition g m) = m)"
  using assms by (auto simp: add_guard_condition_def remove_guard_condition_def remove1_append)

section \<open>The wait set between filling and pruning\<close>

text \<open>
  The documented behaviour of the rcl wait set that the strategy relies on: a successful \<open>add\<close> stores
  the entity behind those of its kind and leaves the others; guard conditions and waitables only add
  behind what is there.
\<close>

definition ws_arrays :: "('w, 'c) wait_set_api_scheme \<Rightarrow> 'w \<Rightarrow> ptr list list" where
  "ws_arrays wapi w = [ws_subscriptions wapi w, ws_services wapi w, ws_clients wapi w, ws_timers wapi w]"

definition wait_set_law :: "('w, 'c) wait_set_api_scheme \<Rightarrow> bool" where
  "wait_set_law wapi \<longleftrightarrow>
     (\<forall>h w w'. add_subscription wapi h w = (True, w') \<longrightarrow>
        ws_arrays wapi w' = (ws_arrays wapi w)[0 := ws_subscriptions wapi w @ [h]]) \<and>
     (\<forall>h w w'. add_service wapi h w = (True, w') \<longrightarrow>
        ws_arrays wapi w' = (ws_arrays wapi w)[1 := ws_services wapi w @ [h]]) \<and>
     (\<forall>h w w'. add_client wapi h w = (True, w') \<longrightarrow>
        ws_arrays wapi w' = (ws_arrays wapi w)[2 := ws_clients wapi w @ [h]]) \<and>
     (\<forall>h w w'. add_timer wapi h w = (True, w') \<longrightarrow>
        ws_arrays wapi w' = (ws_arrays wapi w)[3 := ws_timers wapi w @ [h]]) \<and>
     (\<forall>g w w'. add_guard wapi g w = Inr w' \<longrightarrow> list_all2 prefix (ws_arrays wapi w) (ws_arrays wapi w')) \<and>
     (\<forall>g w w'. add_waitable wapi g w = Inr w' \<longrightarrow> list_all2 prefix (ws_arrays wapi w) (ws_arrays wapi w'))"

lemma add_all_arrays:
  assumes "\<And>h w w'. add h w = (True, w') \<Longrightarrow> arrays w' = (arrays w)[i := arrays w ! i @ [h]]"
    and "add_all add hs w = (True, w')"
  shows "arrays w' = (arrays w)[i := arrays w ! i @ hs] \<or> hs = [] \<and> w' = w"
  using assms(2)
proof (induction hs arbitrary: w)
  case (Cons h hs)
  then obtain w1 where w1: "add h w = (True, w1)" "add_all add hs w1 = (True, w')"
    by (auto split: prod.splits if_splits)
  from Cons.IH [OF w1(2)] assms(1) [OF w1(1)] show ?case
    by (cases "i < length (arrays w)") (auto simp: list_update_beyond)
qed simp

lemma prefix_arrays_for_each:
  assumes "\<And>g w w'. f g w = Inr w' \<Longrightarrow> list_all2 prefix (arrays w) (arrays w')"
    and "for_each f gs w = Inr w'"
  shows "list_all2 prefix (arrays w) (arrays w')"
proof (rule for_each_invariant [OF assms(2), where P = "\<lambda>v. list_all2 prefix (arrays w) (arrays v)"])
  show "list_all2 prefix (arrays w) (arrays w)" by (simp add: list_all2_same)
next
  fix g u v assume "list_all2 prefix (arrays w) (arrays u)" "f g u = Inr v"
  with assms(1) show "list_all2 prefix (arrays w) (arrays v)"
    by (blast intro: list_all2_trans [of prefix prefix prefix] prefix_order.trans)
qed

text \<open>
  C31. Filling the wait set makes pruning safe. When \<open>add_handles_to_wait_set\<close> returns true on a cleared
  wait set, every handle vector is a prefix of its array of the wait set: the index loops of
  \<open>remove_null_handles\<close> stay inside the arrays, and slot \<open>i\<close> belongs to handle \<open>i\<close>.
\<close>

theorem filled_wait_set_matches_handles:
  assumes "wait_set_law wapi" "ws_arrays wapi w0 = [[], [], [], []]"
    and "add_handles_to_wait_set wapi m w0 = Inr (True, w)"
  shows "prefix (subscription_handles m) (ws_subscriptions wapi w) \<and> prefix (service_handles m) (ws_services wapi w) \<and>
    prefix (client_handles m) (ws_clients wapi w) \<and> prefix (timer_handles m) (ws_timers wapi w)"
proof -
  note law = assms(1) [unfolded wait_set_law_def]
  obtain w1 w2 w3 w4 w5 where
    a: "add_all (add_subscription wapi) (subscription_handles m) w0 = (True, w1)"
       "add_all (add_client wapi) (client_handles m) w1 = (True, w2)"
       "add_all (add_service wapi) (service_handles m) w2 = (True, w3)"
       "add_all (add_timer wapi) (timer_handles m) w3 = (True, w4)"
    and g: "for_each (add_guard wapi) (guard_conditions m) w4 = Inr w5"
       "for_each (add_waitable wapi) (waitable_handles m) w5 = Inr w"
    using assms(3) unfolding add_handles_to_wait_set_def
    by (auto split: prod.splits if_splits sum.splits)
  have A: "\<And>h v v'. add_subscription wapi h v = (True, v') \<Longrightarrow>
      ws_arrays wapi v' = (ws_arrays wapi v)[0 := ws_arrays wapi v ! 0 @ [h]]"
    "\<And>h v v'. add_client wapi h v = (True, v') \<Longrightarrow>
      ws_arrays wapi v' = (ws_arrays wapi v)[2 := ws_arrays wapi v ! 2 @ [h]]"
    "\<And>h v v'. add_service wapi h v = (True, v') \<Longrightarrow>
      ws_arrays wapi v' = (ws_arrays wapi v)[1 := ws_arrays wapi v ! 1 @ [h]]"
    "\<And>h v v'. add_timer wapi h v = (True, v') \<Longrightarrow>
      ws_arrays wapi v' = (ws_arrays wapi v)[3 := ws_arrays wapi v ! 3 @ [h]]"
    using law by (simp_all add: ws_arrays_def)
  have "ws_arrays wapi w4 = [subscription_handles m, service_handles m, client_handles m, timer_handles m]"
    using add_all_arrays [of _ "ws_arrays wapi", OF A(1) a(1)] add_all_arrays [of _ "ws_arrays wapi", OF A(2) a(2)]
      add_all_arrays [of _ "ws_arrays wapi", OF A(3) a(3)] add_all_arrays [of _ "ws_arrays wapi", OF A(4) a(4)] assms(2)
    by auto
  moreover have "list_all2 prefix (ws_arrays wapi w4) (ws_arrays wapi w)"
    using prefix_arrays_for_each [OF _ g(1), of "ws_arrays wapi"] prefix_arrays_for_each [OF _ g(2), of "ws_arrays wapi"] law
    by (blast intro: list_all2_trans [of prefix prefix prefix] prefix_order.trans)
  ultimately show ?thesis by (simp add: ws_arrays_def)
qed

section \<open>Examples\<close>

text \<open>A wait set that is the four arrays, and entities whose handle is their address plus 100.\<close>

type_synonym arrays = "ptr list \<times> ptr list \<times> ptr list \<times> ptr list"

definition array_wait_set :: "arrays wait_set_api" where
  "array_wait_set = \<lparr>ws_subscriptions = (\<lambda>(a, b, c, d). a), ws_services = (\<lambda>(a, b, c, d). b),
     ws_clients = (\<lambda>(a, b, c, d). c), ws_timers = (\<lambda>(a, b, c, d). d),
     add_subscription = (\<lambda>h (a, b, c, d). (True, (a @ [h], b, c, d))),
     add_client = (\<lambda>h (a, b, c, d). (True, (a, b, c @ [h], d))),
     add_service = (\<lambda>h (a, b, c, d). (True, (a, b @ [h], c, d))),
     add_timer = (\<lambda>h (a, b, c, d). (True, (a, b, c, d @ [h]))),
     add_guard = (\<lambda>g w. Inr w),
     add_waitable = (\<lambda>p (a, b, c, d). Inr (a @ [p], b, c, d))\<rparr>"

lemma array_wait_set_law: "wait_set_law array_wait_set"
  by (auto simp: wait_set_law_def array_wait_set_def ws_arrays_def)

definition demo_api :: "arrays rclcpp_api" where
  "demo_api = \<lparr>subscription_handle = (\<lambda>p. p + 100), service_handle = (\<lambda>p. p + 100),
     client_handle = (\<lambda>p. p + 100), timer_handle = (\<lambda>p. p + 100),
     subscription_by_handle = (\<lambda>h _. h - 100), service_by_handle = (\<lambda>h _. h - 100),
     client_by_handle = (\<lambda>h _. h - 100), timer_by_handle = (\<lambda>h _. h - 100),
     group_by_entity = (\<lambda>e groups. map_option (\<lambda>p. the (fst p))
       (List.find (\<lambda>p. fst p \<noteq> None \<and> e \<in> set (cg_ptrs (the (fst p)))) groups)),
     node_by_group = (\<lambda>_ _. 5), timer_call = (\<lambda>p. p \<noteq> 7),
     waitable_is_ready = (\<lambda>p (a, _). p \<in> set a), waitable_subscriptions = (\<lambda>_. 1),
     waitable_services = (\<lambda>_. 0), waitable_events = (\<lambda>_. 0), waitable_clients = (\<lambda>_. 0),
     waitable_guard_conditions = (\<lambda>_. 0), waitable_timers = (\<lambda>_. 0)\<rparr>"

definition demo_strategy :: RTAllocatorMemoryStrategy where
  "demo_strategy = \<lparr>guard_conditions = [1], subscription_handles = [111, 112], service_handles = [120],
     client_handles = [], timer_handles = [130, 131], waitable_handles = [40, 41]\<rparr>"

theorem remove_null_handles_keeps_ready_witness:
  "remove_null_handles demo_api array_wait_set ([111, 0, 40], [120], [], [0, 131]) demo_strategy =
     Inr \<lparr>guard_conditions = [1], subscription_handles = [111], service_handles = [120],
       client_handles = [], timer_handles = [131], waitable_handles = [40]\<rparr>"
  using remove_null_handles_keeps_ready [of demo_strategy array_wait_set "([111, 0, 40], [120], [], [0, 131])" demo_api]
  by (simp add: demo_strategy_def array_wait_set_def demo_api_def ready_of_def)

theorem guard_conditions_as_set_witness:
  "distinct (guard_conditions (add_guard_condition 2 demo_strategy)) \<and>
   remove_guard_condition 2 (add_guard_condition 2 demo_strategy) = demo_strategy"
  using guard_conditions_as_set [of demo_strategy 2] by (simp add: demo_strategy_def)

theorem filled_wait_set_matches_handles_witness:
  "prefix (subscription_handles demo_strategy)
     (ws_subscriptions array_wait_set ([111, 112, 40, 41], [120], [], [130, 131]))"
  using filled_wait_set_matches_handles [OF array_wait_set_law, of "([], [], [], [])" demo_strategy
      "([111, 112, 40, 41], [120], [], [130, 131])"]
  by (simp add: ws_arrays_def array_wait_set_def demo_strategy_def add_handles_to_wait_set_def)

end
