(* ===== verification/Bundles.thy ===== *)
theory Bundles
  imports Prelude
begin

text \<open>
  Bundled executables (\<open>bundled_executable.hpp\<close>, \<open>bundled_subscription.hpp/.cpp\<close>,
  \<open>bundled_timer.hpp/.cpp\<close>): taking a message or a timer tick and packing it with its entity into an
  object that a worker thread runs later.

  What rclcpp and rcl do is the parameter record \<open>bundle_env\<close>. Its answers may depend on what happened
  before, so every call is recorded as an event and the answers are functions of the events so far, newest last.
  Callbacks that users wrote are assumed to return.
\<close>

section \<open>The environment\<close>

datatype event =
    Took_loaned ptr ptr
  | Handled_loaned ptr ptr
  | Returned_loaned ptr ptr
  | Created_message ptr ptr
  | Took_message ptr ptr
  | Handled_message ptr ptr
  | Returned_message ptr ptr
  | Created_serialized ptr ptr
  | Took_serialized ptr ptr
  | Handled_serialized ptr ptr
  | Returned_serialized ptr ptr
  | Called_timer ptr
  | Executed_timer ptr
  | Logged_error

text \<open>Return codes, as far as the code tells them apart, and what a failed call throws:
  \<open>try_take\<close> catches \<open>rclcpp::exceptions::RCLError\<close> only.\<close>

datatype rcl_ret = RCL_RET_OK | RCL_RET_SUBSCRIPTION_TAKE_FAILED | RCL_RET_OTHER nat

datatype thrown = RCLError string | Other_exception exn

record 'i bundle_env =
  is_serialized :: "ptr \<Rightarrow> bool"
  can_loan_messages :: "ptr \<Rightarrow> bool"
  default_message_info :: 'i
  set_from_intra_process :: "bool \<Rightarrow> 'i \<Rightarrow> 'i"
  indeterminate_pointer :: "event list \<Rightarrow> ptr"
  rcl_take_loaned_message :: "event list \<Rightarrow> ptr \<Rightarrow> ptr \<Rightarrow> 'i \<Rightarrow> rcl_ret \<times> ptr \<times> 'i"
  throw_from_rcl_error :: "nat \<Rightarrow> thrown"
  rcl_return_loaned_message :: "event list \<Rightarrow> ptr \<Rightarrow> ptr \<Rightarrow> rcl_ret"
  create_message :: "event list \<Rightarrow> ptr \<Rightarrow> ptr"
  take_type_erased :: "event list \<Rightarrow> ptr \<Rightarrow> ptr \<Rightarrow> 'i \<Rightarrow> (thrown + bool) \<times> 'i"
  return_message :: "event list \<Rightarrow> ptr \<Rightarrow> ptr \<Rightarrow> ptr"
  create_serialized_message :: "event list \<Rightarrow> ptr \<Rightarrow> ptr"
  take_serialized :: "event list \<Rightarrow> ptr \<Rightarrow> ptr \<Rightarrow> 'i \<Rightarrow> (thrown + bool) \<times> 'i"
  return_serialized_message :: "event list \<Rightarrow> ptr \<Rightarrow> ptr \<Rightarrow> ptr"
  call_timer :: "event list \<Rightarrow> ptr \<Rightarrow> bool"

section \<open>Bundles\<close>

text \<open>The four classes derived from \<open>BundledExecutable\<close>, with the fields they hold.\<close>

record 'i BundledSubscription =
  subscription :: ptr
  message_info :: 'i

datatype 'i BundledExecutable =
    LoanedMsgSubscription "'i BundledSubscription" ptr
  | GenericMsgSubscription "'i BundledSubscription" ptr
  | SerializedMsgSubscription "'i BundledSubscription" ptr
  | BundledTimer ptr

definition bundled_subscription :: "('i, 'b) bundle_env_scheme \<Rightarrow> ptr \<Rightarrow> 'i BundledSubscription" where
  "bundled_subscription env sub =
     \<lparr>subscription = sub, message_info = set_from_intra_process env False (default_message_info env)\<rparr>"

fun get_raw_handle :: "'i BundledExecutable \<Rightarrow> ptr" where
  "get_raw_handle (LoanedMsgSubscription b _) = subscription b"
| "get_raw_handle (GenericMsgSubscription b _) = subscription b"
| "get_raw_handle (SerializedMsgSubscription b _) = subscription b"
| "get_raw_handle (BundledTimer t) = t"

text \<open>\<open>try_take\<close>: an \<open>RCLError\<close> is logged and dropped, and so is the value the taker returned.\<close>

definition try_take :: "thrown + bool \<Rightarrow> event list \<Rightarrow> unit result \<times> event list" where
  "try_take outcome tr =
     (case outcome of
        Inr _ \<Rightarrow> (Inr (), tr)
      | Inl (RCLError _) \<Rightarrow> (Inr (), tr @ [Logged_error])
      | Inl (Other_exception e) \<Rightarrow> (Inl e, tr))"

section \<open>Taking\<close>

definition loaned_take_action :: "('i, 'b) bundle_env_scheme \<Rightarrow> rcl_ret \<Rightarrow> thrown + bool" where
  "loaned_take_action env ret =
     (case ret of
        RCL_RET_SUBSCRIPTION_TAKE_FAILED \<Rightarrow> Inr False
      | RCL_RET_OK \<Rightarrow> Inr True
      | RCL_RET_OTHER n \<Rightarrow> Inl (throw_from_rcl_error env n))"

text \<open>The member \<open>loaned_msg\<close> is not initialised by the constructor; \<open>None\<close> stands for the null result.\<close>

definition loaned_take_and_bundle ::
  "('i, 'b) bundle_env_scheme \<Rightarrow> ptr \<Rightarrow> event list \<Rightarrow> 'i BundledExecutable option result \<times> event list" where
  "loaned_take_and_bundle env sub tr =
     (let b = bundled_subscription env sub;
          (ret, msg, info) = rcl_take_loaned_message env tr sub (indeterminate_pointer env tr) (message_info b);
          tr1 = tr @ [Took_loaned sub msg]
      in case try_take (loaned_take_action env ret) tr1 of
           (Inl e, tr2) \<Rightarrow> (Inl e, tr2)
         | (Inr _, tr2) \<Rightarrow>
             (Inr (if msg = nullptr then None
                   else Some (LoanedMsgSubscription (b\<lparr>message_info := info\<rparr>) msg)), tr2))"

definition generic_take_and_bundle ::
  "('i, 'b) bundle_env_scheme \<Rightarrow> ptr \<Rightarrow> event list \<Rightarrow> 'i BundledExecutable option result \<times> event list" where
  "generic_take_and_bundle env sub tr =
     (let b = bundled_subscription env sub;
          msg = create_message env tr sub;
          tr1 = tr @ [Created_message sub msg];
          (outcome, info) = take_type_erased env tr1 sub msg (message_info b)
      in case try_take outcome (tr1 @ [Took_message sub msg]) of
           (Inl e, tr2) \<Rightarrow> (Inl e, tr2)
         | (Inr _, tr2) \<Rightarrow>
             (Inr (if msg = nullptr then None
                   else Some (GenericMsgSubscription (b\<lparr>message_info := info\<rparr>) msg)), tr2))"

definition serialized_take_and_bundle ::
  "('i, 'b) bundle_env_scheme \<Rightarrow> ptr \<Rightarrow> event list \<Rightarrow> 'i BundledExecutable option result \<times> event list" where
  "serialized_take_and_bundle env sub tr =
     (let b = bundled_subscription env sub;
          msg = create_serialized_message env tr sub;
          tr1 = tr @ [Created_serialized sub msg]
      in if msg = nullptr then (Inl (Undefined_behaviour ''dereference of a null serialized message''), tr1)
         else
           (let (outcome, info) = take_serialized env tr1 sub msg (message_info b)
            in case try_take outcome (tr1 @ [Took_serialized sub msg]) of
                 (Inl e, tr2) \<Rightarrow> (Inl e, tr2)
               | (Inr _, tr2) \<Rightarrow>
                   (Inr (Some (SerializedMsgSubscription (b\<lparr>message_info := info\<rparr>) msg)), tr2)))"

definition take_and_bundle ::
  "('i, 'b) bundle_env_scheme \<Rightarrow> ptr \<Rightarrow> event list \<Rightarrow> 'i BundledExecutable option result \<times> event list" where
  "take_and_bundle env sub tr =
     (if \<not> is_serialized env sub then
        (if can_loan_messages env sub then loaned_take_and_bundle env sub tr
         else generic_take_and_bundle env sub tr)
      else serialized_take_and_bundle env sub tr)"

definition timer_take_and_bundle ::
  "('i, 'b) bundle_env_scheme \<Rightarrow> ptr \<Rightarrow> event list \<Rightarrow> 'i BundledExecutable option result \<times> event list" where
  "timer_take_and_bundle env t tr =
     (if \<not> call_timer env tr t then (Inr None, tr @ [Called_timer t])
      else (Inr (Some (BundledTimer t)), tr @ [Called_timer t]))"

section \<open>Running\<close>

text \<open>The test for null at the start of each \<open>run\<close> only logs; the run continues.\<close>

definition log_if_null :: "ptr \<Rightarrow> event list \<Rightarrow> event list" where
  "log_if_null msg tr = (if msg = nullptr then tr @ [Logged_error] else tr)"

definition run_loaned ::
  "('i, 'b) bundle_env_scheme \<Rightarrow> 'i BundledSubscription \<Rightarrow> ptr \<Rightarrow> event list \<Rightarrow> 'i BundledExecutable \<times> event list" where
  "run_loaned env b msg tr =
     (let sub = subscription b;
          tr1 = log_if_null msg tr @ [Handled_loaned sub msg];
          ret = rcl_return_loaned_message env tr1 sub msg;
          tr2 = tr1 @ [Returned_loaned sub msg]
      in (LoanedMsgSubscription b nullptr, if ret \<noteq> RCL_RET_OK then tr2 @ [Logged_error] else tr2))"

definition run_generic ::
  "('i, 'b) bundle_env_scheme \<Rightarrow> 'i BundledSubscription \<Rightarrow> ptr \<Rightarrow> event list \<Rightarrow> 'i BundledExecutable \<times> event list" where
  "run_generic env b msg tr =
     (let sub = subscription b;
          tr1 = log_if_null msg tr @ [Handled_message sub msg];
          msg' = return_message env tr1 sub msg
      in (GenericMsgSubscription b msg', tr1 @ [Returned_message sub msg]))"

definition run_serialized ::
  "('i, 'b) bundle_env_scheme \<Rightarrow> 'i BundledSubscription \<Rightarrow> ptr \<Rightarrow> event list \<Rightarrow> 'i BundledExecutable \<times> event list" where
  "run_serialized env b msg tr =
     (let sub = subscription b;
          tr1 = log_if_null msg tr @ [Handled_serialized sub msg];
          msg' = return_serialized_message env tr1 sub msg
      in (SerializedMsgSubscription b msg', tr1 @ [Returned_serialized sub msg]))"

definition run_timer :: "ptr \<Rightarrow> event list \<Rightarrow> 'i BundledExecutable \<times> event list" where
  "run_timer t tr = (BundledTimer t, tr @ [Executed_timer t])"

text \<open>The virtual call.\<close>

fun run :: "('i, 'b) bundle_env_scheme \<Rightarrow> 'i BundledExecutable \<Rightarrow> event list \<Rightarrow> 'i BundledExecutable \<times> event list" where
  "run env (LoanedMsgSubscription b msg) tr = run_loaned env b msg tr"
| "run env (GenericMsgSubscription b msg) tr = run_generic env b msg tr"
| "run env (SerializedMsgSubscription b msg) tr = run_serialized env b msg tr"
| "run env (BundledTimer t) tr = run_timer t tr"

lemmas run_defs = run_loaned_def run_generic_def run_serialized_def run_timer_def log_if_null_def Let_def

section \<open>Properties\<close>

lemmas take_defs = take_and_bundle_def loaned_take_and_bundle_def generic_take_and_bundle_def
  serialized_take_and_bundle_def timer_take_and_bundle_def try_take_def bundled_subscription_def Let_def

fun bundle_message :: "'i BundledExecutable \<Rightarrow> ptr" where
  "bundle_message (LoanedMsgSubscription _ m) = m"
| "bundle_message (GenericMsgSubscription _ m) = m"
| "bundle_message (SerializedMsgSubscription _ m) = m"
| "bundle_message (BundledTimer t) = t"

fun bundle_kind :: "'i BundledExecutable \<Rightarrow> bool \<times> bool" where
  "bundle_kind (LoanedMsgSubscription _ _) = (False, True)"
| "bundle_kind (GenericMsgSubscription _ _) = (False, False)"
| "bundle_kind (SerializedMsgSubscription _ _) = (True, False)"
| "bundle_kind (BundledTimer _) = (True, True)"

text \<open>
  A bundle made from a subscription identifies that subscription: its raw handle is the
  subscription's address, under which the executor looks up the thread group; its class follows
  \<open>is_serialized\<close> and \<open>can_loan_messages\<close>; and its message is not null.
\<close>

theorem bundle_identifies_subscription:
  assumes "take_and_bundle env sub tr = (Inr (Some b), tr')"
  shows "get_raw_handle b = sub \<and> bundle_message b \<noteq> nullptr \<and>
    bundle_kind b = (is_serialized env sub, \<not> is_serialized env sub \<and> can_loan_messages env sub)"
  using assms by (auto simp: take_defs split: prod.splits sum.splits if_splits thrown.splits)




text \<open>
  A failed take of a copied message still makes a bundle. When the message object could be
  allocated, \<open>GenericMsgSubscription\<close> returns a bundle whether the take succeeded, took nothing or
  raised an \<open>RCLError\<close>: the callback will run on a message that was never received.
\<close>

theorem generic_bundle_ignores_take:
  assumes "\<not> is_serialized env sub" "\<not> can_loan_messages env sub"
    and "create_message env tr sub = m" "m \<noteq> nullptr"
    and "take_type_erased env (tr @ [Created_message sub m]) sub m
      (set_from_intra_process env False (default_message_info env)) = (outcome, info)"
    and "\<forall>e. outcome \<noteq> Inl (Other_exception e)"
  shows "\<exists>tr'. take_and_bundle env sub tr =
    (Inr (Some (GenericMsgSubscription \<lparr>subscription = sub, message_info = info\<rparr> m)), tr')"
proof -
  have "\<exists>tr'. try_take outcome (tr @ [Created_message sub m, Took_message sub m]) = (Inr (), tr')"
    using assms(6) by (cases outcome; cases "projl outcome") (auto simp: try_take_def split: thrown.splits)
  with assms show ?thesis by (auto simp: take_and_bundle_def generic_take_and_bundle_def Let_def bundled_subscription_def)
qed

text \<open>
  A timer makes a bundle exactly when its \<open>call\<close> did not report that it was cancelled; the timer is
  called once either way, and the bundle carries the timer's address as handle.
\<close>

theorem timer_bundle_iff_called:
  "snd (timer_take_and_bundle env t tr) = tr @ [Called_timer t] \<and>
   (fst (timer_take_and_bundle env t tr) =
     Inr (if call_timer env tr t then Some (BundledTimer t) else None)) \<and>
   get_raw_handle (BundledTimer t :: 'i BundledExecutable) = t"
  by (simp add: timer_take_and_bundle_def)

text \<open>
  Running a loaned bundle a second time is logged but not stopped: the subscription's handler
  is called again, with a null message, which is then returned to the middleware.
\<close>

theorem loaned_run_twice_handles_null:
  "\<exists>tr'. snd (run env (fst (run env (LoanedMsgSubscription b m) tr)) tr1) =
     tr1 @ [Logged_error, Handled_loaned (subscription b) nullptr, Returned_loaned (subscription b) nullptr] @ tr'"
  by (auto simp: run_defs)

section \<open>An example environment\<close>

text \<open>Subscription 1 loans its messages, 2 copies them, 3 hands out serialized ones; the take from
  a copying subscription fails.\<close>

definition demo_env :: "bool bundle_env" where
  "demo_env = \<lparr>is_serialized = (\<lambda>p. p = 3), can_loan_messages = (\<lambda>p. p = 1),
     default_message_info = True, set_from_intra_process = (\<lambda>b _. b),
     indeterminate_pointer = (\<lambda>_. 0),
     rcl_take_loaned_message = (\<lambda>tr p _ i. (RCL_RET_OK, 50 + length tr, i)),
     throw_from_rcl_error = (\<lambda>_. RCLError []),
     rcl_return_loaned_message = (\<lambda>_ _ _. RCL_RET_OK),
     create_message = (\<lambda>tr _. 60 + length tr),
     take_type_erased = (\<lambda>_ _ _ i. (Inr False, i)),
     return_message = (\<lambda>_ _ m. m),
     create_serialized_message = (\<lambda>tr _. 70 + length tr),
     take_serialized = (\<lambda>_ _ _ i. (Inr True, i)),
     return_serialized_message = (\<lambda>_ _ m. m),
     call_timer = (\<lambda>_ t. t \<noteq> 9)\<rparr>"

theorem bundle_identifies_subscription_witness:
  "get_raw_handle (SerializedMsgSubscription \<lparr>subscription = 3, message_info = False\<rparr> 70) = 3 \<and>
   bundle_kind (SerializedMsgSubscription \<lparr>subscription = 3, message_info = False\<rparr> 70) = (is_serialized demo_env 3, False)"
proof -
  have "take_and_bundle demo_env 3 [] =
    (Inr (Some (SerializedMsgSubscription \<lparr>subscription = 3, message_info = False\<rparr> 70)),
     [Created_serialized 3 70, Took_serialized 3 70])"
    by (simp add: take_defs demo_env_def)
  from bundle_identifies_subscription [OF this] show ?thesis by (simp add: demo_env_def)
qed


theorem generic_bundle_ignores_take_witness:
  "\<exists>tr'. take_and_bundle demo_env 2 [] =
    (Inr (Some (GenericMsgSubscription \<lparr>subscription = 2, message_info = False\<rparr> 60)), tr')"
  by (rule generic_bundle_ignores_take [where outcome = "Inr False"]) (simp_all add: demo_env_def)

end
