(* ===== verification/Worker_Group.thy ===== *)
theory Worker_Group
  imports Prelude
begin

text \<open>
  Worker groups (\<open>worker_group.hpp\<close>, \<open>worker_group.cpp\<close>): a group of threads at one fixed priority that
  run the bundles the dispatcher queues for it; a \<open>MutexGroup\<close> has one thread and raises its priority
  while more than one bundle is pending.

  A thread's program counter names the next access to shared state, and every such access is one
  step: acquiring the semaphore, reading the stop flags, an operation of the ready queue, an atomic
  load, store or addition, setting a thread's priority. The dispatcher is the other thread that works on the
  group: it queues bundles (the part of \<open>populate_ready_queues\<close> that concerns one group) and
  destroys the group. Steps of the threads interleave freely.

  The ready queue is a parameter, the operations of \<open>queue_ops\<close> on a state of any type; what the
  group relies on is the locale \<open>work_queue\<close>, which \<open>Ready_Queue\<close> interprets on the model of
  \<open>concurrentqueue.h\<close>. Threads are spawned by the constructor; that \<open>pthread_setschedparam\<close> can be
  refused is left out, so \<open>thread_prio\<close> is the priority last asked for. \<open>_SEM_SPIN_NS\<close> is defined
  empty, so the spin period is zero and the waits before \<open>acquire\<close> and between dequeues take no time.
\<close>

section \<open>Data\<close>

record ('q, 'e) queue_ops =
  q_enqueue_bulk :: "'e list \<Rightarrow> 'q \<Rightarrow> bool \<times> 'q"
  q_try_dequeue :: "'q \<Rightarrow> 'e option \<times> 'q"

definition MAX_FIFO_PRIO :: int where
  "MAX_FIFO_PRIO = 99"

text \<open>The next access of \<open>MutexGroup::update_prio\<close>.\<close>

datatype prio_pc = Load_pending | Compare_boosted bool | Set_prio bool | Store_boosted bool

text \<open>A worker thread; \<open>Popping k\<close> has \<open>k\<close> failed attempts. \<open>Terminated\<close> is an exception that leaves
  the thread's function. A null \<open>unique_ptr\<close> is \<open>None\<close>.\<close>

datatype 'b worker_pc =
    Waiting
  | Acquired
  | Popping nat
  | Popped "'b option"
  | Ran
  | Updating prio_pc
  | Stopped
  | Terminated exn

record ('q, 'b) WorkerGroup =
  priority :: int
  is_mutex :: bool
  thread_prio :: "int list"
  semaphore :: nat
  queue :: 'q
  num_pending :: int
  is_boosted :: bool
  executed :: "'b list"

text \<open>The dispatcher in its work on the group; the number is the size of the batch it queued.\<close>

datatype dispatcher_pc =
    D_idle
  | D_queued nat
  | D_counted nat
  | D_updating prio_pc nat
  | D_release nat
  | D_joining
  | D_done
  | D_terminated exn

section \<open>Construction\<close>

definition make_group :: "int \<Rightarrow> int \<Rightarrow> 'q \<Rightarrow> ('q, 'b) WorkerGroup \<times> 'b worker_pc list" where
  "make_group prio number_of_threads q =
     (\<lparr>priority = prio, is_mutex = False, thread_prio = replicate (nat number_of_threads) prio, semaphore = 0,
       queue = q, num_pending = 0, is_boosted = False, executed = []\<rparr>,
      replicate (nat number_of_threads) Waiting)"

definition make_mutex_group :: "int \<Rightarrow> 'q \<Rightarrow> ('q, 'b) WorkerGroup \<times> 'b worker_pc list" where
  "make_mutex_group prio q =
     (case make_group prio 1 q of (g, ws) \<Rightarrow> (g\<lparr>is_mutex := True, is_boosted := False\<rparr>, ws))"

section \<open>Priority updates\<close>

text \<open>One access of \<open>MutexGroup::update_prio\<close>: the exception, or the next access, \<open>None\<close> when it returns.\<close>

fun prio_step :: "prio_pc \<Rightarrow> ('q, 'b) WorkerGroup \<Rightarrow> prio_pc option result \<times> ('q, 'b) WorkerGroup" where
  "prio_step Load_pending g = (Inr (Some (Compare_boosted (num_pending g > 1))), g)"
| "prio_step (Compare_boosted should_boost) g =
     (if should_boost = is_boosted g then (Inr None, g)
      else if length (thread_prio g) \<noteq> 1
      then (Inl (Runtime_error ''MutexGroup with multiple threads- invalid state''), g)
      else (Inr (Some (Set_prio should_boost)), g))"
| "prio_step (Set_prio should_boost) g =
     (Inr (Some (Store_boosted should_boost)),
      g\<lparr>thread_prio := [if should_boost then MAX_FIFO_PRIO else priority g]\<rparr>)"
| "prio_step (Store_boosted should_boost) g = (Inr None, g\<lparr>is_boosted := should_boost\<rparr>)"

text \<open>The virtual call, run without interruption.\<close>

definition update_prio :: "('q, 'b) WorkerGroup \<Rightarrow> ('q, 'b) WorkerGroup result" where
  "update_prio g =
     (if \<not> is_mutex g then Inr g
      else
        (let should_boost = num_pending g > 1
         in if should_boost = is_boosted g then Inr g
            else if length (thread_prio g) \<noteq> 1
            then Inl (Runtime_error ''MutexGroup with multiple threads- invalid state'')
            else if should_boost then Inr (g\<lparr>thread_prio := [MAX_FIFO_PRIO], is_boosted := True\<rparr>)
            else Inr (g\<lparr>thread_prio := [priority g], is_boosted := False\<rparr>)))"

section \<open>Workers\<close>

text \<open>
  One access of \<open>worker_main\<close>; \<open>None\<close> when the thread is blocked on the semaphore or has ended.
  \<open>running\<close> is \<open>rclcpp::ok(exec_context) && exec_spinning\<close>. A \<open>WorkerGroup\<close>'s own \<open>update_prio\<close> is empty.
\<close>

fun worker_step ::
  "('q, 'b option) queue_ops \<Rightarrow> bool \<Rightarrow> 'b worker_pc \<Rightarrow> ('q, 'b) WorkerGroup \<Rightarrow>
     ('b worker_pc \<times> ('q, 'b) WorkerGroup) option" where
  "worker_step ops running Waiting g =
     (if semaphore g = 0 then None else Some (Acquired, g\<lparr>semaphore := semaphore g - 1\<rparr>))"
| "worker_step ops running Acquired g = Some (if running then Popping 0 else Stopped, g)"
| "worker_step ops running (Popping failed_attempts) g =
     (case q_try_dequeue ops (queue g) of
        (Some exec, q) \<Rightarrow> Some (Popped exec, g\<lparr>queue := q\<rparr>)
      | (None, q) \<Rightarrow>
          Some (if failed_attempts > 10 then Terminated (Runtime_error ''Ready Q state invalid'')
                else Popping (failed_attempts + 1), g\<lparr>queue := q\<rparr>))"
| "worker_step ops running (Popped None) g = Some (Terminated (Runtime_error ''Ready Q state invalid''), g)"
| "worker_step ops running (Popped (Some exec)) g = Some (Ran, g\<lparr>executed := executed g @ [exec]\<rparr>)"
| "worker_step ops running Ran g =
     Some (if is_mutex g then Updating Load_pending else Waiting, g\<lparr>num_pending := num_pending g - 1\<rparr>)"
| "worker_step ops running (Updating pc) g =
     (case prio_step pc g of
        (Inl e, g') \<Rightarrow> Some (Terminated e, g')
      | (Inr None, g') \<Rightarrow> Some (Waiting, g')
      | (Inr (Some pc'), g') \<Rightarrow> Some (Updating pc', g'))"
| "worker_step ops running Stopped g = None"
| "worker_step ops running (Terminated e) g = None"

section \<open>The dispatcher\<close>

text \<open>Queueing a batch for the group: \<open>enqueue_bulk\<close>, then one access at a time.\<close>

definition dispatch ::
  "('q, 'b option) queue_ops \<Rightarrow> 'b list \<Rightarrow> ('q, 'b) WorkerGroup \<Rightarrow> dispatcher_pc \<times> ('q, 'b) WorkerGroup" where
  "dispatch ops bundles g =
     (case q_enqueue_bulk ops (map Some bundles) (queue g) of
        (ok, q) \<Rightarrow>
          (if ok then D_queued (length bundles)
           else D_terminated (Runtime_error ''Failed to enqueue ready bundles to worker group (out of memory)''),
           g\<lparr>queue := q\<rparr>))"

fun dispatcher_step :: "dispatcher_pc \<Rightarrow> ('q, 'b) WorkerGroup \<Rightarrow> (dispatcher_pc \<times> ('q, 'b) WorkerGroup) option" where
  "dispatcher_step (D_queued n) g = Some (D_counted n, g\<lparr>num_pending := num_pending g + int n\<rparr>)"
| "dispatcher_step (D_counted n) g = Some (if is_mutex g then D_updating Load_pending n else D_release n, g)"
| "dispatcher_step (D_updating pc n) g =
     (case prio_step pc g of
        (Inl e, g') \<Rightarrow> Some (D_terminated e, g')
      | (Inr None, g') \<Rightarrow> Some (D_release n, g')
      | (Inr (Some pc'), g') \<Rightarrow> Some (D_updating pc' n, g'))"
| "dispatcher_step (D_release n) g = Some (D_idle, g\<lparr>semaphore := semaphore g + n\<rparr>)"
| "dispatcher_step _ g = None"

text \<open>The destructor: one permit per thread, then \<open>join\<close> on each.\<close>

definition destroy :: "('q, 'b) WorkerGroup \<Rightarrow> dispatcher_pc \<times> ('q, 'b) WorkerGroup" where
  "destroy g = (D_joining, g\<lparr>semaphore := semaphore g + length (thread_prio g)\<rparr>)"

section \<open>The group as a transition system\<close>

record ('q, 'b) group_sys =
  grp :: "('q, 'b) WorkerGroup"
  workers :: "'b worker_pc list"
  dispatcher :: dispatcher_pc
  running :: bool

inductive group_step ::
  "('q, 'b option) queue_ops \<Rightarrow> ('q, 'b) group_sys \<Rightarrow> ('q, 'b) group_sys \<Rightarrow> bool" for ops where
  worker: "i < length (workers s) \<Longrightarrow> worker_step ops (running s) (workers s ! i) (grp s) = Some (pc, g) \<Longrightarrow>
     group_step ops s (s\<lparr>workers := (workers s)[i := pc], grp := g\<rparr>)"
| dispatch: "dispatcher s = D_idle \<Longrightarrow> length bundles \<le> VECTOR_MAX \<Longrightarrow> dispatch ops bundles (grp s) = (d, g) \<Longrightarrow>
     group_step ops s (s\<lparr>dispatcher := d, grp := g\<rparr>)"
| dispatcher: "dispatcher_step (dispatcher s) (grp s) = Some (d, g) \<Longrightarrow>
     group_step ops s (s\<lparr>dispatcher := d, grp := g\<rparr>)"
| stop: "group_step ops s (s\<lparr>running := False\<rparr>)"
| destroy: "dispatcher s = D_idle \<or> (\<exists>e. dispatcher s = D_terminated e) \<Longrightarrow> \<not> running s \<Longrightarrow> destroy (grp s) = (d, g) \<Longrightarrow>
     group_step ops s (s\<lparr>dispatcher := d, grp := g\<rparr>)"
| join: "dispatcher s = D_joining \<Longrightarrow> \<forall>pc \<in> set (workers s). pc = Stopped \<Longrightarrow>
     group_step ops s (s\<lparr>dispatcher := D_done\<rparr>)"

definition start_group :: "('q, 'b) WorkerGroup \<times> 'b worker_pc list \<Rightarrow> ('q, 'b) group_sys" where
  "start_group gw = \<lparr>grp = fst gw, workers = snd gw, dispatcher = D_idle, running = True\<rparr>"

section \<open>What the group relies on\<close>

locale work_queue =
  fixes ops :: "('q, 'b option) queue_ops" and queue_ok :: "'q \<Rightarrow> bool" and contents :: "'q \<Rightarrow> 'b option multiset"
  assumes enqueue_ok: "queue_ok q \<Longrightarrow> length xs \<le> VECTOR_MAX \<Longrightarrow> q_enqueue_bulk ops xs q = (b, q') \<Longrightarrow> queue_ok q'"
    and enqueue_contents: "queue_ok q \<Longrightarrow> length xs \<le> VECTOR_MAX \<Longrightarrow> q_enqueue_bulk ops xs q = (b, q') \<Longrightarrow>
      contents q' = (if b then contents q + mset xs else contents q)"
    and dequeue_ok: "queue_ok q \<Longrightarrow> q_try_dequeue ops q = (r, q') \<Longrightarrow> queue_ok q'"
    and dequeue_Some: "queue_ok q \<Longrightarrow> q_try_dequeue ops q = (Some x, q') \<Longrightarrow>
      contents q = add_mset x (contents q')"
    and dequeue_None: "queue_ok q \<Longrightarrow> q_try_dequeue ops q = (None, q') \<Longrightarrow>
      contents q = {#} \<and> contents q' = {#}"

text \<open>A queue that also keeps the order of its elements, as long as one thread enqueues.\<close>

locale fifo_queue = work_queue ops queue_ok "\<lambda>q. mset (listed q)"
  for ops :: "('q, 'b option) queue_ops" and queue_ok and listed :: "'q \<Rightarrow> 'b option list" +
  assumes enqueue_listed: "queue_ok q \<Longrightarrow> length xs \<le> VECTOR_MAX \<Longrightarrow> q_enqueue_bulk ops xs q = (b, q') \<Longrightarrow>
      listed q' = (if b then listed q @ xs else listed q)"
    and dequeue_listed: "queue_ok q \<Longrightarrow> q_try_dequeue ops q = (Some x, q') \<Longrightarrow> listed q = x # listed q'"

section \<open>The invariant of a group\<close>

definition counting :: "('a \<Rightarrow> bool) \<Rightarrow> 'a list \<Rightarrow> nat" where
  "counting P xs = length (filter P xs)"

lemma counting_update:
  "i < length xs \<Longrightarrow>
   counting P (xs[i := y]) + (if P (xs ! i) then 1 else 0) = counting P xs + (if P y then 1 else 0)"
proof (induction xs arbitrary: i)
  case (Cons x xs)
  then show ?case by (cases i) (auto simp: counting_def)
qed simp

lemma counting_replicate: "counting P (replicate n x) = (if P x then n else 0)"
  by (simp add: counting_def)

lemma counting_zero: "counting P xs = 0 \<longleftrightarrow> (\<forall>x \<in> set xs. \<not> P x)"
  by (auto simp: counting_def filter_empty_conv)

lemma counting_mono: "(\<And>x. P x \<Longrightarrow> Q x) \<Longrightarrow> counting P xs \<le> counting Q xs"
  by (induction xs) (auto simp: counting_def)

text \<open>Threads that hold a permit for a bundle they have not popped; threads past the check of the
  stop flags; threads with a popped bundle that still counts as pending.\<close>

fun is_popping :: "'b worker_pc \<Rightarrow> bool" where
  "is_popping (Popping k) = True"
| "is_popping _ = False"

fun holds_permit :: "'b worker_pc \<Rightarrow> bool" where
  "holds_permit Acquired = True"
| "holds_permit (Popping k) = True"
| "holds_permit _ = False"

fun in_flight :: "'b worker_pc \<Rightarrow> bool" where
  "in_flight (Popped x) = True"
| "in_flight Ran = True"
| "in_flight _ = False"

fun healthy :: "'b worker_pc \<Rightarrow> bool" where
  "healthy (Popped None) = False"
| "healthy (Terminated e) = False"
| "healthy _ = True"

text \<open>The part of the dispatcher's batch that has no permits yet, or is not yet counted.\<close>

fun unreleased :: "dispatcher_pc \<Rightarrow> nat" where
  "unreleased (D_queued n) = n"
| "unreleased (D_counted n) = n"
| "unreleased (D_updating pc n) = n"
| "unreleased (D_release n) = n"
| "unreleased _ = 0"

fun uncounted :: "dispatcher_pc \<Rightarrow> nat" where
  "uncounted (D_queued n) = n"
| "uncounted _ = 0"

definition out_of_memory :: dispatcher_pc where
  "out_of_memory = D_terminated (Runtime_error ''Failed to enqueue ready bundles to worker group (out of memory)'')"

definition group_inv :: "('q \<Rightarrow> bool) \<Rightarrow> ('q \<Rightarrow> 'b option multiset) \<Rightarrow> ('q, 'b) group_sys \<Rightarrow> bool" where
  "group_inv ok contents s \<longleftrightarrow>
     (let g = grp s; ws = workers s; d = dispatcher s; c = contents (queue g)
      in ok (queue g) \<and> None \<notin># c \<and> (\<forall>pc \<in> set ws. healthy pc) \<and>
         (\<forall>e. d = D_terminated e \<longrightarrow> d = out_of_memory) \<and>
         length (thread_prio g) = length ws \<and> (is_mutex g \<longrightarrow> length ws = 1) \<and>
         (\<forall>pc. Updating pc \<in> set ws \<longrightarrow> is_mutex g) \<and> (\<forall>pc n. d = D_updating pc n \<longrightarrow> is_mutex g) \<and>
         counting is_popping ws \<le> size c \<and>
         (d \<notin> {D_joining, D_done} \<longrightarrow> semaphore g + counting holds_permit ws + unreleased d \<le> size c) \<and>
         (d \<in> {D_joining, D_done} \<longrightarrow> \<not> running s) \<and>
         num_pending g = int (size c) + int (counting in_flight ws) - int (uncounted d))"

lemma prio_step_frame:
  assumes "prio_step pc g = (r, g')"
  shows "queue g' = queue g" "semaphore g' = semaphore g" "num_pending g' = num_pending g"
    "is_mutex g' = is_mutex g" "priority g' = priority g" "executed g' = executed g"
    "length (thread_prio g) = 1 \<Longrightarrow> length (thread_prio g') = 1"
    "length (thread_prio g) = 1 \<Longrightarrow> is_ok r"
  using assms by (cases pc; auto split: if_splits)+

context work_queue
begin

text \<open>The invariant in parts, for a state after a worker's step.\<close>

lemma group_inv_worker:
  assumes inv: "group_inv queue_ok contents s" and i: "i < length (workers s)"
    and q: "queue_ok (queue g)" "None \<notin># contents (queue g)" "healthy pc"
    and fr: "length (thread_prio g) = length (thread_prio (grp s))" "is_mutex g = is_mutex (grp s)"
      "\<forall>p. pc = Updating p \<longrightarrow> is_mutex g"
    and pop: "dispatcher s \<in> {D_joining, D_done} \<Longrightarrow> (if is_popping pc then 1 else 0) + size (contents (queue (grp s)))
      \<le> (if is_popping (workers s ! i) then 1 else 0) + size (contents (queue g))"
    and perm: "semaphore g + (if holds_permit pc then 1 else 0) + size (contents (queue (grp s)))
      \<le> semaphore (grp s) + (if holds_permit (workers s ! i) then 1 else 0) + size (contents (queue g))"
    and pend: "num_pending g + int (size (contents (queue (grp s)))) + (if in_flight (workers s ! i) then 1 else 0) =
      num_pending (grp s) + int (size (contents (queue g))) + (if in_flight pc then 1 else 0)"
  shows "group_inv queue_ok contents (s\<lparr>workers := (workers s)[i := pc], grp := g\<rparr>)"
proof -
  let ?ws = "(workers s)[i := pc]"
  have "\<forall>pc \<in> set ?ws. healthy pc" "\<forall>p. Updating p \<in> set ?ws \<longrightarrow> is_mutex g"
    using inv q(3) fr(2,3) set_update_subset_insert [of "workers s" i pc]
    by (auto simp: group_inv_def Let_def)
  moreover have perm': "semaphore g + counting holds_permit ?ws + unreleased (dispatcher s) \<le> size (contents (queue g))"
    if "dispatcher s \<notin> {D_joining, D_done}"
    using counting_update [OF i, of holds_permit pc] inv perm that by (simp add: group_inv_def Let_def split: if_splits)
  moreover have "counting is_popping ?ws \<le> size (contents (queue g))"
  proof (cases "dispatcher s \<in> {D_joining, D_done}")
    case True
    then show ?thesis
      using counting_update [OF i, of is_popping pc] inv pop by (simp add: group_inv_def Let_def split: if_splits)
  next
    case False
    have "counting is_popping ?ws \<le> counting holds_permit ?ws" by (rule counting_mono) (auto elim: is_popping.elims)
    with perm' [OF False] show ?thesis by simp
  qed
  moreover have "num_pending g = int (size (contents (queue g))) + int (counting in_flight ?ws) - int (uncounted (dispatcher s))"
    using counting_update [OF i, of in_flight pc] inv pend by (simp add: group_inv_def Let_def split: if_splits)
  ultimately show ?thesis
    using inv q fr by (simp add: group_inv_def Let_def)
qed

lemma worker_keeps_inv:
  assumes inv: "group_inv queue_ok contents s" and i: "i < length (workers s)"
    and st: "worker_step ops (running s) (workers s ! i) (grp s) = Some (pc, g)"
  shows "group_inv queue_ok contents (s\<lparr>workers := (workers s)[i := pc], grp := g\<rparr>)"
proof -
  let ?w = "workers s ! i" and ?c = "contents (queue (grp s))"
  have ok: "queue_ok (queue (grp s))" "None \<notin># ?c" using inv by (simp_all add: group_inv_def Let_def)
  have run: "dispatcher s \<in> {D_joining, D_done} \<Longrightarrow> \<not> running s" using inv by (auto simp: group_inv_def Let_def)
  have hw: "healthy ?w" and mtx: "\<forall>p. ?w = Updating p \<longrightarrow> is_mutex (grp s)"
    using inv nth_mem [OF i] unfolding group_inv_def Let_def by metis+
  show ?thesis
  proof (cases ?w)
    case Waiting
    with st ok show ?thesis by (intro group_inv_worker [OF inv i]) (auto split: if_splits)
  next
    case Acquired
    with st ok run show ?thesis by (intro group_inv_worker [OF inv i]) (auto split: if_splits)
  next
    case (Popping k)
    have "0 < counting is_popping (workers s)"
      using counting_zero [of is_popping "workers s"] nth_mem [OF i] Popping by (metis gr0I is_popping.simps(1))
    then have ne: "?c \<noteq> {#}" using inv by (auto simp: group_inv_def Let_def)
    obtain r q where d: "q_try_dequeue ops (queue (grp s)) = (r, q)" by fastforce
    with ne dequeue_None [OF ok(1)] obtain x where r: "r = Some x" by (cases r) auto
    have c: "?c = add_mset x (contents q)" using dequeue_Some [OF ok(1)] d r by simp
    then obtain b where x: "x = Some b" using ok(2) by (cases x) auto
    have "queue_ok q" using dequeue_ok [OF ok(1) d] .
    then show ?thesis
      using st Popping d r c ok x by (intro group_inv_worker [OF inv i]) (auto split: option.splits)
  next
    case (Popped x)
    then obtain b where "x = Some b" using hw by (cases x) auto
    with Popped st ok show ?thesis by (intro group_inv_worker [OF inv i]) auto
  next
    case Ran
    with st ok show ?thesis by (intro group_inv_worker [OF inv i]) (auto split: if_splits)
  next
    case (Updating p)
    then have m: "is_mutex (grp s)" using mtx by simp
    then have "length (thread_prio (grp s)) = 1" using inv by (simp add: group_inv_def Let_def)
    obtain r g' where p: "prio_step p (grp s) = (r, g')" by fastforce
    note f = prio_step_frame [OF p]
    from f(8) \<open>length (thread_prio (grp s)) = 1\<close> obtain o' where r: "r = Inr o'" by (cases r) auto
    have "g = g'" and pc: "pc = (case o' of None \<Rightarrow> Waiting | Some p' \<Rightarrow> Updating p')"
      using st Updating p r by (auto split: option.splits)
    then show ?thesis
      using ok m f \<open>length (thread_prio (grp s)) = 1\<close> Updating
      by (intro group_inv_worker [OF inv i]) (auto split: option.splits)
  qed (use st in auto)
qed

lemma group_inv_dispatcher:
  assumes inv: "group_inv queue_ok contents s"
    and q: "queue_ok (queue g)" "None \<notin># contents (queue g)" "size (contents (queue (grp s))) \<le> size (contents (queue g))"
    and fr: "length (thread_prio g) = length (thread_prio (grp s))" "is_mutex g = is_mutex (grp s)"
      "\<forall>p n. d = D_updating p n \<longrightarrow> is_mutex g" "\<forall>e. d = D_terminated e \<longrightarrow> d = out_of_memory"
    and perm: "d \<notin> {D_joining, D_done} \<Longrightarrow> dispatcher s \<notin> {D_joining, D_done} \<and>
      semaphore g + unreleased d + size (contents (queue (grp s)))
      \<le> semaphore (grp s) + unreleased (dispatcher s) + size (contents (queue g))"
    and run: "d \<in> {D_joining, D_done} \<Longrightarrow> \<not> running s"
    and pend: "num_pending g + int (uncounted d) + int (size (contents (queue (grp s)))) =
      num_pending (grp s) + int (uncounted (dispatcher s)) + int (size (contents (queue g)))"
  shows "group_inv queue_ok contents (s\<lparr>dispatcher := d, grp := g\<rparr>)"
proof -
  have "semaphore g + counting holds_permit (workers s) + unreleased d \<le> size (contents (queue g))"
    if "d \<notin> {D_joining, D_done}"
    using inv perm [OF that] by (simp add: group_inv_def Let_def)
  moreover have "num_pending g = int (size (contents (queue g))) + int (counting in_flight (workers s)) - int (uncounted d)"
    using inv pend by (simp add: group_inv_def Let_def)
  moreover have "counting is_popping (workers s) \<le> size (contents (queue g))"
    using inv q(3) by (simp add: group_inv_def Let_def)
  ultimately show ?thesis using inv q fr run by (simp add: group_inv_def Let_def)
qed

lemma dispatch_keeps_inv:
  assumes inv: "group_inv queue_ok contents s" and idle: "dispatcher s = D_idle" and len: "length bundles \<le> VECTOR_MAX"
    and st: "dispatch ops bundles (grp s) = (d, g)"
  shows "group_inv queue_ok contents (s\<lparr>dispatcher := d, grp := g\<rparr>)"
proof -
  have ok: "queue_ok (queue (grp s))" "None \<notin># contents (queue (grp s))" using inv by (simp_all add: group_inv_def Let_def)
  obtain b q where e: "q_enqueue_bulk ops (map Some bundles) (queue (grp s)) = (b, q)" by fastforce
  have "length (map Some bundles) \<le> VECTOR_MAX" using len by simp
  note c = enqueue_contents [OF ok(1) this e] enqueue_ok [OF ok(1) this e]
  show ?thesis
    using st e idle ok c
    by (intro group_inv_dispatcher [OF inv]) (auto simp: dispatch_def out_of_memory_def split: if_splits)
qed

lemma dispatcher_keeps_inv:
  assumes inv: "group_inv queue_ok contents s" and st: "dispatcher_step (dispatcher s) (grp s) = Some (d, g)"
  shows "group_inv queue_ok contents (s\<lparr>dispatcher := d, grp := g\<rparr>)"
proof -
  have ok: "queue_ok (queue (grp s))" "None \<notin># contents (queue (grp s))" using inv by (simp_all add: group_inv_def Let_def)
  show ?thesis
  proof (cases "dispatcher s")
    case (D_updating p n)
    then have m: "is_mutex (grp s)" "length (thread_prio (grp s)) = 1"
      using inv by (simp_all add: group_inv_def Let_def)
    obtain r g' where p: "prio_step p (grp s) = (r, g')" by fastforce
    note f = prio_step_frame [OF p]
    from f(8) m(2) obtain o' where r: "r = Inr o'" by (cases r) auto
    have "g = g'" and "d = (case o' of None \<Rightarrow> D_release n | Some p' \<Rightarrow> D_updating p' n)"
      using st D_updating p r by (auto split: option.splits)
    then show ?thesis
      using ok D_updating f m by (intro group_inv_dispatcher [OF inv]) (auto split: option.splits)
  qed (use st ok in \<open>auto intro!: group_inv_dispatcher [OF inv] split: if_splits\<close>)
qed

lemma group_step_keeps_inv:
  assumes "group_step ops s s'" "group_inv queue_ok contents s"
  shows "group_inv queue_ok contents s'"
proof -
  have ok: "queue_ok (queue (grp s))" "None \<notin># contents (queue (grp s))"
    using assms(2) by (simp_all add: group_inv_def Let_def)
  from assms(1) show ?thesis
  proof (cases rule: group_step.cases)
    case (worker i pc g)
    then show ?thesis using worker_keeps_inv [OF assms(2)] by simp
  next
    case (dispatch bundles d g)
    then show ?thesis using dispatch_keeps_inv [OF assms(2)] by simp
  next
    case (dispatcher d g)
    then show ?thesis using dispatcher_keeps_inv [OF assms(2)] by simp
  next
    case stop
    then show ?thesis using assms(2) by (simp add: group_inv_def Let_def)
  next
    case (destroy d g)
    then have "d = D_joining" "uncounted (dispatcher s) = 0" by (auto simp: destroy_def)
    with destroy ok show ?thesis
      using group_inv_dispatcher [OF assms(2), of g d] by (auto simp: destroy_def)
  next
    case join
    then show ?thesis
      using group_inv_dispatcher [OF assms(2), of "grp s" D_done] ok assms(2) by (auto simp: group_inv_def Let_def)
  qed
qed

lemma reachable_inv:
  assumes "(group_step ops)\<^sup>*\<^sup>* s s'" "group_inv queue_ok contents s"
  shows "group_inv queue_ok contents s'"
  using assms by (induction rule: rtranclp_induct) (auto intro: group_step_keeps_inv)

lemma start_group_inv:
  assumes "queue_ok q" "contents q = {#}"
  shows "group_inv queue_ok contents (start_group (make_group prio n q))"
    and "group_inv queue_ok contents (start_group (make_mutex_group prio q))"
  using assms
  by (simp_all add: group_inv_def start_group_def make_group_def make_mutex_group_def Let_def counting_def)

text \<open>No worker of a reachable state ends with an exception, and the dispatcher only for want of memory.\<close>

lemma inv_no_exception:
  assumes "group_inv queue_ok contents s"
  shows "Terminated e \<notin> set (workers s)" "dispatcher s = D_terminated e \<Longrightarrow> dispatcher s = out_of_memory"
  using assms by (auto simp: group_inv_def Let_def)

text \<open>While nothing is between two of its accesses, the pending count is the number of queued bundles.\<close>

lemma inv_pending:
  assumes "group_inv queue_ok contents s" "dispatcher s = D_idle" "\<forall>pc \<in> set (workers s). pc = Waiting"
  shows "num_pending (grp s) = int (size (contents (queue (grp s))))"
    "semaphore (grp s) \<le> size (contents (queue (grp s)))"
proof -
  have "counting in_flight (workers s) = 0" using assms(3) by (auto simp: counting_zero)
  with assms(1,2) show "num_pending (grp s) = int (size (contents (queue (grp s))))"
    "semaphore (grp s) \<le> size (contents (queue (grp s)))"
    by (simp_all add: group_inv_def Let_def)
qed

end

section \<open>Shutdown\<close>

fun needs_permit :: "'b worker_pc \<Rightarrow> bool" where
  "needs_permit Stopped = False"
| "needs_permit Acquired = False"
| "needs_permit (Terminated e) = False"
| "needs_permit _ = True"

text \<open>How many steps a thread has before it stops, once the flags say so.\<close>

fun steps_to_stop :: "'b worker_pc \<Rightarrow> nat" where
  "steps_to_stop Stopped = 0"
| "steps_to_stop (Terminated e) = 0"
| "steps_to_stop Acquired = 1"
| "steps_to_stop Waiting = 2"
| "steps_to_stop (Updating (Store_boosted b)) = 3"
| "steps_to_stop (Updating (Set_prio b)) = 4"
| "steps_to_stop (Updating (Compare_boosted b)) = 5"
| "steps_to_stop (Updating Load_pending) = 6"
| "steps_to_stop Ran = 7"
| "steps_to_stop (Popped x) = 8"
| "steps_to_stop (Popping k) = 9"

definition shutdown_work :: "('q, 'b) group_sys \<Rightarrow> nat" where
  "shutdown_work s = sum_list (map steps_to_stop (workers s))"

definition worker_move :: "('q, 'b option) queue_ops \<Rightarrow> ('q, 'b) group_sys \<Rightarrow> ('q, 'b) group_sys \<Rightarrow> bool" where
  "worker_move ops s s' \<longleftrightarrow> (\<exists>i pc g. i < length (workers s) \<and>
     worker_step ops (running s) (workers s ! i) (grp s) = Some (pc, g) \<and>
     s' = s\<lparr>workers := (workers s)[i := pc], grp := g\<rparr>)"

definition permits_cover :: "('q, 'b) group_sys \<Rightarrow> bool" where
  "permits_cover s \<longleftrightarrow> (dispatcher s = D_joining \<longrightarrow>
     counting needs_permit (workers s) \<le> semaphore (grp s))"

lemma sum_list_update_less:
  fixes f :: "'a \<Rightarrow> nat"
  shows "i < length xs \<Longrightarrow> f y < f (xs ! i) \<Longrightarrow> sum_list (map f (xs[i := y])) < sum_list (map f xs)"
proof (induction xs arbitrary: i)
  case (Cons x xs)
  then show ?case by (cases i) auto
qed simp

context work_queue
begin

lemma worker_step_stops:
  assumes inv: "group_inv queue_ok contents s" and i: "i < length (workers s)" and "\<not> running s"
    and st: "worker_step ops (running s) (workers s ! i) (grp s) = Some (pc, g)"
  shows "steps_to_stop pc < steps_to_stop (workers s ! i)"
    and "semaphore g + (if needs_permit (workers s ! i) then 1 else 0) \<ge> semaphore (grp s) + (if needs_permit pc then 1 else 0)"
proof -
  have inv': "group_inv queue_ok contents (s\<lparr>workers := (workers s)[i := pc], grp := g\<rparr>)"
    by (rule worker_keeps_inv [OF inv i st])
  have "pc \<in> set ((workers s)[i := pc])" using i by (simp add: set_update_memI)
  then have h: "healthy pc" using inv' by (simp add: group_inv_def Let_def)
  have "steps_to_stop pc < steps_to_stop (workers s ! i) \<and>
    semaphore g + (if needs_permit (workers s ! i) then 1 else 0) \<ge> semaphore (grp s) + (if needs_permit pc then 1 else 0)"
  proof (cases "workers s ! i")
    case (Popping k)
    have "0 < counting is_popping (workers s)"
      using counting_zero [of is_popping "workers s"] nth_mem [OF i] Popping by (metis gr0I is_popping.simps(1))
    then have ne: "contents (queue (grp s)) \<noteq> {#}" using inv by (auto simp: group_inv_def Let_def)
    have ok: "queue_ok (queue (grp s))" using inv by (simp add: group_inv_def Let_def)
    obtain r q where d: "q_try_dequeue ops (queue (grp s)) = (r, q)" by fastforce
    with ne dequeue_None [OF ok] obtain x where "r = Some x" by (cases r) auto
    with d st Popping show ?thesis by auto
  next
    case (Popped x)
    with st h show ?thesis by (cases x) auto
  next
    case (Updating p)
    obtain r g' where p: "prio_step p (grp s) = (r, g')" by fastforce
    then show ?thesis using st Updating prio_step_frame(2) [OF p] h by (cases p) (auto split: if_splits)
  qed (use st assms(3) in \<open>auto split: if_splits\<close>)
  then show "steps_to_stop pc < steps_to_stop (workers s ! i)"
    and "semaphore g + (if needs_permit (workers s ! i) then 1 else 0) \<ge> semaphore (grp s) + (if needs_permit pc then 1 else 0)"
    by blast+
qed

lemma permits_cover_step:
  assumes "group_step ops s s'" "group_inv queue_ok contents s" "permits_cover s"
  shows "permits_cover s'"
  using assms(1)
proof (cases rule: group_step.cases)
  case (worker i pc g)
  show ?thesis
  proof (cases "dispatcher s = D_joining")
    case True
    then have "\<not> running s" using assms(2) by (simp add: group_inv_def Let_def)
    from worker_step_stops(2) [OF assms(2) worker(2) this worker(3)] counting_update [OF worker(2), of needs_permit pc]
      assms(3) True worker(1)
    show ?thesis by (auto simp: permits_cover_def split: if_splits)
  qed (simp add: permits_cover_def worker)
next
  case (destroy d g)
  have "counting needs_permit (workers s) \<le> length (workers s)" by (simp add: counting_def)
  with destroy assms(2) show ?thesis by (auto simp: permits_cover_def destroy_def group_inv_def Let_def)
next
  case (dispatch bundles d g)
  then show ?thesis by (auto simp: permits_cover_def dispatch_def split: if_splits prod.splits)
next
  case (dispatcher d g)
  then show ?thesis
    by (cases "dispatcher s") (auto simp: permits_cover_def split: if_splits prod.splits sum.splits option.splits)
qed (use assms(3) in \<open>auto simp: permits_cover_def\<close>)

lemma joining_makes_progress:
  assumes inv: "group_inv queue_ok contents s" and "permits_cover s" "dispatcher s = D_joining"
  shows "(\<forall>pc \<in> set (workers s). pc = Stopped) \<or> (\<exists>s'. worker_move ops s s')"
    and "worker_move ops s s' \<Longrightarrow> shutdown_work s' < shutdown_work s"
proof -
  have nr: "\<not> running s" using inv assms(3) by (simp add: group_inv_def Let_def)
  show "(\<forall>pc \<in> set (workers s). pc = Stopped) \<or> (\<exists>s'. worker_move ops s s')"
  proof (rule disjCI)
    assume no: "\<nexists>s'. worker_move ops s s'"
    show "\<forall>pc \<in> set (workers s). pc = Stopped"
    proof
      fix pc assume pc: "pc \<in> set (workers s)"
      then obtain i where i: "i < length (workers s)" "workers s ! i = pc" by (meson in_set_conv_nth)
      with no have blocked: "worker_step ops (running s) pc (grp s) = None"
        unfolding worker_move_def by (metis not_None_eq surj_pair)
      have "healthy pc" using inv pc by (simp add: group_inv_def Let_def)
      moreover have "semaphore (grp s) \<noteq> 0" if "pc = Waiting"
      proof -
        have "counting needs_permit (workers s) \<noteq> 0" 
          using pc that counting_zero needs_permit.simps(4) by metis
        with assms(2,3) show ?thesis by (simp add: permits_cover_def)
      qed
      ultimately show "pc = Stopped"
        using blocked
      proof (cases pc)
        case (Popped x)
        with \<open>healthy pc\<close> blocked show ?thesis by (cases x) auto
      qed (auto split: prod.splits option.splits sum.splits if_splits)
    qed
  qed
  show "shutdown_work s' < shutdown_work s" if "worker_move ops s s'"
  proof -
    from that obtain i pc g where w: "i < length (workers s)"
      "worker_step ops (running s) (workers s ! i) (grp s) = Some (pc, g)"
      "s' = s\<lparr>workers := (workers s)[i := pc], grp := g\<rparr>" by (auto simp: worker_move_def)
    from sum_list_update_less [of i "workers s" steps_to_stop pc] worker_step_stops(1) [OF inv w(1) nr w(2)] w
    show ?thesis by (simp add: shutdown_work_def)
  qed
qed

lemma reachable_permits_cover:
  assumes "(group_step ops)\<^sup>*\<^sup>* s s'" "group_inv queue_ok contents s" "permits_cover s"
  shows "permits_cover s'"
  using assms by (induction rule: rtranclp_induct) (auto intro: permits_cover_step reachable_inv)

end

section \<open>Priority updates without interruption\<close>

text \<open>The four accesses, run one after the other, are \<open>update_prio\<close>.\<close>

fun prio_steps :: "nat \<Rightarrow> prio_pc \<Rightarrow> ('q, 'b) WorkerGroup \<Rightarrow> ('q, 'b) WorkerGroup result option" where
  "prio_steps 0 pc g = None"
| "prio_steps (Suc n) pc g =
     (case prio_step pc g of
        (Inl e, g') \<Rightarrow> Some (Inl e)
      | (Inr None, g') \<Rightarrow> Some (Inr g')
      | (Inr (Some pc'), g') \<Rightarrow> prio_steps n pc' g')"

text \<open>
  \<open>MutexGroup::update_prio\<close>, when no other thread runs in between: its four accesses compute
  \<open>update_prio\<close>; afterwards the group is boosted exactly when more than one bundle is pending, and, if
  flag and priority agreed before, the thread's priority is 99 when boosted and the group's own otherwise.
\<close>

theorem update_prio_atomic:
  assumes "is_mutex g" "length (thread_prio g) = 1"
    and "thread_prio g = [if is_boosted g then MAX_FIFO_PRIO else priority g]"
  shows "\<exists>g'. prio_steps 4 Load_pending g = Some (Inr g') \<and> update_prio g = Inr g' \<and>
    is_boosted g' = (num_pending g > 1) \<and> num_pending g' = num_pending g \<and>
    thread_prio g' = [if num_pending g > 1 then MAX_FIFO_PRIO else priority g]"
  using assms by (auto simp: numeral_eq_Suc update_prio_def Let_def split: if_splits)

theorem update_prio_atomic_witness:
  "\<exists>g' :: (unit, unit) WorkerGroup.
     update_prio \<lparr>priority = 5, is_mutex = True, thread_prio = [5], semaphore = 0, queue = (),
       num_pending = 2, is_boosted = False, executed = []\<rparr> = Inr g' \<and> is_boosted g' \<and> thread_prio g' = [99]"
  using update_prio_atomic [of "\<lparr>priority = 5, is_mutex = True, thread_prio = [5], semaphore = 0, queue = (),
       num_pending = 2, is_boosted = False, executed = [] :: unit list\<rparr>"]
  by (auto simp: MAX_FIFO_PRIO_def)

end
