(* ===== verification/Executor.thy ===== *)
theory Executor
  imports Registry_Allocation Memory_Strategy Bundles Worker_Group
begin

text \<open>
  The executor (\<open>preemptive_executor.hpp\<close>, \<open>preemptive_executor.cpp\<close>): adding nodes, loading the
  timing information from the registry, splitting the callback groups into real-time and other
  ones, spawning one worker group per thread group, and dispatching ready bundles to the worker
  groups, all composed by \<open>spin\<close>.

  The base class \<open>rclcpp::Executor\<close> is a parameter: \<open>add_callback_group_to_map\<close> is the argument \<open>add\<close>, and
  what \<open>wait_for_work\<close> leaves in the memory strategy is given per iteration; the loop has as many
  iterations as its condition allows. Worker threads run between the dispatcher's accesses (\<open>Worker_Group\<close>); here an iteration
  applies any change of the worker groups before the dispatch. Every function returns its exception,
  if any, together with the state it leaves.
\<close>

section \<open>Data\<close>

definition CORE_COUNT :: nat where
  "CORE_COUNT = 16"

type_synonym ('q, 'i) worker_group = "('q, 'i BundledExecutable) WorkerGroup \<times> 'i BundledExecutable worker_pc list"

text \<open>The multi-threaded executor for the other callback groups: its number of threads and the groups
  handed to it.\<close>

record non_rt_executor =
  nrt_threads :: nat
  nrt_groups :: "(callback_group \<times> ptr) list"

record ('q, 'i) PreemptiveExecutor =
  spinning :: bool
  rt_memory_strategy :: "RTAllocatorMemoryStrategy option"
  weak_nodes :: "ptr list"
  weak_groups_to_nodes :: weak_groups_to_nodes
  pending_weak_groups_to_nodes :: weak_groups_to_nodes
  user_chains_ref :: "(string, userChain) umap"
  callback_handle_to_threadgroup_id :: "(ptr, int) umap option"
  thread_groups :: "(int, ThreadGroupAttributes) umap option"
  thread_group_id_worker_map :: "(int, ('q, 'i) worker_group) umap"
  non_rt_callback_groups :: "(callback_group option \<times> ptr) list"
  non_rt_threads :: nat
  non_rt_executor :: "non_rt_executor option"
  non_rt_callback_groups_spawned :: bool

definition new_executor ::
  "RTAllocatorMemoryStrategy option \<Rightarrow> (string, userChain) umap \<Rightarrow> ('q, 'i) PreemptiveExecutor" where
  "new_executor strategy ucs = \<lparr>spinning = False, rt_memory_strategy = strategy, weak_nodes = [],
     weak_groups_to_nodes = [], pending_weak_groups_to_nodes = [], user_chains_ref = ucs,
     callback_handle_to_threadgroup_id = None, thread_groups = None, thread_group_id_worker_map = [],
     non_rt_callback_groups = [], non_rt_threads = 0, non_rt_executor = None,
     non_rt_callback_groups_spawned = False\<rparr>"

text \<open>A loop over state that survives an exception: what the earlier iterations, and the throwing one, did stays.\<close>

fun for_each_state :: "('a \<Rightarrow> 's \<Rightarrow> unit result \<times> 's) \<Rightarrow> 'a list \<Rightarrow> 's \<Rightarrow> unit result \<times> 's" where
  "for_each_state f [] s = (Inr (), s)"
| "for_each_state f (x # xs) s = (case f x s of (Inl e, s') \<Rightarrow> (Inl e, s') | (Inr _, s') \<Rightarrow> for_each_state f xs s')"

text \<open>\<open>std::to_string\<close> of an \<open>int\<close>.\<close>

fun decimal :: "nat \<Rightarrow> string" where
  "decimal n = (if n < 10 then [char_of (48 + n)] else decimal (n div 10) @ [char_of (48 + n mod 10)])"

declare decimal.simps [simp del]

definition to_string :: "int \<Rightarrow> string" where
  "to_string i = (if i < 0 then CHR ''-'' # decimal (nat (- i)) else decimal (nat i))"

section \<open>Adding nodes\<close>

text \<open>A callback group of a node, with the two flags that \<open>add_node\<close> reads.\<close>

record node_group =
  ng_group :: "callback_group option"
  ng_associated :: bool
  ng_automatic :: bool

record node =
  node_addr :: ptr
  node_name :: string
  node_groups :: "node_group list"

text \<open>\<open>map[group] = node\<close> on the map of weak pointers, which is ordered by owner: an entry of the same owner is
  overwritten, otherwise the entry goes before the first one of a larger owner.\<close>

fun set_group_node :: "callback_group \<Rightarrow> ptr \<Rightarrow> weak_groups_to_nodes \<Rightarrow> weak_groups_to_nodes" where
  "set_group_node cg nd [] = [(Some cg, Some nd)]"
| "set_group_node cg nd ((g, n) # m) =
     (case g of
        None \<Rightarrow> (g, n) # set_group_node cg nd m
      | Some cg' \<Rightarrow>
          if cg_addr cg' = cg_addr cg then (Some cg, Some nd) # m
          else if cg_addr cg < cg_addr cg' then (Some cg, Some nd) # (g, n) # m
          else (g, n) # set_group_node cg nd m)"

definition collect_node_group :: "ptr \<Rightarrow> node_group \<Rightarrow> weak_groups_to_nodes \<Rightarrow> weak_groups_to_nodes" where
  "collect_node_group nd ng m =
     (case ng_group ng of
        None \<Rightarrow> m
      | Some cg \<Rightarrow> if ng_associated ng \<or> \<not> ng_automatic ng then m else set_group_node cg nd m)"

text \<open>\<open>associated\<close> is the set of nodes whose executor flag is set; the null node is \<open>None\<close>.\<close>

definition add_node ::
  "node option \<Rightarrow> ptr list \<times> ('q, 'i) PreemptiveExecutor \<Rightarrow> unit result \<times> ptr list \<times> ('q, 'i) PreemptiveExecutor" where
  "add_node nd s =
     (case nd of
        None \<Rightarrow> (Inl (Runtime_error ''Cannot add null node to executor''), s)
      | Some n \<Rightarrow>
        (let (associated, x) = s; p = node_addr n
         in if p \<in> set associated then
              (Inl (Runtime_error (''Node '' @ [CHR 0x27] @ node_name n @ [CHR 0x27] @
                 '' has already been added to an executor.'')), s)
            else
              (Inr (), p # associated,
               x\<lparr>pending_weak_groups_to_nodes :=
                   fold (collect_node_group p) (node_groups n) (pending_weak_groups_to_nodes x),
                 weak_nodes := weak_nodes x @ [p]\<rparr>)))"

section \<open>Timing information\<close>

text \<open>The registry is a function-local static: \<open>None\<close> until the first call. The recursion of the
  allocation may not return (\<open>None\<close> of the option).\<close>

definition load_timing_info ::
  "hash_order \<Rightarrow> nat \<Rightarrow> registered_names \<Rightarrow> CallbackRegistry option \<times> ('q, 'i) PreemptiveExecutor \<Rightarrow>
     (unit result \<times> CallbackRegistry option \<times> ('q, 'i) PreemptiveExecutor) option" where
  "load_timing_info h fuel names s =
     (let (inst, x) = s
      in case get_instance h names (pending_weak_groups_to_nodes x) (user_chains_ref x) inst of
           Inl e \<Rightarrow> Some (Inl e, inst, x)
         | Inr r \<Rightarrow>
           (case callback_threadgroup_allocation h fuel r of
              None \<Rightarrow> None
            | Some (Inl e) \<Rightarrow> Some (Inl e, Some r, x)
            | Some (Inr (te, r')) \<Rightarrow>
                Some (Inr (), Some r',
                  x\<lparr>callback_handle_to_threadgroup_id := Some (te_callback_handle_to_threadgroup_id te),
                    thread_groups := Some (te_threadgroup_attributes te)\<rparr>)))"

section \<open>Real-time and other callback groups\<close>

text \<open>The two flags after visiting the pointers of a group.\<close>

fun classify_entity :: "(ptr, int) umap \<Rightarrow> EntityVariant \<Rightarrow> bool \<times> bool \<Rightarrow> bool \<times> bool" where
  "classify_entity handles (SubscriptionPtr p) (has_rt, has_non_rt) =
     (if p = nullptr then (has_rt, has_non_rt)
      else (has_rt \<or> um_contains p handles, has_non_rt \<or> \<not> um_contains p handles))"
| "classify_entity handles (TimerPtr p) (has_rt, has_non_rt) =
     (if p = nullptr then (has_rt, has_non_rt)
      else (has_rt \<or> um_contains p handles, has_non_rt \<or> \<not> um_contains p handles))"
| "classify_entity handles _ flags = flags"

text \<open>The part of \<open>rclcpp::Executor\<close> that the code calls: \<open>add_callback_group_to_map\<close> returns the new map or throws.\<close>

type_synonym add_group = "callback_group \<Rightarrow> ptr \<Rightarrow> weak_groups_to_nodes \<Rightarrow> weak_groups_to_nodes result"

definition classify_group ::
  "add_group \<Rightarrow> (ptr, int) umap \<Rightarrow> callback_group option \<times> ptr option \<Rightarrow>
     weak_groups_to_nodes \<times> (callback_group option \<times> ptr) list \<Rightarrow>
     unit result \<times> weak_groups_to_nodes \<times> (callback_group option \<times> ptr) list" where
  "classify_group add handles entry s =
     (case entry of
        (Some cg, Some nd) \<Rightarrow>
          (let (has_rt, has_non_rt) = fold (classify_entity handles) (cg_ptrs cg) (False, False)
           in if has_rt \<and> has_non_rt
              then (Inl (Runtime_error ''Mixed RT and non-RT callbacks in a single callback group''), s)
              else if has_rt
              then (case add cg nd (fst s) of Inl e \<Rightarrow> (Inl e, s) | Inr m \<Rightarrow> (Inr (), m, snd s))
              else (Inr (), fst s, snd s @ [(Some cg, nd)]))
      | _ \<Rightarrow> (Inr (), s))"

definition classify_callback_groups ::
  "add_group \<Rightarrow> ('q, 'i) PreemptiveExecutor \<Rightarrow> unit result \<times> ('q, 'i) PreemptiveExecutor" where
  "classify_callback_groups add x =
     (case callback_handle_to_threadgroup_id x of
        None \<Rightarrow> (Inl (Runtime_error ''Timing info missing before classifying callback groups''), x)
      | Some handles \<Rightarrow>
        (case for_each_state (classify_group add handles) (pending_weak_groups_to_nodes x)
                (weak_groups_to_nodes x, non_rt_callback_groups x) of
           (Inl e, rt, nrt) \<Rightarrow> (Inl e, x\<lparr>weak_groups_to_nodes := rt, non_rt_callback_groups := nrt\<rparr>)
         | (Inr _, rt, nrt) \<Rightarrow>
             (Inr (), x\<lparr>weak_groups_to_nodes := rt, non_rt_callback_groups := nrt,
                pending_weak_groups_to_nodes := []\<rparr>)))"

section \<open>Spawning\<close>

definition spawn_group :: "'q \<Rightarrow> ThreadGroupAttributes \<Rightarrow> ('q, 'i) worker_group" where
  "spawn_group q0 t =
     (if tg_is_mutex_group t then make_mutex_group (tg_priority t) q0
      else make_group (tg_priority t) (number_of_threads t) q0)"

text \<open>Entries of the list with a null group or node are skipped.\<close>

definition non_rt_groups :: "(callback_group option \<times> ptr) list \<Rightarrow> (callback_group \<times> ptr) list" where
  "non_rt_groups gs = List.map_filter
     (\<lambda>(g, n). case g of None \<Rightarrow> None | Some cg \<Rightarrow> if n = nullptr then None else Some (cg, n)) gs"

definition spawn_worker_groups ::
  "hash_order \<Rightarrow> 'q \<Rightarrow> ('q, 'i) PreemptiveExecutor \<Rightarrow> unit result \<times> ('q, 'i) PreemptiveExecutor" where
  "spawn_worker_groups h q0 x =
     (if \<not> non_rt_callback_groups_spawned x \<and> non_rt_callback_groups x \<noteq> [] then
        (let x1 = x\<lparr>non_rt_executor := Some \<lparr>nrt_threads = CORE_COUNT,
                nrt_groups = non_rt_groups (non_rt_callback_groups x)\<rparr>,
              non_rt_threads := non_rt_threads x + 1, non_rt_callback_groups_spawned := True\<rparr>
         in case thread_groups x1 of
              None \<Rightarrow> (Inl (Undefined_behaviour ''dereference of a null unique_ptr''), x1)
            | Some tgs \<Rightarrow>
                (Inr (), x1\<lparr>thread_group_id_worker_map :=
                   fold (\<lambda>(_, t). um_emplace (tg_id t) (spawn_group q0 t)) (um_iter (ord_int h) tgs)
                     (thread_group_id_worker_map x1)\<rparr>))
      else (Inl (Runtime_error ''Non-RT executor already spawned''), x))"

definition stop_non_rt_executor :: "('q, 'i) PreemptiveExecutor \<Rightarrow> ('q, 'i) PreemptiveExecutor" where
  "stop_non_rt_executor x = x\<lparr>non_rt_threads := 0, non_rt_executor := None, non_rt_callback_groups_spawned := False\<rparr>"

section \<open>Dispatching\<close>

type_synonym 'i bundle_map = "(int, 'i BundledExecutable list) umap"

definition emplace_bundle :: "int \<Rightarrow> 'i BundledExecutable option \<Rightarrow> 'i bundle_map \<Rightarrow> 'i bundle_map" where
  "emplace_bundle tgid bundle m =
     (case bundle of None \<Rightarrow> m | Some b \<Rightarrow> um_modify [] tgid (\<lambda>bs. bs @ [b]) m)"

text \<open>One ready subscription: an unknown handle is reported and the bundle dropped.\<close>

definition bundle_subscription ::
  "('i, 'b) bundle_env_scheme \<Rightarrow> (ptr, int) umap \<Rightarrow> ptr \<Rightarrow> 'i bundle_map \<times> event list \<Rightarrow>
     unit result \<times> 'i bundle_map \<times> event list" where
  "bundle_subscription env handles sub s =
     (case take_and_bundle env sub (snd s) of
        (Inl e, tr) \<Rightarrow> (Inl e, fst s, tr)
      | (Inr None, tr) \<Rightarrow> (Inr (), fst s, tr)
      | (Inr (Some b), tr) \<Rightarrow>
          (case map_of handles (get_raw_handle b) of
             None \<Rightarrow> (Inr (), fst s, tr)
           | Some tgid \<Rightarrow> (Inr (), emplace_bundle tgid (Some b) (fst s), tr)))"

definition bundle_timer ::
  "('i, 'b) bundle_env_scheme \<Rightarrow> (ptr, int) umap \<Rightarrow> ptr \<Rightarrow> 'i bundle_map \<times> event list \<Rightarrow>
     unit result \<times> 'i bundle_map \<times> event list" where
  "bundle_timer env handles timer s =
     (case timer_take_and_bundle env timer (snd s) of
        (Inl e, tr) \<Rightarrow> (Inl e, fst s, tr)
      | (Inr None, tr) \<Rightarrow> (Inr (), fst s, tr)
      | (Inr (Some b), tr) \<Rightarrow>
          (case map_of handles (get_raw_handle b) of
             None \<Rightarrow> (Inl (Runtime_error ''Timer callback handle not found in timing info.''), fst s, tr)
           | Some tgid \<Rightarrow> (Inr (), emplace_bundle tgid (Some b) (fst s), tr)))"

text \<open>The work on one worker group: queue, count, update the priority, release.\<close>

definition deliver ::
  "('q, 'b option) queue_ops \<Rightarrow> int \<Rightarrow> 'b list \<Rightarrow> ('q, 'b) WorkerGroup \<Rightarrow> unit result \<times> ('q, 'b) WorkerGroup" where
  "deliver ops tgid bundles g =
     (case q_enqueue_bulk ops (map Some bundles) (queue g) of
        (False, q) \<Rightarrow>
          (Inl (Runtime_error (''Failed to enqueue ready bundles to worker group (out of memory) '' @ to_string tgid)),
           g\<lparr>queue := q\<rparr>)
      | (True, q) \<Rightarrow>
          (let g1 = g\<lparr>queue := q, num_pending := num_pending g + int (length bundles)\<rparr>
           in case update_prio g1 of
                Inl e \<Rightarrow> (Inl e, g1)
              | Inr g2 \<Rightarrow> (Inr (), g2\<lparr>semaphore := semaphore g2 + length bundles\<rparr>)))"

fun dispatch_bundles ::
  "('q, 'i BundledExecutable option) queue_ops \<Rightarrow> (int \<times> 'i BundledExecutable list) list \<Rightarrow>
     (int, ('q, 'i) worker_group) umap \<Rightarrow> unit result \<times> (int, ('q, 'i) worker_group) umap" where
  "dispatch_bundles ops [] m = (Inr (), m)"
| "dispatch_bundles ops ((tgid, bundles) # rest) m =
     (if bundles = [] then dispatch_bundles ops rest m
      else case map_of m tgid of
        None \<Rightarrow> (Inl (Runtime_error (''Unknown thread group id '' @ to_string tgid @ '' when dispatching rexady bundles'')), m)
      | Some (g, ws) \<Rightarrow>
          (case deliver ops tgid bundles g of
             (Inl e, g') \<Rightarrow> (Inl e, um_set tgid (g', ws) m)
           | (Inr _, g') \<Rightarrow> dispatch_bundles ops rest (um_set tgid (g', ws) m)))"

definition populate_ready_queues ::
  "hash_order \<Rightarrow> ('w, 'a) rclcpp_api_scheme \<Rightarrow> ('i, 'b) bundle_env_scheme \<Rightarrow> ('q, 'i BundledExecutable option) queue_ops \<Rightarrow>
     event list \<times> ('q, 'i) PreemptiveExecutor \<Rightarrow> unit result \<times> event list \<times> ('q, 'i) PreemptiveExecutor" where
  "populate_ready_queues h api env ops s =
     (let (tr, x) = s
      in case rt_memory_strategy x of
           None \<Rightarrow> (Inr (), tr, x)
         | Some m \<Rightarrow>
           if thread_group_id_worker_map x = [] then (Inr (), tr, x)
           else
             (case take_ready_handles api (weak_groups_to_nodes x) m of ((subs, timers), m') \<Rightarrow>
               let x1 = x\<lparr>rt_memory_strategy := Some m'\<rparr>
               in case callback_handle_to_threadgroup_id x1 of
                    None \<Rightarrow> (Inl (Undefined_behaviour ''dereference of a null unique_ptr''), tr, x1)
                  | Some handles \<Rightarrow>
                    (case for_each_state (bundle_subscription env handles) subs ([], tr) of
                       (Inl e, _, tr1) \<Rightarrow> (Inl e, tr1, x1)
                     | (Inr _, bs1, tr1) \<Rightarrow>
                       (case for_each_state (bundle_timer env handles) timers (bs1, tr1) of
                          (Inl e, _, tr2) \<Rightarrow> (Inl e, tr2, x1)
                        | (Inr _, bs2, tr2) \<Rightarrow>
                          (case dispatch_bundles ops (um_iter (ord_int h) bs2) (thread_group_id_worker_map x1) of
                             (res, wm) \<Rightarrow> (res, tr2, x1\<lparr>thread_group_id_worker_map := wm\<rparr>))))))"

section \<open>Spinning\<close>

text \<open>One turn of the loop: \<open>wait_for_work\<close> changes the memory strategy or throws, the workers run.\<close>

record ('q, 'i) iteration =
  it_wait :: "RTAllocatorMemoryStrategy option \<Rightarrow> RTAllocatorMemoryStrategy option result"
  it_workers :: "(int, ('q, 'i) worker_group) umap \<Rightarrow> (int, ('q, 'i) worker_group) umap"

text \<open>The loop over the turns that the condition \<open>rclcpp::ok(context_) && spinning\<close> allows.\<close>

fun spin_loop ::
  "hash_order \<Rightarrow> ('w, 'a) rclcpp_api_scheme \<Rightarrow> ('i, 'b) bundle_env_scheme \<Rightarrow> ('q, 'i BundledExecutable option) queue_ops \<Rightarrow>
     ('q, 'i) iteration list \<Rightarrow> event list \<times> ('q, 'i) PreemptiveExecutor \<Rightarrow>
     unit result \<times> event list \<times> ('q, 'i) PreemptiveExecutor" where
  "spin_loop h api env ops [] s = (Inr (), s)"
| "spin_loop h api env ops (it # its) (tr, x) =
     (case it_wait it (rt_memory_strategy x) of
        Inl e \<Rightarrow> (Inl e, tr, x)
      | Inr m \<Rightarrow>
        (case populate_ready_queues h api env ops
                (tr, x\<lparr>rt_memory_strategy := m,
                  thread_group_id_worker_map := it_workers it (thread_group_id_worker_map x)\<rparr>) of
           (Inl e, s) \<Rightarrow> (Inl e, s)
         | (Inr _, s) \<Rightarrow> spin_loop h api env ops its s))"

text \<open>\<open>spin\<close> after the test of the flag, and the scope exit that resets it on every way out.\<close>

definition spin_body ::
  "hash_order \<Rightarrow> nat \<Rightarrow> registered_names \<Rightarrow> add_group \<Rightarrow> ('w, 'a) rclcpp_api_scheme \<Rightarrow> ('i, 'b) bundle_env_scheme \<Rightarrow>
     ('q, 'i BundledExecutable option) queue_ops \<Rightarrow> 'q \<Rightarrow> ('q, 'i) iteration list \<Rightarrow>
     CallbackRegistry option \<times> event list \<times> ('q, 'i) PreemptiveExecutor \<Rightarrow>
     (unit result \<times> CallbackRegistry option \<times> event list \<times> ('q, 'i) PreemptiveExecutor) option" where
  "spin_body h fuel names add api env ops q0 its s =
     (let (inst, tr, x) = s
      in case load_timing_info h fuel names (inst, x) of
           None \<Rightarrow> None
         | Some (Inl e, inst1, x1) \<Rightarrow> Some (Inl e, inst1, tr, x1)
         | Some (Inr _, inst1, x1) \<Rightarrow>
           (case classify_callback_groups add x1 of
              (Inl e, x2) \<Rightarrow> Some (Inl e, inst1, tr, x2)
            | (Inr _, x2) \<Rightarrow>
              (case spawn_worker_groups h q0 x2 of
                 (Inl e, x3) \<Rightarrow> Some (Inl e, inst1, tr, x3)
               | (Inr _, x3) \<Rightarrow> Some (case spin_loop h api env ops its (tr, x3) of (res, tr4, x4) \<Rightarrow> (res, inst1, tr4, x4)))))"

definition spin ::
  "hash_order \<Rightarrow> nat \<Rightarrow> registered_names \<Rightarrow> add_group \<Rightarrow> ('w, 'a) rclcpp_api_scheme \<Rightarrow> ('i, 'b) bundle_env_scheme \<Rightarrow>
     ('q, 'i BundledExecutable option) queue_ops \<Rightarrow> 'q \<Rightarrow> ('q, 'i) iteration list \<Rightarrow>
     CallbackRegistry option \<times> event list \<times> ('q, 'i) PreemptiveExecutor \<Rightarrow>
     (unit result \<times> CallbackRegistry option \<times> event list \<times> ('q, 'i) PreemptiveExecutor) option" where
  "spin h fuel names add api env ops q0 its s =
     (let (inst, tr, x) = s
      in if spinning x
         then Some (Inl (Runtime_error ''spin_some() called while already spinning''), s)
         else map_option (\<lambda>(res, inst', tr', x'). (res, inst', tr', x'\<lparr>spinning := False\<rparr>))
                (spin_body h fuel names add api env ops q0 its (inst, tr, x\<lparr>spinning := True\<rparr>)))"

end
