(* ===== verification/Executor_Correctness.thy ===== *)
theory Executor_Correctness
  imports Executor
begin

text \<open>
  Correctness of the executor: how callback groups are classified, which worker groups are spawned,
  that every ready bundle reaches the queue of its thread group whatever the iteration order of the
  hash map in between, and how \<open>spin\<close> composes them.
\<close>

section \<open>Classification\<close>




definition live_groups :: "weak_groups_to_nodes \<Rightarrow> (callback_group \<times> ptr) list" where
  "live_groups gs = List.map_filter
     (\<lambda>(g, n). case (g, n) of (Some cg, Some nd) \<Rightarrow> Some (cg, nd) | _ \<Rightarrow> None) gs"

lemma live_groups_simps [simp]:
  "live_groups [] = []"
  "live_groups ((Some cg, Some nd) # gs) = (cg, nd) # live_groups gs"
  "live_groups ((None, n) # gs) = live_groups gs"
  "live_groups ((g, None) # gs) = live_groups gs"
  by (cases g; simp add: live_groups_def List.map_filter_simps)+







text \<open>Group 3 has timer 30 without timing information, group 4 subscription 40 with it.\<close>

definition demo_group :: "ptr \<Rightarrow> EntityVariant list \<Rightarrow> callback_group" where
  "demo_group p es = \<lparr>cg_addr = p, cg_type = Reentrant, cg_can_be_taken_from = True, cg_ptrs = es\<rparr>"

definition demo_executor :: "(unit, bool) PreemptiveExecutor" where
  "demo_executor = (new_executor None [])
     \<lparr>pending_weak_groups_to_nodes :=
        [(Some (demo_group 3 [TimerPtr 30]), Some 1), (None, Some 1), (Some (demo_group 4 [SubscriptionPtr 40]), Some 1)],
      callback_handle_to_threadgroup_id := Some [(40, 1)]\<rparr>"

definition demo_add :: add_group where
  "demo_add cg nd m = Inr (set_group_node cg nd m)"


section \<open>Spawning\<close>

lemma fold_emplace_groups:
  assumes "\<forall>(k, a) \<in> set ps. tg_id a = k" "distinct (map fst ps)"
  shows "map_of (fold (\<lambda>(_, t). um_emplace (tg_id t) (f t)) ps m) k =
    (case map_of m k of Some v \<Rightarrow> Some v | None \<Rightarrow> map_option f (map_of ps k))"
  using assms
proof (induction ps arbitrary: m)
  case (Cons p ps)
  obtain k' a where p: "p = (k', a)" "tg_id a = k'" using Cons.prems(1) by (cases p) auto
  have "k' \<notin> dom (map_of ps)" using Cons.prems(2) p by (simp add: dom_map_of_conv_image_fst)
  then have "map_of ps k' = None" by blast
  with Cons p show ?case by (auto split: option.splits)
qed (simp split: option.splits)

lemma um_iter_ok:
  assumes "hash_order_ok h" "um_ok m"
  shows "map_of (um_iter (ord_int h) m) = map_of m" "distinct (map fst (um_iter (ord_int h) m))"
proof -
  have keys: "map fst (um_iter (ord_int h) m) = ord_int h (um_keys m)" using assms(1) by (simp add: map_fst_um_iter)
  then show d: "distinct (map fst (um_iter (ord_int h) m))" using assms by (simp add: um_ok_def)
  show "map_of (um_iter (ord_int h) m) = map_of m"
  proof
    fix k
    show "map_of (um_iter (ord_int h) m) k = map_of m k"
    proof (cases "map_of m k")
      case None
      then have "k \<notin> set (map fst (um_iter (ord_int h) m))" unfolding keys using assms(1) by auto
      then have "map_of (um_iter (ord_int h) m) k = None" by (simp only: map_of_eq_None_iff set_map not_False_eq_True)
      then show ?thesis using None by simp
    next
      case (Some v)
      then have "(k, v) \<in> set (um_iter (ord_int h) m)" using assms(1) by simp
      with d Some show ?thesis by simp
    qed
  qed
qed

text \<open>
  C28. One worker group per thread group. When there are callback groups without timing information,
  and the worker map is empty, spawning creates a worker group for every exported thread group and
  for no other: with the thread group's priority, one thread and the mutex behaviour for a mutex
  thread group, else its number of threads; all threads wait, nothing is queued.
\<close>

theorem spawn_one_worker_group_each:
  assumes "hash_order_ok h" "um_ok tgs" "\<forall>tg a. map_of tgs tg = Some a \<longrightarrow> tg_id a = tg"
    and "thread_groups x = Some tgs" "thread_group_id_worker_map x = []"
    and "\<not> non_rt_callback_groups_spawned x" "non_rt_callback_groups x \<noteq> []"
  shows "fst (spawn_worker_groups h q0 x) = Inr () \<and>
    dom (map_of (thread_group_id_worker_map (snd (spawn_worker_groups h q0 x)))) = dom (map_of tgs) \<and>
    (\<forall>tg g ws. map_of (thread_group_id_worker_map (snd (spawn_worker_groups h q0 x))) tg = Some (g, ws) \<longrightarrow>
       (\<exists>a. map_of tgs tg = Some a \<and> priority g = tg_priority a \<and> is_mutex g = tg_is_mutex_group a \<and>
          ws = replicate (if tg_is_mutex_group a then 1 else nat (number_of_threads a)) Waiting \<and>
          length (thread_prio g) = length ws \<and> queue g = q0 \<and> num_pending g = 0 \<and> semaphore g = 0))"
proof -
  note it = um_iter_ok [OF assms(1,2)]
  have ids: "\<forall>(k, a) \<in> set (um_iter (ord_int h) tgs). tg_id a = k"
    using assms(1,3) by auto
  let ?m = "thread_group_id_worker_map (snd (spawn_worker_groups h q0 x))"
  have eq: "map_of ?m k = map_option (spawn_group q0) (map_of tgs k)" for k
    using assms(4-7)
    by (simp add: spawn_worker_groups_def Let_def fold_emplace_groups [OF ids it(2)] it(1) split: option.splits)
  have "fst (spawn_worker_groups h q0 x) = Inr ()"
    using assms(4-7) by (simp add: spawn_worker_groups_def)
  moreover have "dom (map_of ?m) = dom (map_of tgs)" by (auto simp: eq)
  moreover have "(\<exists>a. map_of tgs tg = Some a \<and> priority g = tg_priority a \<and> is_mutex g = tg_is_mutex_group a \<and>
      ws = replicate (if tg_is_mutex_group a then 1 else nat (number_of_threads a)) Waiting \<and>
      length (thread_prio g) = length ws \<and> queue g = q0 \<and> num_pending g = 0 \<and> semaphore g = 0)"
    if m: "map_of ?m tg = Some (g, ws)" for tg g ws
  proof -
    from m obtain a where "map_of tgs tg = Some a" "spawn_group q0 a = (g, ws)" unfolding eq by blast
    then show ?thesis
      by (intro exI [of _ a], cases "tg_is_mutex_group a")
        (simp_all add: spawn_group_def make_group_def make_mutex_group_def, (elim conjE; hypsubst; simp)+)
  qed
  ultimately show ?thesis by blast
qed


definition demo_groups_tgs :: "(int, ThreadGroupAttributes) umap" where
  "demo_groups_tgs = [(1, \<lparr>tg_id = 1, number_of_threads = 3, tg_priority = 7, tg_is_mutex_group = False\<rparr>),
     (2, \<lparr>tg_id = 2, number_of_threads = 5, tg_priority = 8, tg_is_mutex_group = True\<rparr>)]"

definition demo_spawning :: "(unit, bool) PreemptiveExecutor" where
  "demo_spawning = demo_executor\<lparr>thread_groups := Some demo_groups_tgs, non_rt_callback_groups := [(None, 1)]\<rparr>"

theorem spawn_one_worker_group_each_witness:
  "dom (map_of (thread_group_id_worker_map (snd (spawn_worker_groups insertion_order () demo_spawning)))) = {1, 2}"
proof -
  have "um_ok demo_groups_tgs" "\<forall>tg a. map_of demo_groups_tgs tg = Some a \<longrightarrow> tg_id a = tg"
    by (auto simp: um_ok_def um_keys_def demo_groups_tgs_def split: if_splits)
  from spawn_one_worker_group_each [OF insertion_order_ok this, of demo_spawning "()"]
  show ?thesis by (auto simp: demo_spawning_def demo_executor_def new_executor_def demo_groups_tgs_def)
qed

section \<open>Dispatching\<close>

text \<open>What populating has to queue: for each ready entity in turn the bundle made from it and the thread
  group of its handle; an entity whose handle has no thread group is dropped.\<close>

fun bundled_all ::
  "(ptr \<Rightarrow> event list \<Rightarrow> 'i BundledExecutable option result \<times> event list) \<Rightarrow> (ptr, int) umap \<Rightarrow> ptr list \<Rightarrow> event list \<Rightarrow>
     (int \<times> 'i BundledExecutable) list \<times> event list" where
  "bundled_all take_one handles [] tr = ([], tr)"
| "bundled_all take_one handles (p # ps) tr =
     (case take_one p tr of
        (Inr (Some b), tr1) \<Rightarrow>
          (case (map_of handles (get_raw_handle b), bundled_all take_one handles ps tr1) of
             (None, bs, tr2) \<Rightarrow> (bs, tr2)
           | (Some t, bs, tr2) \<Rightarrow> ((t, b) # bs, tr2))
      | (_, tr1) \<Rightarrow> bundled_all take_one handles ps tr1)"

definition bundles_for :: "int \<Rightarrow> (int \<times> 'i BundledExecutable) list \<Rightarrow> 'i BundledExecutable list" where
  "bundles_for t bs = map snd (filter (\<lambda>(t', _). t' = t) bs)"

lemma bundles_for_simps [simp]:
  "bundles_for t [] = []"
  "bundles_for t ((t', b) # bs) = (if t' = t then b # bundles_for t bs else bundles_for t bs)"
  "bundles_for t (bs @ cs) = bundles_for t bs @ bundles_for t cs"
  by (simp_all add: bundles_for_def)

text \<open>The map from thread groups to bundles holds a list of pairs, grouped.\<close>

definition grouped :: "'i bundle_map \<Rightarrow> (int \<times> 'i BundledExecutable) list \<Rightarrow> bool" where
  "grouped m bs \<longleftrightarrow> um_ok m \<and>
     (\<forall>t. map_of m t = (if bundles_for t bs = [] then None else Some (bundles_for t bs)))"

lemma grouped_Nil [simp]: "grouped [] []"
  by (simp add: grouped_def)

lemma grouped_emplace:
  assumes "grouped m bs"
  shows "grouped (emplace_bundle t (Some b) m) (bs @ [(t, b)])"
  using assms by (auto simp: grouped_def emplace_bundle_def um_get_def)

lemma bundle_subscriptions_grouped:
  assumes "for_each_state (bundle_subscription env handles) subs (m, tr) = (Inr (), m', tr')" "grouped m bs"
  shows "grouped m' (bs @ fst (bundled_all (take_and_bundle env) handles subs tr)) \<and>
    tr' = snd (bundled_all (take_and_bundle env) handles subs tr)"
  using assms
proof (induction subs arbitrary: m tr bs)
  case (Cons p ps)
  obtain r tr1 where t: "take_and_bundle env p tr = (r, tr1)" by fastforce
  show ?case
  proof (cases r)
    case (Inr ob)
    show ?thesis
    proof (cases ob)
      case None
      with Cons t Inr show ?thesis by (simp add: bundle_subscription_def)
    next
      case (Some b)
      show ?thesis
      proof (cases "map_of handles (get_raw_handle b)")
        case None
        with Cons.prems t Inr Some Cons.IH [of m tr1 bs] show ?thesis
          by (simp add: bundle_subscription_def split: prod.splits)
      next
        case (Some t')
        with Cons.prems t Inr \<open>ob = Some b\<close> Cons.IH [OF _ grouped_emplace [OF Cons.prems(2), of t' b], of tr1]
        show ?thesis by (cases "bundled_all (take_and_bundle env) handles ps tr1") (simp add: bundle_subscription_def)
      qed
    qed
  qed (use Cons.prems t in \<open>simp add: bundle_subscription_def\<close>)
qed simp

lemma bundle_timers_grouped:
  assumes "for_each_state (bundle_timer env handles) timers (m, tr) = (Inr (), m', tr')" "grouped m bs"
  shows "grouped m' (bs @ fst (bundled_all (timer_take_and_bundle env) handles timers tr)) \<and>
    tr' = snd (bundled_all (timer_take_and_bundle env) handles timers tr)"
  using assms
proof (induction timers arbitrary: m tr bs)
  case (Cons p ps)
  have take: "timer_take_and_bundle env p tr =
      (Inr (if call_timer env tr p then Some (BundledTimer p) else None), tr @ [Called_timer p])"
    by (simp add: timer_take_and_bundle_def)
  show ?case
  proof (cases "call_timer env tr p")
    case False
    with Cons take show ?thesis by (simp add: bundle_timer_def)
  next
    case True
    with Cons.prems obtain t' where "map_of handles p = Some t'"
      by (cases "map_of handles p") (auto simp: bundle_timer_def take)
    with Cons.prems True Cons.IH [OF _ grouped_emplace [OF Cons.prems(2), of t' "BundledTimer p"], of "tr @ [Called_timer p]"]
    show ?thesis
      by (cases "bundled_all (timer_take_and_bundle env) handles ps (tr @ [Called_timer p])")
        (simp add: bundle_timer_def take)
  qed
qed simp

lemma dispatch_bundles_ok:
  assumes "dispatch_bundles ops ps wm = (Inr (), wm')" "distinct (map fst ps)" "map_of wm t = Some (g, ws)"
  shows "\<exists>g'. map_of wm' t = Some (g', ws) \<and>
    (case map_of ps t of None \<Rightarrow> g' = g | Some bl \<Rightarrow> if bl = [] then g' = g else deliver ops t bl g = (Inr (), g'))"
  using assms
proof (induction ps arbitrary: wm g)
  case (Cons p ps)
  obtain t' bl where p: "p = (t', bl)" by (cases p)
  show ?case
  proof (cases "bl = []")
    case True
    with Cons.prems p have "\<exists>g'. map_of wm' t = Some (g', ws) \<and>
        (case map_of ps t of None \<Rightarrow> g' = g | Some bl \<Rightarrow> if bl = [] then g' = g else deliver ops t bl g = (Inr (), g'))"
      by (intro Cons.IH) auto
    moreover have "t' = t \<Longrightarrow> map_of ps t = None" using Cons.prems(2) p by (auto simp: map_of_eq_None_iff)
    ultimately show ?thesis using p True by auto
  next
    case False
    with Cons.prems(1) p obtain g1 ws1 where g1: "map_of wm t' = Some (g1, ws1)"
      by (cases "map_of wm t'") auto
    obtain r g2 where d: "deliver ops t' bl g1 = (r, g2)" by fastforce
    with Cons.prems(1) p g1 False have r: "r = Inr ()" and
      rest: "dispatch_bundles ops ps (um_set t' (g2, ws1) wm) = (Inr (), wm')"
      by (auto split: sum.splits)
    show ?thesis
    proof (cases "t' = t")
      case True
      then have "map_of ps t = None" using Cons.prems(2) p by (auto simp: map_of_eq_None_iff)
      moreover have "g1 = g" "ws1 = ws" using Cons.prems(3) g1 True by auto
      ultimately show ?thesis
        using Cons.IH [OF rest, of g2] Cons.prems(2) p True d r False by auto
    next
      case neq: False
      then show ?thesis using Cons.IH [OF rest, of g] Cons.prems(2,3) p by auto
    qed
  qed
qed simp

lemma populate_stages:
  assumes "rt_memory_strategy x = Some m" "thread_group_id_worker_map x \<noteq> []"
    and "callback_handle_to_threadgroup_id x = Some handles"
    and "take_ready_handles api (weak_groups_to_nodes x) m = ((subs, timers), m')"
    and "for_each_state (bundle_subscription env handles) subs ([], tr) = (r1, m1, tr1)"
    and "for_each_state (bundle_timer env handles) timers (m1, tr1) = (r2, m2, tr2)"
    and "dispatch_bundles ops (um_iter (ord_int h) m2) (thread_group_id_worker_map x) = (r3, wm)"
  shows "populate_ready_queues h api env ops (tr, x) =
    (case r1 of Inl e \<Rightarrow> (Inl e, tr1, x\<lparr>rt_memory_strategy := Some m'\<rparr>)
     | Inr _ \<Rightarrow> case r2 of Inl e \<Rightarrow> (Inl e, tr2, x\<lparr>rt_memory_strategy := Some m'\<rparr>)
     | Inr _ \<Rightarrow> (r3, tr2, x\<lparr>rt_memory_strategy := Some m', thread_group_id_worker_map := wm\<rparr>))"
  using assms by (simp add: populate_ready_queues_def Let_def split: sum.splits)

lemma populate_delivers:
  assumes "hash_order_ok h" "rt_memory_strategy x = Some m" "thread_group_id_worker_map x \<noteq> []"
    and "callback_handle_to_threadgroup_id x = Some handles"
    and "take_ready_handles api (weak_groups_to_nodes x) m = ((subs, timers), m')"
    and "populate_ready_queues h api env ops (tr, x) = (Inr (), tr', x')"
  shows "\<exists>bs1 bs2 tr1. bundled_all (take_and_bundle env) handles subs tr = (bs1, tr1) \<and>
    bundled_all (timer_take_and_bundle env) handles timers tr1 = (bs2, tr') \<and>
    rt_memory_strategy x' = Some m' \<and>
    (\<forall>t g ws. map_of (thread_group_id_worker_map x) t = Some (g, ws) \<longrightarrow>
      (\<exists>g'. map_of (thread_group_id_worker_map x') t = Some (g', ws) \<and>
         (if bundles_for t (bs1 @ bs2) = [] then g' = g
          else deliver ops t (bundles_for t (bs1 @ bs2)) g = (Inr (), g'))))"
proof -
  obtain r1 m1 tr1 where l1: "for_each_state (bundle_subscription env handles) subs ([], tr) = (r1, m1, tr1)"
    by (metis surj_pair)
  obtain r2 m2 tr2 where l2: "for_each_state (bundle_timer env handles) timers (m1, tr1) = (r2, m2, tr2)"
    by (metis surj_pair)
  obtain r3 wm where l3: "dispatch_bundles ops (um_iter (ord_int h) m2) (thread_group_id_worker_map x) = (r3, wm)"
    by (metis surj_pair)
  from assms(2-6) l1 l2 l3 have ok: "r1 = Inr ()" "r2 = Inr ()" "r3 = Inr ()" and
    x': "tr' = tr2" "x' = x\<lparr>rt_memory_strategy := Some m', thread_group_id_worker_map := wm\<rparr>"
    by (auto simp: populate_stages split: sum.splits)
  obtain bs1 bs2 where bs: "bundled_all (take_and_bundle env) handles subs tr = (bs1, tr1)"
    "bundled_all (timer_take_and_bundle env) handles timers tr1 = (bs2, tr2)" and gr: "grouped m2 (bs1 @ bs2)"
    using bundle_subscriptions_grouped [of env handles subs "[]" tr m1 tr1 "[]"]
      bundle_timers_grouped [of env handles timers m1 tr1 m2 tr2] l1 l2 ok
    by (metis append_Nil grouped_Nil prod.collapse)
  note it = um_iter_ok [OF assms(1), of m2]
  have "\<exists>g'. map_of wm t = Some (g', ws) \<and>
      (if bundles_for t (bs1 @ bs2) = [] then g' = g
       else deliver ops t (bundles_for t (bs1 @ bs2)) g = (Inr (), g'))"
    if "map_of (thread_group_id_worker_map x) t = Some (g, ws)" for t g ws
    using dispatch_bundles_ok [OF _ it(2) that, of ops wm] l3 ok(3) it(1) gr
    by (auto simp: grouped_def split: if_splits)
  with bs x' show ?thesis by auto
qed

text \<open>
  C13. Every ready bundle reaches its own worker group. When \<open>populate_ready_queues\<close> returns, each
  worker group has received exactly the bundles made from the ready subscriptions and then the ready
  timers whose handle is assigned to it, in that order and in one batch, and groups without such
  bundles are untouched; the result does not depend on the iteration order of the hash map in between.
\<close>

theorem populate_delivers_by_group:
  assumes "hash_order_ok h" "rt_memory_strategy x = Some m" "thread_group_id_worker_map x \<noteq> []"
    and "callback_handle_to_threadgroup_id x = Some handles"
    and "take_ready_handles api (weak_groups_to_nodes x) m = ((subs, timers), m')"
    and "populate_ready_queues h api env ops (tr, x) = (Inr (), tr', x')"
  shows "\<exists>bs1 bs2 tr1. bundled_all (take_and_bundle env) handles subs tr = (bs1, tr1) \<and>
    bundled_all (timer_take_and_bundle env) handles timers tr1 = (bs2, tr') \<and>
    rt_memory_strategy x' = Some m' \<and>
    (\<forall>t g ws. map_of (thread_group_id_worker_map x) t = Some (g, ws) \<longrightarrow>
      (\<exists>g'. map_of (thread_group_id_worker_map x') t = Some (g', ws) \<and>
         (if bundles_for t (bs1 @ bs2) = [] then g' = g
          else deliver ops t (bundles_for t (bs1 @ bs2)) g = (Inr (), g'))))"
  by (rule populate_delivers [OF assms])


text \<open>A queue that is a list, to evaluate examples.\<close>

definition list_ops :: "('e list, 'e) queue_ops" where
  "list_ops = \<lparr>q_enqueue_bulk = (\<lambda>xs q. (True, q @ xs)),
     q_try_dequeue = (\<lambda>q. case q of [] \<Rightarrow> (None, []) | x # xs \<Rightarrow> (Some x, xs))\<rparr>"

definition demo_populated :: "(bool BundledExecutable option list, bool) PreemptiveExecutor" where
  "demo_populated = (new_executor (Some (new_memory_strategy\<lparr>timer_handles := [105]\<rparr>)) [])
     \<lparr>weak_groups_to_nodes := [(Some (demo_group 4 [TimerPtr 5]), Some 1)],
      callback_handle_to_threadgroup_id := Some [(5, 1)],
      thread_group_id_worker_map := [(1, make_mutex_group 7 []), (2, make_group 8 3 [])]\<rparr>"

lemma demo_populate:
  "\<exists>x'. populate_ready_queues insertion_order demo_api demo_env list_ops ([], demo_populated) = (Inr (), [Called_timer 5], x')"
  "take_ready_handles demo_api (weak_groups_to_nodes demo_populated) (new_memory_strategy\<lparr>timer_handles := [105]\<rparr>) =
     (([], [5]), new_memory_strategy)"
  "bundled_all (timer_take_and_bundle demo_env) [(5, 1)] [5] [] = ([(1, BundledTimer 5)], [Called_timer 5])"
  by (simp_all add: populate_ready_queues_def demo_populated_def new_executor_def take_ready_handles_def ready_set_def
      new_memory_strategy_def take_ready_group_def demo_group_def demo_api_def us_insert_def Let_def
      bundle_timer_def timer_take_and_bundle_def demo_env_def emplace_bundle_def um_modify_def um_get_def um_set_def
      um_iter_def um_keys_def insertion_order_def List.map_filter_simps make_mutex_group_def make_group_def
      deliver_def list_ops_def update_prio_def)

theorem populate_delivers_by_group_witness:
  "\<exists>x' g' ws. populate_ready_queues insertion_order demo_api demo_env list_ops ([], demo_populated) = (Inr (), [Called_timer 5], x') \<and>
     map_of (thread_group_id_worker_map x') 1 = Some (g', ws) \<and> queue g' = [Some (BundledTimer 5)] \<and> semaphore g' = 1"
proof -
  obtain x' where p: "populate_ready_queues insertion_order demo_api demo_env list_ops ([], demo_populated) =
    (Inr (), [Called_timer 5], x')" using demo_populate(1) ..
  have x: "rt_memory_strategy demo_populated = Some (new_memory_strategy\<lparr>timer_handles := [105]\<rparr>)"
    "thread_group_id_worker_map demo_populated \<noteq> []"
    "callback_handle_to_threadgroup_id demo_populated = Some [(5, 1)]"
    "map_of (thread_group_id_worker_map demo_populated) 1 = Some (make_mutex_group 7 [])"
    by (simp_all add: demo_populated_def new_executor_def)
  obtain g' ws where "map_of (thread_group_id_worker_map x') 1 = Some (g', ws)"
    "deliver list_ops 1 [BundledTimer 5] (fst (make_mutex_group 7 [])) = (Inr (), g')"
  proof -
    obtain bs1 bs2 tr1 where b: "bundled_all (take_and_bundle demo_env) [(5, 1)] [] [] = (bs1, tr1)"
      "bundled_all (timer_take_and_bundle demo_env) [(5, 1)] [5] tr1 = (bs2, [Called_timer 5])" and
      all: "\<forall>t g ws. map_of (thread_group_id_worker_map demo_populated) t = Some (g, ws) \<longrightarrow>
        (\<exists>g'. map_of (thread_group_id_worker_map x') t = Some (g', ws) \<and>
           (if bundles_for t (bs1 @ bs2) = [] then g' = g
            else deliver list_ops t (bundles_for t (bs1 @ bs2)) g = (Inr (), g')))"
      using populate_delivers_by_group [OF insertion_order_ok x(1-3) demo_populate(2) p] by blast
    have "bs1 = []" "tr1 = []" using b(1) by simp_all
    then have "bundles_for 1 (bs1 @ bs2) = [BundledTimer 5]" using b(2) demo_populate(3) by simp
    moreover obtain g0 :: "(bool BundledExecutable option list, bool BundledExecutable) WorkerGroup" and ws0
      where g0: "make_mutex_group 7 [] = (g0, ws0)" by fastforce
    ultimately show ?thesis using all [rule_format, of 1 g0 ws0] x(4) that by auto
  qed
  with p show ?thesis
    by (auto simp: deliver_def list_ops_def make_mutex_group_def make_group_def update_prio_def)
qed

section \<open>Delivery as the dispatcher's steps\<close>






section \<open>Routing\<close>

text \<open>Every thread group that the handles name has a worker group.\<close>

definition routed :: "('q, 'i) PreemptiveExecutor \<Rightarrow> bool" where
  "routed x \<longleftrightarrow> (\<exists>handles. callback_handle_to_threadgroup_id x = Some handles \<and>
     ran (map_of handles) \<subseteq> dom (map_of (thread_group_id_worker_map x)))"

lemma load_timing_infoD:
  assumes "load_timing_info h fuel names (None, x) = Some (Inr (), inst, x1)"
  obtains r te r' where "make_registry h names (pending_weak_groups_to_nodes x) (user_chains_ref x) = Inr r"
    "callback_threadgroup_allocation h fuel r = Some (Inr (te, r'))" "inst = Some r'"
    "x1 = x\<lparr>callback_handle_to_threadgroup_id := Some (te_callback_handle_to_threadgroup_id te),
        thread_groups := Some (te_threadgroup_attributes te)\<rparr>"
  using assms by (auto simp: load_timing_info_def get_instance_def split: sum.splits option.splits)

lemma classify_frame:
  assumes "classify_callback_groups add x = (r, x')"
  shows "callback_handle_to_threadgroup_id x' = callback_handle_to_threadgroup_id x" "thread_groups x' = thread_groups x"
    "thread_group_id_worker_map x' = thread_group_id_worker_map x" "rt_memory_strategy x' = rt_memory_strategy x"
    "non_rt_callback_groups_spawned x' = non_rt_callback_groups_spawned x" "spinning x' = spinning x"
  using assms by (auto simp: classify_callback_groups_def split: option.splits prod.splits sum.splits)

lemma spawned_worker_map:
  assumes "spawn_worker_groups h q0 x = (Inr (), x')"
  shows "callback_handle_to_threadgroup_id x' = callback_handle_to_threadgroup_id x"
    and "thread_groups x = Some tgs \<Longrightarrow> thread_group_id_worker_map x' =
      fold (\<lambda>(_, t). um_emplace (tg_id t) (spawn_group q0 t)) (um_iter (ord_int h) tgs) (thread_group_id_worker_map x)"
  using assms by (auto simp: spawn_worker_groups_def Let_def split: if_splits option.splits)

lemma dom_fold_emplace:
  "dom (map_of (fold (\<lambda>(_, t). um_emplace (tg_id t) (f t)) ps m)) = dom (map_of m) \<union> (\<lambda>(_, t). tg_id t) ` set ps"
  by (induction ps arbitrary: m) (auto split: if_splits)

text \<open>
  C17. After the set-up of a first \<open>spin\<close>, every exported handle is routed: when loading the timing
  information, classifying the groups and spawning the worker groups succeed, the handles are those of
  the registered callbacks, and each is mapped to a thread group that has a worker group.
\<close>

theorem setup_routes_all_handles:
  assumes "hash_order_ok h" "load_timing_info h fuel names (None, x) = Some (Inr (), inst, x1)"
    and "classify_callback_groups add x1 = (Inr (), x2)" "spawn_worker_groups h q0 x2 = (Inr (), x3)"
  shows "routed x3 \<and> (\<exists>handles r. callback_handle_to_threadgroup_id x3 = Some handles \<and>
    make_registry h names (pending_weak_groups_to_nodes x) (user_chains_ref x) = Inr r \<and>
    dom (map_of handles) = {get_raw_pointer (ci_entity ci) | name ci. map_of (callback_map r) name = Some ci})"
proof -
  obtain r te r' where r: "make_registry h names (pending_weak_groups_to_nodes x) (user_chains_ref x) = Inr r"
    "callback_threadgroup_allocation h fuel r = Some (Inr (te, r'))" and
    x1: "x1 = x\<lparr>callback_handle_to_threadgroup_id := Some (te_callback_handle_to_threadgroup_id te),
        thread_groups := Some (te_threadgroup_attributes te)\<rparr>"
    using load_timing_infoD [OF assms(2)] by metis
  note ex = allocation_export [OF assms(1) r] and cl = classify_frame [OF assms(3)] and sp = spawned_worker_map [OF assms(4)]
  let ?h = "te_callback_handle_to_threadgroup_id te" and ?a = "te_threadgroup_attributes te"
  have h3: "callback_handle_to_threadgroup_id x3 = Some ?h" using sp(1) cl(1) x1 by simp
  have "dom (map_of ?a) \<subseteq> (\<lambda>(_, t). tg_id t) ` set (um_iter (ord_int h) ?a)"
    using assms(1) ex(3) by (force simp: image_iff)
  then have sub: "dom (map_of ?a) \<subseteq> dom (map_of (thread_group_id_worker_map x3))"
    using sp(2) [of ?a] cl(2) x1 by (auto simp: dom_fold_emplace)
  have "ran (map_of ?h) \<subseteq> dom (map_of ?a)"
  proof
    fix tg assume "tg \<in> ran (map_of ?h)"
    then obtain p where p: "map_of ?h p = Some tg" by (auto simp: ran_def)
    then obtain name ci where "map_of (callback_map r) name = Some ci" "p = get_raw_pointer (ci_entity ci)"
      using ex(4) domI [of "map_of ?h", OF p] by blast
    with ex(1) [of name ci] p show "tg \<in> dom (map_of ?a)" by auto
  qed
  with sub h3 have "routed x3" by (auto simp: routed_def)
  with h3 r ex(4) show ?thesis by blast
qed








text \<open>The example system of the registry, set up in an executor with one more group that has no timing
  information.\<close>

definition demo_system :: "(unit, bool) PreemptiveExecutor" where
  "demo_system = (new_executor None demo_chains)
     \<lparr>pending_weak_groups_to_nodes := demo_groups @ [(Some (demo_group 99 [TimerPtr 98]), Some 1)]\<rparr>"

definition demo_loaded :: "CallbackRegistry option \<times> (unit, bool) PreemptiveExecutor" where
  "demo_loaded = snd (the (load_timing_info insertion_order 5 demo_names (None, demo_system)))"

definition demo_classified :: "(unit, bool) PreemptiveExecutor" where
  "demo_classified = snd (classify_callback_groups demo_add (snd demo_loaded))"

definition demo_spawned :: "(unit, bool) PreemptiveExecutor" where
  "demo_spawned = snd (spawn_worker_groups insertion_order () demo_classified)"

theorem setup_routes_all_handles_witness: "routed demo_spawned"
proof -
  have "load_timing_info insertion_order 5 demo_names (None, demo_system) = Some (Inr (), demo_loaded)"
    "classify_callback_groups demo_add (snd demo_loaded) = (Inr (), demo_classified)"
    "spawn_worker_groups insertion_order () demo_classified = (Inr (), demo_spawned)"
    by code_simp+
  then show ?thesis
    using setup_routes_all_handles [OF insertion_order_ok, of 5 demo_names demo_system "fst demo_loaded" "snd demo_loaded"
      demo_add demo_classified "()" demo_spawned] by simp
qed


section \<open>Spinning\<close>

text \<open>
  The spinning flag is released on every way out. \<open>spin\<close> on an executor that already spins throws and
  changes nothing; otherwise, whether it returns or throws, the flag is clear afterwards, so the
  executor can be spun again and its workers are told to stop.
\<close>

theorem spin_releases_flag:
  "(spinning x \<longrightarrow> spin h fuel names add api env ops q0 its (inst, tr, x) =
      Some (Inl (Runtime_error ''spin_some() called while already spinning''), inst, tr, x)) \<and>
   (\<not> spinning x \<longrightarrow> (\<forall>res inst' tr' x'.
      spin h fuel names add api env ops q0 its (inst, tr, x) = Some (res, inst', tr', x') \<longrightarrow> \<not> spinning x'))"
  by (auto simp: spin_def)

theorem spin_releases_flag_witness:
  "spin insertion_order 1 [] demo_add demo_api demo_env list_ops [] [] (None, [], demo_populated\<lparr>spinning := True\<rparr>) =
     Some (Inl (Runtime_error ''spin_some() called while already spinning''), None, [], demo_populated\<lparr>spinning := True\<rparr>)"
  using spin_releases_flag [of "demo_populated\<lparr>spinning := True\<rparr>"] by simp


definition all_rt_system :: "(bool BundledExecutable option list, bool) PreemptiveExecutor" where
  "all_rt_system = (new_executor None demo_chains)\<lparr>pending_weak_groups_to_nodes := demo_groups\<rparr>"



text \<open>The registry after an export is empty, and allocating from it exports nothing.\<close>

lemma export_empties:
  assumes "callback_threadgroup_allocation h fuel r = Some (Inr (te, r'))"
  shows "r' = empty_registry"
  using assms
  by (auto simp: callback_threadgroup_allocation_def export_timing_information_def Let_def
      split: option.splits sum.splits prod.splits)

lemma empty_allocation:
  assumes "hash_order_ok h"
  shows "callback_threadgroup_allocation h fuel empty_registry =
    Some (Inr (\<lparr>te_callback_handle_to_threadgroup_id = [], te_threadgroup_attributes = []\<rparr>, empty_registry))"
proof -
  have "ord_string h [] = []" "ord_int h [] = []" using hash_order_length(1) [OF assms, of "[]"] hash_order_length(2) [OF assms, of "[]"] by auto
  then show ?thesis
    by (simp add: callback_threadgroup_allocation_def cut_into_threadgroups_def export_timing_information_def
        empty_registry_def um_iter_def um_keys_def List.map_filter_simps assign_priorities_def)
qed

lemma spin_loop_without_groups:
  assumes "spin_loop h api env ops its (tr, x) = (res, tr', x')"
    and "thread_group_id_worker_map x = []" "\<forall>it \<in> set its. it_workers it [] = []"
  shows "tr' = tr \<and> thread_group_id_worker_map x' = [] \<and>
    callback_handle_to_threadgroup_id x' = callback_handle_to_threadgroup_id x"
  using assms
proof (induction its arbitrary: x)
  case (Cons it its)
  show ?case
  proof (cases "it_wait it (rt_memory_strategy x)")
    case (Inr m)
    have "populate_ready_queues h api env ops (tr, x\<lparr>rt_memory_strategy := m, thread_group_id_worker_map := []\<rparr>) =
        (Inr (), tr, x\<lparr>rt_memory_strategy := m, thread_group_id_worker_map := []\<rparr>)"
      by (simp add: populate_ready_queues_def split: option.splits)
    with Cons.prems Inr Cons.IH [of "x\<lparr>rt_memory_strategy := m, thread_group_id_worker_map := []\<rparr>"]
    show ?thesis by simp
  qed (use Cons.prems in auto)
qed simp

text \<open>
  Only the first export of the process has timing information. The registry is one object for all
  executors and an export empties it: once an allocation has succeeded anywhere, any later \<open>spin\<close> of an
  executor without worker groups, on whatever nodes and chains, ends up with no handles and no worker groups and
  takes no message and no timer.
\<close>

theorem later_spin_has_no_timing:
  assumes "callback_threadgroup_allocation h0 fuel0 r = Some (Inr (te, r'))" "hash_order_ok h"
    and "\<not> spinning x" "thread_group_id_worker_map x = []" "\<forall>it \<in> set its. it_workers it [] = []"
    and "spin h fuel names add api env ops q0 its (Some r', tr, x) = Some (res, inst', tr', x')"
  shows "callback_handle_to_threadgroup_id x' = Some [] \<and> thread_group_id_worker_map x' = [] \<and> tr' = tr"
proof -
  let ?x0 = "x\<lparr>spinning := True\<rparr>"
  let ?x1 = "?x0\<lparr>callback_handle_to_threadgroup_id := Some [], thread_groups := Some []\<rparr>"
  have load: "load_timing_info h fuel names (Some r', ?x0) = Some (Inr (), Some empty_registry, ?x1)"
    using export_empties [OF assms(1)] empty_allocation [OF assms(2)] by (simp add: load_timing_info_def get_instance_def)
  obtain r2 x2 where cl: "classify_callback_groups add ?x1 = (r2, x2)" by fastforce
  note f2 = classify_frame [OF cl]
  obtain r3 x3 where sp: "spawn_worker_groups h q0 x2 = (r3, x3)" by fastforce
  have "ord_int h [] = []" using hash_order_length(2) [OF assms(2), of "[]"] by auto
  then have x3: "thread_group_id_worker_map x3 = []" "callback_handle_to_threadgroup_id x3 = Some []"
    using sp f2 assms(4)
    by (auto simp: spawn_worker_groups_def Let_def um_iter_def um_keys_def List.map_filter_simps split: if_splits)
  obtain r4 tr4 x4 where lp: "spin_loop h api env ops its (tr, x3) = (r4, tr4, x4)" by (metis surj_pair)
  note f4 = spin_loop_without_groups [OF lp x3(1) assms(5)]
  from assms(3,6) load cl sp lp f2 x3 f4 assms(4) show ?thesis
    by (cases r2; cases r3) (auto simp: spin_def spin_body_def)
qed


theorem later_spin_has_no_timing_witness:
  "\<exists>res inst' x'. spin insertion_order 5 demo_names demo_add demo_api demo_env list_ops [] [] (Some empty_registry, [], all_rt_system) =
      Some (res, inst', [], x') \<and> thread_group_id_worker_map x' = [] \<and> callback_handle_to_threadgroup_id x' = Some []"
proof -
  define y where "y = the (spin insertion_order 5 demo_names demo_add demo_api demo_env list_ops [] [] (Some empty_registry, [], all_rt_system))"
  have y: "spin insertion_order 5 demo_names demo_add demo_api demo_env list_ops [] [] (Some empty_registry, [], all_rt_system) = Some y"
    unfolding y_def by code_simp
  obtain res inst' tr' x' where "y = (res, inst', tr', x')" by (metis surj_pair)
  with y have sp: "spin insertion_order 5 demo_names demo_add demo_api demo_env list_ops [] [] (Some empty_registry, [], all_rt_system) =
    Some (res, inst', tr', x')" by simp
  have "\<not> spinning all_rt_system" "thread_group_id_worker_map all_rt_system = []"
    by (simp_all add: all_rt_system_def new_executor_def)
  from later_spin_has_no_timing [OF demo_allocation insertion_order_ok this _ sp] sp show ?thesis by auto
qed

end
