(* ===== verification/Worker_History.thy ===== *)
theory Worker_History
  imports Worker_Group
begin

text \<open>
  What becomes of the bundles that the dispatcher hands to a worker group: each is run once, in the group of a
  mutex in the order in which it was handed over; and the end of a group: every thread stops.
\<close>

section \<open>The bundles of a group\<close>

text \<open>A bundle that a thread has popped and not run.\<close>

fun popped_bundle :: "'b worker_pc \<Rightarrow> 'b list" where
  "popped_bundle (Popped (Some x)) = [x]"
| "popped_bundle _ = []"

definition carried :: "'b worker_pc list \<Rightarrow> 'b list" where
  "carried ws = concat (map popped_bundle ws)"

text \<open>A run of the group with the bundles that the dispatcher has handed over.\<close>

inductive group_history ::
  "('q, 'b option) queue_ops \<Rightarrow> ('q, 'b) group_sys \<Rightarrow> 'b list \<Rightarrow> ('q, 'b) group_sys \<Rightarrow> bool" for ops s0 where
  start: "group_history ops s0 [] s0"
| batch: "group_history ops s0 bs s \<Longrightarrow> dispatcher s = D_idle \<Longrightarrow> length bundles \<le> VECTOR_MAX \<Longrightarrow>
     dispatch ops bundles (grp s) = (d, g) \<Longrightarrow>
     group_history ops s0 (bs @ (if d = D_queued (length bundles) then bundles else [])) (s\<lparr>dispatcher := d, grp := g\<rparr>)"
| other: "group_history ops s0 bs s \<Longrightarrow> group_step ops s s' \<Longrightarrow>
     dispatcher s \<noteq> D_idle \<or> dispatcher s' = D_idle \<or> dispatcher s' = D_joining \<Longrightarrow> group_history ops s0 bs s'"

lemma history_reachable: "group_history ops s0 bs s \<Longrightarrow> (group_step ops)\<^sup>*\<^sup>* s0 s"
proof (induction rule: group_history.induct)
  case (batch bs s bundles d g)
  from batch.IH group_step.dispatch [OF batch.hyps(2-4)] show ?case by (rule rtranclp.rtrancl_into_rtrancl)
qed auto

lemma reachable_history: "(group_step ops)\<^sup>*\<^sup>* s0 s \<Longrightarrow> \<exists>bs. group_history ops s0 bs s"
proof (induction rule: rtranclp_induct)
  case base
  show ?case using group_history.start by blast
next
  case (step s s')
  then obtain bs where h: "group_history ops s0 bs s" by blast
  from step(2) show ?case
  proof (cases rule: group_step.cases)
    case (dispatch bundles d g)
    with group_history.batch [OF h] show ?thesis by blast
  next
    case (worker i pc g)
    then have "dispatcher s \<noteq> D_idle \<or> dispatcher s' = D_idle \<or> dispatcher s' = D_joining" by auto
    with group_history.other [OF h step(2)] show ?thesis by blast
  next
    case (dispatcher d g)
    then have "dispatcher s \<noteq> D_idle" by auto
    with group_history.other [OF h step(2)] show ?thesis by blast
  next
    case stop
    then have "dispatcher s \<noteq> D_idle \<or> dispatcher s' = D_idle \<or> dispatcher s' = D_joining" by auto
    with group_history.other [OF h step(2)] show ?thesis by blast
  next
    case (destroy d g)
    then have "dispatcher s' = D_joining" by (auto simp: destroy_def)
    with group_history.other [OF h step(2)] show ?thesis by blast
  next
    case join
    then have "dispatcher s \<noteq> D_idle" by auto
    with group_history.other [OF h step(2)] show ?thesis by blast
  qed
qed

lemma mset_carried_update:
  "i < length ws \<Longrightarrow> mset (carried (ws[i := pc])) + mset (popped_bundle (ws ! i)) = mset (carried ws) + mset (popped_bundle pc)"
  using mset_concat_update [of i "map popped_bundle ws" "popped_bundle pc"] by (simp add: carried_def map_update)

text \<open>The steps other than taking from the queue and queueing do not touch it.\<close>

lemma dispatcher_step_frame:
  assumes "dispatcher_step d g = Some (d', g')"
  shows "queue g' = queue g" "executed g' = executed g"
proof -
  have "queue g' = queue g \<and> executed g' = executed g"
  proof (cases d)
    case (D_updating p n)
    obtain r g1 where p: "prio_step p g = (r, g1)" by fastforce
    with assms D_updating prio_step_frame(1,6) [OF p] show ?thesis by (auto split: sum.splits option.splits)
  qed (use assms in auto)
  then show "queue g' = queue g" "executed g' = executed g" by blast+
qed

context work_queue
begin

text \<open>One step of a worker moves a bundle along: queue, popped, run.\<close>

lemma worker_step_moves:
  assumes ok: "queue_ok (queue g)" "None \<notin># contents (queue g)" and h: "healthy w" and ne: "is_popping w \<Longrightarrow> contents (queue g) \<noteq> {#}"
    and st: "worker_step ops b w g = Some (pc, g')"
  shows "mset (map Some (executed g')) + mset (map Some (popped_bundle pc)) + contents (queue g') =
    mset (map Some (executed g)) + mset (map Some (popped_bundle w)) + contents (queue g)"
proof (cases w)
  case (Popping k)
  obtain r q where d: "q_try_dequeue ops (queue g) = (r, q)" by fastforce
  with ne Popping dequeue_None [OF ok(1)] obtain x where r: "r = Some x" by (cases r) auto
  have c: "contents (queue g) = add_mset x (contents q)" using dequeue_Some [OF ok(1)] d r by simp
  then obtain y where "x = Some y" using ok(2) by (cases x) auto
  with st d r c Popping show ?thesis by auto
next
  case (Popped x)
  with h st show ?thesis by (cases x) auto
next
  case (Updating p)
  obtain r g1 where p: "prio_step p g = (r, g1)" by fastforce
  with st Updating prio_step_frame(1,6) [OF p] show ?thesis by (auto split: sum.splits option.splits)
qed (use st in \<open>auto split: if_splits\<close>)

lemma group_inv_worker_facts:
  assumes "group_inv queue_ok contents s" "i < length (workers s)"
  shows "queue_ok (queue (grp s))" "None \<notin># contents (queue (grp s))" "healthy (workers s ! i)"
    "is_popping (workers s ! i) \<Longrightarrow> contents (queue (grp s)) \<noteq> {#}"
proof -
  show "queue_ok (queue (grp s))" "None \<notin># contents (queue (grp s))" "healthy (workers s ! i)"
    using assms by (auto simp: group_inv_def Let_def)
  show "contents (queue (grp s)) \<noteq> {#}" if "is_popping (workers s ! i)"
  proof -
    have "0 < counting is_popping (workers s)"
      using counting_zero [of is_popping "workers s"] nth_mem [OF assms(2)] that by (metis gr0I)
    with assms(1) show ?thesis by (auto simp: group_inv_def Let_def)
  qed
qed

definition accounted :: "('q, 'b) group_sys \<Rightarrow> 'b list \<Rightarrow> bool" where
  "accounted s bs \<longleftrightarrow> mset (map Some bs) =
     mset (map Some (executed (grp s))) + mset (map Some (carried (workers s))) + contents (queue (grp s))"

lemma accounted_worker:
  assumes inv: "group_inv queue_ok contents s" and i: "i < length (workers s)"
    and st: "worker_step ops (running s) (workers s ! i) (grp s) = Some (pc, g)" and "accounted s bs"
  shows "accounted (s\<lparr>workers := (workers s)[i := pc], grp := g\<rparr>) bs"
proof -
  note m = worker_step_moves [OF group_inv_worker_facts [OF inv i] st]
  have c: "image_mset Some (mset (carried ((workers s)[i := pc]))) + image_mset Some (mset (popped_bundle (workers s ! i))) =
      image_mset Some (mset (carried (workers s))) + image_mset Some (mset (popped_bundle pc))"
    using arg_cong [OF mset_carried_update [OF i, of pc], of "image_mset Some"] by simp
  have "a + b' + c' = a0 + b0 + c0" if "a + p + c' = a0 + w + c0" "b' + w = b0 + p" for a a0 b0 b' c' c0 p w :: "'a option multiset"
  proof -
    have "(a + b' + c') + (w + p) = (a + p + c') + (b' + w)" by (simp add: ac_simps)
    also have "\<dots> = (a0 + w + c0) + (b0 + p)" using that by simp
    also have "\<dots> = (a0 + b0 + c0) + (w + p)" by (simp add: ac_simps)
    finally show ?thesis by simp
  qed
  from this [OF m [unfolded mset_map] c] assms(4) show ?thesis by (simp add: accounted_def)
qed

lemma accounted_history:
  assumes "group_history ops s0 bs s" "group_inv queue_ok contents s0" "accounted s0 []"
  shows "accounted s bs"
  using assms
proof (induction rule: group_history.induct)
  case (batch bs s bundles d g)
  have inv: "group_inv queue_ok contents s"
    using reachable_inv [OF history_reachable [OF batch.hyps(1)] batch.prems(1)] .
  then have ok: "queue_ok (queue (grp s))" by (simp add: group_inv_def Let_def)
  obtain b q where e: "q_enqueue_bulk ops (map Some bundles) (queue (grp s)) = (b, q)" by fastforce
  have "length (map Some bundles) \<le> VECTOR_MAX" using batch.hyps(3) by simp
  from enqueue_contents [OF ok this e] batch e show ?case
    by (auto simp: accounted_def dispatch_def ac_simps split: if_splits)
next
  case (other bs s s')
  have inv: "group_inv queue_ok contents s"
    using reachable_inv [OF history_reachable [OF other.hyps(1)] other.prems(1)] .
  have acc: "accounted s bs" using other by blast
  from other.hyps(2) show ?case
  proof (cases rule: group_step.cases)
    case (worker i pc g)
    with accounted_worker [OF inv worker(2,3) acc] show ?thesis by simp
  next
    case (dispatch bundles d g)
    with other.hyps(3) show ?thesis by (auto simp: dispatch_def split: prod.splits if_splits)
  next
    case (dispatcher d g)
    with dispatcher_step_frame [OF dispatcher(2)] acc show ?thesis by (simp add: accounted_def)
  qed (use acc in \<open>auto simp: accounted_def destroy_def\<close>)
qed simp

text \<open>While a group is being destroyed, its threads stop after a bounded number of steps.\<close>

lemma worker_move_step: "worker_move ops s s' \<Longrightarrow> group_step ops s s'"
  unfolding worker_move_def using group_step.worker by blast

lemma joining_kept:
  assumes "group_inv queue_ok contents s" "permits_cover s" "dispatcher s = D_joining" "worker_move ops s s'"
  shows "group_inv queue_ok contents s'" "permits_cover s'" "dispatcher s' = D_joining" "shutdown_work s' < shutdown_work s"
  using group_step_keeps_inv [OF worker_move_step [OF assms(4)] assms(1)] permits_cover_step [OF worker_move_step [OF assms(4)] assms(1,2)]
    joining_makes_progress(2) [OF assms(1-4)] assms(3,4)
  by (auto simp: worker_move_def)

lemma shutdown_bounded:
  assumes "group_inv queue_ok contents s" "permits_cover s" "dispatcher s = D_joining" "(worker_move ops ^^ n) s s'"
  shows "n + shutdown_work s' \<le> shutdown_work s"
  using assms
proof (induction n arbitrary: s)
  case (Suc n)
  from Suc.prems(4) obtain s1 where m: "worker_move ops s s1" "(worker_move ops ^^ n) s1 s'" by (meson relpowp_Suc_D2)
  note k = joining_kept [OF Suc.prems(1-3) m(1)]
  from Suc.IH [OF k(1-3) m(2)] k(4) show ?case by simp
qed simp

lemma shutdown_reached:
  assumes "group_inv queue_ok contents s" "permits_cover s" "dispatcher s = D_joining"
  shows "\<exists>s'. (worker_move ops)\<^sup>*\<^sup>* s s' \<and> (\<forall>pc \<in> set (workers s'). pc = Stopped) \<and> dispatcher s' = D_joining"
  using assms
proof (induction "shutdown_work s" arbitrary: s rule: less_induct)
  case less
  from joining_makes_progress(1) [OF less.prems] show ?case
  proof
    assume "\<forall>pc \<in> set (workers s). pc = Stopped"
    with less.prems(3) show ?thesis by blast
  next
    assume "\<exists>s'. worker_move ops s s'"
    then obtain s1 where m: "worker_move ops s s1" by blast
    note k = joining_kept [OF less.prems m]
    from less.hyps [OF k(4,1-3)] m show ?thesis by (meson converse_rtranclp_into_rtranclp)
  qed
qed

end

section \<open>No bundle is left behind\<close>

text \<open>How many steps a thread has before it waits for the next permit, and all threads before they wait in vain.\<close>

fun steps_to_wait :: "'b worker_pc \<Rightarrow> nat" where
  "steps_to_wait Acquired = 10"
| "steps_to_wait (Popping k) = 9"
| "steps_to_wait (Popped x) = 8"
| "steps_to_wait Ran = 7"
| "steps_to_wait (Updating Load_pending) = 6"
| "steps_to_wait (Updating (Compare_boosted b)) = 5"
| "steps_to_wait (Updating (Set_prio b)) = 4"
| "steps_to_wait (Updating (Store_boosted b)) = 3"
| "steps_to_wait _ = 0"

definition remaining_work :: "('q, 'b) group_sys \<Rightarrow> nat" where
  "remaining_work s = 11 * semaphore (grp s) + sum_list (map steps_to_wait (workers s))"

text \<open>While the executor runs there is one permit for each bundle in the queue.\<close>

definition permits_exact :: "('q \<Rightarrow> 'b option multiset) \<Rightarrow> ('q, 'b) group_sys \<Rightarrow> bool" where
  "permits_exact contents s \<longleftrightarrow> (running s \<longrightarrow>
     Stopped \<notin> set (workers s) \<and> dispatcher s \<notin> {D_joining, D_done} \<and>
     semaphore (grp s) + counting holds_permit (workers s) + unreleased (dispatcher s) = size (contents (queue (grp s))))"

lemma sum_list_update_nat:
  fixes f :: "'a \<Rightarrow> nat"
  shows "i < length xs \<Longrightarrow> sum_list (map f (xs[i := y])) + f (xs ! i) = sum_list (map f xs) + f y"
proof (induction xs arbitrary: i)
  case (Cons x xs)
  then show ?case by (cases i) auto
qed simp

context work_queue
begin

text \<open>A step of a worker, as long as the stop flags are not set.\<close>

lemma worker_step_runs:
  assumes ok: "queue_ok (queue g)" and h: "healthy w" "healthy pc" and ne: "is_popping w \<Longrightarrow> contents (queue g) \<noteq> {#}"
    and st: "worker_step ops True w g = Some (pc, g')"
  shows "semaphore g' + (if holds_permit pc then 1 else 0) + size (contents (queue g)) =
      semaphore g + (if holds_permit w then 1 else 0) + size (contents (queue g'))"
    "pc \<noteq> Stopped" "11 * semaphore g' + steps_to_wait pc < 11 * semaphore g + steps_to_wait w"
proof -
  have "semaphore g' + (if holds_permit pc then 1 else 0) + size (contents (queue g)) =
      semaphore g + (if holds_permit w then 1 else 0) + size (contents (queue g')) \<and>
    pc \<noteq> Stopped \<and> 11 * semaphore g' + steps_to_wait pc < 11 * semaphore g + steps_to_wait w"
  proof (cases w)
    case (Popping k)
    obtain r q where d: "q_try_dequeue ops (queue g) = (r, q)" by fastforce
    with ne Popping dequeue_None [OF ok] obtain x where r: "r = Some x" by (cases r) auto
    have "contents (queue g) = add_mset x (contents q)" using dequeue_Some [OF ok] d r by simp
    with st d r Popping show ?thesis by auto
  next
    case (Popped x)
    with h st show ?thesis by (cases x) auto
  next
    case (Updating p)
    obtain r g1 where p: "prio_step p g = (r, g1)" by fastforce
    then show ?thesis using st Updating prio_step_frame(1,2) [OF p] h(2) by (cases p) (auto split: if_splits)
  qed (use st in \<open>auto split: if_splits\<close>)
  then show "semaphore g' + (if holds_permit pc then 1 else 0) + size (contents (queue g)) =
      semaphore g + (if holds_permit w then 1 else 0) + size (contents (queue g'))"
    "pc \<noteq> Stopped" "11 * semaphore g' + steps_to_wait pc < 11 * semaphore g + steps_to_wait w" by blast+
qed

lemma worker_result_healthy:
  assumes "group_inv queue_ok contents s" "i < length (workers s)" "worker_step ops (running s) (workers s ! i) (grp s) = Some (pc, g)"
  shows "healthy pc"
proof -
  have "pc \<in> set ((workers s)[i := pc])" using assms(2) by (simp add: set_update_memI)
  with worker_keeps_inv [OF assms] show ?thesis by (simp add: group_inv_def Let_def)
qed

lemma permits_exact_step:
  assumes st: "group_step ops s s'" and inv: "group_inv queue_ok contents s" and ex: "permits_exact contents s"
  shows "permits_exact contents s'"
  using st
proof (cases rule: group_step.cases)
  case (worker i pc g)
  show ?thesis
  proof (cases "running s")
    case True
    note f = group_inv_worker_facts [OF inv worker(2)]
    have "worker_step ops True (workers s ! i) (grp s) = Some (pc, g)" using worker(3) True by simp
    note r = worker_step_runs [OF f(1) f(3) worker_result_healthy [OF inv worker(2,3)] f(4) this]
    have "Stopped \<notin> set ((workers s)[i := pc])"
      using ex True r(2) set_update_subset_insert [of "workers s" i pc] by (auto simp: permits_exact_def)
    then show ?thesis
      using r(1) counting_update [OF worker(2), of holds_permit pc] ex True worker(1) by (auto simp: permits_exact_def split: if_splits)
  qed (simp add: worker(1) permits_exact_def)
next
  case (dispatch bundles d g)
  have ok: "queue_ok (queue (grp s))" using inv by (simp add: group_inv_def Let_def)
  obtain b q where e: "q_enqueue_bulk ops (map Some bundles) (queue (grp s)) = (b, q)" by fastforce
  have "length (map Some bundles) \<le> VECTOR_MAX" using dispatch(3) by simp
  from enqueue_contents [OF ok this e] dispatch e ex show ?thesis
    by (auto simp: permits_exact_def dispatch_def split: if_splits)
next
  case (dispatcher d g)
  have "queue g = queue (grp s)" "semaphore g + unreleased d = semaphore (grp s) + unreleased (dispatcher s) \<and>
    d \<notin> {D_joining, D_done}" if "dispatcher s \<notin> {D_joining, D_done}"
  proof -
    show "queue g = queue (grp s)" using dispatcher_step_frame [OF dispatcher(2)] by simp
    show "semaphore g + unreleased d = semaphore (grp s) + unreleased (dispatcher s) \<and> d \<notin> {D_joining, D_done}"
    proof (cases "dispatcher s")
      case (D_updating p n)
      obtain r g1 where p: "prio_step p (grp s) = (r, g1)" by fastforce
      have "is_mutex (grp s)" "length (thread_prio (grp s)) = 1"
        using inv D_updating by (auto simp: group_inv_def Let_def)
      with prio_step_frame(2,8) [OF p] dispatcher(2) D_updating p show ?thesis by (auto split: option.splits sum.splits)
    qed (use dispatcher(2) in \<open>auto split: if_splits\<close>)
  qed
  with ex dispatcher(1) show ?thesis by (auto simp: permits_exact_def)
qed (use ex in \<open>auto simp: permits_exact_def\<close>)

lemma reachable_permits_exact:
  assumes "(group_step ops)\<^sup>*\<^sup>* s s'" "group_inv queue_ok contents s" "permits_exact contents s"
  shows "permits_exact contents s'"
  using assms by (induction rule: rtranclp_induct) (auto intro: permits_exact_step reachable_inv)

lemma running_move:
  assumes inv: "group_inv queue_ok contents s" and run: "running s" and mv: "worker_move ops s s'"
  shows "remaining_work s' < remaining_work s" "running s'" "dispatcher s' = dispatcher s" "length (workers s') = length (workers s)"
proof -
  from mv obtain i pc g where w: "i < length (workers s)" "worker_step ops (running s) (workers s ! i) (grp s) = Some (pc, g)"
    "s' = s\<lparr>workers := (workers s)[i := pc], grp := g\<rparr>" by (auto simp: worker_move_def)
  note f = group_inv_worker_facts [OF inv w(1)]
  have "worker_step ops True (workers s ! i) (grp s) = Some (pc, g)" using w(2) run by simp
  from worker_step_runs(3) [OF f(1) f(3) worker_result_healthy [OF inv w(1,2)] f(4) this]
    sum_list_update_nat [OF w(1), of steps_to_wait pc] w(3)
  show "remaining_work s' < remaining_work s" by (simp add: remaining_work_def)
  show "running s'" "dispatcher s' = dispatcher s" "length (workers s') = length (workers s)" using w(3) run by simp_all
qed

lemma running_bounded:
  assumes "group_inv queue_ok contents s" "running s" "(worker_move ops ^^ n) s s'"
  shows "n + remaining_work s' \<le> remaining_work s"
  using assms
proof (induction n arbitrary: s)
  case (Suc n)
  from Suc.prems(3) obtain s1 where m: "worker_move ops s s1" "(worker_move ops ^^ n) s1 s'" by (meson relpowp_Suc_D2)
  note k = running_move [OF Suc.prems(1,2) m(1)]
  have "group_inv queue_ok contents s1" using group_step_keeps_inv [OF worker_move_step [OF m(1)] Suc.prems(1)] .
  from Suc.IH [OF this k(2) m(2)] k(1) show ?case by simp
qed simp

text \<open>When no worker can move, every bundle that was handed over has been run.\<close>

lemma quiescent_all_run:
  assumes inv: "group_inv queue_ok contents s" and ex: "permits_exact contents s" and acc: "accounted s bs"
    and run: "running s" "dispatcher s = D_idle" "workers s \<noteq> []" and no: "\<nexists>s'. worker_move ops s s'"
  shows "mset (executed (grp s)) = mset bs"
proof -
  have w: "pc = Waiting \<and> semaphore (grp s) = 0" if pc: "pc \<in> set (workers s)" for pc
  proof -
    from pc obtain i where i: "i < length (workers s)" "workers s ! i = pc" by (meson in_set_conv_nth)
    with no have blocked: "worker_step ops (running s) pc (grp s) = None"
      unfolding worker_move_def by (metis not_None_eq surj_pair)
    have h: "healthy pc" "pc \<noteq> Stopped" using inv pc ex run(1) by (auto simp: group_inv_def Let_def permits_exact_def)
    show ?thesis
    proof (cases pc)
      case (Popped x)
      with h blocked show ?thesis by (cases x) auto
    qed (use h blocked in \<open>auto split: prod.splits option.splits sum.splits if_splits\<close>)
  qed
  then have wait: "\<forall>pc \<in> set (workers s). pc = Waiting" by blast
  then have "counting holds_permit (workers s) = 0" by (auto simp: counting_zero)
  moreover obtain v vs where "workers s = v # vs" using run(3) by (cases "workers s") auto
  then have "semaphore (grp s) = 0" using w [of v] by simp
  ultimately have "contents (queue (grp s)) = {#}" using ex run(1,2) by (simp add: permits_exact_def)
  moreover have "carried (workers s) = []" using wait by (auto simp: carried_def)
  ultimately have "image_mset Some (mset bs) = image_mset Some (mset (executed (grp s)))" using acc by (simp add: accounted_def)
  from arg_cong [OF this, of "image_mset the"] show ?thesis by (simp add: multiset.map_comp comp_def)
qed

lemma all_run_reached:
  assumes "group_inv queue_ok contents s" "permits_exact contents s" "accounted s bs"
    "running s" "dispatcher s = D_idle" "workers s \<noteq> []"
  shows "\<exists>s'. (worker_move ops)\<^sup>*\<^sup>* s s' \<and> mset (executed (grp s')) = mset bs"
  using assms
proof (induction "remaining_work s" arbitrary: s rule: less_induct)
  case less
  show ?case
  proof (cases "\<exists>s'. worker_move ops s s'")
    case False
    with quiescent_all_run [OF less.prems] show ?thesis by blast
  next
    case True
    then obtain s1 where m: "worker_move ops s s1" by blast
    note k = running_move [OF less.prems(1,4) m] and st = worker_move_step [OF m]
    from m obtain i pc g where w: "i < length (workers s)" "worker_step ops (running s) (workers s ! i) (grp s) = Some (pc, g)"
      "s1 = s\<lparr>workers := (workers s)[i := pc], grp := g\<rparr>" by (auto simp: worker_move_def)
    have "accounted s1 bs" using accounted_worker [OF less.prems(1) w(1,2) less.prems(3)] w(3) by simp
    with less.hyps [OF k(1) group_step_keeps_inv [OF st less.prems(1)] permits_exact_step [OF st less.prems(1,2)]] k less.prems(4-6) m
    show ?thesis by (metis converse_rtranclp_into_rtranclp length_0_conv)
  qed
qed

end

section \<open>Order\<close>

text \<open>With one thread, and a queue that keeps the order, the bundles are run in the order of their dispatch.\<close>

context fifo_queue
begin

definition in_order :: "('q, 'b) group_sys \<Rightarrow> 'b list \<Rightarrow> bool" where
  "in_order s bs \<longleftrightarrow> map Some bs = map Some (executed (grp s)) @ map Some (carried (workers s)) @ listed (queue (grp s))"

lemma worker_step_order:
  assumes ok: "queue_ok (queue g)" "None \<notin> set (listed (queue g))" and h: "healthy w" and ne: "is_popping w \<Longrightarrow> listed (queue g) \<noteq> []"
    and st: "worker_step ops b w g = Some (pc, g')"
  shows "map Some (executed g') @ map Some (popped_bundle pc) @ listed (queue g') =
    map Some (executed g) @ map Some (popped_bundle w) @ listed (queue g)"
proof (cases w)
  case (Popping k)
  obtain r q where d: "q_try_dequeue ops (queue g) = (r, q)" by fastforce
  with ne Popping dequeue_None [OF ok(1)] obtain x where r: "r = Some x" by (cases r) auto
  have c: "listed (queue g) = x # listed q" using dequeue_listed [OF ok(1)] d r by simp
  then obtain y where "x = Some y" using ok(2) by (cases x) auto
  with st d r c Popping show ?thesis by auto
next
  case (Popped x)
  with h st show ?thesis by (cases x) auto
next
  case (Updating p)
  obtain r g1 where p: "prio_step p g = (r, g1)" by fastforce
  with st Updating prio_step_frame(1,6) [OF p] show ?thesis by (auto split: sum.splits option.splits)
qed (use st in \<open>auto split: if_splits\<close>)

lemma in_order_history:
  assumes "group_history ops s0 bs s" "group_inv queue_ok (\<lambda>q. mset (listed q)) s0" "in_order s0 []" "length (workers s0) = 1"
  shows "in_order s bs \<and> length (workers s) = 1"
  using assms
proof (induction rule: group_history.induct)
  case (batch bs s bundles d g)
  have inv: "group_inv queue_ok (\<lambda>q. mset (listed q)) s"
    using reachable_inv [OF history_reachable [OF batch.hyps(1)] batch.prems(1)] .
  then have ok: "queue_ok (queue (grp s))" by (simp add: group_inv_def Let_def)
  obtain b q where e: "q_enqueue_bulk ops (map Some bundles) (queue (grp s)) = (b, q)" by fastforce
  have "length (map Some bundles) \<le> VECTOR_MAX" using batch.hyps(3) by simp
  from enqueue_listed [OF ok this e] batch e show ?case
    by (auto simp: in_order_def dispatch_def split: if_splits)
next
  case (other bs s s')
  have inv: "group_inv queue_ok (\<lambda>q. mset (listed q)) s"
    using reachable_inv [OF history_reachable [OF other.hyps(1)] other.prems(1)] .
  have acc: "in_order s bs" "length (workers s) = 1" using other by blast+
  from other.hyps(2) show ?case
  proof (cases rule: group_step.cases)
    case (worker i pc g)
    then have i: "i = 0" using acc(2) by simp
    obtain w where w: "workers s = [w]" using acc(2) by (auto simp: length_Suc_conv)
    note f = group_inv_worker_facts [OF inv worker(2)]
    from worker_step_order [OF f(1) _ f(3) _ worker(3)] f(2,4) acc worker(1) w i show ?thesis
      by (simp add: in_order_def carried_def)
  next
    case (dispatch bundles d g)
    with other.hyps(3) show ?thesis by (auto simp: dispatch_def split: prod.splits if_splits)
  next
    case (dispatcher d g)
    with dispatcher_step_frame [OF dispatcher(2)] acc show ?thesis by (simp add: in_order_def)
  qed (use acc in \<open>auto simp: in_order_def destroy_def\<close>)
qed simp

end

end
