(* ===== verification/Queue_Details.thy ===== *)
theory Queue_Details
  imports Prelude
begin

unbundle bit_operations_syntax

text \<open>
  The helper functions of \<open>concurrentqueue.h\<close> (namespace \<open>details\<close>) on \<open>size_t\<close> and \<open>index_t\<close>, which are 64 bits
  wide: the comparison of indices that may wrap around, rounding up to a power of two, alignment of
  an address, and the mixing functions that hash a thread id. Also the numbers of the default traits.
\<close>

section \<open>Traits\<close>

definition BLOCK_SIZE :: nat where
  "BLOCK_SIZE = 32"

definition EXPLICIT_BLOCK_EMPTY_COUNTER_THRESHOLD :: nat where
  "EXPLICIT_BLOCK_EMPTY_COUNTER_THRESHOLD = 32"

definition IMPLICIT_INITIAL_INDEX_SIZE :: u64 where
  "IMPLICIT_INITIAL_INDEX_SIZE = 32"

definition INITIAL_IMPLICIT_PRODUCER_HASH_SIZE :: u64 where
  "INITIAL_IMPLICIT_PRODUCER_HASH_SIZE = 32"

definition MAX_SUBQUEUE_SIZE :: u64 where
  "MAX_SUBQUEUE_SIZE = - 1"

definition RECYCLE_ALLOCATED_BLOCKS :: bool where
  "RECYCLE_ALLOCATED_BLOCKS = False"

section \<open>Functions\<close>

definition circular_less_than :: "u64 \<Rightarrow> u64 \<Rightarrow> bool" where
  "circular_less_than a b \<longleftrightarrow> a - b > push_bit (8 * 8 - 1) 1"

text \<open>The loop over the shifts 8, 16 and 32.\<close>

function smear_bytes :: "nat \<Rightarrow> u64 \<Rightarrow> u64" where
  "smear_bytes i x = (if 0 < i \<and> i < 8 then smear_bytes (2 * i) (x OR drop_bit (8 * i) x) else x)"
  by auto

termination by (relation "measure (\<lambda>(i, x). 8 - i)") auto

declare smear_bytes.simps [simp del]

definition ceil_to_pow_2 :: "u64 \<Rightarrow> u64" where
  "ceil_to_pow_2 x0 =
     (let x1 = x0 - 1;
          x2 = x1 OR drop_bit 1 x1;
          x3 = x2 OR drop_bit 2 x2;
          x4 = x3 OR drop_bit 4 x3
      in smear_bytes 1 x4 + 1)"

definition align_for :: "nat \<Rightarrow> nat \<Rightarrow> nat" where
  "align_for alignment p = p + (alignment - p mod alignment) mod alignment"

definition hash_32 :: "u32 \<Rightarrow> u32" where
  "hash_32 h0 =
     (let h1 = h0 XOR drop_bit 16 h0;
          h2 = h1 * 0x85ebca6b;
          h3 = h2 XOR drop_bit 13 h2;
          h4 = h3 * 0xc2b2ae35
      in h4 XOR drop_bit 16 h4)"

definition hash_64 :: "u64 \<Rightarrow> u64" where
  "hash_64 h0 =
     (let h1 = h0 XOR drop_bit 33 h0;
          h2 = h1 * 0xff51afd7ed558ccd;
          h3 = h2 XOR drop_bit 33 h2;
          h4 = h3 * 0xc4ceb9fe1a85ec53
      in h4 XOR drop_bit 33 h4)"

section \<open>Facts on 64-bit words\<close>

lemma unat64_less: "unat (x :: u64) < 2 ^ 64"
  using unsigned_less [of x] by simp

lemma unat64_of_nat: "n < 2 ^ 64 \<Longrightarrow> unat (of_nat n :: u64) = n"
  by (rule of_nat_inverse [OF refl]) simp

lemma unat64_minus: "x \<noteq> 0 \<Longrightarrow> unat (- x :: u64) = 2 ^ 64 - unat x"
  using unat_sub_if' [of 0 x] by (simp add: unat_eq_0)

lemma unat64_Suc: "i < n \<Longrightarrow> unat (i + 1) = Suc (unat i)" for i n :: u64
  using unat64_less [of n] by (simp add: unat_plus_if' word_less_nat_alt)

section \<open>Comparing indices\<close>

lemma circular_less_than_iff: "circular_less_than a b \<longleftrightarrow> 0 < unat (b - a) \<and> unat (b - a) < 2 ^ 63"
proof -
  have top: "unat (push_bit 63 1 :: u64) = 2 ^ 63" by simp
  have "unat a < 2 ^ 64" "unat b < 2 ^ 64" by (rule unat64_less)+
  then show ?thesis
    unfolding circular_less_than_def word_less_nat_alt unat_sub_if'
    by (simp add: top) linarith
qed

text \<open>
  \<open>circular_less_than\<close> decides the order of two positions of a stream from the 64 bits that are kept of
  them: when the true positions are less than \<open>2\<^sup>6\<^sup>3\<close> apart, it holds exactly when the first is smaller,
  however often the indices have wrapped around.
\<close>

theorem circular_less_than_order:
  fixes i j :: nat
  assumes "i < j + 2 ^ 63" "j < i + 2 ^ 63"
  shows "circular_less_than (of_nat i) (of_nat j) \<longleftrightarrow> i < j"
proof (cases "i \<le> j")
  case True
  then have "(of_nat j :: u64) - of_nat i = of_nat (j - i)" by simp
  moreover have "unat (of_nat (j - i) :: u64) = j - i" using assms by (intro unat64_of_nat) simp
  ultimately show ?thesis using True assms by (auto simp: circular_less_than_iff)
next
  case False
  then have "(of_nat j :: u64) - of_nat i = - of_nat (i - j)" by simp
  moreover have "unat (of_nat (i - j) :: u64) = i - j" using assms by (intro unat64_of_nat) simp
  ultimately have "unat ((of_nat j :: u64) - of_nat i) = 2 ^ 64 - (i - j)"
    using False unat64_minus [of "of_nat (i - j)"] by (simp flip: unat_eq_0)
  with False assms show ?thesis by (simp add: circular_less_than_iff)
qed

theorem circular_less_than_order_witness:
  "circular_less_than (of_nat (2 ^ 64 - 2)) (of_nat (2 ^ 64 + 3)) \<and> (of_nat (2 ^ 64 + 3) :: u64) = 3"
  using circular_less_than_order [of "2 ^ 64 - 2" "2 ^ 64 + 3"] by simp

section \<open>Rounding up to a power of two\<close>

text \<open>\<open>z\<close> has each bit of \<open>y\<close> copied to the \<open>n\<close> positions from it downwards.\<close>

definition smeared :: "nat \<Rightarrow> u64 \<Rightarrow> u64 \<Rightarrow> bool" where
  "smeared n y z \<longleftrightarrow> (\<forall>i. bit z i \<longleftrightarrow> (\<exists>j. i \<le> j \<and> j < i + n \<and> bit y j))"

lemma smeared_double:
  assumes "smeared n y z"
  shows "smeared (2 * n) y (z OR drop_bit n z)"
proof -
  have "bit (z OR drop_bit n z) i \<longleftrightarrow> (\<exists>j. i \<le> j \<and> j < i + 2 * n \<and> bit y j)" for i
  proof -
    have "bit (z OR drop_bit n z) i \<longleftrightarrow> bit z i \<or> bit z (n + i)"
      by (simp add: bit_or_iff bit_drop_bit_eq)
    also have "\<dots> \<longleftrightarrow> (\<exists>j. i \<le> j \<and> j < i + n \<and> bit y j) \<or> (\<exists>j. n + i \<le> j \<and> j < n + i + n \<and> bit y j)"
      using assms by (simp add: smeared_def)
    also have "\<dots> \<longleftrightarrow> (\<exists>j. i \<le> j \<and> j < i + 2 * n \<and> bit y j)"
    proof
      assume "\<exists>j. i \<le> j \<and> j < i + 2 * n \<and> bit y j"
      then obtain j where "i \<le> j" "j < i + 2 * n" "bit y j" by blast
      then show "(\<exists>j. i \<le> j \<and> j < i + n \<and> bit y j) \<or> (\<exists>j. n + i \<le> j \<and> j < n + i + n \<and> bit y j)"
        by (cases "j < i + n") auto
    next
      assume "(\<exists>j. i \<le> j \<and> j < i + n \<and> bit y j) \<or> (\<exists>j. n + i \<le> j \<and> j < n + i + n \<and> bit y j)"
      then show "\<exists>j. i \<le> j \<and> j < i + 2 * n \<and> bit y j"
      proof
        assume "\<exists>j. n + i \<le> j \<and> j < n + i + n \<and> bit y j"
        then obtain j where "n + i \<le> j" "j < n + i + n" "bit y j" by blast
        then show ?thesis by (intro exI [of _ j]) simp
      next
        assume "\<exists>j. i \<le> j \<and> j < i + n \<and> bit y j"
        then obtain j where "i \<le> j" "j < i + n" "bit y j" by blast
        then show ?thesis by (intro exI [of _ j]) simp
      qed
    qed
    finally show ?thesis .
  qed
  then show ?thesis by (simp add: smeared_def)
qed

lemma ceil_to_pow_2_smears: "\<exists>z. smeared 64 (x - 1) z \<and> ceil_to_pow_2 x = z + 1"
proof -
  let ?y = "x - 1"
  have 1: "smeared 1 ?y ?y" by (auto simp: smeared_def le_less_Suc_eq)
  note 2 = smeared_double [OF 1, simplified] note 4 = smeared_double [OF 2, simplified]
  note 8 = smeared_double [OF 4, simplified] note 16 = smeared_double [OF 8, simplified]
  note 32 = smeared_double [OF 16, simplified] note 64 = smeared_double [OF 32, simplified]
  show ?thesis
    unfolding ceil_to_pow_2_def Let_def
    by (rule exI, rule conjI, rule 64) (simp add: smear_bytes.simps)
qed

lemma bit_le_unat:
  assumes "bit (y :: u64) n"
  shows "2 ^ n \<le> unat y"
proof (rule ccontr)
  assume "\<not> 2 ^ n \<le> unat y"
  then have "unat y div 2 ^ n = 0" by simp
  moreover have "bit (unat y) n" using assms by (simp add: bit_unsigned_iff)
  ultimately show False by (simp add: bit_iff_odd)
qed

lemma power2_le_iff: "(2 :: nat) ^ a \<le> 2 ^ b \<longleftrightarrow> a \<le> b"
  by simp

text \<open>A smeared word is a mask whose length is one more than the highest bit set.\<close>

lemma smeared_mask:
  assumes "smeared 64 y z"
  shows "\<exists>k \<le> 64. z = mask k \<and> unat y < 2 ^ k \<and> (0 < k \<longrightarrow> 2 ^ (k - 1) \<le> unat y)"
proof (cases "y = 0")
  case True
  with assms have "z = 0" by (simp add: smeared_def bit_eq_iff)
  with True show ?thesis by (intro exI [of _ 0]) simp
next
  case False
  then have ex: "\<exists>j < 64. bit y j" by (auto simp: bit_eq_iff dest: bit_imp_le_length)
  define k where "k = Suc (Max {j. bit y j})"
  have fin: "finite {j. bit y j}"
    by (rule finite_subset [of _ "{..<64}"]) (auto dest: bit_imp_le_length)
  have top: "bit y (k - 1)" and le: "bit y j \<Longrightarrow> j < k" for j
    using Max_in [OF fin] Max_ge [OF fin] ex by (auto simp: k_def less_Suc_eq_le)
  have "k \<le> 64" using top bit_imp_le_length [of y "k - 1"] by (simp add: k_def)
  moreover have "z = mask k"
  proof (rule bit_eqI)
    fix i assume "possible_bit TYPE(u64) i"
    have "bit z i \<longleftrightarrow> (\<exists>j. i \<le> j \<and> j < i + 64 \<and> bit y j)" using assms by (simp add: smeared_def)
    also have "\<dots> \<longleftrightarrow> i < k"
    proof
      assume "i < k"
      then show "\<exists>j. i \<le> j \<and> j < i + 64 \<and> bit y j"
        using top \<open>k \<le> 64\<close> by (intro exI [of _ "k - 1"]) auto
    qed (use le in force)
    finally show "bit z i \<longleftrightarrow> bit (mask k :: u64) i"
      using \<open>possible_bit TYPE(u64) i\<close> by (simp add: bit_mask_iff)
  qed
  moreover have "take_bit k y = y"
    by (rule bit_eqI) (auto simp: bit_take_bit_iff dest: le)
  then have "unat y < 2 ^ k" by (metis take_bit_nat_less_exp unsigned_take_bit_eq)
  moreover have "2 ^ (k - 1) \<le> unat y" by (rule bit_le_unat [OF top])
  ultimately show ?thesis by blast
qed

text \<open>
  \<open>ceil_to_pow_2\<close> returns the least power of two that is not below its argument, for every positive
  argument up to \<open>2\<^sup>6\<^sup>3\<close>; for 0 and for larger arguments the increment wraps around to 0.
\<close>

theorem ceil_to_pow_2_least:
  "(0 < x \<and> unat x \<le> 2 ^ 63 \<longrightarrow>
     (\<exists>k \<le> 63. ceil_to_pow_2 x = 2 ^ k \<and> unat x \<le> 2 ^ k \<and> (\<forall>l. unat x \<le> 2 ^ l \<longrightarrow> k \<le> l))) \<and>
   (x = 0 \<or> 2 ^ 63 < unat x \<longrightarrow> ceil_to_pow_2 x = 0)"
proof -
  obtain z where z: "smeared 64 (x - 1) z" "ceil_to_pow_2 x = z + 1" using ceil_to_pow_2_smears by blast
  obtain k where k: "k \<le> 64" "z = mask k" "unat (x - 1) < 2 ^ k" "0 < k \<longrightarrow> 2 ^ (k - 1) \<le> unat (x - 1)"
    using smeared_mask [OF z(1)] by blast
  have c: "ceil_to_pow_2 x = 2 ^ k" using z(2) k(2) by (simp add: mask_eq_exp_minus_1)
  show ?thesis
  proof (cases "x = 0")
    case True
    then have "unat (x - 1) = 2 ^ 64 - 1" using unat64_minus [of 1] by simp
    with k(3) have "(2 :: nat) ^ 64 \<le> 2 ^ k" by simp
    then have "64 \<le> k" by (simp only: power2_le_iff)
    with k(1) have "k = 64" by simp
    with c True show ?thesis by (simp add: word_pow_0)
  next
    case False
    then have x: "unat x = Suc (unat (x - 1))" by (simp add: unat_minus_one unat_gt_0)
    show ?thesis
    proof (cases "unat x \<le> 2 ^ 63")
      case True
      have "k \<le> 63"
      proof (rule ccontr)
        assume "\<not> k \<le> 63"
        with k have "2 ^ 63 \<le> unat (x - 1)" by (cases "k = 64") auto
        with x True show False by simp
      qed
      moreover have "k \<le> l" if "unat x \<le> 2 ^ l" for l
      proof (rule ccontr)
        assume "\<not> k \<le> l"
        then have "(2 :: nat) ^ l \<le> 2 ^ (k - 1)" "0 < k" by (auto intro: power_increasing)
        with k(4) have "2 ^ l \<le> unat (x - 1)" by (meson le_trans)
        with x that show False by simp
      qed
      moreover have "unat x \<le> 2 ^ k" using k(3) x by simp
      ultimately show ?thesis using c True False by (intro conjI impI exI [of _ k]) auto
    next
      case False': False
      then have "2 ^ 63 \<le> unat (x - 1)" using x by simp
      with k(3) have "\<not> (2 :: nat) ^ k \<le> 2 ^ 63" by simp
      then have "k = 64" using k(1) by (simp only: power2_le_iff)
      with c False' False show ?thesis by (simp add: word_pow_0)
    qed
  qed
qed

theorem ceil_to_pow_2_least_witness:
  "\<exists>k. ceil_to_pow_2 33 = 2 ^ k \<and> 33 \<le> (2 :: nat) ^ k \<and> k \<le> 6"
  using ceil_to_pow_2_least [of 33] by auto


section \<open>Hashing thread ids\<close>

text \<open>The inverses of the two mixing functions: the multipliers are odd, and a shifted word is cancelled by
  shifting again.\<close>

definition unhash_32 :: "u32 \<Rightarrow> u32" where
  "unhash_32 x0 =
     (let x1 = (x0 XOR drop_bit 16 x0) * 0x7ed1b41d;
          x2 = (x1 XOR drop_bit 13 x1 XOR drop_bit 26 x1) * 0xa5cb9243
      in x2 XOR drop_bit 16 x2)"

definition unhash_64 :: "u64 \<Rightarrow> u64" where
  "unhash_64 x0 =
     (let x1 = (x0 XOR drop_bit 33 x0) * 0x9cb4b2f8129337db;
          x2 = (x1 XOR drop_bit 33 x1) * 0x4f74430c22a54005
      in x2 XOR drop_bit 33 x2)"

lemma xor_shift_twice:
  fixes h :: "'a::len word"
  assumes "LENGTH('a) \<le> 2 * n"
  shows "(h XOR drop_bit n h) XOR drop_bit n (h XOR drop_bit n h) = h"
  using assms by (intro bit_eqI) (auto simp: bit_xor_iff bit_drop_bit_eq dest: bit_imp_le_length)

lemma xor_shift_thrice:
  fixes h :: "'a::len word"
  assumes "LENGTH('a) \<le> n + n + n" "y = h XOR drop_bit n h"
  shows "y XOR drop_bit n y XOR drop_bit (n + n) y = h"
  using assms by (intro bit_eqI) (auto simp: bit_xor_iff bit_drop_bit_eq ac_simps dest: bit_imp_le_length)

lemma unhash_hash_32: "unhash_32 (hash_32 h) = h"
proof -
  have one: "(0xc2b2ae35 :: u32) * 0x7ed1b41d = 1" "(0x85ebca6b :: u32) * 0xa5cb9243 = 1" by simp_all
  have "(x :: u32) * 0xc2b2ae35 * 0x7ed1b41d = x" "x * 0x85ebca6b * 0xa5cb9243 = x" for x
    by (simp_all only: mult.assoc one mult_1_right)
  moreover have "(x XOR drop_bit 13 x) XOR drop_bit 13 (x XOR drop_bit 13 x) XOR drop_bit 26 (x XOR drop_bit 13 x) = x"
    for x :: u32
    using xor_shift_thrice [OF _ refl, of 13 x] by simp
  moreover have "(x XOR drop_bit 16 x) XOR drop_bit 16 (x XOR drop_bit 16 x) = x" for x :: u32
    by (rule xor_shift_twice) simp
  ultimately show ?thesis unfolding hash_32_def unhash_32_def Let_def by (simp only:)
qed

lemma unhash_hash_64: "unhash_64 (hash_64 h) = h"
proof -
  have one: "(0xc4ceb9fe1a85ec53 :: u64) * 0x9cb4b2f8129337db = 1" "(0xff51afd7ed558ccd :: u64) * 0x4f74430c22a54005 = 1"
    by simp_all
  have "(x :: u64) * 0xc4ceb9fe1a85ec53 * 0x9cb4b2f8129337db = x" "x * 0xff51afd7ed558ccd * 0x4f74430c22a54005 = x" for x
    by (simp_all only: mult.assoc one mult_1_right)
  moreover have "(x XOR drop_bit 33 x) XOR drop_bit 33 (x XOR drop_bit 33 x) = x" for x :: u64
    by (rule xor_shift_twice) simp
  ultimately show ?thesis unfolding hash_64_def unhash_64_def Let_def by (simp only:)
qed

text \<open>
  C40. The hash of a thread id loses nothing: both mixing functions are bijections of their width, with the
  inverses above. Two threads share a slot of the producer hash only through the masking to its capacity.
\<close>

theorem hash_roundtrip:
  "unhash_32 (hash_32 h) = h \<and> unhash_64 (hash_64 k) = k \<and> bij hash_32 \<and> bij hash_64"
proof -
  have "inj hash_32" "inj hash_64"
    by (metis unhash_hash_32 injI) (metis unhash_hash_64 injI)
  then have "bij hash_32" "bij hash_64"
    using finite_UNIV_inj_surj [of hash_32] finite_UNIV_inj_surj [of hash_64] by (simp_all add: bij_def)
  then show ?thesis by (simp add: unhash_hash_32 unhash_hash_64)
qed

section \<open>Alignment\<close>

text \<open>
  \<open>align_for\<close> returns the least address not below its argument that is a multiple of the alignment.
\<close>

theorem align_for_least:
  assumes "0 < a"
  shows "a dvd align_for a p \<and> p \<le> align_for a p \<and> align_for a p < p + a \<and>
    (\<forall>q. p \<le> q \<and> a dvd q \<longrightarrow> align_for a p \<le> q)"
proof -
  have d: "a dvd align_for a p"
  proof (cases "p mod a = 0")
    case False
    with assms have "(a - p mod a) mod a = a - p mod a" by simp
    then have "align_for a p = p - p mod a + a" using assms by (simp add: align_for_def)
    then show ?thesis by (metis dvd_add dvd_minus_mod dvd_refl)
  qed (use assms in \<open>simp add: align_for_def dvd_eq_mod_eq_0\<close>)
  have b: "p \<le> align_for a p" "align_for a p < p + a" using assms by (simp_all add: align_for_def)
  have "align_for a p \<le> q" if "p \<le> q" "a dvd q" for q
  proof (rule ccontr)
    assume "\<not> align_for a p \<le> q"
    moreover have "a dvd align_for a p - q" using d that(2) by (rule dvd_diff_nat)
    ultimately have "a \<le> align_for a p - q" "q < align_for a p" by (auto intro: dvd_imp_le)
    with b(2) that(1) show False by linarith
  qed
  with d b show ?thesis by blast
qed

theorem align_for_least_witness: "8 dvd align_for 8 (44 :: nat) \<and> align_for 8 44 = 48"
  using align_for_least [of 8 44] by (simp add: align_for_def)

end
