(* ===== verification/Block_Pool.thy ===== *)
theory Block_Pool
  imports Queue_Details "HOL-Library.Monad_Syntax"
begin

text \<open>
  Blocks of elements and the memory they come from (\<open>concurrentqueue.h\<close>: \<open>Block\<close>, \<open>FreeList\<close> and the block
  pool): each block has room for 32 elements; blocks are handed out from a pool that the constructor
  allocates, then from a free list, then from the heap.

  Addresses of blocks index a heap of blocks. An access through a null or dangling pointer, a read of
  an element that is not there and a failed \<open>assert\<close> are the value \<open>None\<close>, and so is a loop that does not
  end. The \<open>k\<close>-th call of \<open>malloc\<close> is answered by the parameter \<open>mem k\<close>: an address, which may have been in
  use before, or null; an answer that overlaps a live block counts as null. The operations run one at
  a time: what other threads do between the atomic accesses of one operation is not part of the model, so a
  compare-and-exchange fails only when the value differs.
\<close>

section \<open>Blocks\<close>

datatype InnerQueueContext = implicit_context | explicit_context

record 'e Block =
  elements :: "'e option list"
  next_block :: ptr
  elementsCompletelyDequeued :: u64
  emptyFlags :: "bool list"
  freeListRefs :: u32
  freeListNext :: ptr
  dynamicallyAllocated :: bool

definition new_Block :: "'e Block" where
  "new_Block = \<lparr>elements = replicate BLOCK_SIZE None, next_block = nullptr, elementsCompletelyDequeued = 0,
     emptyFlags = replicate BLOCK_SIZE False, freeListRefs = 0, freeListNext = nullptr, dynamicallyAllocated = True\<rparr>"

definition uses_flags :: "InnerQueueContext \<Rightarrow> bool" where
  "uses_flags context \<longleftrightarrow> context = explicit_context \<and> BLOCK_SIZE \<le> EXPLICIT_BLOCK_EMPTY_COUNTER_THRESHOLD"

definition is_empty :: "InnerQueueContext \<Rightarrow> 'e Block \<Rightarrow> bool option" where
  "is_empty context b =
     (if uses_flags context then Some (list_all (\<lambda>f. f) (emptyFlags b))
      else if elementsCompletelyDequeued b = of_nat BLOCK_SIZE then Some True
      else if elementsCompletelyDequeued b \<le> of_nat BLOCK_SIZE then Some False
      else None)"

text \<open>The slot of an index, and the flag of an index: flags are kept in reverse order.\<close>

definition slot :: "u64 \<Rightarrow> nat" where
  "slot i = unat (i AND of_nat (BLOCK_SIZE - 1))"

definition flag_of :: "u64 \<Rightarrow> nat" where
  "flag_of i = BLOCK_SIZE - 1 - slot i"

definition set_empty :: "InnerQueueContext \<Rightarrow> u64 \<Rightarrow> 'e Block \<Rightarrow> (bool \<times> 'e Block) option" where
  "set_empty context i b =
     (if uses_flags context then
        (if flag_of i < length (emptyFlags b) \<and> \<not> emptyFlags b ! flag_of i
         then Some (False, b\<lparr>emptyFlags := (emptyFlags b)[flag_of i := True]\<rparr>) else None)
      else
        (let prevVal = elementsCompletelyDequeued b
         in if prevVal < of_nat BLOCK_SIZE
            then Some (prevVal = of_nat (BLOCK_SIZE - 1), b\<lparr>elementsCompletelyDequeued := prevVal + 1\<rparr>) else None))"

fun set_flags :: "nat \<Rightarrow> nat \<Rightarrow> bool list \<Rightarrow> bool list option" where
  "set_flags i 0 fs = Some fs"
| "set_flags i (Suc cnt) fs =
     (if i < length fs \<and> \<not> fs ! i then set_flags (Suc i) cnt (fs[i := True]) else None)"

definition set_many_empty :: "InnerQueueContext \<Rightarrow> u64 \<Rightarrow> u64 \<Rightarrow> 'e Block \<Rightarrow> (bool \<times> 'e Block) option" where
  "set_many_empty context i cnt b =
     (if uses_flags context then
        map_option (\<lambda>fs. (False, b\<lparr>emptyFlags := fs\<rparr>))
          (set_flags (unat (of_nat (flag_of i) - cnt + 1)) (unat cnt) (emptyFlags b))
      else
        (let prevVal = elementsCompletelyDequeued b
         in if prevVal + cnt \<le> of_nat BLOCK_SIZE
            then Some (prevVal + cnt = of_nat BLOCK_SIZE, b\<lparr>elementsCompletelyDequeued := prevVal + cnt\<rparr>)
            else None))"

definition set_all_empty :: "InnerQueueContext \<Rightarrow> 'e Block \<Rightarrow> 'e Block" where
  "set_all_empty context b =
     (if uses_flags context then b\<lparr>emptyFlags := replicate BLOCK_SIZE True\<rparr>
      else b\<lparr>elementsCompletelyDequeued := of_nat BLOCK_SIZE\<rparr>)"

definition reset_empty :: "InnerQueueContext \<Rightarrow> 'e Block \<Rightarrow> 'e Block" where
  "reset_empty context b =
     (if uses_flags context then b\<lparr>emptyFlags := replicate BLOCK_SIZE False\<rparr>
      else b\<lparr>elementsCompletelyDequeued := 0\<rparr>)"

section \<open>Memory\<close>

record 'e block_pool =
  blocks :: "ptr \<Rightarrow> 'e Block option"
  allocations :: nat
  initialBlockPool :: ptr
  initialBlockPoolSize :: u64
  initialBlockPoolIndex :: u64
  freeListHead :: ptr

definition update_block ::
  "ptr \<Rightarrow> ('e Block \<Rightarrow> 'e Block) \<Rightarrow> ('e, 'z) block_pool_scheme \<Rightarrow> ('e, 'z) block_pool_scheme option" where
  "update_block p f q =
     (case blocks q p of None \<Rightarrow> None | Some b \<Rightarrow> Some (q\<lparr>blocks := (blocks q)(p \<mapsto> f b)\<rparr>))"

text \<open>\<open>malloc\<close> of \<open>n\<close> adjacent blocks, and of memory that is not addressed by the model.\<close>

definition malloc_blocks ::
  "(nat \<Rightarrow> ptr) \<Rightarrow> nat \<Rightarrow> ('e, 'z) block_pool_scheme \<Rightarrow> ptr \<times> ('e, 'z) block_pool_scheme" where
  "malloc_blocks mem n q =
     (let p = mem (allocations q)
      in (if list_all (\<lambda>i. blocks q (p + i) = None) [0..<n] then p else nullptr, q\<lparr>allocations := Suc (allocations q)\<rparr>))"

definition malloc :: "(nat \<Rightarrow> ptr) \<Rightarrow> ('e, 'z) block_pool_scheme \<Rightarrow> bool \<times> ('e, 'z) block_pool_scheme" where
  "malloc mem q = (mem (allocations q) \<noteq> nullptr, q\<lparr>allocations := Suc (allocations q)\<rparr>)"

definition create_array ::
  "(nat \<Rightarrow> ptr) \<Rightarrow> nat \<Rightarrow> ('e, 'z) block_pool_scheme \<Rightarrow> ptr \<times> ('e, 'z) block_pool_scheme" where
  "create_array mem n q =
     (case malloc_blocks mem n q of (p, q1) \<Rightarrow>
        if p = nullptr then (p, q1)
        else (p, q1\<lparr>blocks := (\<lambda>a. if p \<le> a \<and> a < p + n then Some new_Block else blocks q1 a)\<rparr>))"

definition create_block :: "(nat \<Rightarrow> ptr) \<Rightarrow> ('e, 'z) block_pool_scheme \<Rightarrow> ptr \<times> ('e, 'z) block_pool_scheme" where
  "create_block mem q =
     (case malloc_blocks mem 1 q of (p, q1) \<Rightarrow>
        if p = nullptr then (p, q1) else (p, q1\<lparr>blocks := (blocks q1)(p \<mapsto> new_Block)\<rparr>))"

definition destroy_block :: "ptr \<Rightarrow> ('e, 'z) block_pool_scheme \<Rightarrow> ('e, 'z) block_pool_scheme option" where
  "destroy_block p q =
     (if p = nullptr then Some q
      else case blocks q p of None \<Rightarrow> None | Some _ \<Rightarrow> Some (q\<lparr>blocks := (blocks q)(p := None)\<rparr>))"

section \<open>The free list\<close>

definition REFS_MASK :: u32 where
  "REFS_MASK = 0x7FFFFFFF"

definition SHOULD_BE_ON_FREELIST :: u32 where
  "SHOULD_BE_ON_FREELIST = 0x80000000"

text \<open>The loop, with the head that the thread believes in.\<close>

partial_function (option) add_knowing_refcount_is_zero ::
  "ptr \<Rightarrow> ptr \<Rightarrow> ('e, 'z) block_pool_scheme \<Rightarrow> ('e, 'z) block_pool_scheme option" where
  "add_knowing_refcount_is_zero node head q =
     do {
       q1 \<leftarrow> update_block node (\<lambda>b. b\<lparr>freeListNext := head, freeListRefs := 1\<rparr>) q;
       if freeListHead q1 = head then Some (q1\<lparr>freeListHead := node\<rparr>)
       else do {
         b \<leftarrow> blocks q1 node;
         q2 \<leftarrow> update_block node (\<lambda>b. b\<lparr>freeListRefs := freeListRefs b + (SHOULD_BE_ON_FREELIST - 1)\<rparr>) q1;
         if freeListRefs b = 1 then add_knowing_refcount_is_zero node (freeListHead q2) q2 else Some q2
       }
     }"

declare add_knowing_refcount_is_zero.simps [code]

definition free_list_add :: "ptr \<Rightarrow> ('e, 'z) block_pool_scheme \<Rightarrow> ('e, 'z) block_pool_scheme option" where
  "free_list_add node q =
     do {
       b \<leftarrow> blocks q node;
       q1 \<leftarrow> update_block node (\<lambda>b. b\<lparr>freeListRefs := freeListRefs b + SHOULD_BE_ON_FREELIST\<rparr>) q;
       if freeListRefs b = 0 then add_knowing_refcount_is_zero node (freeListHead q1) q1 else Some q1
     }"

partial_function (option) try_get_loop ::
  "ptr \<Rightarrow> ('e, 'z) block_pool_scheme \<Rightarrow> (ptr \<times> ('e, 'z) block_pool_scheme) option" where
  "try_get_loop head q =
     (if head = nullptr then Some (nullptr, q)
      else do {
        b \<leftarrow> blocks q head;
        if freeListRefs b AND REFS_MASK = 0 then try_get_loop (freeListHead q) q
        else do {
          q1 \<leftarrow> update_block head (\<lambda>b. b\<lparr>freeListRefs := freeListRefs b + 1\<rparr>) q;
          if freeListHead q1 = head then do {
            b1 \<leftarrow> blocks q1 head;
            if freeListRefs b1 AND SHOULD_BE_ON_FREELIST \<noteq> 0 then None
            else do {
              q2 \<leftarrow> update_block head (\<lambda>b. b\<lparr>freeListRefs := freeListRefs b - 2\<rparr>) (q1\<lparr>freeListHead := freeListNext b\<rparr>);
              Some (head, q2)
            }
          }
          else do {
            b1 \<leftarrow> blocks q1 head;
            q2 \<leftarrow> update_block head (\<lambda>b. b\<lparr>freeListRefs := freeListRefs b - 1\<rparr>) q1;
            q3 \<leftarrow> (if freeListRefs b1 = SHOULD_BE_ON_FREELIST + 1
                  then add_knowing_refcount_is_zero head (freeListHead q2) q2 else Some q2);
            try_get_loop (freeListHead q1) q3
          }
        }
      })"

declare try_get_loop.simps [code]

definition try_get :: "('e, 'z) block_pool_scheme \<Rightarrow> (ptr \<times> ('e, 'z) block_pool_scheme) option" where
  "try_get q = try_get_loop (freeListHead q) q"

section \<open>The pool\<close>

definition populate_initial_block_list ::
  "(nat \<Rightarrow> ptr) \<Rightarrow> u64 \<Rightarrow> ('e, 'z) block_pool_scheme \<Rightarrow> ('e, 'z) block_pool_scheme" where
  "populate_initial_block_list mem blockCount q =
     (if blockCount = 0 then q\<lparr>initialBlockPoolSize := 0, initialBlockPool := nullptr\<rparr>
      else case create_array mem (unat blockCount) q of (p, q1) \<Rightarrow>
        if p = nullptr then q1\<lparr>initialBlockPoolSize := 0, initialBlockPool := nullptr\<rparr>
        else q1\<lparr>initialBlockPoolSize := blockCount, initialBlockPool := p,
               blocks := (\<lambda>a. if p \<le> a \<and> a < p + unat blockCount
                 then map_option (\<lambda>b. b\<lparr>dynamicallyAllocated := False\<rparr>) (blocks q1 a) else blocks q1 a)\<rparr>)"

definition try_get_block_from_initial_pool ::
  "('e, 'z) block_pool_scheme \<Rightarrow> ptr \<times> ('e, 'z) block_pool_scheme" where
  "try_get_block_from_initial_pool q =
     (let i = initialBlockPoolIndex q
      in if i \<ge> initialBlockPoolSize q then (nullptr, q)
         else (if i < initialBlockPoolSize q then initialBlockPool q + unat i else nullptr,
               q\<lparr>initialBlockPoolIndex := i + 1\<rparr>))"

definition add_block_to_free_list :: "ptr \<Rightarrow> ('e, 'z) block_pool_scheme \<Rightarrow> ('e, 'z) block_pool_scheme option" where
  "add_block_to_free_list p q =
     do {
       b \<leftarrow> blocks q p;
       if \<not> RECYCLE_ALLOCATED_BLOCKS \<and> dynamicallyAllocated b then destroy_block p q else free_list_add p q
     }"

partial_function (option) add_blocks_to_free_list ::
  "ptr \<Rightarrow> ('e, 'z) block_pool_scheme \<Rightarrow> ('e, 'z) block_pool_scheme option" where
  "add_blocks_to_free_list p q =
     (if p = nullptr then Some q
      else do {
        b \<leftarrow> blocks q p;
        q1 \<leftarrow> add_block_to_free_list p q;
        add_blocks_to_free_list (next_block b) q1
      })"

declare add_blocks_to_free_list.simps [code]

datatype AllocationMode = CanAlloc | CannotAlloc

definition requisition_block ::
  "(nat \<Rightarrow> ptr) \<Rightarrow> AllocationMode \<Rightarrow> ('e, 'z) block_pool_scheme \<Rightarrow> (ptr \<times> ('e, 'z) block_pool_scheme) option" where
  "requisition_block mem canAlloc q =
     (case try_get_block_from_initial_pool q of (p, q1) \<Rightarrow>
        if p \<noteq> nullptr then Some (p, q1)
        else do {
          (p2, q2) \<leftarrow> try_get q1;
          if p2 \<noteq> nullptr then Some (p2, q2)
          else if canAlloc = CanAlloc then Some (create_block mem q2)
          else Some (nullptr, q2)
        })"

end
