(* ===== verification/Implicit_Producer.thy ===== *)
theory Implicit_Producer
  imports Block_Pool "HOL-Library.Signed_Division"
begin

text \<open>
  The producer of one thread without a token (\<open>concurrentqueue.h\<close>: \<open>ProducerBase\<close> and \<open>ImplicitProducer\<close>):
  a stream of elements in blocks of 32, addressed by 64-bit indices that wrap around, with a
  circular index that maps the first index of a block to the block.

  An operation works on the producer and the memory of the queue. The entries of the block index are
  numbered in the order of their allocation; the list of headers is the current one followed by those it
  replaced. The elements are \<open>unique_ptr\<close>s, whose moves do not throw: of the branches that
  \<open>MOODYCAMEL_NOEXCEPT_CTOR\<close> and \<open>MOODYCAMEL_NOEXCEPT_ASSIGN\<close> choose between, only those are modelled.
\<close>

section \<open>Data\<close>

definition INVALID_BLOCK_BASE :: u64 where
  "INVALID_BLOCK_BASE = 1"

record BlockIndexHeader =
  bi_capacity :: u64
  bi_tail :: u64
  bi_index :: "nat list"

record ImplicitProducer =
  inactive :: bool
  tailIndex :: u64
  headIndex :: u64
  dequeueOptimisticCount :: u64
  dequeueOvercommit :: u64
  tailBlock :: ptr
  nextBlockIndexCapacity :: u64
  blockIndex :: "BlockIndexHeader list"
  bi_entries :: "(u64 \<times> ptr) list"

definition size_approx :: "ImplicitProducer \<Rightarrow> u64" where
  "size_approx p =
     (if circular_less_than (headIndex p) (tailIndex p) then tailIndex p - headIndex p else 0)"

definition nth_opt :: "'a list \<Rightarrow> nat \<Rightarrow> 'a option" where
  "nth_opt xs i = (if i < length xs then Some (xs ! i) else None)"

section \<open>The block index\<close>

text \<open>The entries of the old index, oldest first.\<close>

partial_function (option) copy_index :: "BlockIndexHeader \<Rightarrow> u64 \<Rightarrow> nat list option" where
  "copy_index prev prevPos =
     (let pos = (prevPos + 1) AND (bi_capacity prev - 1)
      in do {
        e \<leftarrow> nth_opt (bi_index prev) (unat pos);
        if pos = bi_tail prev then Some [e]
        else do { es \<leftarrow> copy_index prev pos; Some (e # es) }
      })"

declare copy_index.simps [code]

definition new_block_index ::
  "(nat \<Rightarrow> ptr) \<Rightarrow> ImplicitProducer \<times> ('e, 'z) block_pool_scheme \<Rightarrow>
     (bool \<times> ImplicitProducer \<times> ('e, 'z) block_pool_scheme) option" where
  "new_block_index mem s =
     (let (p, q) = s;
          prevCapacity = (case blockIndex p of [] \<Rightarrow> 0 | prev # _ \<Rightarrow> bi_capacity prev);
          entryCount = (case blockIndex p of [] \<Rightarrow> nextBlockIndexCapacity p | _ # _ \<Rightarrow> prevCapacity);
          (raw, q1) = malloc mem q
      in if \<not> raw then Some (False, p, q1)
         else do {
           copied \<leftarrow> (case blockIndex p of [] \<Rightarrow> Some [] | prev # _ \<Rightarrow> copy_index prev (bi_tail prev));
           let fresh = [length (bi_entries p) ..< length (bi_entries p) + unat entryCount];
           let header = \<lparr>bi_capacity = nextBlockIndexCapacity p,
                 bi_tail = (prevCapacity - 1) AND (nextBlockIndexCapacity p - 1), bi_index = copied @ fresh\<rparr>;
           if length copied \<noteq> unat prevCapacity then None
           else Some (True,
             p\<lparr>blockIndex := header # blockIndex p,
               bi_entries := bi_entries p @ replicate (unat entryCount) (INVALID_BLOCK_BASE, nullptr),
               nextBlockIndexCapacity := push_bit 1 (nextBlockIndexCapacity p)\<rparr>, q1)
         })"

text \<open>The number of the entry at the position after the tail, and the entry.\<close>

definition next_entry :: "BlockIndexHeader \<Rightarrow> ImplicitProducer \<Rightarrow> (u64 \<times> nat \<times> u64 \<times> ptr) option" where
  "next_entry header p =
     (let newTail = (bi_tail header + 1) AND (bi_capacity header - 1)
      in do {
        e \<leftarrow> nth_opt (bi_index header) (unat newTail);
        (key, val) \<leftarrow> nth_opt (bi_entries p) e;
        Some (newTail, e, key, val)
      })"

definition store_key :: "u64 \<Rightarrow> u64 \<Rightarrow> nat \<Rightarrow> ImplicitProducer \<Rightarrow> ImplicitProducer" where
  "store_key blockStartIndex newTail e p =
     p\<lparr>bi_entries := (bi_entries p)[e := (blockStartIndex, snd (bi_entries p ! e))],
       blockIndex := (hd (blockIndex p))\<lparr>bi_tail := newTail\<rparr> # tl (blockIndex p)\<rparr>"

text \<open>The entry that was inserted, or \<open>None\<close> when the code returns false.\<close>

definition insert_block_index_entry ::
  "(nat \<Rightarrow> ptr) \<Rightarrow> AllocationMode \<Rightarrow> u64 \<Rightarrow> ImplicitProducer \<times> ('e, 'z) block_pool_scheme \<Rightarrow>
     (nat option \<times> ImplicitProducer \<times> ('e, 'z) block_pool_scheme) option" where
  "insert_block_index_entry mem allocMode blockStartIndex s =
     (let (p, q) = s
      in case blockIndex p of
           [] \<Rightarrow> Some (None, p, q)
         | localBlockIndex # _ \<Rightarrow>
             do {
               (newTail, e, key, val) \<leftarrow> next_entry localBlockIndex p;
               if key = INVALID_BLOCK_BASE \<or> val = nullptr
               then Some (Some e, store_key blockStartIndex newTail e p, q)
               else if allocMode = CannotAlloc then Some (None, p, q)
               else do {
                 (ok, p1, q1) \<leftarrow> new_block_index mem (p, q);
                 if \<not> ok then Some (None, p1, q1)
                 else do {
                   (newTail1, e1, key1, _) \<leftarrow> next_entry (hd (blockIndex p1)) p1;
                   if key1 \<noteq> INVALID_BLOCK_BASE then None
                   else Some (Some e1, store_key blockStartIndex newTail1 e1 p1, q1)
                 }
               }
             })"

definition rewind_block_index_tail :: "ImplicitProducer \<Rightarrow> ImplicitProducer option" where
  "rewind_block_index_tail p =
     (case blockIndex p of
        [] \<Rightarrow> None
      | h # hs \<Rightarrow> Some (p\<lparr>blockIndex := h\<lparr>bi_tail := (bi_tail h - 1) AND (bi_capacity h - 1)\<rparr> # hs\<rparr>))"

definition store_value :: "nat \<Rightarrow> ptr \<Rightarrow> ImplicitProducer \<Rightarrow> ImplicitProducer" where
  "store_value e v p = p\<lparr>bi_entries := (bi_entries p)[e := (fst (bi_entries p ! e), v)]\<rparr>"

definition block_base :: "u64 \<Rightarrow> u64" where
  "block_base i = i AND NOT (of_nat (BLOCK_SIZE - 1))"

definition get_block_index_index_for_index :: "u64 \<Rightarrow> ImplicitProducer \<Rightarrow> nat option" where
  "get_block_index_index_for_index i p =
     (case blockIndex p of
        [] \<Rightarrow> None
      | localBlockIndex # _ \<Rightarrow>
          do {
            let index = block_base i;
            let tail = bi_tail localBlockIndex;
            e \<leftarrow> nth_opt (bi_index localBlockIndex) (unat tail);
            (tailBase, _) \<leftarrow> nth_opt (bi_entries p) e;
            if tailBase = INVALID_BLOCK_BASE then None
            else do {
              let offset = word_of_int (sint (index - tailBase) sdiv int BLOCK_SIZE);
              let idx = (tail + offset) AND (bi_capacity localBlockIndex - 1);
              e' \<leftarrow> nth_opt (bi_index localBlockIndex) (unat idx);
              (key, val) \<leftarrow> nth_opt (bi_entries p) e';
              if key = index \<and> val \<noteq> nullptr then Some (unat idx) else None
            }
          })"

definition get_block_index_entry_for_index :: "u64 \<Rightarrow> ImplicitProducer \<Rightarrow> nat option" where
  "get_block_index_entry_for_index i p =
     do {
       idx \<leftarrow> get_block_index_index_for_index i p;
       nth_opt (bi_index (hd (blockIndex p))) idx
     }"

definition new_implicit_producer ::
  "(nat \<Rightarrow> ptr) \<Rightarrow> ('e, 'z) block_pool_scheme \<Rightarrow> (ImplicitProducer \<times> ('e, 'z) block_pool_scheme) option" where
  "new_implicit_producer mem q =
     do {
       (_, p, q1) \<leftarrow> new_block_index mem
         (\<lparr>inactive = False, tailIndex = 0, headIndex = 0, dequeueOptimisticCount = 0, dequeueOvercommit = 0,
           tailBlock = nullptr, nextBlockIndexCapacity = IMPLICIT_INITIAL_INDEX_SIZE, blockIndex = [],
           bi_entries = []\<rparr>, q);
       Some (p, q1)
     }"

section \<open>Elements\<close>

text \<open>Placement \<open>new\<close> of an element at an index of a block.\<close>

definition construct :: "ptr \<Rightarrow> u64 \<Rightarrow> 'e \<Rightarrow> ('e, 'z) block_pool_scheme \<Rightarrow> ('e, 'z) block_pool_scheme option" where
  "construct block i x q = update_block block (\<lambda>b. b\<lparr>elements := (elements b)[slot i := Some x]\<rparr>) q"

text \<open>The test of a sub-queue that cannot take another block.\<close>

definition sub_queue_full :: "u64 \<Rightarrow> u64 \<Rightarrow> bool" where
  "sub_queue_full head currentTailIndex \<longleftrightarrow>
     \<not> circular_less_than head (currentTailIndex + of_nat BLOCK_SIZE) \<or>
     (MAX_SUBQUEUE_SIZE \<noteq> - 1 \<and>
       (MAX_SUBQUEUE_SIZE = 0 \<or> MAX_SUBQUEUE_SIZE - of_nat BLOCK_SIZE < currentTailIndex - head))"

definition enqueue ::
  "(nat \<Rightarrow> ptr) \<Rightarrow> AllocationMode \<Rightarrow> 'e \<Rightarrow> ImplicitProducer \<times> ('e, 'z) block_pool_scheme \<Rightarrow>
     (bool \<times> ImplicitProducer \<times> ('e, 'z) block_pool_scheme) option" where
  "enqueue mem allocMode element s =
     (let (p, q) = s;
          currentTailIndex = tailIndex p;
          newTailIndex = 1 + currentTailIndex
      in if currentTailIndex AND of_nat (BLOCK_SIZE - 1) = 0 then
           (if circular_less_than currentTailIndex (headIndex p) then None
            else if sub_queue_full (headIndex p) currentTailIndex then Some (False, p, q)
            else do {
              (inserted, p1, q1) \<leftarrow> insert_block_index_entry mem allocMode currentTailIndex (p, q);
              case inserted of
                None \<Rightarrow> Some (False, p1, q1)
              | Some e \<Rightarrow>
                do {
                  (newBlock, q2) \<leftarrow> requisition_block mem allocMode q1;
                  if newBlock = nullptr then do {
                    p2 \<leftarrow> rewind_block_index_tail p1;
                    Some (False, store_value e nullptr p2, q2)
                  }
                  else do {
                    q3 \<leftarrow> update_block newBlock (reset_empty implicit_context) q2;
                    let p2 = (store_value e newBlock p1)\<lparr>tailBlock := newBlock\<rparr>;
                    q4 \<leftarrow> construct (tailBlock p2) currentTailIndex element q3;
                    Some (True, p2\<lparr>tailIndex := newTailIndex\<rparr>, q4)
                  }
                }
            })
         else do {
           q1 \<leftarrow> construct (tailBlock p) currentTailIndex element q;
           Some (True, p\<lparr>tailIndex := newTailIndex\<rparr>, q1)
         })"

text \<open>Moving an element out and destroying it.\<close>

definition take_element :: "ptr \<Rightarrow> u64 \<Rightarrow> ('e, 'z) block_pool_scheme \<Rightarrow> ('e \<times> ('e, 'z) block_pool_scheme) option" where
  "take_element block i q =
     do {
       b \<leftarrow> blocks q block;
       cell \<leftarrow> nth_opt (elements b) (slot i);
       x \<leftarrow> cell;
       q1 \<leftarrow> update_block block (\<lambda>b. b\<lparr>elements := (elements b)[slot i := None]\<rparr>) q;
       Some (x, q1)
     }"

definition dequeue ::
  "ImplicitProducer \<times> ('e, 'z) block_pool_scheme \<Rightarrow>
     ('e option \<times> ImplicitProducer \<times> ('e, 'z) block_pool_scheme) option" where
  "dequeue s =
     (let (p, q) = s; overcommit = dequeueOvercommit p
      in if circular_less_than (dequeueOptimisticCount p - overcommit) (tailIndex p) then
           (let myDequeueCount = dequeueOptimisticCount p;
                p1 = p\<lparr>dequeueOptimisticCount := myDequeueCount + 1\<rparr>
            in if circular_less_than (myDequeueCount - overcommit) (tailIndex p1) then
                 (let index = headIndex p1; p2 = p1\<lparr>headIndex := index + 1\<rparr>
                  in do {
                    e \<leftarrow> get_block_index_entry_for_index index p2;
                    (_, block) \<leftarrow> nth_opt (bi_entries p2) e;
                    (x, q1) \<leftarrow> take_element block index q;
                    b \<leftarrow> blocks q1 block;
                    (emptied, b1) \<leftarrow> set_empty implicit_context index b;
                    q2 \<leftarrow> update_block block (\<lambda>_. b1) q1;
                    if emptied then do {
                      q3 \<leftarrow> add_block_to_free_list block q2;
                      Some (Some x, store_value e nullptr p2, q3)
                    }
                    else Some (Some x, p2, q2)
                  })
               else Some (None, p1\<lparr>dequeueOvercommit := overcommit + 1\<rparr>, q))
         else Some (None, p, q))"

section \<open>Enqueueing in bulk\<close>

text \<open>Reverting allocations: the index entries of the blocks linked from the first one allocated.\<close>

partial_function (option) revert_entries ::
  "ptr \<Rightarrow> u64 \<Rightarrow> ImplicitProducer \<times> ('e, 'z) block_pool_scheme \<Rightarrow> ImplicitProducer option" where
  "revert_entries block currentTailIndex s =
     (if block = nullptr then Some (fst s)
      else do {
        let cti = currentTailIndex + of_nat BLOCK_SIZE;
        e \<leftarrow> get_block_index_entry_for_index cti (fst s);
        p1 \<leftarrow> rewind_block_index_tail (store_value e nullptr (fst s));
        b \<leftarrow> blocks (snd s) block;
        revert_entries (next_block b) cti (p1, snd s)
      })"

declare revert_entries.simps [code]

definition revert_allocations ::
  "nat option \<Rightarrow> u64 \<Rightarrow> ptr \<Rightarrow> ptr \<Rightarrow> ImplicitProducer \<times> ('e, 'z) block_pool_scheme \<Rightarrow>
     (ImplicitProducer \<times> ('e, 'z) block_pool_scheme) option" where
  "revert_allocations inserted startTailIndex startBlock firstAllocatedBlock s =
     (let (p, q) = s
      in do {
        p1 \<leftarrow> (case inserted of
                 None \<Rightarrow> Some p
               | Some e \<Rightarrow> map_option (store_value e nullptr) (rewind_block_index_tail p));
        p2 \<leftarrow> revert_entries firstAllocatedBlock (block_base (startTailIndex - 1)) (p1, q);
        q1 \<leftarrow> add_blocks_to_free_list firstAllocatedBlock q;
        Some (p2\<lparr>tailBlock := startBlock\<rparr>, q1)
      })"

text \<open>The loop that allocates the blocks: it ends with the first and the last block allocated, or
  (\<open>None\<close>) after reverting.\<close>

partial_function (option) allocate_blocks ::
  "(nat \<Rightarrow> ptr) \<Rightarrow> AllocationMode \<Rightarrow> u64 \<Rightarrow> ptr \<Rightarrow> u64 \<Rightarrow> u64 \<Rightarrow> ptr \<Rightarrow> ImplicitProducer \<times> ('e, 'z) block_pool_scheme \<Rightarrow>
     ((ptr \<times> ptr) option \<times> ImplicitProducer \<times> ('e, 'z) block_pool_scheme) option" where
  "allocate_blocks mem allocMode startTailIndex startBlock blockBaseDiff currentTailIndex firstAllocatedBlock s =
     (let (p, q) = s;
          diff = blockBaseDiff - of_nat BLOCK_SIZE;
          cti = currentTailIndex + of_nat BLOCK_SIZE;
          head = headIndex p
      in if circular_less_than cti head then None
         else if sub_queue_full head cti then do {
           (p1, q1) \<leftarrow> revert_allocations None startTailIndex startBlock firstAllocatedBlock (p, q);
           Some (None, p1, q1)
         }
         else do {
           (inserted, p1, q1) \<leftarrow> insert_block_index_entry mem allocMode cti (p, q);
           case inserted of
             None \<Rightarrow> do {
               (p2, q2) \<leftarrow> revert_allocations None startTailIndex startBlock firstAllocatedBlock (p1, q1);
               Some (None, p2, q2)
             }
           | Some e \<Rightarrow> do {
               (newBlock, q2) \<leftarrow> requisition_block mem allocMode q1;
               if newBlock = nullptr then do {
                 (p2, q3) \<leftarrow> revert_allocations (Some e) startTailIndex startBlock firstAllocatedBlock (p1, q2);
                 Some (None, p2, q3)
               }
               else do {
                 q3 \<leftarrow> update_block newBlock (\<lambda>b. (reset_empty implicit_context b)\<lparr>next_block := nullptr\<rparr>) q2;
                 let p2 = store_value e newBlock p1;
                 q4 \<leftarrow> (if startTailIndex AND of_nat (BLOCK_SIZE - 1) \<noteq> 0 \<or> firstAllocatedBlock \<noteq> nullptr
                       then update_block (tailBlock p2) (\<lambda>b. b\<lparr>next_block := newBlock\<rparr>) q3 else Some q3);
                 let p3 = p2\<lparr>tailBlock := newBlock\<rparr>;
                 let first = (if firstAllocatedBlock = nullptr then newBlock else firstAllocatedBlock);
                 if diff > 0 then allocate_blocks mem allocMode startTailIndex startBlock diff cti first (p3, q4)
                 else Some (Some (first, newBlock), p3, q4)
               }
             }
         })"

declare allocate_blocks.simps [code]

text \<open>Filling one block, and the chain of blocks.\<close>

partial_function (option) fill_block ::
  "ptr \<Rightarrow> u64 \<Rightarrow> u64 \<Rightarrow> 'e list \<Rightarrow> ('e, 'z) block_pool_scheme \<Rightarrow> ('e list \<times> ('e, 'z) block_pool_scheme) option" where
  "fill_block block currentTailIndex stopIndex items q =
     (if currentTailIndex = stopIndex then Some (items, q)
      else case items of
        [] \<Rightarrow> None
      | x # rest \<Rightarrow> do {
          q1 \<leftarrow> construct block currentTailIndex x q;
          fill_block block (currentTailIndex + 1) stopIndex rest q1
        })"

declare fill_block.simps [code]

partial_function (option) fill_blocks ::
  "ptr \<Rightarrow> ptr \<Rightarrow> u64 \<Rightarrow> u64 \<Rightarrow> 'e list \<Rightarrow> ('e, 'z) block_pool_scheme \<Rightarrow> (ptr \<times> ('e, 'z) block_pool_scheme) option" where
  "fill_blocks endBlock block currentTailIndex newTailIndex items q =
     (let blockEnd = block_base currentTailIndex + of_nat BLOCK_SIZE;
          stopIndex = (if circular_less_than newTailIndex blockEnd then newTailIndex else blockEnd)
      in do {
        (rest, q1) \<leftarrow> fill_block block currentTailIndex stopIndex items q;
        if block = endBlock then (if stopIndex = newTailIndex then Some (block, q1) else None)
        else do {
          b \<leftarrow> blocks q1 block;
          fill_blocks endBlock (next_block b) stopIndex newTailIndex rest q1
        }
      })"

declare fill_blocks.simps [code]

definition enqueue_bulk ::
  "(nat \<Rightarrow> ptr) \<Rightarrow> AllocationMode \<Rightarrow> 'e list \<Rightarrow> ImplicitProducer \<times> ('e, 'z) block_pool_scheme \<Rightarrow>
     (bool \<times> ImplicitProducer \<times> ('e, 'z) block_pool_scheme) option" where
  "enqueue_bulk mem allocMode items s =
     (let (p, q) = s;
          cnt = of_nat (length items);
          startTailIndex = tailIndex p;
          startBlock = tailBlock p;
          blockBaseDiff = block_base (startTailIndex + cnt - 1) - block_base (startTailIndex - 1)
      in do {
        (allocated, p1, q1) \<leftarrow>
          (if blockBaseDiff > 0 then
             allocate_blocks mem allocMode startTailIndex startBlock blockBaseDiff (block_base (startTailIndex - 1)) nullptr (p, q)
           else Some (Some (nullptr, startBlock), p, q));
        case allocated of
          None \<Rightarrow> Some (False, p1, q1)
        | Some (firstAllocatedBlock, endBlock) \<Rightarrow>
            (let newTailIndex = startTailIndex + cnt; aligned = (startTailIndex AND of_nat (BLOCK_SIZE - 1) = 0)
             in if aligned \<and> firstAllocatedBlock = nullptr \<and> cnt \<noteq> 0 then None
                else do {
                  (lastBlock, q2) \<leftarrow> fill_blocks endBlock
                    (if aligned \<and> firstAllocatedBlock \<noteq> nullptr then firstAllocatedBlock else startBlock)
                    startTailIndex newTailIndex items q1;
                  Some (True, p1\<lparr>tailBlock := lastBlock, tailIndex := newTailIndex\<rparr>, q2)
                })
      })"

end
