(* ===== verification/Block_Pool_Inv.thy ===== *)
theory Block_Pool_Inv
  imports Block_Pool
begin

text \<open>
  The invariant of the block pool: every live block belongs to exactly one of the free list, the rest of
  the initial pool, and the blocks in use. Taking a block and giving one back keep it, whatever \<open>malloc\<close>
  answers, and touch no other block in use.
\<close>

section \<open>The invariant\<close>

fun free_list :: "(ptr \<Rightarrow> 'e Block option) \<Rightarrow> ptr \<Rightarrow> ptr list \<Rightarrow> bool" where
  "free_list B p [] \<longleftrightarrow> p = nullptr"
| "free_list B p (f # fs) \<longleftrightarrow> p = f \<and> f \<noteq> nullptr \<and>
     (\<exists>b. B f = Some b \<and> freeListRefs b = 1 \<and> \<not> dynamicallyAllocated b \<and> free_list B (freeListNext b) fs)"

definition initial_blocks :: "('e, 'z) block_pool_scheme \<Rightarrow> ptr set" where
  "initial_blocks q = {initialBlockPool q ..< initialBlockPool q + unat (initialBlockPoolSize q)}"

definition pool_rest :: "('e, 'z) block_pool_scheme \<Rightarrow> ptr set" where
  "pool_rest q = {initialBlockPool q + unat (initialBlockPoolIndex q) ..< initialBlockPool q + unat (initialBlockPoolSize q)}"

definition block_ok :: "('e, 'z) block_pool_scheme \<Rightarrow> ptr \<Rightarrow> 'e Block \<Rightarrow> bool" where
  "block_ok q p b \<longleftrightarrow> length (elements b) = BLOCK_SIZE \<and> (dynamicallyAllocated b \<longleftrightarrow> p \<notin> initial_blocks q)"

definition pool_inv :: "('e, 'z) block_pool_scheme \<Rightarrow> ptr list \<Rightarrow> ptr set \<Rightarrow> bool" where
  "pool_inv q fs U \<longleftrightarrow>
     blocks q nullptr = None \<and> unat (initialBlockPoolIndex q) \<le> unat (initialBlockPoolSize q) \<and>
     free_list (blocks q) (freeListHead q) fs \<and> distinct fs \<and>
     dom (blocks q) = U \<union> set fs \<union> pool_rest q \<and> initial_blocks q \<subseteq> dom (blocks q) \<and>
     U \<inter> set fs = {} \<and> U \<inter> pool_rest q = {} \<and> set fs \<inter> pool_rest q = {} \<and>
     (\<forall>p \<in> U \<union> pool_rest q. \<forall>b. blocks q p = Some b \<longrightarrow> freeListRefs b = 0) \<and>
     (\<forall>p b. blocks q p = Some b \<longrightarrow> block_ok q p b) \<and>
     (initialBlockPoolSize q = 0 \<longrightarrow> initialBlockPool q = nullptr)"

text \<open>Blocks of a set that an operation leaves as they were.\<close>

definition agree_on :: "ptr set \<Rightarrow> ('e, 'y) block_pool_scheme \<Rightarrow> ('e, 'y) block_pool_scheme \<Rightarrow> bool" where
  "agree_on U q q' \<longleftrightarrow> (\<forall>p \<in> U. blocks q' p = blocks q p)"

section \<open>Lemmas\<close>

lemma update_block_Some [simp]:
  "blocks q p = Some b \<Longrightarrow> update_block p f q = Some (q\<lparr>blocks := (blocks q)(p \<mapsto> f b)\<rparr>)"
  by (simp add: update_block_def)

lemma free_list_frame [simp]: "p \<notin> set fs \<Longrightarrow> free_list (B(p := x)) h fs = free_list B h fs"
  by (induction fs arbitrary: h) auto

lemma free_list_dom: "free_list B h fs \<Longrightarrow> set fs \<subseteq> dom B"
  by (induction fs arbitrary: h) auto

lemma pool_rest_sub: "pool_rest q \<subseteq> initial_blocks q"
  by (auto simp: pool_rest_def initial_blocks_def)

lemma initial_blocks_simps [simp]:
  "initial_blocks (q\<lparr>blocks := B\<rparr>) = initial_blocks q" "initial_blocks (q\<lparr>freeListHead := h\<rparr>) = initial_blocks q"
  "initial_blocks (q\<lparr>allocations := n\<rparr>) = initial_blocks q" "initial_blocks (q\<lparr>initialBlockPoolIndex := i\<rparr>) = initial_blocks q"
  by (simp_all add: initial_blocks_def)

lemma pool_rest_simps [simp]:
  "pool_rest (q\<lparr>blocks := B\<rparr>) = pool_rest q" "pool_rest (q\<lparr>freeListHead := h\<rparr>) = pool_rest q"
  "pool_rest (q\<lparr>allocations := n\<rparr>) = pool_rest q"
  by (simp_all add: pool_rest_def)

lemma block_ok_simps [simp]:
  "block_ok (q\<lparr>blocks := B\<rparr>) = block_ok q" "block_ok (q\<lparr>freeListHead := h\<rparr>) = block_ok q"
  "block_ok (q\<lparr>allocations := n\<rparr>) = block_ok q" "block_ok (q\<lparr>initialBlockPoolIndex := i\<rparr>) = block_ok q"
  by (simp_all add: block_ok_def fun_eq_iff)

lemma pool_inv_allocations [simp]: "pool_inv (q\<lparr>allocations := n\<rparr>) fs U = pool_inv q fs U"
  by (simp add: pool_inv_def)

lemma pool_inv_used:
  assumes "pool_inv q fs U" "p \<in> U"
  shows "p \<noteq> nullptr" "\<exists>b. blocks q p = Some b \<and> length (elements b) = BLOCK_SIZE \<and> freeListRefs b = 0"
proof -
  have "p \<in> dom (blocks q)" using assms by (auto simp: pool_inv_def)
  then obtain b where "blocks q p = Some b" by blast
  with assms show "p \<noteq> nullptr" "\<exists>b. blocks q p = Some b \<and> length (elements b) = BLOCK_SIZE \<and> freeListRefs b = 0"
    by (auto simp: pool_inv_def block_ok_def)
qed

text \<open>Writing to a block in use, as long as what the pool relies on stays.\<close>

lemma pool_inv_update:
  assumes "pool_inv q fs U" "p \<in> U" "blocks q p = Some b" "length (elements b') = length (elements b)"
    "freeListRefs b' = freeListRefs b" "dynamicallyAllocated b' = dynamicallyAllocated b"
  shows "pool_inv (q\<lparr>blocks := (blocks q)(p \<mapsto> b')\<rparr>) fs U"
proof -
  have "p \<notin> set fs" using assms(1,2) by (auto simp: pool_inv_def)
  moreover have "insert p (dom (blocks q)) = dom (blocks q)" using assms(3) by blast
  ultimately show ?thesis
    using assms by (auto simp: pool_inv_def block_ok_def)
qed

section \<open>Taking and giving back blocks\<close>

text \<open>A block that the free list gives out.\<close>

lemma try_get_inv:
  assumes "pool_inv q fs U"
  shows "\<exists>p q'. try_get q = Some (p, q') \<and> agree_on U q q' \<and>
    (if fs = [] then p = nullptr \<and> q' = q
     else p = hd fs \<and> p \<noteq> nullptr \<and> p \<notin> U \<and> pool_inv q' (tl fs) (insert p U))"
proof (cases fs)
  case Nil
  with assms have "freeListHead q = nullptr" by (simp add: pool_inv_def)
  with Nil show ?thesis by (simp add: try_get_def try_get_loop.simps agree_on_def)
next
  case (Cons f gs)
  with assms obtain b where f: "freeListHead q = f" "f \<noteq> nullptr" "blocks q f = Some b" "freeListRefs b = 1"
    "free_list (blocks q) (freeListNext b) gs" "f \<notin> set gs" "f \<notin> U" "f \<notin> pool_rest q" "\<not> dynamicallyAllocated b"
    by (auto simp: pool_inv_def)
  have nz: "(1 :: u32) AND REFS_MASK \<noteq> 0" "(2 :: u32) AND SHOULD_BE_ON_FREELIST = 0"
    by (simp_all add: REFS_MASK_def SHOULD_BE_ON_FREELIST_def)
  let ?q = "q\<lparr>freeListHead := freeListNext b, blocks := (blocks q)(f \<mapsto> b\<lparr>freeListRefs := 0\<rparr>)\<rparr>"
  have "try_get q = Some (f, ?q)"
    using f(1-4) nz by (simp add: try_get_def try_get_loop.simps [of f])
  moreover have "insert f (dom (blocks q)) = dom (blocks q)" using f(3) by blast
  then have "pool_inv ?q gs (insert f U)"
    using assms Cons f by (auto simp: pool_inv_def block_ok_def)
  ultimately show ?thesis using Cons f by (auto simp: agree_on_def)
qed

lemma try_get_block_from_initial_pool_inv:
  assumes "pool_inv q fs U" "try_get_block_from_initial_pool q = (p, q')"
  shows "blocks q' = blocks q" "p = nullptr \<Longrightarrow> q' = q" "p \<noteq> nullptr \<Longrightarrow> p \<notin> U \<and> pool_inv q' fs (insert p U)"
proof -
  let ?i = "initialBlockPoolIndex q" and ?n = "initialBlockPoolSize q"
  show "blocks q' = blocks q" using assms(2) by (auto simp: try_get_block_from_initial_pool_def Let_def split: if_splits)
  have in_dom: "pool_rest q \<subseteq> dom (blocks q)" using assms(1) by (simp add: pool_inv_def)
  have first: "initialBlockPool q + unat ?i \<in> pool_rest q" if "?i < ?n"
    using that by (simp add: pool_rest_def word_less_nat_alt)
  show "q' = q" if "p = nullptr"
  proof (rule ccontr)
    assume "q' \<noteq> q"
    then have "?i < ?n" "initialBlockPool q + unat ?i = nullptr"
      using assms(2) that by (auto simp: try_get_block_from_initial_pool_def Let_def split: if_splits)
    then obtain b where "blocks q nullptr = Some b" using first in_dom by fastforce
    with assms(1) show False by (simp add: pool_inv_def)
  qed
  show "p \<notin> U \<and> pool_inv q' fs (insert p U)" if "p \<noteq> nullptr"
  proof -
    have p: "?i < ?n" "p = initialBlockPool q + unat ?i" "q' = q\<lparr>initialBlockPoolIndex := ?i + 1\<rparr>"
      using assms(2) that by (auto simp: try_get_block_from_initial_pool_def Let_def split: if_splits)
    have "unat (?i + 1) = Suc (unat ?i)"
      using p(1) by (rule unat64_Suc)
    then have rest: "pool_rest q = insert p (pool_rest q')" "p \<notin> pool_rest q'" "unat (?i + 1) \<le> unat ?n"
      using p by (auto simp: pool_rest_def word_less_nat_alt)
    have "p \<notin> U" using assms(1) rest(1) by (auto simp: pool_inv_def)
    moreover have "pool_inv q' fs (insert p U)"
    proof -
      have same: "blocks q' = blocks q" "freeListHead q' = freeListHead q" "block_ok q' = block_ok q"
        "initial_blocks q' = initial_blocks q" "initialBlockPoolSize q' = ?n" "initialBlockPoolIndex q' = ?i + 1"
        "initialBlockPool q' = initialBlockPool q"
        by (simp_all add: p(3))
      show ?thesis
        using assms(1) rest \<open>p \<notin> U\<close> unfolding pool_inv_def same rest(1)
        by (elim conjE) (intro conjI; (assumption | blast))
    qed
    ultimately show ?thesis by blast
  qed
qed

text \<open>A fresh block from the heap.\<close>

lemma create_block_inv:
  assumes "pool_inv q fs U" "create_block mem q = (p, q')"
  shows "agree_on U q q'" "p = nullptr \<Longrightarrow> blocks q' = blocks q \<and> pool_inv q' fs U"
    "p \<noteq> nullptr \<Longrightarrow> p \<notin> U \<and> pool_inv q' fs (insert p U)"
proof -
  have p: "p \<noteq> nullptr \<Longrightarrow> blocks q p = None \<and> q' = q\<lparr>allocations := Suc (allocations q), blocks := (blocks q)(p \<mapsto> new_Block)\<rparr>"
    and z: "p = nullptr \<Longrightarrow> q' = q\<lparr>allocations := Suc (allocations q)\<rparr>"
    using assms(2) by (auto simp: create_block_def malloc_blocks_def Let_def split: if_splits)
  then show "p = nullptr \<Longrightarrow> blocks q' = blocks q \<and> pool_inv q' fs U" using assms(1) by simp
  have un: "p \<notin> U \<and> p \<notin> set fs \<and> p \<notin> pool_rest q \<and> p \<notin> initial_blocks q" if "p \<noteq> nullptr"
    using p [OF that] assms(1) by (auto simp: pool_inv_def)
  show "p \<notin> U \<and> pool_inv q' fs (insert p U)" if "p \<noteq> nullptr"
    using p [OF that] un [OF that] assms(1) that
    by (auto simp: pool_inv_def block_ok_def new_Block_def)
  show "agree_on U q q'"
    using p z un by (cases "p = nullptr") (auto simp: agree_on_def)
qed


text \<open>
  \<open>requisition_block\<close> from any source: a block that nobody else uses, or null, and then nothing has changed.
\<close>

lemma requisition_block_inv:
  assumes "pool_inv q fs U"
  shows "\<exists>p q'. requisition_block mem m q = Some (p, q') \<and> agree_on U q q' \<and>
    (if p = nullptr then blocks q' = blocks q \<and> pool_inv q' fs U
     else p \<notin> U \<and> (\<exists>fs'. pool_inv q' fs' (insert p U)))"
proof -
  obtain p1 q1 where i: "try_get_block_from_initial_pool q = (p1, q1)" by fastforce
  note inv1 = try_get_block_from_initial_pool_inv [OF assms i]
  show ?thesis
  proof (cases "p1 = nullptr")
    case False
    with i inv1 show ?thesis by (auto simp: requisition_block_def agree_on_def)
  next
    case True
    then have [simp]: "q1 = q" using inv1(2) by simp
    obtain p2 q2 where g: "try_get q = Some (p2, q2)" "agree_on U q q2"
      "if fs = [] then p2 = nullptr \<and> q2 = q
       else p2 = hd fs \<and> p2 \<noteq> nullptr \<and> p2 \<notin> U \<and> pool_inv q2 (tl fs) (insert p2 U)"
      using try_get_inv [OF assms] by blast
    show ?thesis
    proof (cases "p2 = nullptr")
      case False
      with g i True show ?thesis by (auto simp: requisition_block_def split: if_splits)
    next
      case True2: True
      with g have [simp]: "q2 = q" by (auto split: if_splits)
      obtain p3 q3 where c: "create_block mem q = (p3, q3)" by fastforce
      show ?thesis
      proof (cases m)
        case CanAlloc
        with i g True True2 c create_block_inv [OF assms c] show ?thesis
          by (auto simp: requisition_block_def)
      next
        case CannotAlloc
        with i g True True2 assms show ?thesis by (auto simp: requisition_block_def agree_on_def)
      qed
    qed
  qed
qed

lemma add_block_to_free_list_inv:
  assumes "pool_inv q fs (insert p U)" "p \<notin> U"
  shows "\<exists>q' fs'. add_block_to_free_list p q = Some q' \<and> agree_on U q q' \<and> pool_inv q' fs' U"
proof -
  obtain b where b: "blocks q p = Some b" "freeListRefs b = 0" "p \<noteq> nullptr" "block_ok q p b"
    using pool_inv_used [OF assms(1), of p] assms(1) by (auto simp: pool_inv_def)
  have un: "p \<notin> set fs" "p \<notin> pool_rest q" using assms(1) by (auto simp: pool_inv_def)
  show ?thesis
  proof (cases "dynamicallyAllocated b")
    case True
    let ?q = "q\<lparr>blocks := (blocks q)(p := None)\<rparr>"
    have "add_block_to_free_list p q = Some ?q"
      using b True by (simp add: add_block_to_free_list_def destroy_block_def RECYCLE_ALLOCATED_BLOCKS_def)
    moreover have "p \<notin> initial_blocks q" using b(4) True by (simp add: block_ok_def)
    then have "pool_inv ?q fs U"
      using assms un unfolding pool_inv_def by auto
    ultimately show ?thesis using assms(2) by (auto simp: agree_on_def)
  next
    case False
    let ?b = "b\<lparr>freeListNext := freeListHead q, freeListRefs := 1\<rparr>"
    let ?q = "q\<lparr>blocks := (blocks q)(p \<mapsto> ?b), freeListHead := p\<rparr>"
    have "add_block_to_free_list p q = Some ?q"
      using b False
      by (simp add: add_block_to_free_list_def free_list_add_def add_knowing_refcount_is_zero.simps [of p])
    moreover have "insert p (dom (blocks q)) = dom (blocks q)" using b(1) by blast
    then have "pool_inv ?q (p # fs) U"
      using assms un b False unfolding pool_inv_def by (auto simp: block_ok_def)
    ultimately show ?thesis using assms(2) by (auto simp: agree_on_def)
  qed
qed

text \<open>A chain of blocks linked by \<open>next\<close>.\<close>

fun block_chain :: "(ptr \<Rightarrow> 'e Block option) \<Rightarrow> ptr \<Rightarrow> ptr list \<Rightarrow> bool" where
  "block_chain B p [] \<longleftrightarrow> p = nullptr"
| "block_chain B p (x # xs) \<longleftrightarrow> p = x \<and> x \<noteq> nullptr \<and> (\<exists>b. B x = Some b \<and> block_chain B (next_block b) xs)"

lemma block_chain_cong:
  "(\<And>x. x \<in> set xs \<Longrightarrow> B' x = B x) \<Longrightarrow> block_chain B' p xs = block_chain B p xs"
  by (induction xs arbitrary: p) auto

lemma add_blocks_to_free_list_inv:
  assumes "pool_inv q fs (set xs \<union> U)" "distinct xs" "set xs \<inter> U = {}" "block_chain (blocks q) p xs"
  shows "\<exists>q' fs'. add_blocks_to_free_list p q = Some q' \<and> agree_on U q q' \<and> pool_inv q' fs' U"
  using assms
proof (induction xs arbitrary: p q fs)
  case Nil
  then show ?case by (auto simp: add_blocks_to_free_list.simps agree_on_def)
next
  case (Cons x xs)
  then obtain b where b: "p = x" "x \<noteq> nullptr" "blocks q x = Some b" "block_chain (blocks q) (next_block b) xs" by auto
  have "pool_inv q fs (insert x (set xs \<union> U))" "x \<notin> set xs \<union> U" using Cons.prems by auto
  then obtain q1 fs1 where 1: "add_block_to_free_list x q = Some q1" "agree_on (set xs \<union> U) q q1" "pool_inv q1 fs1 (set xs \<union> U)"
    using add_block_to_free_list_inv by blast
  have "block_chain (blocks q1) (next_block b) xs"
    using b(4) 1(2) by (subst block_chain_cong [of _ _ "blocks q"]) (auto simp: agree_on_def)
  then obtain q2 fs2 where 2: "add_blocks_to_free_list (next_block b) q1 = Some q2" "agree_on U q1 q2" "pool_inv q2 fs2 U"
    using Cons.IH [OF 1(3) _ _ \<open>block_chain (blocks q1) (next_block b) xs\<close>] Cons.prems by auto
  have "add_blocks_to_free_list p q = Some q2"
    using b(1-3) 1(1) 2(1) by (simp add: add_blocks_to_free_list.simps [of x])
  with 1(2) 2(2,3) show ?case by (auto simp: agree_on_def)
qed

text \<open>The pool that the constructor makes.\<close>

definition empty_pool :: "'e block_pool" where
  "empty_pool = \<lparr>blocks = Map.empty, allocations = 0, initialBlockPool = nullptr, initialBlockPoolSize = 0,
     initialBlockPoolIndex = 0, freeListHead = nullptr\<rparr>"

lemma populate_initial_block_list_inv:
  assumes "blocks q = Map.empty" "initialBlockPoolIndex q = 0" "freeListHead q = nullptr"
  shows "pool_inv (populate_initial_block_list mem n q) [] {}"
proof (cases "n = 0 \<or> mem (allocations q) = nullptr")
  case True
  then have "\<exists>q'. populate_initial_block_list mem n q = q' \<and> blocks q' = Map.empty \<and> initialBlockPoolIndex q' = 0 \<and>
      initialBlockPoolSize q' = 0 \<and> initialBlockPool q' = nullptr \<and> freeListHead q' = nullptr"
    using assms by (auto simp: populate_initial_block_list_def create_array_def malloc_blocks_def Let_def split: prod.splits if_splits)
  then show ?thesis by (auto simp: pool_inv_def pool_rest_def initial_blocks_def)
next
  case False
  let ?p = "mem (allocations q)"
  let ?q = "populate_initial_block_list mem n q"
  have q: "blocks ?q = (\<lambda>a. if ?p \<le> a \<and> a < ?p + unat n then Some (new_Block\<lparr>dynamicallyAllocated := False\<rparr>) else None)"
    "initialBlockPoolIndex ?q = 0" "initialBlockPoolSize ?q = n" "initialBlockPool ?q = ?p" "freeListHead ?q = nullptr"
    using False assms
    by (auto simp: populate_initial_block_list_def create_array_def malloc_blocks_def Let_def list_all_iff fun_eq_iff)
  have "pool_rest ?q = {?p ..< ?p + unat n}" "initial_blocks ?q = {?p ..< ?p + unat n}"
    by (simp_all add: pool_rest_def initial_blocks_def q(2-4))
  moreover have "dom (blocks ?q) = {?p ..< ?p + unat n}" by (auto simp: q(1) split: if_splits)
  ultimately show ?thesis
    using False unfolding pool_inv_def q(2,3,5)
    by (auto simp: q(1) block_ok_def new_Block_def split: if_splits)
qed

end
