(* ===== verification/Producer_Index.thy ===== *)
theory Producer_Index
  imports Implicit_Producer Block_Pool_Inv
begin

text \<open>
  The block index of an implicit producer: a ring of entries that maps the first index of a block to its address.
  Positions of the stream are natural numbers, of which the code keeps 64 bits; block number \<open>b\<close>
  holds the positions from \<open>32 * b\<close> on. The lemmas say what inserting, looking up, rewinding and growing do to
  the map that the ring represents.
\<close>

section \<open>Positions as words\<close>

lemma block_mask: "(of_nat (BLOCK_SIZE - Suc 0) :: u64) = mask 5"
  by (simp add: BLOCK_SIZE_def mask_eq_exp_minus_1)

lemma unat_take_bit_of_nat:
  assumes "k \<le> 64"
  shows "unat (take_bit k (of_nat n :: u64)) = n mod 2 ^ k"
proof -
  have "unat (take_bit k (of_nat n :: u64)) = take_bit k (take_bit 64 n)"
    by (simp add: unsigned_take_bit_eq unsigned_of_nat)
  also have "\<dots> = n mod 2 ^ k" using assms by (simp add: take_bit_eq_mod min_absorb1 flip: take_bit_eq_mod)
  finally show ?thesis .
qed

lemma slot_of_nat: "slot (of_nat n) = n mod 32"
  using unat_take_bit_of_nat [of 5 n] by (simp add: slot_def block_mask take_bit_eq_mask)

lemma aligned_of_nat: "(of_nat n :: u64) AND of_nat (BLOCK_SIZE - 1) = 0 \<longleftrightarrow> n mod 32 = 0"
  by (metis slot_def slot_of_nat unat_eq_0)

lemma block_base_of_nat: "block_base (of_nat n) = of_nat (32 * (n div 32))"
proof -
  have "of_nat n = block_base (of_nat n) + ((of_nat n :: u64) AND mask 5)"
    unfolding block_base_def
    by (subst disjunctive_add; auto intro!: bit_eqI simp: block_mask bit_simps)
  moreover have "(of_nat n :: u64) AND mask 5 = of_nat (n mod 32)"
    by (rule word_unat_eq_iff [THEN iffD2])
      (use unat_take_bit_of_nat [of 5 n] in \<open>simp add: unat64_of_nat take_bit_eq_mask\<close>)
  ultimately have "block_base (of_nat n) = of_nat n - of_nat (n mod 32)" by (simp add: algebra_simps)
  also have "\<dots> = of_nat (n - n mod 32)" by simp
  finally show ?thesis by (simp add: minus_mod_eq_mult_div)
qed

lemma block_base_pred: "block_base (of_nat n - 1) = of_nat (32 * ((n + 31) div 32)) - 32"
proof -
  have "(of_nat (n + (2 ^ 64 - 1)) :: u64) = of_nat n - 1"
    by simp
  then have "block_base (of_nat n - 1) = of_nat (32 * ((n + (2 ^ 64 - 1)) div 32))"
    using block_base_of_nat [of "n + (2 ^ 64 - 1)"] by (simp only:)
  also have "(n + (2 ^ 64 - 1)) div 32 = (n + 31) div 32 + (2 ^ 59 - 1)" by simp
  also have "(of_nat (32 * ((n + 31) div 32 + (2 ^ 59 - 1))) :: u64) = of_nat (32 * ((n + 31) div 32)) + of_nat (2 ^ 64 - 32)"
    by (simp only: of_nat_add [symmetric]) (simp add: add_mult_distrib2)
  also have "(of_nat (2 ^ 64 - 32) :: u64) = - 32" by simp
  finally show ?thesis by simp
qed

lemma circular_less_than_of_nat:
  assumes "m \<le> n" "n - m < 2 ^ 64"
  shows "circular_less_than (of_nat m) (of_nat n) \<longleftrightarrow> m < n \<and> n < m + 2 ^ 63"
proof -
  have "(of_nat n :: u64) - of_nat m = of_nat (n - m)" using assms(1) by simp
  moreover have "unat (of_nat (n - m) :: u64) = n - m" using assms(2) by (rule unat64_of_nat)
  ultimately have "unat ((of_nat n :: u64) - of_nat m) = n - m" by (simp only:)
  then show ?thesis using assms unfolding circular_less_than_iff by auto
qed

lemma not_circular_less_than_of_nat:
  assumes "m \<le> n" "n < m + 2 ^ 63"
  shows "\<not> circular_less_than (of_nat n) (of_nat m)"
proof (cases "m = n")
  case False
  have "(of_nat m :: u64) - of_nat n = - of_nat (n - m)" using assms(1) by simp
  moreover have "unat (of_nat (n - m) :: u64) = n - m" using assms by (intro unat64_of_nat) simp
  ultimately have "unat ((of_nat m :: u64) - of_nat n) = 2 ^ 64 - (n - m)"
    using False assms unat64_minus [of "of_nat (n - m)"] by (simp flip: unat_eq_0)
  with assms show ?thesis by (simp add: circular_less_than_iff)
qed (simp add: circular_less_than_iff)


lemma take_bit_absorb_int:
  "take_bit k (take_bit k x + y) = take_bit k (x + y)" "take_bit k (take_bit k x - y) = take_bit k (x - y)" for x y :: int
  by (simp_all add: take_bit_eq_mod mod_simps)

lemma take_bit_absorb:
  "take_bit k (take_bit k x + y) = take_bit k (x + y)" "take_bit k (take_bit k x - y) = take_bit k (x - y)" for x y :: u64
  by (transfer, simp add: take_bit_absorb_int)+

lemma and_capacity: "x AND ((2 ^ k :: u64) - 1) = take_bit k x"
  by (simp add: take_bit_eq_mask mask_eq_exp_minus_1)

lemma sdiv_block: "(32 * x) sdiv 32 = (x :: int)"
  by (simp add: signed_divide_int_def sgn_mult abs_mult mult_sgn_abs)

lemma block_offset:
  assumes "a < b + 2 ^ 58" "b < a + 2 ^ 58"
  shows "(word_of_int (sint ((of_nat (32 * a) :: u64) - of_nat (32 * b)) sdiv int BLOCK_SIZE) :: u64) = of_nat a - of_nat b"
proof -
  let ?d = "int a - int b"
  have "(of_nat (32 * a) :: u64) - of_nat (32 * b) = word_of_int (32 * ?d)" by simp
  moreover have "sint (word_of_int (32 * ?d) :: u64) = 32 * ?d"
  proof -
    have "signed_take_bit 63 (32 * ?d) = 32 * ?d"
      by (rule signed_take_bit_int_eq_self) (use assms in simp_all)
    then show ?thesis unfolding sint_sbintrunc' by simp
  qed
  moreover have "(32 * ?d) sdiv int BLOCK_SIZE = ?d"
    unfolding BLOCK_SIZE_def by (simp only: of_nat_numeral sdiv_block)
  ultimately have "sint ((of_nat (32 * a) :: u64) - of_nat (32 * b)) sdiv int BLOCK_SIZE = ?d" by (simp only:)
  then show ?thesis by simp
qed

lemma base_valid: "(of_nat (32 * b) :: u64) \<noteq> INVALID_BLOCK_BASE"
proof
  assume "(of_nat (32 * b) :: u64) = INVALID_BLOCK_BASE"
  then have "slot (of_nat (32 * b)) = slot (of_nat 1)" by (simp add: INVALID_BLOCK_BASE_def)
  then show False unfolding slot_of_nat by simp
qed

lemma mod_window:
  fixes m :: nat
  assumes "(b + c) mod m = (b' + c) mod m" "B \<le> b" "b < B + m" "B \<le> b'" "b' < B + m"
  shows "b = b'"
proof -
  have "x = y" if "(x + c) mod m = (y + c) mod m" "x \<le> y" "y < x + m" for x y
  proof -
    have "m dvd (y + c) - (x + c)" using that(1,2) by (metis mod_eq_dvd_iff_nat add_le_mono1)
    then have "m dvd y - x" by simp
    then have "y - x = 0" using that(3) nat_dvd_not_less [of "y - x" m] by linarith
    with that(2) show ?thesis by simp
  qed
  from this [of b b'] this [of b' b] show ?thesis using assms by (cases "b \<le> b'") auto
qed

section \<open>The block index\<close>

text \<open>The entry at a position of the ring of \<open>2 ^ k\<close> entries.\<close>

definition entry :: "nat \<Rightarrow> ImplicitProducer \<Rightarrow> nat \<Rightarrow> nat" where
  "entry k p i = bi_index (hd (blockIndex p)) ! (i mod 2 ^ k)"

text \<open>
  The index maps block numbers from \<open>B\<close> on: block \<open>b\<close> has the ring position \<open>b + c\<close>, its entry's value is \<open>V b\<close>
  and, for \<open>b\<close> in \<open>K\<close>, its key is the block's first index. The tail is at block \<open>N - 1\<close>.
\<close>

definition index_rep ::
  "ImplicitProducer \<Rightarrow> nat \<Rightarrow> nat \<Rightarrow> nat \<Rightarrow> nat set \<Rightarrow> (nat \<Rightarrow> ptr) \<Rightarrow> nat \<Rightarrow> bool" where
  "index_rep p k c N K V B \<longleftrightarrow>
     blockIndex p \<noteq> [] \<and> bi_capacity (hd (blockIndex p)) = 2 ^ k \<and>
     bi_tail (hd (blockIndex p)) = take_bit k (of_nat (N + c) - 1) \<and>
     length (bi_index (hd (blockIndex p))) = 2 ^ k \<and> distinct (bi_index (hd (blockIndex p))) \<and>
     set (bi_index (hd (blockIndex p))) \<subseteq> {..<length (bi_entries p)} \<and>
     nextBlockIndexCapacity p = 2 ^ Suc k \<and> k \<le> 59 \<and>
     (\<forall>b \<in> K. B \<le> b \<and> b < B + 2 ^ k \<and> fst (bi_entries p ! entry k p (b + c)) = of_nat (32 * b)) \<and>
     (\<forall>b. B \<le> b \<and> b < B + 2 ^ k \<longrightarrow> snd (bi_entries p ! entry k p (b + c)) = V b)"

lemma entry_ring: "entry k p (i + 2 ^ k) = entry k p i"
  by (simp add: entry_def)

lemma entry_less: "index_rep p k c N K V B \<Longrightarrow> entry k p i < length (bi_entries p)"
  unfolding index_rep_def entry_def by (elim conjE) (metis lessThan_iff mod_less_divisor nth_mem subsetD zero_less_numeral zero_less_power)

lemma entry_inj:
  assumes "index_rep p k c N K V B" "entry k p (b + c) = entry k p (b' + c)"
    "B \<le> b" "b < B + 2 ^ k" "B \<le> b'" "b' < B + 2 ^ k"
  shows "b = b'"
proof -
  have "(b + c) mod 2 ^ k = (b' + c) mod 2 ^ k"
    using assms(1,2) nth_eq_iff_index_eq [of "bi_index (hd (blockIndex p))" "(b + c) mod 2 ^ k" "(b' + c) mod 2 ^ k"]
    by (simp add: index_rep_def entry_def)
  then show ?thesis using assms(3-) by (rule mod_window)
qed

lemma nth_entry:
  assumes "index_rep p k c N K V B"
  shows "nth_opt (bi_index (hd (blockIndex p))) (unat (take_bit k (of_nat i :: u64))) = Some (entry k p i)"
  using assms unat_take_bit_of_nat [of k i] by (simp add: index_rep_def nth_opt_def entry_def)

lemma nth_entries:
  assumes "index_rep p k c N K V B"
  shows "nth_opt (bi_entries p) (entry k p i) = Some (bi_entries p ! entry k p i)"
  using entry_less [OF assms] by (simp add: nth_opt_def)

text \<open>Looking up a block, from its first index.\<close>

lemma lookup_index:
  assumes rep: "index_rep p k c N K V B" and K: "b \<in> K" "N - 1 \<in> K" and N: "0 < N"
    and near: "b < N - 1 + 2 ^ 58" "N - 1 < b + 2 ^ 58" and V: "V b \<noteq> nullptr" and base: "block_base i = of_nat (32 * b)"
  shows "get_block_index_index_for_index i p = Some (unat (take_bit k (of_nat (b + c) :: u64)))"
proof -
  obtain h hs where h: "blockIndex p = h # hs" using rep by (auto simp: index_rep_def neq_Nil_conv)
  have rep': "bi_capacity h = 2 ^ k" "bi_tail h = take_bit k (of_nat (N + c) - 1)" "k \<le> 59"
    "fst (bi_entries p ! entry k p (N - 1 + c)) = of_nat (32 * (N - 1))"
    "bi_entries p ! entry k p (b + c) = (of_nat (32 * b), V b)"
    using rep h K by (auto simp: index_rep_def prod_eq_iff)
  have tail: "bi_tail h = take_bit k (of_nat (N - 1 + c))" using rep'(2) N by (simp add: algebra_simps)
  have odd: "(of_nat (32 * (N - 1)) :: u64) \<noteq> INVALID_BLOCK_BASE" by (rule base_valid)
  have idx: "(bi_tail h + word_of_int (sint (of_nat (32 * b) - of_nat (32 * (N - 1)) :: u64) sdiv int BLOCK_SIZE)) AND (bi_capacity h - 1)
      = take_bit k (of_nat (b + c))"
    unfolding block_offset [OF near] rep'(1) and_capacity tail take_bit_absorb by (simp add: add.commute)
  note e = nth_entry [OF rep, unfolded h list.sel] and es = nth_entries [OF rep]
  obtain v where tv: "bi_entries p ! entry k p (N - 1 + c) = (of_nat (32 * (N - 1)), v)" using rep'(4) by (metis prod.collapse)
  show ?thesis
    unfolding get_block_index_index_for_index_def h list.case base
    using e [of "N - 1 + c"] e [of "b + c"] es [of "N - 1 + c"] es [of "b + c"] tv rep'(5) odd V idx
    by (simp add: Let_def tail)
qed

lemma lookup_entry:
  assumes "index_rep p k c N K V B" "b \<in> K" "N - 1 \<in> K" "0 < N" "b < N - 1 + 2 ^ 58" "N - 1 < b + 2 ^ 58" "V b \<noteq> nullptr"
    "block_base i = of_nat (32 * b)"
  shows "get_block_index_entry_for_index i p = Some (entry k p (b + c))"
  using lookup_index [OF assms] nth_entry [OF assms(1), of "b + c"] by (simp add: get_block_index_entry_for_index_def)


text \<open>What the operations on the index leave alone.\<close>

definition same_stream :: "ImplicitProducer \<Rightarrow> ImplicitProducer \<Rightarrow> bool" where
  "same_stream p p' \<longleftrightarrow> inactive p' = inactive p \<and> tailIndex p' = tailIndex p \<and> headIndex p' = headIndex p \<and>
     dequeueOptimisticCount p' = dequeueOptimisticCount p \<and> dequeueOvercommit p' = dequeueOvercommit p \<and>
     tailBlock p' = tailBlock p"

lemma same_stream_refl [simp]: "same_stream p p"
  by (simp add: same_stream_def)

lemma same_stream_trans: "same_stream p p' \<Longrightarrow> same_stream p' p'' \<Longrightarrow> same_stream p p''"
  by (simp add: same_stream_def)

lemma same_stream_store_value [simp]: "same_stream p (store_value e v p)"
  by (simp add: same_stream_def store_value_def)

lemma index_rep_frame:
  assumes "index_rep p k c N K V B" "blockIndex p' = blockIndex p" "bi_entries p' = bi_entries p"
    "nextBlockIndexCapacity p' = nextBlockIndexCapacity p"
  shows "index_rep p' k c N K V B"
  using assms by (simp add: index_rep_def entry_def)

lemma index_rep_weaken:
  assumes "index_rep p k c N K V B" "K' \<subseteq> K"
  shows "index_rep p k c N K' V B"
  using assms by (auto simp: index_rep_def)

lemma index_rep_cong:
  assumes "index_rep p k c N K V B" "\<And>b. B \<le> b \<Longrightarrow> b < B + 2 ^ k \<Longrightarrow> V' b = V b"
  shows "index_rep p k c N K V' B"
  using assms by (simp add: index_rep_def)

lemma store_value_rep:
  assumes rep: "index_rep p k c N K V B" and b: "B \<le> b" "b < B + 2 ^ k"
  shows "index_rep (store_value (entry k p (b + c)) v p) k c N K (V(b := v)) B"
proof -
  let ?e = "entry k p (b + c)" and ?p = "store_value (entry k p (b + c)) v p"
  have e: "entry k ?p = entry k p" by (simp add: entry_def store_value_def fun_eq_iff)
  have es: "bi_entries ?p ! entry k p (b' + c) =
      (fst (bi_entries p ! entry k p (b' + c)), if b' = b then v else snd (bi_entries p ! entry k p (b' + c)))"
    if "B \<le> b'" "b' < B + 2 ^ k" for b'
    using entry_less [OF rep] entry_inj [OF rep _ that b] by (auto simp: store_value_def nth_list_update)
  have "fst (bi_entries ?p ! entry k p (b' + c)) = of_nat (32 * b')" "B \<le> b'" "b' < B + 2 ^ k" if "b' \<in> K" for b'
    using rep that es [of b'] by (simp_all add: index_rep_def)
  moreover have "snd (bi_entries ?p ! entry k p (b' + c)) = (V(b := v)) b'" if "B \<le> b'" "b' < B + 2 ^ k" for b'
    using rep that es [of b'] by (simp add: index_rep_def)
  ultimately show ?thesis
    using rep by (simp add: index_rep_def e) (simp add: store_value_def)
qed

lemma rewind_rep:
  assumes rep: "index_rep p k c (Suc N) K V B"
  shows "\<exists>p'. rewind_block_index_tail p = Some p' \<and> index_rep p' k c N K V B \<and> same_stream p p' \<and>
    entry k p' = entry k p \<and> bi_entries p' = bi_entries p"
proof -
  obtain h hs where h: "blockIndex p = h # hs" using rep by (auto simp: index_rep_def neq_Nil_conv)
  have t: "(bi_tail h - 1) AND (bi_capacity h - 1) = take_bit k (of_nat (N + c) - 1)"
    using rep h unfolding index_rep_def by (simp add: and_capacity take_bit_absorb)
  let ?p = "p\<lparr>blockIndex := h\<lparr>bi_tail := take_bit k (of_nat (N + c) - 1)\<rparr> # hs\<rparr>"
  have "entry k ?p = entry k p" by (simp add: entry_def h fun_eq_iff)
  moreover then have "index_rep ?p k c N K V B" using rep h by (simp add: index_rep_def)
  ultimately show ?thesis by (auto simp: rewind_block_index_tail_def h t same_stream_def)
qed

lemma next_entry_rep:
  assumes rep: "index_rep p k c N K V B"
  shows "next_entry (hd (blockIndex p)) p =
    Some (take_bit k (of_nat (N + c)), entry k p (N + c), bi_entries p ! entry k p (N + c))"
proof -
  have "(bi_tail (hd (blockIndex p)) + 1) AND (bi_capacity (hd (blockIndex p)) - 1) = take_bit k (of_nat (N + c))"
    using rep unfolding index_rep_def by (simp add: and_capacity take_bit_absorb)
  then show ?thesis
    using nth_entry [OF rep, of "N + c"] nth_entries [OF rep, of "N + c"]
    by (simp add: next_entry_def Let_def split: prod.splits)
qed

lemma store_key_rep:
  assumes rep: "index_rep p k c N K V B" and N: "B \<le> N" "N < B + 2 ^ k"
  shows "index_rep (store_key (of_nat (32 * N)) (take_bit k (of_nat (N + c))) (entry k p (N + c)) p) k c (Suc N) (insert N K) V B"
    and "entry k (store_key x t e p) = entry k p" "same_stream p (store_key x t e p)"
proof -
  obtain h hs where h: "blockIndex p = h # hs" using rep by (auto simp: index_rep_def neq_Nil_conv)
  show e: "entry k (store_key x t e p) = entry k p" for x t e by (simp add: entry_def store_key_def h fun_eq_iff)
  show "same_stream p (store_key x t e p)" by (simp add: same_stream_def store_key_def)
  let ?p = "store_key (of_nat (32 * N)) (take_bit k (of_nat (N + c))) (entry k p (N + c)) p"
  have es: "bi_entries ?p ! entry k p (b + c) =
      (if b = N then of_nat (32 * N) else fst (bi_entries p ! entry k p (b + c)), snd (bi_entries p ! entry k p (b + c)))"
    if "B \<le> b" "b < B + 2 ^ k" for b
    using entry_less [OF rep] entry_inj [OF rep _ that N] by (auto simp: store_key_def nth_list_update)
  have "fst (bi_entries ?p ! entry k p (b + c)) = of_nat (32 * b)" "B \<le> b" "b < B + 2 ^ k" if "b \<in> insert N K" for b
    using rep that es [of b] N by (auto simp: index_rep_def)
  moreover have "snd (bi_entries ?p ! entry k p (b + c)) = V b" if "B \<le> b" "b < B + 2 ^ k" for b
    using rep that es [of b] by (simp add: index_rep_def)
  ultimately show "index_rep ?p k c (Suc N) (insert N K) V B"
    using rep h by (simp add: index_rep_def e) (simp add: store_key_def)
qed


text \<open>Growing a full index: the old entries, from the oldest block on, come first.\<close>

lemma take_bit_of_nat_eq:
  assumes "k \<le> 64"
  shows "take_bit k (of_nat a :: u64) = take_bit k (of_nat b) \<longleftrightarrow> a mod 2 ^ k = b mod 2 ^ k"
  using unat_take_bit_of_nat [OF assms] by (metis word_unat_eq_iff)

lemma take_bit_pred:
  assumes "k \<le> 59"
  shows "take_bit k (of_nat n - 1 :: u64) = take_bit k (of_nat (n + (2 ^ k - 1)))"
proof -
  have "(of_nat (n + (2 ^ k - 1)) :: u64) = 2 ^ k + (of_nat n - 1)"
    by (simp only: of_nat_add of_nat_diff [OF one_le_power]) simp
  moreover have "take_bit k ((2 :: u64) ^ k) = 0" by (rule bit_eqI) (auto simp: bit_simps)
  ultimately show ?thesis using take_bit_absorb(1) [of k "2 ^ k" "of_nat n - 1"] by simp
qed

lemma copy_index_rep:
  assumes rep: "index_rep p k c N K V B" and j: "j < 2 ^ k"
  shows "copy_index (hd (blockIndex p)) (take_bit k (of_nat (N + c + j) - 1)) =
    Some (map (\<lambda>i. entry k p (N + c + i)) [j..<2 ^ k])"
  using j
proof (induction "2 ^ k - j" arbitrary: j)
  case (Suc n)
  have h: "bi_capacity (hd (blockIndex p)) = 2 ^ k" "bi_tail (hd (blockIndex p)) = take_bit k (of_nat (N + c) - 1)" "k \<le> 59"
    using rep by (simp_all add: index_rep_def)
  have pos: "(take_bit k (of_nat (N + c + j) - 1) + 1) AND (bi_capacity (hd (blockIndex p)) - 1) = take_bit k (of_nat (N + c + j))"
    by (simp add: h(1) and_capacity take_bit_absorb)
  have "take_bit k (of_nat (N + c + j)) = bi_tail (hd (blockIndex p)) \<longleftrightarrow> (j + (N + c)) mod 2 ^ k = (2 ^ k - 1 + (N + c)) mod 2 ^ k"
    unfolding h(2) take_bit_pred [OF h(3)] using h(3) by (subst take_bit_of_nat_eq) (simp_all add: add.commute)
  also have "\<dots> \<longleftrightarrow> j = 2 ^ k - 1" using mod_window [of j "N + c" "2 ^ k" "2 ^ k - 1" 0] Suc.prems by auto
  finally have last: "take_bit k (of_nat (N + c + j)) = bi_tail (hd (blockIndex p)) \<longleftrightarrow> j = 2 ^ k - 1" .
  show ?case
  proof (cases "j = 2 ^ k - 1")
    case True
    then have "[j..<2 ^ k] = [j]" by (simp add: upt_conv_Cons)
    moreover have "take_bit k (of_nat (N + c + j)) = bi_tail (hd (blockIndex p))" using last True by blast
    ultimately show ?thesis
      using nth_entry [OF rep, of "N + c + j"]
      by (subst copy_index.simps) (simp add: pos Let_def del: of_nat_add)
  next
    case False
    then have "copy_index (hd (blockIndex p)) (take_bit k (of_nat (N + c + Suc j) - 1)) =
        Some (map (\<lambda>i. entry k p (N + c + i)) [Suc j..<2 ^ k])"
      using Suc by (intro Suc.hyps(1)) auto
    moreover have "(of_nat (N + c + Suc j) :: u64) - 1 = of_nat (N + c + j)" by simp
    ultimately have "copy_index (hd (blockIndex p)) (take_bit k (of_nat (N + c + j))) =
        Some (map (\<lambda>i. entry k p (N + c + i)) [Suc j..<2 ^ k])" by (simp only:)
    then show ?thesis
      using nth_entry [OF rep, of "N + c + j"] last False Suc.prems
      by (subst copy_index.simps) (simp add: pos Let_def upt_conv_Cons del: of_nat_add)
  qed
qed simp

text \<open>The header that \<open>new_block_index\<close> makes from a full index.\<close>

lemma ring_origin:
  fixes B b :: nat
  assumes "B \<le> b"
  shows "b + (2 ^ k - B mod 2 ^ k) = (b - B) + 2 ^ k * Suc (B div 2 ^ k)"
proof -
  have "B mod 2 ^ k < 2 ^ k" "B = 2 ^ k * (B div 2 ^ k) + B mod 2 ^ k" by simp_all
  then show ?thesis using assms unfolding mult_Suc_right by linarith
qed

lemma grown_entry:
  assumes "b \<in> {B..<B + 2 ^ Suc k}" "N = B + 2 ^ k" "c' = 2 ^ Suc k - B mod 2 ^ Suc k"
    and idx: "bi_index (hd (blockIndex p')) = map (\<lambda>i. entry k p (N + c + i)) [0..<2 ^ k] @ [L..<L + 2 ^ k]"
  shows "entry (Suc k) p' (b + c') = (if b < N then entry k p (b + c) else L + (b - N))"
proof -
  have "(b + c') mod 2 ^ Suc k = b - B"
    using assms(1) unfolding assms(3) ring_origin [OF atLeastLessThan_iff [THEN iffD1, THEN conjunct1, OF assms(1)]] mod_mult_self2
    by (auto intro!: mod_less)
  moreover have "entry k p (N + c + (b - B)) = entry k p (b + c)" if "b < N"
    using entry_ring [of k p "b + c"] assms(1,2) by (simp add: ac_simps)
  ultimately show ?thesis using assms(1,2) by (auto simp: entry_def [of "Suc k"] idx nth_append)
qed


lemma new_block_index_rep:
  assumes rep: "index_rep p k c N {B..<N} V B" and N: "N = B + 2 ^ k" and k: "k \<le> 58" and V: "\<And>b. N \<le> b \<Longrightarrow> V b = nullptr"
  shows "\<exists>ok p' n. new_block_index mem (p, q) = Some (ok, p', q\<lparr>allocations := n\<rparr>) \<and>
    (if ok then same_stream p p' \<and> fst (bi_entries p' ! entry (Suc k) p' (N + (2 ^ Suc k - B mod 2 ^ Suc k))) = INVALID_BLOCK_BASE \<and>
       index_rep p' (Suc k) (2 ^ Suc k - B mod 2 ^ Suc k) N {B..<N} V B
     else p' = p)"
proof (cases "mem (allocations q) = nullptr")
  case True
  then show ?thesis by (auto simp: new_block_index_def malloc_def)
next
  case False
  let ?c = "2 ^ Suc k - B mod 2 ^ Suc k" and ?L = "length (bi_entries p)"
  let ?idx = "map (\<lambda>i. entry k p (N + c + i)) [0..<2 ^ k] @ [?L..<?L + 2 ^ k]"
  let ?p = "p\<lparr>blockIndex := \<lparr>bi_capacity = 2 ^ Suc k, bi_tail = (2 ^ k - 1) AND (2 ^ Suc k - 1), bi_index = ?idx\<rparr> # blockIndex p,
    bi_entries := bi_entries p @ replicate (2 ^ k) (INVALID_BLOCK_BASE, nullptr), nextBlockIndexCapacity := push_bit 1 (2 ^ Suc k)\<rparr>"
  obtain h hs where h: "blockIndex p = h # hs" using rep by (auto simp: index_rep_def neq_Nil_conv)
  have r: "bi_capacity h = 2 ^ k" "bi_tail h = take_bit k (of_nat (N + c + 0) - 1)" "nextBlockIndexCapacity p = 2 ^ Suc k"
    using rep h by (simp_all add: index_rep_def)
  have u: "unat ((2 :: u64) ^ k) = 2 ^ k" using k unat64_of_nat [of "2 ^ k"] power_strict_increasing [of k 64 "2 :: nat"] by simp
  have copy: "copy_index h (bi_tail h) = Some (map (\<lambda>i. entry k p (N + c + i)) [0..<2 ^ k])"
    unfolding r(2) using copy_index_rep [OF rep, of 0] by (simp only: h list.sel) simp
  have new: "new_block_index mem (p, q) = Some (True, ?p, q\<lparr>allocations := Suc (allocations q)\<rparr>)"
    using False h r u copy by (simp add: new_block_index_def malloc_def Let_def)
  have ge: "entry (Suc k) ?p (b + ?c) = (if b < N then entry k p (b + c) else ?L + (b - N))" if "b \<in> {B..<B + 2 ^ Suc k}" for b
    by (rule grown_entry [OF that N refl]) simp
  have old: "?idx ! i = entry k p (N + c + i) \<and> entry k p (N + c + i) < ?L" if "i < 2 ^ k" for i
    using that entry_less [OF rep] by (simp add: nth_append)
  have inj: "i = j" if "entry k p (N + c + i) = entry k p (N + c + j)" "i < 2 ^ k" "j < 2 ^ k" for i j
  proof -
    have shift: "entry k p (N + c + x) = entry k p (B + x + c)" for x
      using entry_ring [of k p "B + x + c"] N by (simp add: ac_simps)
    show ?thesis using entry_inj [OF rep, of "B + i" "B + j"] that unfolding shift by simp
  qed
  have "distinct ?idx"
  proof -
    have "inj_on (\<lambda>i. entry k p (N + c + i)) {0..<2 ^ k}" by (rule inj_onI) (use inj in auto)
    moreover have "entry k p i \<notin> {?L..<?L + 2 ^ k}" for i using entry_less [OF rep, of i] by simp
    ultimately show ?thesis by (auto simp: distinct_map)
  qed
  moreover have "set ?idx \<subseteq> {..<length (bi_entries ?p)}"
    using entry_less [OF rep] by (fastforce simp: trans_less_add1)
  moreover have "(2 ^ k - 1) AND (2 ^ Suc k - 1) = take_bit (Suc k) (of_nat (N + ?c) - 1 :: u64)"
  proof -
    have "N + ?c = 2 ^ k + 2 ^ Suc k * Suc (B div 2 ^ Suc k)" using ring_origin [of B N "Suc k"] N by simp
    then have "(of_nat (N + ?c) - 1 :: u64) = of_nat ((2 ^ k - 1) + 2 ^ Suc k * Suc (B div 2 ^ Suc k))"
      by (simp only: of_nat_add of_nat_diff [OF one_le_power]) (simp add: algebra_simps)
    moreover have "(2 ^ k - 1 :: u64) = of_nat (2 ^ k - 1)" by (simp add: of_nat_diff)
    ultimately show ?thesis
      unfolding and_capacity using k take_bit_of_nat_eq [of "Suc k" "2 ^ k - 1"] by (simp only: mod_mult_self2)
  qed
  moreover have "fst (bi_entries ?p ! entry (Suc k) ?p (b + ?c)) = of_nat (32 * b)" if "b \<in> {B..<N}" for b
    using rep that ge [of b] entry_less [OF rep] N by (simp add: index_rep_def nth_append)
  moreover have "snd (bi_entries ?p ! entry (Suc k) ?p (b + ?c)) = V b" if "B \<le> b \<and> b < B + 2 ^ Suc k" for b
  proof (cases "b < N")
    case True
    with rep that ge [of b] entry_less [OF rep] N show ?thesis by (simp add: index_rep_def nth_append)
  next
    case False
    then have "b - N < 2 ^ k" using that N by auto
    define i where "i = b - N"
    have "i < 2 ^ k" unfolding i_def by fact
    then have "bi_entries ?p ! (?L + i) = (INVALID_BLOCK_BASE, nullptr)" by simp
    moreover have "entry (Suc k) ?p (b + ?c) = ?L + i" unfolding i_def using ge [of b] that False by auto
    ultimately show ?thesis using False V [of b] by (simp only:) simp
  qed
  ultimately have "index_rep ?p (Suc k) ?c N {B..<N} V B"
    using k N by (simp add: index_rep_def)
  moreover have "fst (bi_entries ?p ! entry (Suc k) ?p (N + ?c)) = INVALID_BLOCK_BASE"
    using ge [of N] N by (simp add: nth_append)
  ultimately show ?thesis using new by (auto simp: same_stream_def)
qed


text \<open>
  Making room for block \<open>N\<close>: in the ring if it has a free entry, otherwise in a ring of twice the size, or not at all.
\<close>

lemma insert_block_index_entry_rep:
  assumes rep: "index_rep p k c N {B..<N} V B" and N: "B \<le> N" "N \<le> B + 2 ^ k" "N < B + 2 ^ 58"
    and VN: "\<forall>b. V b \<noteq> nullptr \<longleftrightarrow> B \<le> b \<and> b < N"
  shows "\<exists>r p' n. insert_block_index_entry mem m (of_nat (32 * N)) (p, q) = Some (r, p', q\<lparr>allocations := n\<rparr>) \<and> same_stream p p' \<and>
    (case r of None \<Rightarrow> index_rep p' k c N {B..<N} V B
     | Some e \<Rightarrow> \<exists>k' c'. index_rep p' k' c' (Suc N) {B..<Suc N} V B \<and> N < B + 2 ^ k' \<and> e = entry k' p' (N + c'))"
proof -
  have V: "N \<le> b \<Longrightarrow> V b = nullptr" and V': "B \<le> b \<Longrightarrow> b < N \<Longrightarrow> V b \<noteq> nullptr" for b
    using spec [OF VN, of b] by linarith+
  obtain h hs where h: "blockIndex p = h # hs" using rep by (auto simp: index_rep_def neq_Nil_conv)
  have ins: "insert N {B..<N} = {B..<Suc N}" using N(1) by auto
  note ne = next_entry_rep [OF rep, unfolded h list.sel]
  let ?e = "bi_entries p ! entry k p (N + c)"
  show ?thesis
  proof (cases "N < B + 2 ^ k")
    case True
    then have "snd ?e = nullptr" using rep N V [of N] by (simp add: index_rep_def)
    then have "insert_block_index_entry mem m (of_nat (32 * N)) (p, q) =
        Some (Some (entry k p (N + c)), store_key (of_nat (32 * N)) (take_bit k (of_nat (N + c))) (entry k p (N + c)) p, q\<lparr>allocations := allocations q\<rparr>)"
      using ne h by (cases "bi_entries p ! entry k p (N + c)") (simp add: insert_block_index_entry_def)
    moreover have "index_rep (store_key (of_nat (32 * N)) (take_bit k (of_nat (N + c))) (entry k p (N + c)) p) k c (Suc N) {B..<Suc N} V B"
      using store_key_rep(1) [OF rep N(1) True] by (simp only: ins)
    moreover note store_key_rep(2,3) [OF rep N(1) True]
    ultimately show ?thesis using True by (intro exI conjI) (assumption | simp | metis)+
  next
    case False
    then have full: "N = B + 2 ^ k" using N(2) by simp
    then have k: "k \<le> 58" using N(3) power_less_imp_less_exp [of "2 :: nat" k 58] by simp
    have "entry k p (N + c) = entry k p (B + c)" using entry_ring [of k p "B + c"] full by (simp add: ac_simps)
    then have e: "snd ?e = V B" "fst ?e = of_nat (32 * B)" "V B \<noteq> nullptr"
      using rep full V' [of B] by (simp_all add: index_rep_def)
    then have odd: "fst ?e \<noteq> INVALID_BLOCK_BASE"
      using base_valid by simp
    obtain ok p1 n where new: "new_block_index mem (p, q) = Some (ok, p1, q\<lparr>allocations := n\<rparr>)"
      "if ok then same_stream p p1 \<and> fst (bi_entries p1 ! entry (Suc k) p1 (N + (2 ^ Suc k - B mod 2 ^ Suc k))) = INVALID_BLOCK_BASE \<and>
         index_rep p1 (Suc k) (2 ^ Suc k - B mod 2 ^ Suc k) N {B..<N} V B else p1 = p"
      using new_block_index_rep [OF rep full k V] by metis
    show ?thesis
    proof (cases "m = CannotAlloc \<or> \<not> ok")
      case True
      then have "insert_block_index_entry mem m (of_nat (32 * N)) (p, q) = Some (None, p, q\<lparr>allocations := if m = CannotAlloc then allocations q else n\<rparr>)"
        using ne h e odd new by (cases "bi_entries p ! entry k p (N + c)") (auto simp: insert_block_index_entry_def)
      with rep show ?thesis by (intro exI conjI) (assumption | simp)+
    next
      case False
      define c1 where "c1 = 2 ^ Suc k - B mod 2 ^ Suc k"
      let ?k = "Suc k" and ?c = c1
      let ?p = "store_key (of_nat (32 * N)) (take_bit ?k (of_nat (N + ?c))) (entry ?k p1 (N + ?c)) p1"
      have ok: "same_stream p p1" "fst (bi_entries p1 ! entry ?k p1 (N + ?c)) = INVALID_BLOCK_BASE" "index_rep p1 ?k ?c N {B..<N} V B"
        using new(2) False unfolding c1_def by auto
      have lt: "N < B + 2 ^ ?k" using full by simp
      note ne1 = next_entry_rep [OF ok(3)]
      have "insert_block_index_entry mem m (of_nat (32 * N)) (p, q) = Some (Some (entry ?k p1 (N + ?c)), ?p, q\<lparr>allocations := n\<rparr>)"
        using ne h e odd new(1) False ne1 ok(2)
        by (cases "bi_entries p ! entry k p (N + c)"; cases "bi_entries p1 ! entry ?k p1 (N + ?c)")
          (simp add: insert_block_index_entry_def split del: if_split)
      moreover have "\<exists>k' c'. index_rep ?p k' c' (Suc N) {B..<Suc N} V B \<and> N < B + 2 ^ k' \<and> entry ?k p1 (N + ?c) = entry k' ?p (N + c')"
        using store_key_rep(1) [OF ok(3) N(1) lt] store_key_rep(2) [OF ok(3) N(1) lt] lt
        by (intro exI [of _ ?k] exI [of _ ?c]) (simp only: ins)
      moreover have "same_stream p ?p" by (rule same_stream_trans [OF ok(1) store_key_rep(3) [OF ok(3) N(1) lt]])
      ultimately show ?thesis by (intro exI conjI) (assumption | simp only: option.case)+
    qed
  qed
qed

end
