(* ===== verification/Producer_Stream.thy ===== *)
theory Producer_Stream
  imports Producer_Index
begin

text \<open>
  The stream of an implicit producer: the elements at the positions from head to tail, in blocks that the
  block index finds. Every operation keeps the invariant \<open>producer_inv\<close> and does to the list of elements what a
  first-in first-out queue does, whatever \<open>malloc\<close> answers; blocks of other producers are not touched.
\<close>

section \<open>The invariant\<close>

text \<open>The index, for blocks from \<open>B\<close> to \<open>N\<close>; it may be missing when it could not be allocated.\<close>

definition index_ok :: "ImplicitProducer \<Rightarrow> nat \<Rightarrow> (nat \<Rightarrow> ptr) \<Rightarrow> nat \<Rightarrow> bool" where
  "index_ok p N V B \<longleftrightarrow> B \<le> N \<and>
     (if blockIndex p = [] then B = N else \<exists>k c. index_rep p k c N {B..<N} V B \<and> N \<le> B + 2 ^ k)"

text \<open>
  The blocks of the producer: numbers \<open>B\<close> to \<open>N\<close> where \<open>B\<close> is the head's block; \<open>V\<close> gives their addresses.
  The other blocks in use are \<open>F\<close>.
\<close>

definition pool_part :: "('e, 'z) block_pool_scheme \<Rightarrow> ptr set \<Rightarrow> (nat \<Rightarrow> ptr) \<Rightarrow> nat \<Rightarrow> nat \<Rightarrow> bool" where
  "pool_part q F V B N \<longleftrightarrow>
     (\<forall>b. V b \<noteq> nullptr \<longleftrightarrow> B \<le> b \<and> b < N) \<and> inj_on V {B..<N} \<and> V ` {B..<N} \<inter> F = {} \<and>
     (\<exists>fs. pool_inv q fs (V ` {B..<N} \<union> F))"

definition producer_head :: "ImplicitProducer \<Rightarrow> nat \<Rightarrow> nat \<Rightarrow> bool" where
  "producer_head p H N \<longleftrightarrow> headIndex p = of_nat H \<and>
     dequeueOptimisticCount p - dequeueOvercommit p = of_nat H \<and> 32 * N < H + 2 ^ 63"

definition producer_blocks ::
  "ImplicitProducer \<Rightarrow> ('e, 'z) block_pool_scheme \<Rightarrow> ptr set \<Rightarrow> (nat \<Rightarrow> ptr) \<Rightarrow> nat \<Rightarrow> nat \<Rightarrow> bool" where
  "producer_blocks p q F V H N \<longleftrightarrow>
     index_ok p N V (H div 32) \<and> pool_part q F V (H div 32) N \<and> producer_head p H N"

text \<open>What the blocks hold: the list \<open>xs\<close> from position \<open>H\<close> on.\<close>

definition stream_mem :: "('e, 'z) block_pool_scheme \<Rightarrow> (nat \<Rightarrow> ptr) \<Rightarrow> nat \<Rightarrow> nat \<Rightarrow> 'e list \<Rightarrow> bool" where
  "stream_mem q V H N xs \<longleftrightarrow>
     (\<forall>b. H div 32 \<le> b \<and> b < N \<longrightarrow>
        (\<exists>blk. blocks q (V b) = Some blk \<and> elementsCompletelyDequeued blk = of_nat (H - 32 * b) \<and>
           (\<forall>j. 32 * b \<le> j \<and> j < 32 * b + 32 \<and> H \<le> j \<and> j < H + length xs \<longrightarrow>
              elements blk ! (j - 32 * b) = Some (xs ! (j - H)))))"

definition producer_inv :: "ImplicitProducer \<Rightarrow> ('e, 'z) block_pool_scheme \<Rightarrow> ptr set \<Rightarrow> 'e list \<Rightarrow> ptr set \<Rightarrow> bool" where
  "producer_inv p q F xs U \<longleftrightarrow>
     (\<exists>V H N. N = (H + length xs + 31) div 32 \<and> producer_blocks p q F V H N \<and> stream_mem q V H N xs \<and>
        tailIndex p = of_nat (H + length xs) \<and> U = V ` {H div 32..<N} \<and>
        (H div 32 < N \<longrightarrow> tailBlock p = V (N - 1)))"

section \<open>One block more\<close>

text \<open>The state between inserting an index entry and giving it a block.\<close>

definition entry_inserted ::
  "ImplicitProducer \<Rightarrow> ('e, 'z) block_pool_scheme \<Rightarrow> ptr set \<Rightarrow> (nat \<Rightarrow> ptr) \<Rightarrow> nat \<Rightarrow> nat \<Rightarrow> nat \<Rightarrow> bool" where
  "entry_inserted p q F V H N e \<longleftrightarrow>
     (\<exists>k c. index_rep p k c (Suc N) {H div 32..<Suc N} V (H div 32) \<and> H div 32 \<le> N \<and> N < H div 32 + 2 ^ k \<and> e = entry k p (N + c)) \<and>
     pool_part q F V (H div 32) N \<and> producer_head p H (Suc N)"

lemma pool_part_allocations [simp]: "pool_part (q\<lparr>allocations := n\<rparr>) F V B N = pool_part q F V B N"
  by (simp add: pool_part_def)

lemma producer_head_same: "same_stream p p' \<Longrightarrow> producer_head p' H N = producer_head p H N"
  by (simp add: producer_head_def same_stream_def)

lemma producer_head_less: "producer_head p H (Suc N) \<Longrightarrow> producer_head p H N"
  by (auto simp: producer_head_def)

lemma head_block:
  assumes "producer_head p H N"
  shows "N < H div 32 + 1 + 2 ^ 58"
proof -
  have "H < 32 * (H div 32) + 32" by simp
  then show ?thesis using assms by (simp add: producer_head_def)
qed

lemma index_okI: "index_rep p k c N {B..<N} V B \<Longrightarrow> B \<le> N \<Longrightarrow> N \<le> B + 2 ^ k \<Longrightarrow> index_ok p N V B"
  unfolding index_ok_def by (auto simp: index_rep_def [of p k c, THEN iffD1, THEN conjunct1])

lemma insert_block_index_entry_step:
  assumes inv: "producer_blocks p q F V H N" and room: "32 * Suc N < H + 2 ^ 63"
  shows "\<exists>r p' n. insert_block_index_entry mem m (of_nat (32 * N)) (p, q) = Some (r, p', q\<lparr>allocations := n\<rparr>) \<and> same_stream p p' \<and>
    (case r of None \<Rightarrow> producer_blocks p' (q\<lparr>allocations := n\<rparr>) F V H N
     | Some e \<Rightarrow> entry_inserted p' (q\<lparr>allocations := n\<rparr>) F V H N e)"
proof (cases "blockIndex p = []")
  case True
  then have "insert_block_index_entry mem m (of_nat (32 * N)) (p, q) = Some (None, p, q\<lparr>allocations := allocations q\<rparr>)"
    by (simp add: insert_block_index_entry_def)
  with inv show ?thesis by (intro exI conjI) (assumption | simp)+
next
  case False
  let ?B = "H div 32"
  from inv False obtain k c where k: "index_rep p k c N {?B..<N} V ?B" "N \<le> ?B + 2 ^ k" "?B \<le> N"
    and pp: "pool_part q F V ?B N" and hd: "producer_head p H N"
    by (auto simp: producer_blocks_def index_ok_def)
  have N: "N < ?B + 2 ^ 58" using room by simp
  have V: "\<forall>b. V b \<noteq> nullptr \<longleftrightarrow> ?B \<le> b \<and> b < N" using pp by (auto simp: pool_part_def)
  obtain r p' n where ins: "insert_block_index_entry mem m (of_nat (32 * N)) (p, q) = Some (r, p', q\<lparr>allocations := n\<rparr>)" "same_stream p p'"
    "case r of None \<Rightarrow> index_rep p' k c N {?B..<N} V ?B
     | Some e \<Rightarrow> \<exists>k' c'. index_rep p' k' c' (Suc N) {?B..<Suc N} V ?B \<and> N < ?B + 2 ^ k' \<and> e = entry k' p' (N + c')"
    using insert_block_index_entry_rep [OF k(1,3,2) N V, of mem m q] by (elim exE conjE) blast
  have hd': "producer_head p' H N" "producer_head p' H (Suc N)"
    unfolding producer_head_same [OF ins(2)] using hd room by (auto simp: producer_head_def)
  have "case r of None \<Rightarrow> producer_blocks p' (q\<lparr>allocations := n\<rparr>) F V H N | Some e \<Rightarrow> entry_inserted p' (q\<lparr>allocations := n\<rparr>) F V H N e"
  proof (cases r)
    case None
    with ins(3) have "index_ok p' N V ?B" using k by (auto intro: index_okI)
    with None pp hd' show ?thesis by (simp add: producer_blocks_def)
  next
    case (Some e)
    with ins(3) pp hd' k(3) show ?thesis by (auto simp: entry_inserted_def)
  qed
  with ins(1,2) show ?thesis by blast
qed

text \<open>Taking the entry back.\<close>

lemma undo_insertion:
  assumes "entry_inserted p q F V H N e"
  shows "\<exists>p'. rewind_block_index_tail p = Some p' \<and> same_stream p (store_value e nullptr p') \<and>
    producer_blocks (store_value e nullptr p') q F V H N"
proof -
  let ?B = "H div 32"
  from assms obtain k c where k: "index_rep p k c (Suc N) {?B..<Suc N} V ?B" "?B \<le> N" "N < ?B + 2 ^ k" "e = entry k p (N + c)"
    and pp: "pool_part q F V ?B N" and hd: "producer_head p H (Suc N)"
    by (auto simp: entry_inserted_def)
  from rewind_rep [OF k(1)] obtain p' where r: "rewind_block_index_tail p = Some p'"
    "index_rep p' k c N {?B..<Suc N} V ?B" "same_stream p p'" "entry k p' = entry k p" by blast
  have "V(N := nullptr) = V" using pp by (auto simp: pool_part_def fun_eq_iff)
  moreover have "{?B..<N} \<subseteq> {?B..<Suc N}" by auto
  ultimately have "index_rep (store_value e nullptr p') k c N {?B..<N} V ?B"
    using store_value_rep [OF r(2) k(2,3), of nullptr] index_rep_weaken k(4) r(4) by metis
  then have "index_ok (store_value e nullptr p') N V ?B" using k by (auto intro: index_okI)
  moreover have s: "same_stream p (store_value e nullptr p')" using r(3) by (rule same_stream_trans) simp
  then have "producer_head (store_value e nullptr p') H N" using producer_head_less [OF hd] by (simp only: producer_head_same [OF s])
  ultimately show ?thesis using r(1) s pp by (auto simp: producer_blocks_def)
qed

text \<open>Giving it a block.\<close>

lemma attach_block:
  assumes ins: "entry_inserted p q F V H N e" and new: "nb \<noteq> nullptr" "nb \<notin> V ` {H div 32..<N} \<union> F"
    and pool: "pool_inv q' fs (insert nb (V ` {H div 32..<N} \<union> F))"
  shows "producer_blocks (store_value e nb p) q' F (V(N := nb)) H (Suc N)"
proof -
  let ?B = "H div 32"
  from ins obtain k c where k: "index_rep p k c (Suc N) {?B..<Suc N} V ?B" "?B \<le> N" "N < ?B + 2 ^ k" "e = entry k p (N + c)"
    and pp: "pool_part q F V ?B N" and hd: "producer_head p H (Suc N)"
    by (auto simp: entry_inserted_def)
  have "index_ok (store_value e nb p) (Suc N) (V(N := nb)) ?B"
    using store_value_rep [OF k(1-3), of nb] k by (auto intro: index_okI)
  moreover have im: "(V(N := nb)) ` {?B..<Suc N} = insert nb (V ` {?B..<N})"
    using k(2) by (auto simp: image_iff less_Suc_eq)
  have "inj_on (V(N := nb)) {?B..<Suc N}"
    using pp new by (auto simp: pool_part_def inj_on_def less_Suc_eq)
  then have "pool_part q' F (V(N := nb)) ?B (Suc N)"
    using pp new pool k(2) unfolding pool_part_def im by (auto simp: less_Suc_eq)
  moreover have "producer_head (store_value e nb p) H (Suc N)"
    unfolding producer_head_same [OF same_stream_store_value] by (rule hd)
  ultimately show ?thesis by (simp add: producer_blocks_def)
qed


section \<open>The memory of the stream\<close>

definition same_links :: "('e, 'y) block_pool_scheme \<Rightarrow> ('e, 'y) block_pool_scheme \<Rightarrow> bool" where
  "same_links q q' \<longleftrightarrow> (\<forall>a. map_option next_block (blocks q' a) = map_option next_block (blocks q a))"

lemma same_links_refl [simp]: "same_links q q"
  by (simp add: same_links_def)

lemma same_links_trans: "same_links q q' \<Longrightarrow> same_links q' q'' \<Longrightarrow> same_links q q''"
  by (simp add: same_links_def)

lemma agree_on_refl [simp]: "agree_on U q q"
  by (simp add: agree_on_def)

lemma agree_on_trans: "agree_on U q q' \<Longrightarrow> agree_on U q' q'' \<Longrightarrow> agree_on U q q''"
  by (simp add: agree_on_def)

lemma stream_mem_frame:
  assumes "stream_mem q V H N xs" "\<And>b. H div 32 \<le> b \<Longrightarrow> b < N' \<Longrightarrow> b < N \<and> blocks q' (V' b) = blocks q (V b)"
  shows "stream_mem q' V' H N' xs"
  using assms unfolding stream_mem_def by metis

lemma pool_part_block:
  assumes "pool_part q F V B N" "B \<le> b" "b < N"
  shows "V b \<noteq> nullptr" "V b \<notin> F" "\<exists>blk. blocks q (V b) = Some blk \<and> length (elements blk) = 32"
proof -
  from assms obtain fs where fs: "pool_inv q fs (V ` {B..<N} \<union> F)" "V ` {B..<N} \<inter> F = {}"
    by (auto simp: pool_part_def)
  have "V b \<in> V ` {B..<N}" using assms(2,3) by auto
  then have "V b \<in> V ` {B..<N} \<union> F" "V b \<notin> F" using fs(2) by blast+
  from pool_inv_used [OF fs(1) this(1)] this(2)
  show "V b \<noteq> nullptr" "V b \<notin> F" "\<exists>blk. blocks q (V b) = Some blk \<and> length (elements blk) = 32"
    by (auto simp: BLOCK_SIZE_def)
qed

lemma pool_part_update:
  assumes "pool_part q F V B N" "B \<le> b" "b < N" "blocks q (V b) = Some blk"
    "length (elements blk') = length (elements blk)" "freeListRefs blk' = freeListRefs blk"
    "dynamicallyAllocated blk' = dynamicallyAllocated blk"
  shows "pool_part (q\<lparr>blocks := (blocks q)(V b \<mapsto> blk')\<rparr>) F V B N"
    and "agree_on F q (q\<lparr>blocks := (blocks q)(V b \<mapsto> blk')\<rparr>)"
proof -
  have "V b \<in> V ` {B..<N} \<union> F" using assms(2,3) by auto
  then show "pool_part (q\<lparr>blocks := (blocks q)(V b \<mapsto> blk')\<rparr>) F V B N"
    using assms unfolding pool_part_def by (blast intro: pool_inv_update)
  show "agree_on F q (q\<lparr>blocks := (blocks q)(V b \<mapsto> blk')\<rparr>)"
    using pool_part_block(2) [OF assms(1-3)] by (auto simp: agree_on_def)
qed

lemma producer_block:
  assumes "producer_blocks p q F V H N" "H div 32 \<le> b" "b < N"
  shows "V b \<noteq> nullptr" "V b \<notin> F" "\<exists>blk. blocks q (V b) = Some blk \<and> length (elements blk) = 32"
  using assms pool_part_block unfolding producer_blocks_def by blast+

lemma producer_block_inj:
  assumes "producer_blocks p q F V H N" "V b = V b'" "H div 32 \<le> b" "b < N" "H div 32 \<le> b'" "b' < N"
  shows "b = b'"
  using assms by (auto simp: producer_blocks_def pool_part_def inj_on_def)

lemma producer_blocks_update:
  assumes "producer_blocks p q F V H N" "H div 32 \<le> b" "b < N" "blocks q (V b) = Some blk"
    "length (elements blk') = length (elements blk)" "freeListRefs blk' = freeListRefs blk"
    "dynamicallyAllocated blk' = dynamicallyAllocated blk"
  shows "producer_blocks p (q\<lparr>blocks := (blocks q)(V b \<mapsto> blk')\<rparr>) F V H N"
    and "agree_on F q (q\<lparr>blocks := (blocks q)(V b \<mapsto> blk')\<rparr>)"
  using assms pool_part_update [of q F V "H div 32" N b blk blk'] by (auto simp: producer_blocks_def)

lemma producer_blocks_fields [simp]:
  "producer_blocks (p\<lparr>tailIndex := t\<rparr>) q F V H N = producer_blocks p q F V H N"
  "producer_blocks (p\<lparr>tailBlock := a\<rparr>) q F V H N = producer_blocks p q F V H N"
  by (simp_all add: producer_blocks_def index_ok_def producer_head_def index_rep_def entry_def)

text \<open>Constructing the next element.\<close>

lemma construct_step:
  assumes inv: "producer_blocks p q F V H N" "stream_mem q V H N xs"
    and T: "T = H + length xs" "T < 32 * N" and b: "b = T div 32"
  shows "\<exists>q'. construct (V b) (of_nat T) x q = Some q' \<and> producer_blocks p q' F V H N \<and>
    stream_mem q' V H N (xs @ [x]) \<and> agree_on F q q' \<and> same_links q q'"
proof -
  have bN: "H div 32 \<le> b" "b < N" using T b by (auto intro: div_le_mono)
  obtain blk where blk: "blocks q (V b) = Some blk" "length (elements blk) = 32"
    using producer_block(3) [OF inv(1) bN] by blast
  let ?blk = "blk\<lparr>elements := (elements blk)[T mod 32 := Some x]\<rparr>"
  let ?q = "q\<lparr>blocks := (blocks q)(V b \<mapsto> ?blk)\<rparr>"
  have "stream_mem ?q V H N (xs @ [x])"
    unfolding stream_mem_def
  proof (intro allI impI)
    fix b' assume b': "H div 32 \<le> b' \<and> b' < N"
    then obtain blk' where blk': "blocks q (V b') = Some blk'" "elementsCompletelyDequeued blk' = of_nat (H - 32 * b')"
      "\<And>j. 32 * b' \<le> j \<Longrightarrow> j < 32 * b' + 32 \<Longrightarrow> H \<le> j \<Longrightarrow> j < H + length xs \<Longrightarrow> elements blk' ! (j - 32 * b') = Some (xs ! (j - H))"
      using inv(2) by (auto simp: stream_mem_def)
    show "\<exists>blk. blocks ?q (V b') = Some blk \<and> elementsCompletelyDequeued blk = of_nat (H - 32 * b') \<and>
      (\<forall>j. 32 * b' \<le> j \<and> j < 32 * b' + 32 \<and> H \<le> j \<and> j < H + length (xs @ [x]) \<longrightarrow>
        elements blk ! (j - 32 * b') = Some ((xs @ [x]) ! (j - H)))"
    proof (cases "b' = b")
      case True
      have "elements ?blk ! (j - 32 * b) = Some ((xs @ [x]) ! (j - H))"
        if "32 * b \<le> j \<and> j < 32 * b + 32 \<and> H \<le> j \<and> j < H + length (xs @ [x])" for j
      proof (cases "j = T")
        case True
        then have "j - 32 * b = T mod 32" using b by (simp add: minus_mult_div_eq_mod)
        then show ?thesis using True T blk(2) by simp
      next
        case False
        then have "j < H + length xs" using that T by simp
        moreover have "j - 32 * b \<noteq> T mod 32"
          using False that b by (metis add_diff_inverse_nat add_left_cancel linorder_not_less mult_div_mod_eq)
        moreover have "j - H < length xs" using that False T by auto
        ultimately show ?thesis using that blk'(3) [of j] \<open>b' = b\<close> blk blk'(1) by (simp add: nth_append)
      qed
      then show ?thesis using True blk blk' by auto
    next
      case False
      then have "V b' \<noteq> V b" using producer_block_inj [OF inv(1)] b' bN by blast
      moreover have "elements blk' ! (j - 32 * b') = Some ((xs @ [x]) ! (j - H))"
        if "32 * b' \<le> j \<and> j < 32 * b' + 32 \<and> H \<le> j \<and> j < H + length (xs @ [x])" for j
      proof -
        have "j div 32 = b'" using that by (intro div_nat_eqI) auto
        then have "j \<noteq> T" using False b by auto
        then have "j < H + length xs" "j - H < length xs" using that T by auto
        then show ?thesis using that blk'(3) [of j] by (simp add: nth_append)
      qed
      ultimately show ?thesis using blk' by auto
    qed
  qed
  moreover have "construct (V b) (of_nat T) x q = Some ?q" using blk by (simp add: construct_def slot_of_nat)
  moreover have "same_links q ?q" using blk by (auto simp: same_links_def)
  ultimately show ?thesis
    using producer_blocks_update [OF inv(1) bN blk(1), of ?blk] by auto
qed


text \<open>A block for the entry just inserted: it is fresh, and holds nothing of the stream yet.\<close>

lemma stream_mem_grow:
  assumes inv: "stream_mem q V H N xs" "H + length xs \<le> 32 * N"
    and same: "\<And>b. H div 32 \<le> b \<Longrightarrow> b < N \<Longrightarrow> blocks q' (V b) = blocks q (V b)"
    and new: "blocks q' nb = Some blk" "elementsCompletelyDequeued blk = 0"
  shows "stream_mem q' (V(N := nb)) H (Suc N) xs"
  unfolding stream_mem_def
proof (intro allI impI)
  fix b assume b: "H div 32 \<le> b \<and> b < Suc N"
  show "\<exists>blk. blocks q' ((V(N := nb)) b) = Some blk \<and> elementsCompletelyDequeued blk = of_nat (H - 32 * b) \<and>
      (\<forall>j. 32 * b \<le> j \<and> j < 32 * b + 32 \<and> H \<le> j \<and> j < H + length xs \<longrightarrow> elements blk ! (j - 32 * b) = Some (xs ! (j - H)))"
  proof (cases "b = N")
    case True
    with new inv(2) show ?thesis by auto
  next
    case False
    with b have "H div 32 \<le> b" "b < N" by auto
    with inv(1) same [of b] False show ?thesis by (simp add: stream_mem_def)
  qed
qed

text \<open>The block \<open>nb\<close> that \<open>requisition_block\<close> gave: with its counter reset it extends the stream, whatever its link.\<close>

definition fresh_block ::
  "ptr \<Rightarrow> nat \<Rightarrow> ImplicitProducer \<Rightarrow> ('e, 'y) block_pool_scheme \<Rightarrow> ('e, 'y) block_pool_scheme \<Rightarrow> ptr set \<Rightarrow> (nat \<Rightarrow> ptr) \<Rightarrow>
     nat \<Rightarrow> nat \<Rightarrow> 'e list \<Rightarrow> bool" where
  "fresh_block nb e p q q' F V H N xs \<longleftrightarrow>
     (\<exists>blk. blocks q' nb = Some blk \<and>
       (\<forall>nx q''. q'' = q'\<lparr>blocks := (blocks q')(nb \<mapsto> (reset_empty implicit_context blk)\<lparr>next_block := nx\<rparr>)\<rparr> \<longrightarrow>
          producer_blocks (store_value e nb p) q'' F (V(N := nb)) H (Suc N) \<and> stream_mem q'' (V(N := nb)) H (Suc N) xs \<and>
          agree_on (V ` {H div 32..<N} \<union> F) q q''))"

lemma requisition_step:
  assumes ins: "entry_inserted p q F V H N e" and mem: "stream_mem q V H N xs" "H + length xs \<le> 32 * N"
  shows "\<exists>nb q'. requisition_block mem m q = Some (nb, q') \<and>
    (if nb = nullptr then entry_inserted p q' F V H N e \<and> blocks q' = blocks q
     else fresh_block nb e p q q' F V H N xs)"
proof -
  let ?U = "V ` {H div 32..<N} \<union> F"
  from ins obtain fs where pool: "pool_inv q fs ?U" by (auto simp: entry_inserted_def pool_part_def)
  from requisition_block_inv [OF this, of mem m] obtain nb q' where r: "requisition_block mem m q = Some (nb, q')" "agree_on ?U q q'"
    "if nb = nullptr then blocks q' = blocks q \<and> pool_inv q' fs ?U else nb \<notin> ?U \<and> (\<exists>fs'. pool_inv q' fs' (insert nb ?U))"
    by blast
  show ?thesis
  proof (cases "nb = nullptr")
    case True
    with r(3) ins have "entry_inserted p q' F V H N e" by (auto simp: entry_inserted_def pool_part_def)
    with True r show ?thesis by auto
  next
    case False
    with r(3) obtain fs' where nb: "nb \<notin> ?U" "pool_inv q' fs' (insert nb ?U)" by auto
    have at: "producer_blocks (store_value e nb p) q' F (V(N := nb)) H (Suc N)" by (rule attach_block [OF ins False nb])
    have B: "H div 32 \<le> N" using ins by (auto simp: entry_inserted_def)
    obtain blk where blk: "blocks q' nb = Some blk" using producer_block(3) [OF at B] by auto
    have "producer_blocks (store_value e nb p) q'' F (V(N := nb)) H (Suc N) \<and> stream_mem q'' (V(N := nb)) H (Suc N) xs \<and> agree_on ?U q q''"
      if q'': "q'' = q'\<lparr>blocks := (blocks q')(nb \<mapsto> (reset_empty implicit_context blk)\<lparr>next_block := nx\<rparr>)\<rparr>" for nx q''
    proof (intro conjI)
      show "producer_blocks (store_value e nb p) q'' F (V(N := nb)) H (Suc N)"
        using producer_blocks_update(1) [OF at B, of blk "(reset_empty implicit_context blk)\<lparr>next_block := nx\<rparr>"] blk q''
        by (simp add: reset_empty_def uses_flags_def)
      show ag: "agree_on ?U q q''" using r(2) nb(1) q'' by (auto simp: agree_on_def)
      show "stream_mem q'' (V(N := nb)) H (Suc N) xs"
      proof (rule stream_mem_grow [OF mem])
        show "blocks q'' (V b) = blocks q (V b)" if "H div 32 \<le> b" "b < N" for b using ag that by (auto simp: agree_on_def)
      qed (use q'' in \<open>auto simp: reset_empty_def uses_flags_def\<close>)
    qed
    then have "fresh_block nb e p q q' F V H N xs" unfolding fresh_block_def using blk by blast
    with False r(1) show ?thesis by auto
  qed
qed

section \<open>Enqueueing\<close>

text \<open>The number of blocks up to position \<open>T\<close>.\<close>

lemma ceil_block:
  fixes T :: nat
  shows "T mod 32 \<noteq> 0 \<Longrightarrow> (T + 31) div 32 = Suc (T div 32)" "T mod 32 = 0 \<Longrightarrow> (T + 31) div 32 = T div 32"
    "(Suc T + 31) div 32 = Suc (T div 32)" "T \<le> 32 * ((T + 31) div 32)" "T < 32 * Suc (T div 32)"
proof -
  obtain a r where T: "T = 32 * a + r" "r < 32" "T div 32 = a" "T mod 32 = r"
    by (metis mod_less_divisor mult_div_mod_eq zero_less_numeral)
  have 1: "(T + 31) div 32 = Suc a" if "r \<noteq> 0"
    by (rule div_nat_eqI) (use T(1,2) that in auto)
  have 2: "(T + 31) div 32 = a" if "r = 0"
    by (rule div_nat_eqI) (use T(1,2) that in auto)
  show "(T + 31) div 32 = Suc (T div 32)" if "T mod 32 \<noteq> 0" using 1 that unfolding T(3,4) by simp
  show "(T + 31) div 32 = T div 32" if "T mod 32 = 0" using 2 that unfolding T(3,4) by simp
  show "(Suc T + 31) div 32 = Suc (T div 32)" by simp
  show "T < 32 * Suc (T div 32)" unfolding T(3) using T(1,2) by simp
  show "T \<le> 32 * ((T + 31) div 32)"
    using T(1,2) 1 2 by (cases "r = 0") simp_all
qed

lemma started_block:
  assumes "(H + length xs) mod 32 \<noteq> 0"
  shows "H div 32 < (H + length xs + 31) div 32"
  unfolding ceil_block(1) [OF assms] less_Suc_eq_le by (rule div_le_mono) simp

lemma producer_invI:
  assumes "producer_blocks p q F V H N" "stream_mem q V H N xs" "N = (H + length xs + 31) div 32"
    "tailIndex p = of_nat (H + length xs)" "H div 32 < N \<Longrightarrow> tailBlock p = V (N - 1)"
  shows "\<exists>U. producer_inv p q F xs U"
  using assms unfolding producer_inv_def by blast

lemma room_for_block:
  assumes "producer_head p H N" "H div 32 \<le> N"
  shows "\<not> circular_less_than (of_nat (32 * N)) (headIndex p) \<or> 32 * N < H"
    and "sub_queue_full (headIndex p) (of_nat (32 * N)) \<longleftrightarrow> \<not> 32 * Suc N < H + 2 ^ 63"
proof -
  have h: "headIndex p = of_nat H" "32 * N < H + 2 ^ 63" using assms(1) by (auto simp: producer_head_def)
  show "\<not> circular_less_than (of_nat (32 * N)) (headIndex p) \<or> 32 * N < H"
    unfolding h(1) using not_circular_less_than_of_nat [of H "32 * N"] h(2) by linarith
  have "H < 32 * (H div 32) + 32" by simp
  also have "\<dots> \<le> 32 * Suc N" using assms(2) by simp
  finally have lt: "H < 32 * Suc N" .
  have "circular_less_than (of_nat H) (of_nat (32 * Suc N)) \<longleftrightarrow> 32 * Suc N < H + 2 ^ 63"
    using circular_less_than_of_nat [of H "32 * Suc N"] lt h(2) by simp
  moreover have "(of_nat (32 * N) :: u64) + of_nat BLOCK_SIZE = of_nat (32 * Suc N)" by (simp add: BLOCK_SIZE_def)
  ultimately show "sub_queue_full (headIndex p) (of_nat (32 * N)) \<longleftrightarrow> \<not> 32 * Suc N < H + 2 ^ 63"
    unfolding sub_queue_full_def h(1) MAX_SUBQUEUE_SIZE_def by (simp add: add.commute)
qed


lemma enqueue_inv:
  assumes "producer_inv p q F xs U"
  shows "\<exists>ok p' q' U'. enqueue mem m x (p, q) = Some (ok, p', q') \<and> producer_inv p' q' F (if ok then xs @ [x] else xs) U' \<and>
    agree_on F q q' \<and> inactive p' = inactive p"
proof -
  from assms obtain V H N where N: "N = (H + length xs + 31) div 32" and pb: "producer_blocks p q F V H N"
    and mem: "stream_mem q V H N xs" and t: "tailIndex p = of_nat (H + length xs)"
      "H div 32 < N \<longrightarrow> tailBlock p = V (N - 1)"
    unfolding producer_inv_def by blast
  define T where "T = H + length xs"
  have ph: "producer_head p H N" "H div 32 \<le> N" using pb by (auto simp: producer_blocks_def index_ok_def)
  have t': "tailIndex p = of_nat T" "T mod 32 \<noteq> 0 \<Longrightarrow> tailBlock p = V (N - 1)"
    using t started_block [of H xs] N by (simp_all add: T_def)
  have al: "(of_nat T :: u64) AND of_nat (BLOCK_SIZE - 1) = 0 \<longleftrightarrow> T mod 32 = 0" by (rule aligned_of_nat)
  have fin: "\<exists>U'. producer_inv (p'\<lparr>tailIndex := 1 + of_nat T\<rparr>) q' F (xs @ [x]) U'"
    if "producer_blocks p' q' F V' H N'" "stream_mem q' V' H N' (xs @ [x])" "N' = (Suc T + 31) div 32" "tailBlock p' = V' (T div 32)" for p' q' V' N'
  proof -
    have "N' - 1 = T div 32" unfolding that(3) ceil_block(3) by simp
    then show ?thesis
      using that by (intro producer_invI [of _ _ _ V' H N']) (auto simp: T_def)
  qed
  show ?thesis
  proof (cases "T mod 32 = 0")
    case False
    then have lt: "T < 32 * N" "N - 1 = T div 32" "N = (Suc T + 31) div 32" 
      using N [folded T_def] ceil_block(1) [OF False] ceil_block(3,5) [of T] by auto
    from construct_step [OF pb mem T_def lt(1) refl, of x] obtain q' where c: "construct (V (T div 32)) (of_nat T) x q = Some q'"
      "producer_blocks p q' F V H N" "stream_mem q' V H N (xs @ [x])" "agree_on F q q'" by blast
    from fin [OF c(2,3) lt(3)] obtain U' where U': "producer_inv (p\<lparr>tailIndex := 1 + of_nat T\<rparr>) q' F (xs @ [x]) U'"
      using t'(2) [OF False] lt(2) by auto
    have "enqueue mem m x (p, q) = Some (True, p\<lparr>tailIndex := 1 + of_nat T\<rparr>, q')"
      using False al t' c(1) lt(2) by (simp add: enqueue_def Let_def)
    with U' c(4) show ?thesis by auto
  next
    case True
    then have T32: "T = 32 * N" "T div 32 = N" "Suc N = (Suc T + 31) div 32" using N by (auto simp: T_def elim!: dvdE)
    then have le: "H \<le> 32 * N" "H + length xs \<le> 32 * N" by (auto simp: T_def)
    have nl: "\<not> circular_less_than (of_nat T) (headIndex p)" using room_for_block(1) [OF ph] le(1) T32(1) by auto
    note full = room_for_block(2) [OF ph, folded T32(1)]
    show ?thesis
    proof (cases "sub_queue_full (headIndex p) (of_nat T)")
      case True2: True
      then have "enqueue mem m x (p, q) = Some (False, p, q)" using True al nl t'(1) by (simp add: enqueue_def Let_def)
      with assms show ?thesis by auto
    next
      case False
      then have room: "32 * Suc N < H + 2 ^ 63" using full by simp
      from insert_block_index_entry_step [OF pb room, of mem m] obtain r p1 n where
        ins: "insert_block_index_entry mem m (of_nat T) (p, q) = Some (r, p1, q\<lparr>allocations := n\<rparr>)" "same_stream p p1"
          "case r of None \<Rightarrow> producer_blocks p1 (q\<lparr>allocations := n\<rparr>) F V H N | Some e \<Rightarrow> entry_inserted p1 (q\<lparr>allocations := n\<rparr>) F V H N e"
        unfolding T32(1) by blast
      have q1: "stream_mem (q\<lparr>allocations := n\<rparr>) V H N xs" using mem by (simp add: stream_mem_def)
      have same: "producer_inv p' q' F xs (V ` {H div 32..<N})" if "producer_blocks p' q' F V H N" "same_stream p p'" "blocks q' = blocks q" "agree_on {} q q'" for p' q'
        using that mem t N unfolding producer_inv_def stream_mem_def same_stream_def
        by (intro exI [of _ V] exI [of _ H] exI [of _ N]) simp
      show ?thesis
      proof (cases r)
        case None
        then have "enqueue mem m x (p, q) = Some (False, p1, q\<lparr>allocations := n\<rparr>)"
          using True al nl t'(1) False ins(1) by (simp add: enqueue_def Let_def)
        moreover have "producer_inv p1 (q\<lparr>allocations := n\<rparr>) F xs (V ` {H div 32..<N})" 
          using same [of p1 "q\<lparr>allocations := n\<rparr>"] ins(2,3) None by (simp add: agree_on_def)
        ultimately show ?thesis using ins(2) by (auto simp: agree_on_def same_stream_def)
      next
        case (Some e)
        with ins(3) have ei: "entry_inserted p1 (q\<lparr>allocations := n\<rparr>) F V H N e" by simp
        from requisition_step [OF ei q1 le(2), of mem m] obtain nb q2 where rq: "requisition_block mem m (q\<lparr>allocations := n\<rparr>) = Some (nb, q2)"
          "if nb = nullptr then entry_inserted p1 q2 F V H N e \<and> blocks q2 = blocks (q\<lparr>allocations := n\<rparr>)
           else fresh_block nb e p1 (q\<lparr>allocations := n\<rparr>) q2 F V H N xs" by blast
        show ?thesis
        proof (cases "nb = nullptr")
          case nb: True
          with rq(2) undo_insertion obtain p2 where u: "rewind_block_index_tail p1 = Some p2"
            "same_stream p1 (store_value e nullptr p2)" "producer_blocks (store_value e nullptr p2) q2 F V H N"
            "blocks q2 = blocks q" by fastforce
          have "enqueue mem m x (p, q) = Some (False, store_value e nullptr p2, q2)"
            using True al nl t'(1) False ins(1) Some rq(1) nb u(1) by (simp add: enqueue_def Let_def)
          moreover have "producer_inv (store_value e nullptr p2) q2 F xs (V ` {H div 32..<N})"
            by (rule same [OF u(3) same_stream_trans [OF ins(2) u(2)] u(4)]) (simp add: agree_on_def)
          ultimately show ?thesis using same_stream_trans [OF ins(2) u(2)] u(4) by (auto simp: agree_on_def same_stream_def)
        next
          case nb: False
          with rq(2) have "fresh_block nb e p1 (q\<lparr>allocations := n\<rparr>) q2 F V H N xs" by simp
          then obtain blk where blk: "blocks q2 nb = Some blk" and
            st: "\<forall>nx q''. q'' = q2\<lparr>blocks := (blocks q2)(nb \<mapsto> (reset_empty implicit_context blk)\<lparr>next_block := nx\<rparr>)\<rparr> \<longrightarrow>
              producer_blocks (store_value e nb p1) q'' F (V(N := nb)) H (Suc N) \<and> stream_mem q'' (V(N := nb)) H (Suc N) xs \<and>
              agree_on (V ` {H div 32..<N} \<union> F) (q\<lparr>allocations := n\<rparr>) q''"
            unfolding fresh_block_def by blast
          let ?q = "q2\<lparr>blocks := (blocks q2)(nb \<mapsto> reset_empty implicit_context blk)\<rparr>"
          let ?p = "(store_value e nb p1)\<lparr>tailBlock := nb\<rparr>"
          have st': "producer_blocks ?p ?q F (V(N := nb)) H (Suc N)" "stream_mem ?q (V(N := nb)) H (Suc N) xs" "agree_on F q ?q"
            using st [rule_format, of ?q "next_block (reset_empty implicit_context blk)"] by (auto simp: agree_on_def)
          have "T < 32 * Suc N" using T32 by simp
          from construct_step [OF st'(1,2) T_def this refl, of x] obtain q' where
            c: "construct nb (of_nat T) x ?q = Some q'" "producer_blocks ?p q' F (V(N := nb)) H (Suc N)"
              "stream_mem q' (V(N := nb)) H (Suc N) (xs @ [x])" "agree_on F ?q q'"
            by (auto simp: T32(2))
          from fin [OF c(2,3) T32(3)] obtain U' where U': "producer_inv (?p\<lparr>tailIndex := 1 + of_nat T\<rparr>) q' F (xs @ [x]) U'"
            by (auto simp: T32(2))
          have "enqueue mem m x (p, q) = Some (True, ?p\<lparr>tailIndex := 1 + of_nat T\<rparr>, q')"
            using True al nl t'(1) False ins(1) Some rq(1) nb blk c(1) by (simp add: enqueue_def Let_def)
          with U' agree_on_trans [OF st'(3) c(4)] ins(2) show ?thesis
            by (auto simp: same_stream_def store_value_def)
        qed
      qed
    qed
  qed
qed


section \<open>Dequeueing\<close>

lemma index_rep_shift:
  assumes rep: "index_rep p k c N {B..<N} V B" and V: "V (B + 2 ^ k) = V B"
  shows "index_rep p k c N {Suc B..<N} V (Suc B)"
proof -
  have e: "entry k p (B + 2 ^ k + c) = entry k p (B + c)" using entry_ring [of k p "B + c"] by (simp add: ac_simps)
  have "snd (bi_entries p ! entry k p (b + c)) = V b" if "Suc B \<le> b \<and> b < Suc B + 2 ^ k" for b
  proof (cases "b = B + 2 ^ k")
    case True
    then show ?thesis using rep V by (simp add: index_rep_def e)
  next
    case False
    then show ?thesis using rep that by (simp add: index_rep_def)
  qed
  then show ?thesis using rep by (auto simp: index_rep_def)
qed

text \<open>The state of a block after its element at the head is taken.\<close>

definition popped :: "nat \<Rightarrow> 'e Block \<Rightarrow> 'e Block" where
  "popped H blk = blk\<lparr>elements := (elements blk)[H mod 32 := None], elementsCompletelyDequeued := elementsCompletelyDequeued blk + 1\<rparr>"

lemma stream_mem_pop:
  assumes mem: "stream_mem q V H N (x # ys)" and blk: "blocks q (V (H div 32)) = Some blk" "H div 32 < N"
    and q': "\<And>b. Suc H div 32 \<le> b \<Longrightarrow> b < N \<Longrightarrow> blocks q' (V' b) = (if b = H div 32 then Some (popped H blk) else blocks q (V b))"
  shows "stream_mem q' V' (Suc H) N ys"
  unfolding stream_mem_def
proof (intro allI impI)
  fix b assume b: "Suc H div 32 \<le> b \<and> b < N"
  then have "H div 32 \<le> b" using div_le_mono [of H "Suc H" 32] by linarith
  with b mem obtain blk' where blk': "blocks q (V b) = Some blk'" "elementsCompletelyDequeued blk' = of_nat (H - 32 * b)"
    "\<And>j. 32 * b \<le> j \<Longrightarrow> j < 32 * b + 32 \<Longrightarrow> H \<le> j \<Longrightarrow> j < H + length (x # ys) \<Longrightarrow> elements blk' ! (j - 32 * b) = Some ((x # ys) ! (j - H))"
    unfolding stream_mem_def by metis
  show "\<exists>blk. blocks q' (V' b) = Some blk \<and> elementsCompletelyDequeued blk = of_nat (Suc H - 32 * b) \<and>
      (\<forall>j. 32 * b \<le> j \<and> j < 32 * b + 32 \<and> Suc H \<le> j \<and> j < Suc H + length ys \<longrightarrow> elements blk ! (j - 32 * b) = Some (ys ! (j - Suc H)))"
  proof (cases "b = H div 32")
    case True
    have "elements (popped H blk) ! (j - 32 * b) = Some (ys ! (j - Suc H))"
      if j: "32 * b \<le> j \<and> j < 32 * b + 32 \<and> Suc H \<le> j \<and> j < Suc H + length ys" for j
    proof -
      have "H mod 32 = H - 32 * b" using True by (simp add: minus_mult_div_eq_mod)
      then have "j - 32 * b \<noteq> H mod 32" using j True by (metis Suc_n_not_le_n diff_diff_left eq_diff_iff div_times_less_eq_dividend mult.commute)
      moreover have "(x # ys) ! (j - H) = ys ! (j - Suc H)" using j by (simp add: Suc_diff_Suc [symmetric])
      ultimately show ?thesis using blk'(3) [of j] j True blk blk'(1) by (simp add: popped_def)
    qed
    moreover have "elementsCompletelyDequeued (popped H blk) = of_nat (Suc H - 32 * b)"
    proof -
      have "Suc H - 32 * b = Suc (H - 32 * b)" using True by (simp add: Suc_diff_le)
      then show ?thesis using True blk blk'(1,2) by (simp add: popped_def)
    qed
    ultimately show ?thesis using q' [of b] b True by auto
  next
    case False
    have "H - 32 * b = 0" "Suc H - 32 * b = 0" using False b \<open>H div 32 \<le> b\<close> by auto
    moreover have "(x # ys) ! (j - H) = ys ! (j - Suc H)" if "Suc H \<le> j" for j using that by (simp add: Suc_diff_Suc [symmetric])
    ultimately show ?thesis using q' [of b] b False blk' by auto
  qed
qed


text \<open>The head moves on inside its block, or to the next block, and then its block is given back.\<close>

lemma producer_head_Suc:
  assumes "producer_head p H N" "headIndex p' = headIndex p + 1" "dequeueOptimisticCount p' = dequeueOptimisticCount p + 1"
    "dequeueOvercommit p' = dequeueOvercommit p"
  shows "producer_head p' (Suc H) N"
  using assms unfolding producer_head_def by (simp add: add_diff_eq [symmetric] algebra_simps)

lemma next_block_start: "Suc H div 32 = (if H mod 32 = 31 then Suc (H div 32) else H div 32)"
proof -
  obtain a r where H: "H = 32 * a + r" "r < 32" "H div 32 = a" "H mod 32 = r"
    by (metis mod_less_divisor mult_div_mod_eq zero_less_numeral)
  show ?thesis unfolding H(3,4) using H(1,2) by (cases "r = 31") (auto intro!: div_nat_eqI)
qed

text \<open>The head moves on to the next block, and its block is given back.\<close>

lemma leave_block:
  assumes rep: "index_rep p k c N {B..<N} V B" "N \<le> B + 2 ^ k" and pool: "pool_part q F V B N" and BN: "B < N"
  shows "\<exists>q'. add_block_to_free_list (V B) q = Some q' \<and> pool_part q' F (V(B := nullptr)) (Suc B) N \<and>
    agree_on (V ` {Suc B..<N} \<union> F) q q' \<and>
    index_rep (store_value (entry k p (B + c)) nullptr p) k c N {Suc B..<N} (V(B := nullptr)) (Suc B)"
proof -
  let ?V = "V(B := nullptr)" and ?p = "store_value (entry k p (B + c)) nullptr p"
  have rng: "{B..<N} = insert B {Suc B..<N}" using BN by auto
  from pool obtain fs where pp: "\<forall>b. V b \<noteq> nullptr \<longleftrightarrow> B \<le> b \<and> b < N" "inj_on V {B..<N}" "V ` {B..<N} \<inter> F = {}"
    "pool_inv q fs (V ` {B..<N} \<union> F)" by (auto simp: pool_part_def)
  have "V B \<notin> V ` {Suc B..<N} \<union> F" using pp(2,3) unfolding rng by (auto simp: inj_on_def)
  moreover have "pool_inv q fs (insert (V B) (V ` {Suc B..<N} \<union> F))" using pp(4) unfolding rng by simp
  ultimately obtain q' fs' where q': "add_block_to_free_list (V B) q = Some q'"
    "agree_on (V ` {Suc B..<N} \<union> F) q q'" "pool_inv q' fs' (V ` {Suc B..<N} \<union> F)"
    using add_block_to_free_list_inv by blast
  have "index_rep ?p k c N {B..<N} ?V B" by (rule store_value_rep [OF rep(1)]) auto
  moreover have "?V (B + 2 ^ k) = ?V B" using spec [OF pp(1), of "B + 2 ^ k"] rep(2) by simp
  ultimately have "index_rep ?p k c N {Suc B..<N} ?V (Suc B)" by (rule index_rep_shift)
  moreover have im: "?V ` {Suc B..<N} = V ` {Suc B..<N}" by auto
  have "inj_on ?V {Suc B..<N}" using pp(2) unfolding rng by (auto simp: inj_on_def)
  moreover have "?V b \<noteq> nullptr \<longleftrightarrow> Suc B \<le> b \<and> b < N" for b using spec [OF pp(1), of b] by auto
  ultimately show ?thesis using q' pp(3) unfolding pool_part_def im rng by blast
qed

text \<open>Looking up the head's block, taking its first element and counting it.\<close>

lemma head_lookup:
  assumes pb: "producer_blocks p q F V H N" and lt: "H div 32 < N"
    and p': "blockIndex p' = blockIndex p" "bi_entries p' = bi_entries p" "nextBlockIndexCapacity p' = nextBlockIndexCapacity p"
  shows "\<exists>k c. get_block_index_entry_for_index (of_nat H) p' = Some (entry k p' (H div 32 + c)) \<and>
    nth_opt (bi_entries p') (entry k p' (H div 32 + c)) = Some (of_nat (32 * (H div 32)), V (H div 32)) \<and>
    index_rep p' k c N {H div 32..<N} V (H div 32) \<and> N \<le> H div 32 + 2 ^ k"
proof -
  let ?B = "H div 32"
  from pb lt obtain k c where k: "index_rep p k c N {?B..<N} V ?B" "N \<le> ?B + 2 ^ k"
    by (auto simp: producer_blocks_def index_ok_def split: if_splits)
  have rep: "index_rep p' k c N {?B..<N} V ?B" by (rule index_rep_frame [OF k(1) p'])
  have "N < ?B + 1 + 2 ^ 58" using pb head_block unfolding producer_blocks_def by blast
  then have near: "?B < N - 1 + 2 ^ 58" "N - 1 < ?B + 2 ^ 58" using lt by linarith+
  have "V ?B \<noteq> nullptr" using producer_block(1) [OF pb _ lt] by simp
  then have "get_block_index_entry_for_index (of_nat H) p' = Some (entry k p' (?B + c))"
    using lt by (intro lookup_entry [OF rep _ _ _ near]) (auto simp: block_base_of_nat)
  moreover have "bi_entries p' ! entry k p' (?B + c) = (of_nat (32 * ?B), V ?B)"
    using rep lt k(2) by (auto simp: index_rep_def prod_eq_iff)
  ultimately show ?thesis using rep k(2) nth_entries [OF rep, of "?B + c"] by auto
qed

lemma block_lookup:
  assumes pb: "producer_blocks p q F V H N" and b: "H div 32 \<le> b" "b < N" and i: "block_base i = of_nat (32 * b)"
  shows "\<exists>e. get_block_index_entry_for_index i p = Some e \<and> nth_opt (bi_entries p) e = Some (of_nat (32 * b), V b)"
proof -
  let ?B = "H div 32"
  from pb b obtain k c where k: "index_rep p k c N {?B..<N} V ?B" "N \<le> ?B + 2 ^ k"
    by (auto simp: producer_blocks_def index_ok_def split: if_splits)
  have "N < ?B + 1 + 2 ^ 58" using pb head_block unfolding producer_blocks_def by blast
  then have near: "b < N - 1 + 2 ^ 58" "N - 1 < b + 2 ^ 58" using b by linarith+
  have "get_block_index_entry_for_index i p = Some (entry k p (b + c))"
    using b producer_block(1) [OF pb b] by (intro lookup_entry [OF k(1) _ _ _ near _ i]) auto
  moreover have "bi_entries p ! entry k p (b + c) = (of_nat (32 * b), V b)"
    using k b by (auto simp: index_rep_def prod_eq_iff)
  ultimately show ?thesis using nth_entries [OF k(1), of "b + c"] by auto
qed

lemma take_head:
  assumes "blocks q a = Some blk" "H mod 32 < length (elements blk)" "elements blk ! (H mod 32) = Some x"
    "elementsCompletelyDequeued blk = of_nat (H mod 32)"
  shows "take_element a (of_nat H) q = Some (x, q\<lparr>blocks := (blocks q)(a \<mapsto> blk\<lparr>elements := (elements blk)[H mod 32 := None]\<rparr>)\<rparr>)"
    and "set_empty implicit_context i (blk\<lparr>elements := (elements blk)[H mod 32 := None]\<rparr>) = Some (H mod 32 = 31, popped H blk)"
proof -
  show "take_element a (of_nat H) q = Some (x, q\<lparr>blocks := (blocks q)(a \<mapsto> blk\<lparr>elements := (elements blk)[H mod 32 := None]\<rparr>)\<rparr>)"
    using assms by (simp add: take_element_def slot_of_nat nth_opt_def)
  have "(of_nat (H mod 32) :: u64) < of_nat BLOCK_SIZE" "(of_nat (H mod 32) :: u64) = of_nat (BLOCK_SIZE - 1) \<longleftrightarrow> H mod 32 = 31"
    by (simp_all add: word_less_nat_alt word_unat_eq_iff unat64_of_nat BLOCK_SIZE_def)
  then show "set_empty implicit_context i (blk\<lparr>elements := (elements blk)[H mod 32 := None]\<rparr>) = Some (H mod 32 = 31, popped H blk)"
    using assms(4) by (simp add: set_empty_def uses_flags_def popped_def Let_def)
qed


lemma dequeue_empty:
  assumes "producer_inv p q F [] U"
  shows "dequeue (p, q) = Some (None, p, q)"
proof -
  from assms obtain V H N where "producer_blocks p q F V H N" "tailIndex p = of_nat H"
    by (auto simp: producer_inv_def)
  then have "\<not> circular_less_than (dequeueOptimisticCount p - dequeueOvercommit p) (tailIndex p)"
    using not_circular_less_than_of_nat [of H H] by (simp add: producer_blocks_def producer_head_def)
  then show ?thesis by (simp add: dequeue_def Let_def)
qed

lemma dequeue_inv:
  assumes "producer_inv p q F (x # ys) U"
  shows "\<exists>p' q' U'. dequeue (p, q) = Some (Some x, p', q') \<and> producer_inv p' q' F ys U' \<and> agree_on F q q' \<and> inactive p' = inactive p"
proof -
  from assms obtain V H N where N: "N = (H + length (x # ys) + 31) div 32" and pb: "producer_blocks p q F V H N"
    and mem: "stream_mem q V H N (x # ys)" and t: "tailIndex p = of_nat (H + length (x # ys))"
      "H div 32 < N \<longrightarrow> tailBlock p = V (N - 1)"
    unfolding producer_inv_def by blast
  let ?B = "H div 32" and ?T = "H + length (x # ys)"
  have ph: "producer_head p H N" using pb by (simp add: producer_blocks_def)
  have TN: "?T \<le> 32 * N" unfolding N by (rule ceil_block)
  then have BN: "?B < N" by simp
  have "?T < H + 2 ^ 63" using TN ph by (simp add: producer_head_def)
  then have less: "circular_less_than (dequeueOptimisticCount p - dequeueOvercommit p) (tailIndex p)"
    using ph t(1) circular_less_than_of_nat [of H ?T] by (simp add: producer_head_def)
  define p2 where "p2 = p\<lparr>dequeueOptimisticCount := dequeueOptimisticCount p + 1, headIndex := headIndex p + 1\<rparr>"
  from head_lookup [OF pb BN, of p2] obtain k c where
    e: "get_block_index_entry_for_index (of_nat H) p2 = Some (entry k p2 (?B + c))"
      "nth_opt (bi_entries p2) (entry k p2 (?B + c)) = Some (of_nat (32 * ?B), V ?B)"
      "index_rep p2 k c N {?B..<N} V ?B" "N \<le> ?B + 2 ^ k"
    by (auto simp: p2_def)
  obtain blk where blk: "blocks q (V ?B) = Some blk" "length (elements blk) = 32"
    using producer_block(3) [OF pb _ BN] by auto
  have H32: "H - 32 * ?B = H mod 32" by (simp add: minus_mult_div_eq_mod)
  have el: "elements blk ! (H mod 32) = Some x" "elementsCompletelyDequeued blk = of_nat (H mod 32)"
  proof -
    from mem BN blk(1) have "elementsCompletelyDequeued blk = of_nat (H - 32 * ?B)"
      and "\<forall>j. 32 * ?B \<le> j \<and> j < 32 * ?B + 32 \<and> H \<le> j \<and> j < H + length (x # ys) \<longrightarrow> elements blk ! (j - 32 * ?B) = Some ((x # ys) ! (j - H))"
      by (auto simp: stream_mem_def)
    from this(1) this(2) [rule_format, of H] show "elements blk ! (H mod 32) = Some x" "elementsCompletelyDequeued blk = of_nat (H mod 32)"
      using H32 by auto
  qed
  let ?q2 = "q\<lparr>blocks := (blocks q)(V ?B \<mapsto> popped H blk)\<rparr>"
  have upd: "producer_blocks p ?q2 F V H N" "agree_on F q ?q2"
    using producer_blocks_update [OF pb _ BN blk(1), of "popped H blk"] by (auto simp: popped_def)
  have hd2: "producer_head p2 (Suc H) N" by (rule producer_head_Suc [OF ph]) (simp_all add: p2_def)
  note step = take_head [OF blk(1) _ el]
  have deq: "dequeue (p, q) =
    (if H mod 32 = 31 then do { q3 \<leftarrow> add_block_to_free_list (V ?B) ?q2; Some (Some x, store_value (entry k p2 (?B + c)) nullptr p2, q3) }
     else Some (Some x, p2, ?q2))"
  proof -
    have "headIndex p = of_nat H" using ph by (simp add: producer_head_def)
    then show ?thesis
      using less e(1,2) step blk(2) unfolding p2_def by (simp add: dequeue_def Let_def)
  qed
  show ?thesis
  proof (cases "H mod 32 = 31")
    case False
    then have B: "Suc H div 32 = ?B" by (simp add: next_block_start)
    have "index_ok p2 N V ?B" using e(3,4) BN by (auto intro: index_okI)
    then have pb2: "producer_blocks p2 ?q2 F V (Suc H) N"
      using upd(1) hd2 unfolding producer_blocks_def B by simp
    have "stream_mem ?q2 V (Suc H) N ys"
      using producer_block_inj [OF pb] by (intro stream_mem_pop [OF mem blk(1) BN]) (auto simp: B dest: producer_block_inj [OF pb])
    from producer_invI [OF pb2 this] have "\<exists>U'. producer_inv p2 ?q2 F ys U'"
      using N t B by (simp add: p2_def)
    with deq False upd(2) show ?thesis by (auto simp: p2_def)
  next
    case True
    then have B: "Suc H div 32 = Suc ?B" by (simp add: next_block_start)
    let ?V = "V(?B := nullptr)" and ?p = "store_value (entry k p2 (?B + c)) nullptr p2"
    have "pool_part ?q2 F V ?B N" using upd(1) by (simp add: producer_blocks_def)
    from leave_block [OF e(3,4) this BN] obtain q3 where q3: "add_block_to_free_list (V ?B) ?q2 = Some q3"
      "pool_part q3 F ?V (Suc ?B) N" "agree_on (V ` {Suc ?B..<N} \<union> F) ?q2 q3" "index_rep ?p k c N {Suc ?B..<N} ?V (Suc ?B)"
      by blast
    have ix: "index_ok ?p N ?V (Suc ?B)" using q3(4) BN e(4) by (auto intro: index_okI)
    have "producer_head ?p (Suc H) N" using hd2 by (simp only: producer_head_same [OF same_stream_store_value])
    with q3(2) ix have pb3: "producer_blocks ?p q3 F ?V (Suc H) N" unfolding producer_blocks_def B by simp
    have mem3: "stream_mem q3 ?V (Suc H) N ys"
    proof (rule stream_mem_pop [OF mem blk(1) BN])
      fix b assume b: "Suc H div 32 \<le> b" "b < N"
      then have ne: "b \<noteq> ?B" "V b \<noteq> V ?B" using B producer_block_inj [OF pb, of b ?B] BN by auto
      have "blocks q3 (V b) = blocks ?q2 (V b)" using q3(3) b B by (auto simp: agree_on_def)
      with ne show "blocks q3 (?V b) = (if b = ?B then Some (popped H blk) else blocks q (V b))" by simp
    qed
    have "\<exists>U'. producer_inv ?p q3 F ys U'"
      using N t B by (intro producer_invI [OF pb3 mem3]) (auto simp: p2_def store_value_def)
    moreover have "agree_on F q q3" using upd(2) q3(3) by (auto simp: agree_on_def)
    ultimately show ?thesis using deq True q3(1) by (auto simp: p2_def store_value_def)
  qed
qed

end
