(* ===== verification/Producer_Bulk.thy ===== *)
theory Producer_Bulk
  imports Producer_Stream
begin

text \<open>
  Enqueueing in bulk: the blocks for all elements are taken first, linked by \<open>next\<close>, and given back when one of
  them cannot be had; then they are filled one after the other.
\<close>

section \<open>Giving back\<close>

definition restrict_blocks :: "nat \<Rightarrow> (nat \<Rightarrow> ptr) \<Rightarrow> nat \<Rightarrow> ptr" where
  "restrict_blocks N V b = (if b < N then V b else nullptr)"

text \<open>Taking the entries of blocks \<open>a\<close> to \<open>M\<close> out of the index; the tail moves back from the last one.\<close>

lemma revert_entries_rep:
  assumes "index_rep p k c (N + (M - a)) {B..<M} V B" "B \<le> N" "N \<le> a" "a \<le> M" "M \<le> B + 2 ^ k" "M < B + 1 + 2 ^ 58"
    "\<forall>b \<in> {a..<M}. V b \<noteq> nullptr" "block_chain (blocks q) x (map V [a..<M])"
  shows "\<exists>p'. revert_entries x (of_nat (32 * a) - 32) (p, q) = Some p' \<and> same_stream p p' \<and>
    index_rep p' k c N {B..<M} (\<lambda>b. if a \<le> b \<and> b < M then nullptr else V b) B"
  using assms
proof (induction "M - a" arbitrary: a p x V)
  case 0
  then have "a = M" "x = nullptr" by auto
  moreover have "(\<lambda>b. if a \<le> b \<and> b < M then nullptr else V b) = V" using \<open>a = M\<close> by auto
  ultimately show ?case using 0 by (auto simp: revert_entries.simps)
next
  case (Suc n)
  then have lt: "a < M" "[a..<M] = a # [Suc a..<M]" by (auto simp: upt_conv_Cons)
  from Suc.prems(8) lt obtain blk where x: "x = V a" "V a \<noteq> nullptr" "blocks q (V a) = Some blk"
    "block_chain (blocks q) (next_block blk) (map V [Suc a..<M])" by auto
  define t where "t = N + (M - Suc a)"
  have t: "N + (M - a) = Suc t" "t < M" "B \<le> t" using lt Suc.prems(2,3) by (auto simp: t_def)
  note rep = Suc.prems(1) [unfolded t(1)]
  have base: "block_base (of_nat (32 * a) - 32 + of_nat BLOCK_SIZE) = of_nat (32 * a)"
    using block_base_of_nat [of "32 * a"] by (simp add: BLOCK_SIZE_def)
  have e: "get_block_index_entry_for_index (of_nat (32 * a) - 32 + of_nat BLOCK_SIZE) p = Some (entry k p (a + c))"
    using lt t Suc.prems(2,3,6) x(2) by (intro lookup_entry [OF rep _ _ _ _ _ _ base]) auto
  have rep1: "index_rep (store_value (entry k p (a + c)) nullptr p) k c (Suc t) {B..<M} (V(a := nullptr)) B"
    using Suc.prems(2,3,5) lt(1) by (intro store_value_rep [OF rep]) auto
  from rewind_rep [OF this] obtain p1 where p1: "rewind_block_index_tail (store_value (entry k p (a + c)) nullptr p) = Some p1"
    "index_rep p1 k c t {B..<M} (V(a := nullptr)) B" "same_stream (store_value (entry k p (a + c)) nullptr p) p1" by blast
  have s: "same_stream p p1" by (rule same_stream_trans [OF same_stream_store_value p1(3)])
  have "map (V(a := nullptr)) [Suc a..<M] = map V [Suc a..<M]" by auto
  moreover have "n = M - Suc a" using Suc.hyps(2) by simp
  ultimately obtain p' where p': "revert_entries (next_block blk) (of_nat (32 * Suc a) - 32) (p1, q) = Some p'" "same_stream p1 p'"
    "index_rep p' k c N {B..<M} (\<lambda>b. if Suc a \<le> b \<and> b < M then nullptr else (V(a := nullptr)) b) B"
    using Suc.hyps(1) [of "Suc a" p1 "V(a := nullptr)" "next_block blk"] p1(2) x(4) Suc.prems(2-7) lt(1)
    by (auto simp: t_def)
  have "revert_entries x (of_nat (32 * a) - 32) (p, q) = Some p'"
    using x e p1(1) p'(1) by (subst revert_entries.simps) (simp add: BLOCK_SIZE_def add.commute)
  moreover have "(\<lambda>b. if Suc a \<le> b \<and> b < M then nullptr else (V(a := nullptr)) b) = (\<lambda>b. if a \<le> b \<and> b < M then nullptr else V b)"
    using lt(1) by (auto simp: fun_eq_iff)
  ultimately show ?case using p'(3) same_stream_trans [OF s p'(2)] by auto
qed


lemma block_base_start: "block_base (of_nat T - 1) = of_nat (32 * ((T + 31) div 32)) - 32"
  by (rule block_base_pred)

text \<open>Reverting: the blocks \<open>N\<close> to \<open>M\<close> go back to the pool, and the stream is as it was.\<close>

lemma stream_mem_restrict:
  "stream_mem q V H M xs \<Longrightarrow> N \<le> M \<Longrightarrow> stream_mem q (restrict_blocks N V) H N xs"
  by (simp add: stream_mem_def restrict_blocks_def)

lemma revert_allocations_None:
  assumes pb: "producer_blocks p q F V H M" and mem: "stream_mem q V H M xs" and N: "H div 32 \<le> N" "N \<le> M" "N = (T + 31) div 32"
    and chain: "block_chain (blocks q) x (map V [N..<M])"
  shows "\<exists>p' q'. revert_allocations None (of_nat T) sb x (p, q) = Some (p', q') \<and> same_stream (p\<lparr>tailBlock := sb\<rparr>) p' \<and>
    producer_blocks p' q' F (restrict_blocks N V) H N \<and> stream_mem q' (restrict_blocks N V) H N xs \<and> agree_on F q q'"
proof (cases "N = M")
  case True
  then have "x = nullptr" using chain by simp
  then have "revert_allocations None (of_nat T) sb x (p, q) = Some (p\<lparr>tailBlock := sb\<rparr>, q)"
    by (simp add: revert_allocations_def revert_entries.simps add_blocks_to_free_list.simps)
  moreover have "\<forall>b. V b \<noteq> nullptr \<longleftrightarrow> H div 32 \<le> b \<and> b < M" using pb unfolding producer_blocks_def pool_part_def by blast
  then have "restrict_blocks N V = V" unfolding restrict_blocks_def fun_eq_iff True by metis
  ultimately show ?thesis using pb mem True by auto
next
  case False
  then have lt: "N < M" using N by simp
  let ?B = "H div 32" and ?V = "restrict_blocks N V"
  from pb lt N(1) obtain k c fs where k: "index_rep p k c M {?B..<M} V ?B" "M \<le> ?B + 2 ^ k"
    and pp: "\<forall>b. V b \<noteq> nullptr \<longleftrightarrow> ?B \<le> b \<and> b < M" "inj_on V {?B..<M}" "V ` {?B..<M} \<inter> F = {}" "pool_inv q fs (V ` {?B..<M} \<union> F)"
    and ph: "producer_head p H M"
    unfolding producer_blocks_def index_ok_def pool_part_def by (auto split: if_splits)
  have near: "M < ?B + 1 + 2 ^ 58" using ph by (rule head_block)
  have Vz: "V b = nullptr \<longleftrightarrow> \<not> (?B \<le> b \<and> b < M)" for b using spec [OF pp(1), of b] by blast
  then have nz: "\<forall>b \<in> {N..<M}. V b \<noteq> nullptr" using N(1) by auto
  have "index_rep p k c (N + (M - N)) {?B..<M} V ?B" using k(1) lt by simp
  from revert_entries_rep [OF this N(1) le_refl N(2) k(2) near nz chain] obtain p1 where
    p1: "revert_entries x (of_nat (32 * N) - 32) (p, q) = Some p1" "same_stream p p1"
      "index_rep p1 k c N {?B..<M} (\<lambda>b. if N \<le> b \<and> b < M then nullptr else V b) ?B" by blast
  have V: "(\<lambda>b. if N \<le> b \<and> b < M then nullptr else V b) = ?V"
    using Vz N(1) by (auto simp: restrict_blocks_def fun_eq_iff)
  have ix: "index_ok (p1\<lparr>tailBlock := sb\<rparr>) N ?V ?B"
    using p1(3) N k(2) unfolding V by (intro index_okI [OF index_rep_frame [OF index_rep_weaken]]) auto
  have rng: "{?B..<M} = {N..<M} \<union> {?B..<N}" using N by auto
  have split: "V ` {?B..<M} \<union> F = set (map V [N..<M]) \<union> (V ` {?B..<N} \<union> F)"
    unfolding rng by (simp add: image_Un Un_assoc)
  have "V ` {N..<M} \<inter> V ` {?B..<N} = V ` ({N..<M} \<inter> {?B..<N})"
    using pp(2) unfolding rng by (intro inj_on_image_Int [symmetric]) auto
  moreover have "V ` {N..<M} \<inter> F = {}" using pp(3) unfolding rng by (simp add: image_Un Int_Un_distrib2)
  ultimately have dj: "set (map V [N..<M]) \<inter> (V ` {?B..<N} \<union> F) = {}" by (simp add: Int_Un_distrib)
  have "distinct (map V [N..<M])" using pp(2) N by (auto simp: distinct_map intro: inj_on_subset)
  from add_blocks_to_free_list_inv [OF pp(4) [unfolded split] this dj chain] obtain q' fs' where
    q': "add_blocks_to_free_list x q = Some q'" "agree_on (V ` {?B..<N} \<union> F) q q'" "pool_inv q' fs' (V ` {?B..<N} \<union> F)" by blast
  have im: "?V ` {?B..<N} = V ` {?B..<N}" by (auto simp: restrict_blocks_def)
  have "inj_on ?V {?B..<N}" using pp(2) N(2) by (auto simp: restrict_blocks_def inj_on_def)
  moreover have "?V b \<noteq> nullptr \<longleftrightarrow> ?B \<le> b \<and> b < N" for b using Vz [of b] N(2) by (auto simp: restrict_blocks_def)
  moreover have "V ` {?B..<N} \<inter> F = {}" using pp(3) N(2) by fastforce
  ultimately have "pool_part q' F ?V ?B N" using q'(3) unfolding pool_part_def im by blast
  moreover have "producer_head (p1\<lparr>tailBlock := sb\<rparr>) H N"
    using ph p1(2) lt by (auto simp: producer_head_def same_stream_def)
  moreover have "stream_mem q' ?V H N xs"
    by (rule stream_mem_frame [OF stream_mem_restrict [OF mem N(2)]]) (use q'(2) in \<open>auto simp: agree_on_def restrict_blocks_def\<close>)
  moreover have "revert_allocations None (of_nat T) sb x (p, q) = Some (p1\<lparr>tailBlock := sb\<rparr>, q')"
    using p1(1) q'(1) by (simp add: revert_allocations_def block_base_start N(3) [symmetric])
  moreover have "same_stream (p\<lparr>tailBlock := sb\<rparr>) (p1\<lparr>tailBlock := sb\<rparr>)" "agree_on F q q'"
    using p1(2) q'(2) by (auto simp: same_stream_def agree_on_def)
  ultimately show ?thesis using ix by (auto simp: producer_blocks_def)
qed


section \<open>Taking the blocks\<close>

lemma block_chain_hd: "block_chain B p xs \<Longrightarrow> p = (if xs = [] then nullptr else hd xs)"
  by (cases xs) auto

lemma block_chain_snoc:
  assumes "block_chain B p xs" "distinct xs" "nb \<notin> set xs" "nb \<noteq> nullptr" "B' nb = Some bn" "next_block bn = nullptr"
    "\<forall>x \<in> set xs. x \<noteq> last xs \<longrightarrow> map_option next_block (B' x) = map_option next_block (B x)"
    "xs \<noteq> [] \<Longrightarrow> map_option next_block (B' (last xs)) = Some nb"
  shows "block_chain B' (if p = nullptr then nb else p) (xs @ [nb])"
  using assms
proof (induction xs arbitrary: p)
  case (Cons x ys)
  then obtain b where x: "p = x" "x \<noteq> nullptr" "B x = Some b" "block_chain B (next_block b) ys" by auto
  show ?case
  proof (cases "ys = []")
    case True
    with Cons.prems(8) obtain b' where "B' x = Some b'" "next_block b' = nb" by auto
    with x True Cons.prems(4-6) show ?thesis by auto
  next
    case False
    then have "next_block b = hd ys" "next_block b \<noteq> nullptr" using x(4) by (cases ys; auto)+
    moreover have "x \<noteq> last (x # ys)" using Cons.prems(2) False by auto
    then obtain b' where "B' x = Some b'" "next_block b' = next_block b" using Cons.prems(7) x(3) by (auto simp: map_option_case split: option.splits)
    moreover have "block_chain B' (if next_block b = nullptr then nb else next_block b) (ys @ [nb])"
      using Cons.prems False by (intro Cons.IH [OF x(4)]) auto
    ultimately show ?thesis using x by auto
  qed
qed auto

definition allocating ::
  "ImplicitProducer \<Rightarrow> ('e, 'z) block_pool_scheme \<Rightarrow> ptr set \<Rightarrow> (nat \<Rightarrow> ptr) \<Rightarrow> nat \<Rightarrow> nat \<Rightarrow> 'e list \<Rightarrow> nat \<Rightarrow> nat \<Rightarrow> ptr \<Rightarrow> ptr \<Rightarrow> bool" where
  "allocating p q F V H M xs T N sb first \<longleftrightarrow>
     producer_blocks p q F V H M \<and> stream_mem q V H M xs \<and> T = H + length xs \<and> N = (T + 31) div 32 \<and> N \<le> M \<and>
     block_chain (blocks q) first (map V [N..<M]) \<and> tailBlock p = (if M = N then sb else V (M - 1)) \<and>
     (H div 32 < N \<longrightarrow> sb = V (N - 1)) \<and>
     (T mod 32 \<noteq> 0 \<and> N < M \<longrightarrow> map_option next_block (blocks q sb) = Some (V N))"

lemma allocating_start:
  assumes "allocating p q F V H M xs T N sb first"
  shows "H div 32 < N \<longrightarrow> sb = V (N - 1)"
    and "T mod 32 \<noteq> 0 \<longrightarrow> sb = V (N - 1) \<and> (N < M \<longrightarrow> map_option next_block (blocks q sb) = Some (V N))"
proof -
  show start: "H div 32 < N \<longrightarrow> sb = V (N - 1)" using assms unfolding allocating_def by blast
  have "T = H + length xs" "N = (T + 31) div 32" using assms unfolding allocating_def by blast+
  then have "H div 32 < N" if "T mod 32 \<noteq> 0" using started_block [of H xs] that by simp
  then show "T mod 32 \<noteq> 0 \<longrightarrow> sb = V (N - 1) \<and> (N < M \<longrightarrow> map_option next_block (blocks q sb) = Some (V N))"
    using start assms unfolding allocating_def by blast
qed

lemma link_step:
  assumes pb: "producer_blocks p q F V H M" and mem: "stream_mem q V H M xs" and b: "H div 32 \<le> b" "b < M"
  shows "\<exists>blk. blocks q (V b) = Some blk \<and>
    (\<forall>q'. q' = q\<lparr>blocks := (blocks q)(V b \<mapsto> blk\<lparr>next_block := nx\<rparr>)\<rparr> \<longrightarrow>
       producer_blocks p q' F V H M \<and> stream_mem q' V H M xs \<and> agree_on F q q')"
proof -
  obtain blk where blk: "blocks q (V b) = Some blk" using producer_block(3) [OF pb b] by blast
  let ?q = "q\<lparr>blocks := (blocks q)(V b \<mapsto> blk\<lparr>next_block := nx\<rparr>)\<rparr>"
  have "stream_mem ?q V H M xs"
    unfolding stream_mem_def
  proof (intro allI impI)
    fix b' assume b': "H div 32 \<le> b' \<and> b' < M"
    then obtain blk' where "blocks q (V b') = Some blk'" "elementsCompletelyDequeued blk' = of_nat (H - 32 * b')"
      "\<forall>j. 32 * b' \<le> j \<and> j < 32 * b' + 32 \<and> H \<le> j \<and> j < H + length xs \<longrightarrow> elements blk' ! (j - 32 * b') = Some (xs ! (j - H))"
      using mem unfolding stream_mem_def by blast
    then show "\<exists>blk. blocks ?q (V b') = Some blk \<and> elementsCompletelyDequeued blk = of_nat (H - 32 * b') \<and>
      (\<forall>j. 32 * b' \<le> j \<and> j < 32 * b' + 32 \<and> H \<le> j \<and> j < H + length xs \<longrightarrow> elements blk ! (j - 32 * b') = Some (xs ! (j - H)))"
      using blk by (cases "V b' = V b") auto
  qed
  with producer_blocks_update [OF pb b blk, of "blk\<lparr>next_block := nx\<rparr>"] blk show ?thesis by auto
qed

lemma revert_allocations_Some:
  "rewind_block_index_tail p = Some p' \<Longrightarrow>
   revert_allocations (Some e) st sb x (p, q) = revert_allocations None st sb x (store_value e nullptr p', q)"
  by (simp add: revert_allocations_def)


text \<open>One block more in the chain.\<close>

lemma allocating_step:
  assumes al: "allocating p q F V H M xs T N sb first" and s: "same_stream p p1" and q1: "blocks q1 = blocks q"
    and nb: "nb \<noteq> nullptr" and fresh: "fresh_block nb e p1 q1 q2 F V H M xs"
  shows "\<exists>q3 q4. update_block nb (\<lambda>b. (reset_empty implicit_context b)\<lparr>next_block := nullptr\<rparr>) q2 = Some q3 \<and>
    (if T mod 32 \<noteq> 0 \<or> first \<noteq> nullptr then update_block (tailBlock p) (\<lambda>b. b\<lparr>next_block := nb\<rparr>) q3 else Some q3) = Some q4 \<and>
    allocating ((store_value e nb p1)\<lparr>tailBlock := nb\<rparr>) q4 F (V(M := nb)) H (Suc M) xs T N sb (if first = nullptr then nb else first) \<and>
    agree_on F q q4"
proof -
  let ?B = "H div 32" and ?V = "V(M := nb)" and ?p = "store_value e nb p1"
  have T: "T = H + length xs" "N = (T + 31) div 32" "N \<le> M" and pb: "producer_blocks p q F V H M"
    and chain: "block_chain (blocks q) first (map V [N..<M])" and tail: "tailBlock p = (if M = N then sb else V (M - 1))"
    using al unfolding allocating_def by blast+
  note start0 = allocating_start(1) [OF al] and start = allocating_start(2) [OF al]
  have HN: "?B \<le> N" unfolding T(1,2) by (intro div_le_mono) simp
  have N1: "T mod 32 \<noteq> 0 \<Longrightarrow> N = Suc (N - 1) \<and> ?B \<le> N - 1"
    using ceil_block(1) [of T] unfolding T(2) by (simp add: T(1) div_le_mono)
  from fresh obtain blk where blk: "blocks q2 nb = Some blk" and
    fr: "\<forall>nx q''. q'' = q2\<lparr>blocks := (blocks q2)(nb \<mapsto> (reset_empty implicit_context blk)\<lparr>next_block := nx\<rparr>)\<rparr> \<longrightarrow>
      producer_blocks ?p q'' F ?V H (Suc M) \<and> stream_mem q'' ?V H (Suc M) xs \<and> agree_on (V ` {?B..<M} \<union> F) q1 q''"
    unfolding fresh_block_def by blast
  let ?q3 = "q2\<lparr>blocks := (blocks q2)(nb \<mapsto> (reset_empty implicit_context blk)\<lparr>next_block := nullptr\<rparr>)\<rparr>"
  have q3: "producer_blocks ?p ?q3 F ?V H (Suc M)" "stream_mem ?q3 ?V H (Suc M) xs" "agree_on (V ` {?B..<M} \<union> F) q1 ?q3"
    using fr by blast+
  have old: "blocks ?q3 (V b) = blocks q (V b)" if "?B \<le> b" "b < M" for b using q3(3) that by (auto simp: agree_on_def q1)
  have ne: "V b \<noteq> nb" if "?B \<le> b" "b < M" for b
    using producer_block_inj [OF q3(1), of b M] that by auto
  have inj: "V b = V b' \<Longrightarrow> b = b'" if "?B \<le> b" "b < M" "?B \<le> b'" "b' < M" for b b'
    using producer_block_inj [OF pb, of b b'] that by auto
  have up: "update_block nb (\<lambda>b. (reset_empty implicit_context b)\<lparr>next_block := nullptr\<rparr>) q2 = Some ?q3" using blk by simp
  have F3: "agree_on F q ?q3" using q3(3) q1 by (auto simp: agree_on_def)
  have V': "map ?V [N..<Suc M] = map V [N..<M] @ [nb]" using T(3) by auto
  have ge: "?B \<le> b" if "N \<le> b" for b using HN that by (rule order.trans)
  have dist: "distinct (map V [N..<M])" using inj ge by (simp add: distinct_map inj_on_def)
  have nin: "nb \<notin> set (map V [N..<M])"
  proof
    assume "nb \<in> set (map V [N..<M])"
    then obtain b where "nb = V b" "N \<le> b" "b < M" by auto
    with ne [of b] ge [of b] show False by simp
  qed
  have first: "first = nullptr \<longleftrightarrow> N = M"
  proof (cases "N = M")
    case False
    then have "N < M" using T(3) by simp
    then have "first = V N" using block_chain_hd [OF chain] by (simp add: upt_conv_Cons)
    then show ?thesis using producer_block(1) [OF pb HN \<open>N < M\<close>] False by simp
  qed (use chain in simp)
  show ?thesis
  proof (cases "T mod 32 \<noteq> 0 \<or> first \<noteq> nullptr")
    case False
    then have "N = M" "first = nullptr" "T mod 32 = 0" using first by auto
    then have "allocating (?p\<lparr>tailBlock := nb\<rparr>) ?q3 F ?V H (Suc M) xs T N sb nb"
      using q3(1,2) T nb start0 unfolding allocating_def V' by auto
    with up F3 False show ?thesis by auto
  next
    case True
    then have M1: "M = Suc (M - 1)" "?B \<le> M - 1" "tailBlock p = V (M - 1)"
      using first T(3) HN N1 tail start by (auto split: if_splits)
    have "M - 1 < Suc M" "?V (M - 1) = V (M - 1)" using M1(1) by auto
    from link_step [OF q3(1,2) M1(2) this(1), of nb] this(2) obtain bl where bl: "blocks ?q3 (V (M - 1)) = Some bl" and
      lk: "\<forall>q'. q' = ?q3\<lparr>blocks := (blocks ?q3)(V (M - 1) \<mapsto> bl\<lparr>next_block := nb\<rparr>)\<rparr> \<longrightarrow>
         producer_blocks ?p q' F ?V H (Suc M) \<and> stream_mem q' ?V H (Suc M) xs \<and> agree_on F ?q3 q'" by metis
    define q4 where "q4 = ?q3\<lparr>blocks := (blocks ?q3)(V (M - 1) \<mapsto> bl\<lparr>next_block := nb\<rparr>)\<rparr>"
    have q4: "producer_blocks ?p q4 F ?V H (Suc M)" "stream_mem q4 ?V H (Suc M) xs" "agree_on F ?q3 q4"
      using lk q4_def by blast+
    have up4: "update_block (tailBlock p) (\<lambda>b. b\<lparr>next_block := nb\<rparr>) ?q3 = Some q4" unfolding M1(3) q4_def by (rule update_block_Some [OF bl])
    have b4: "blocks q4 a = (if a = V (M - 1) then Some (bl\<lparr>next_block := nb\<rparr>) else blocks ?q3 a)" for a by (simp add: q4_def)
    have "V (M - 1) \<noteq> nb" using ne [of "M - 1"] M1 by simp
    then have nb4: "blocks q4 nb = Some ((reset_empty implicit_context blk)\<lparr>next_block := nullptr\<rparr>)" by (simp add: b4)
    have old4: "map_option next_block (blocks q4 (V b)) = (if b = M - 1 then Some nb else map_option next_block (blocks q (V b)))"
      if "?B \<le> b" "b < M" for b
      using inj [OF that, of "M - 1"] M1 old [OF that] by (auto simp: b4)
    have "block_chain (blocks q4) (if first = nullptr then nb else first) (map V [N..<M] @ [nb])"
    proof (rule block_chain_snoc [where B' = "blocks q4", OF chain dist nin nb nb4])
      show "\<forall>x \<in> set (map V [N..<M]). x \<noteq> last (map V [N..<M]) \<longrightarrow> map_option next_block (blocks q4 x) = map_option next_block (blocks q x)"
      proof (intro ballI impI)
        fix x assume x: "x \<in> set (map V [N..<M])" "x \<noteq> last (map V [N..<M])"
        then obtain b where "x = V b" "N \<le> b" "b < M" by auto
        moreover with x have "b \<noteq> M - 1" by (auto simp: last_map)
        ultimately show "map_option next_block (blocks q4 x) = map_option next_block (blocks q x)" using old4 [of b] HN by simp
      qed
      show "map_option next_block (blocks q4 (last (map V [N..<M]))) = Some nb" if "map V [N..<M] \<noteq> []"
        using that old4 [of "M - 1"] M1 by (simp add: last_map)
    qed simp
    moreover have "map_option next_block (blocks q4 sb) = Some (?V N)" if "T mod 32 \<noteq> 0"
      using that start N1 old4 [of "N - 1"] T(3) M1(1) by (cases "N = M") auto
    moreover have "sb = ?V (N - 1)" if "?B < N"
      using that start0 T(3) by (cases "N - 1 = M") auto
    ultimately have "allocating (?p\<lparr>tailBlock := nb\<rparr>) q4 F ?V H (Suc M) xs T N sb (if first = nullptr then nb else first)"
      using q4(1,2) T(1,2) T(3) unfolding allocating_def V' by (intro conjI impI) simp_all
    with up up4 True agree_on_trans [OF F3 q4(3)] show ?thesis by auto
  qed
qed


text \<open>How the loop ends: with all blocks taken, or with everything given back.\<close>

definition allocated_or_reverted ::
  "(ptr \<times> ptr) option \<Rightarrow> ImplicitProducer \<Rightarrow> ('e, 'z) block_pool_scheme \<Rightarrow> ptr set \<Rightarrow> nat \<Rightarrow> nat \<Rightarrow> 'e list \<Rightarrow> nat \<Rightarrow> nat \<Rightarrow> ptr \<Rightarrow> bool" where
  "allocated_or_reverted r p q F H M xs T N sb \<longleftrightarrow>
     (case r of
        None \<Rightarrow> \<exists>V. producer_blocks p q F V H N \<and> stream_mem q V H N xs \<and> tailBlock p = sb \<and> (H div 32 < N \<longrightarrow> sb = V (N - 1))
      | Some (first, endBlock) \<Rightarrow> \<exists>V. allocating p q F V H M xs T N sb first \<and> endBlock = V (M - 1))"

lemma allocating_revert:
  assumes al: "allocating p q F V H M xs T N sb first"
    and p1: "producer_blocks p1 q1 F V H M" "same_stream p p1" "blocks q1 = blocks q"
  shows "\<exists>p2 q2. revert_allocations None (of_nat T) sb first (p1, q1) = Some (p2, q2) \<and>
    allocated_or_reverted None p2 q2 F H M' xs T N sb \<and> agree_on F q q2 \<and> inactive p2 = inactive p \<and> tailIndex p2 = tailIndex p"
proof -
  from al have T: "N = (T + 31) div 32" "N \<le> M" "T = H + length xs" and mem: "stream_mem q V H M xs"
    and chain: "block_chain (blocks q1) first (map V [N..<M])" and start: "H div 32 < N \<longrightarrow> sb = V (N - 1)"
    unfolding allocating_def p1(3) by blast+
  have mem1: "stream_mem q1 V H M xs" using mem by (simp add: stream_mem_def p1(3))
  have HN: "H div 32 \<le> N" unfolding T(1,3) by (intro div_le_mono) simp
  from revert_allocations_None [OF p1(1) mem1 HN T(2,1) chain, of sb] obtain p2 q2 where
    r: "revert_allocations None (of_nat T) sb first (p1, q1) = Some (p2, q2)" "same_stream (p1\<lparr>tailBlock := sb\<rparr>) p2"
      "producer_blocks p2 q2 F (restrict_blocks N V) H N" "stream_mem q2 (restrict_blocks N V) H N xs" "agree_on F q1 q2" by blast
  have "sb = restrict_blocks N V (N - 1)" if "H div 32 < N"
    using that start by (simp add: restrict_blocks_def)
  with r p1(2,3) show ?thesis
    by (intro exI [of _ p2] exI [of _ q2]) (auto simp: allocated_or_reverted_def same_stream_def agree_on_def)
qed

text \<open>One iteration.\<close>

definition loop_result ::
  "(nat \<Rightarrow> ptr) \<Rightarrow> AllocationMode \<Rightarrow> ImplicitProducer \<Rightarrow> ('e, 'z) block_pool_scheme \<Rightarrow> ptr set \<Rightarrow> nat \<Rightarrow> nat \<Rightarrow> 'e list \<Rightarrow> nat \<Rightarrow> nat \<Rightarrow>
     ptr \<Rightarrow> ptr \<Rightarrow> ImplicitProducer \<Rightarrow> ('e, 'z) block_pool_scheme \<Rightarrow> bool" where
  "loop_result mem m p q F H M xs T N sb first p' q' \<longleftrightarrow>
     agree_on F q q' \<and> inactive p' = inactive p \<and> tailIndex p' = tailIndex p \<and>
     ((\<exists>V' first'. allocating p' q' F V' H (Suc M) xs T N sb first' \<and>
         (\<forall>bbd. allocate_blocks mem m (of_nat T) sb bbd (of_nat (32 * M) - 32) first (p, q) =
            (if bbd - 32 > 0 then allocate_blocks mem m (of_nat T) sb (bbd - 32) (of_nat (32 * Suc M) - 32) first' (p', q')
             else Some (Some (first', V' M), p', q')))) \<or>
      allocated_or_reverted None p' q' F H M xs T N sb \<and>
        (\<forall>bbd. allocate_blocks mem m (of_nat T) sb bbd (of_nat (32 * M) - 32) first (p, q) = Some (None, p', q')))"

lemma allocate_iteration:
  assumes al: "allocating p q F V H M xs T N sb first"
  shows "\<exists>p' q'. loop_result mem m p q F H M xs T N sb first p' q'"
proof -
  from al have T: "N = (T + 31) div 32" "N \<le> M" "T = H + length xs" and pb: "producer_blocks p q F V H M" and mem: "stream_mem q V H M xs"
    unfolding allocating_def by blast+
  have ph: "producer_head p H M" "H div 32 \<le> M" using pb by (auto simp: producer_blocks_def index_ok_def)
  have "T \<le> 32 * N" unfolding T(1) by (rule ceil_block)
  then have le: "H + length xs \<le> 32 * M" "H \<le> 32 * M" using T by linarith+
  have cti: "of_nat (32 * M) - 32 + of_nat BLOCK_SIZE = (of_nat (32 * M) :: u64)" by (simp add: BLOCK_SIZE_def)
  have bs: "bbd - of_nat BLOCK_SIZE = (bbd - 32 :: u64)" for bbd by (simp add: BLOCK_SIZE_def)
  have suc: "of_nat (32 * Suc M) - 32 = (of_nat (32 * M) :: u64)" by simp
  have nl: "\<not> circular_less_than (of_nat (32 * M)) (headIndex p)" using room_for_block(1) [OF ph] le(2) by auto
  have odd: "(of_nat T :: u64) AND of_nat (BLOCK_SIZE - 1) \<noteq> 0 \<longleftrightarrow> T mod 32 \<noteq> 0" using aligned_of_nat [of T] by simp
  note full = room_for_block(2) [OF ph]
  have reverted: "\<exists>p' q'. loop_result mem m p q F H M xs T N sb first p' q'"
    if p1: "producer_blocks p1 q1 F V H M" "same_stream p p1" "blocks q1 = blocks q" and
      eq: "\<And>bbd. allocate_blocks mem m (of_nat T) sb bbd (of_nat (32 * M) - 32) first (p, q) =
        do { (p2, q2) \<leftarrow> revert_allocations None (of_nat T) sb first (p1, q1); Some (None, p2, q2) }" for p1 q1
    using allocating_revert [OF al p1, of M] eq unfolding loop_result_def by (elim exE conjE) auto
  show ?thesis
  proof (cases "sub_queue_full (headIndex p) (of_nat (32 * M))")
    case True
    show ?thesis
    proof (rule reverted [OF pb])
      show "allocate_blocks mem m (of_nat T) sb bbd (of_nat (32 * M) - 32) first (p, q) =
        do { (p2, q2) \<leftarrow> revert_allocations None (of_nat T) sb first (p, q); Some (None, p2, q2) }" for bbd
        using True nl by (subst allocate_blocks.simps) (simp only: cti Let_def split_conv if_True if_False simp_thms)
    qed simp_all
  next
    case False
    then have room: "32 * Suc M < H + 2 ^ 63" using full by simp
    from insert_block_index_entry_step [OF pb room, of mem m] obtain r p1 n where
      ins: "insert_block_index_entry mem m (of_nat (32 * M)) (p, q) = Some (r, p1, q\<lparr>allocations := n\<rparr>)" "same_stream p p1"
        "case r of None \<Rightarrow> producer_blocks p1 (q\<lparr>allocations := n\<rparr>) F V H M | Some e \<Rightarrow> entry_inserted p1 (q\<lparr>allocations := n\<rparr>) F V H M e"
      by blast
    let ?q1 = "q\<lparr>allocations := n\<rparr>"
    show ?thesis
    proof (cases r)
      case None
      show ?thesis
      proof (rule reverted [OF _ ins(2), of ?q1])
        show "allocate_blocks mem m (of_nat T) sb bbd (of_nat (32 * M) - 32) first (p, q) =
          do { (p2, q2) \<leftarrow> revert_allocations None (of_nat T) sb first (p1, ?q1); Some (None, p2, q2) }" for bbd
          using False nl ins(1) None by (subst allocate_blocks.simps) (simp add: cti Let_def del: of_nat_mult)
      qed (use ins(3) None in simp_all)
    next
      case (Some e)
      with ins(3) have ei: "entry_inserted p1 ?q1 F V H M e" by simp
      have "stream_mem ?q1 V H M xs" using mem by (simp add: stream_mem_def)
      from requisition_step [OF ei this le(1), of mem m] obtain nb q2 where rq: "requisition_block mem m ?q1 = Some (nb, q2)"
        "if nb = nullptr then entry_inserted p1 q2 F V H M e \<and> blocks q2 = blocks ?q1 else fresh_block nb e p1 ?q1 q2 F V H M xs"
        by blast
      show ?thesis
      proof (cases "nb = nullptr")
        case nb: True
        with rq(2) undo_insertion obtain p2 where u: "rewind_block_index_tail p1 = Some p2"
          "same_stream p1 (store_value e nullptr p2)" "producer_blocks (store_value e nullptr p2) q2 F V H M" "blocks q2 = blocks q"
          by fastforce
        show ?thesis
        proof (rule reverted [OF u(3) same_stream_trans [OF ins(2) u(2)] u(4)])
          show "allocate_blocks mem m (of_nat T) sb bbd (of_nat (32 * M) - 32) first (p, q) =
            do { (p3, q3) \<leftarrow> revert_allocations None (of_nat T) sb first (store_value e nullptr p2, q2); Some (None, p3, q3) }" for bbd
            using False nl ins(1) Some rq(1) nb
            by (subst allocate_blocks.simps) (simp add: cti Let_def revert_allocations_Some [OF u(1)] del: of_nat_mult)
        qed
      next
        case nb: False
        with rq(2) have "fresh_block nb e p1 ?q1 q2 F V H M xs" by simp
        from allocating_step [OF al ins(2) _ nb this] obtain q3 q4 where st:
          "update_block nb (\<lambda>b. (reset_empty implicit_context b)\<lparr>next_block := nullptr\<rparr>) q2 = Some q3"
          "(if T mod 32 \<noteq> 0 \<or> first \<noteq> nullptr then update_block (tailBlock p) (\<lambda>b. b\<lparr>next_block := nb\<rparr>) q3 else Some q3) = Some q4"
          "allocating ((store_value e nb p1)\<lparr>tailBlock := nb\<rparr>) q4 F (V(M := nb)) H (Suc M) xs T N sb (if first = nullptr then nb else first)"
          "agree_on F q q4" by auto
        have tb: "tailBlock (store_value e nb p1) = tailBlock p" using ins(2) by (simp add: same_stream_def store_value_def)
        let ?p = "(store_value e nb p1)\<lparr>tailBlock := nb\<rparr>" and ?f = "if first = nullptr then nb else first"
        have "allocate_blocks mem m (of_nat T) sb bbd (of_nat (32 * M) - 32) first (p, q) =
            (if bbd - 32 > 0 then allocate_blocks mem m (of_nat T) sb (bbd - 32) (of_nat (32 * Suc M) - 32) ?f (?p, q4)
             else Some (Some (?f, nb), ?p, q4))" for bbd
          using False nl ins(1) Some rq(1) nb st(1) st(2) [folded odd tb] unfolding suc
          by (subst allocate_blocks.simps) (simp add: cti bs Let_def del: of_nat_mult split del: if_split cong: if_weak_cong)
        moreover have "inactive ?p = inactive p" "tailIndex ?p = tailIndex p" using ins(2) by (simp_all add: same_stream_def store_value_def)
        ultimately have "loop_result mem m p q F H M xs T N sb first ?p q4"
          unfolding loop_result_def using st(3,4) by (intro conjI disjI1 exI [of _ "V(M := nb)"] exI [of _ ?f]) simp_all
        then show ?thesis by blast
      qed
    qed
  qed
qed


lemma allocate_blocks_inv:
  assumes "allocating p q F V H M xs T N sb first" "d < 2 ^ 58"
  shows "\<exists>r p' q'. allocate_blocks mem m (of_nat T) sb (of_nat (32 * Suc d)) (of_nat (32 * M) - 32) first (p, q) = Some (r, p', q') \<and>
    allocated_or_reverted r p' q' F H (M + Suc d) xs T N sb \<and> agree_on F q q' \<and> inactive p' = inactive p \<and> tailIndex p' = tailIndex p"
  using assms
proof (induction d arbitrary: p q V M first)
  case (0 p q V M first)
  from allocate_iteration [OF 0(1), of mem m] obtain p' q' where it: "loop_result mem m p q F H M xs T N sb first p' q'" by blast
  then show ?case unfolding loop_result_def
    by (elim conjE disjE exE) (fastforce simp: allocated_or_reverted_def)+
next
  case (Suc d p q V M first)
  from allocate_iteration [OF Suc.prems(1), of mem m] obtain p1 q1 where
    it: "agree_on F q q1" "inactive p1 = inactive p" "tailIndex p1 = tailIndex p"
    "(\<exists>V' first'. allocating p1 q1 F V' H (Suc M) xs T N sb first' \<and>
       (\<forall>bbd. allocate_blocks mem m (of_nat T) sb bbd (of_nat (32 * M) - 32) first (p, q) =
          (if bbd - 32 > 0 then allocate_blocks mem m (of_nat T) sb (bbd - 32) (of_nat (32 * Suc M) - 32) first' (p1, q1)
           else Some (Some (first', V' M), p1, q1)))) \<or>
     allocated_or_reverted None p1 q1 F H M xs T N sb \<and>
       (\<forall>bbd. allocate_blocks mem m (of_nat T) sb bbd (of_nat (32 * M) - 32) first (p, q) = Some (None, p1, q1))"
    unfolding loop_result_def by blast
  from it(4) show ?case
  proof (elim disjE exE conjE)
    fix V' first'
    assume al: "allocating p1 q1 F V' H (Suc M) xs T N sb first'" and
      eq: "\<forall>bbd. allocate_blocks mem m (of_nat T) sb bbd (of_nat (32 * M) - 32) first (p, q) =
          (if bbd - 32 > 0 then allocate_blocks mem m (of_nat T) sb (bbd - 32) (of_nat (32 * Suc M) - 32) first' (p1, q1)
           else Some (Some (first', V' M), p1, q1))"
    have d: "(of_nat (32 * Suc (Suc d)) :: u64) - 32 = of_nat (32 * Suc d)" by simp
    have "unat (of_nat (32 * Suc d) :: u64) = 32 * Suc d" using Suc.prems(2) by (intro unat64_of_nat) simp
    then have pos: "(of_nat (32 * Suc d) :: u64) > 0" by (simp add: word_greater_zero_iff flip: unat_eq_0)
    from Suc.IH [OF al] Suc.prems(2) obtain r p' q' where
      r: "allocate_blocks mem m (of_nat T) sb (of_nat (32 * Suc d)) (of_nat (32 * Suc M) - 32) first' (p1, q1) = Some (r, p', q')"
        "allocated_or_reverted r p' q' F H (Suc M + Suc d) xs T N sb" "agree_on F q1 q'" "inactive p' = inactive p1" "tailIndex p' = tailIndex p1"
      by auto
    have "allocate_blocks mem m (of_nat T) sb (of_nat (32 * Suc (Suc d))) (of_nat (32 * M) - 32) first (p, q) = Some (r, p', q')"
      using eq [rule_format, of "of_nat (32 * Suc (Suc d))"] pos r(1) unfolding d by simp
    moreover have "M + Suc (Suc d) = Suc M + Suc d" by simp
    ultimately show ?thesis using r(2-5) it(1-3) agree_on_trans by metis
  next
    assume "allocated_or_reverted None p1 q1 F H M xs T N sb"
      "\<forall>bbd. allocate_blocks mem m (of_nat T) sb bbd (of_nat (32 * M) - 32) first (p, q) = Some (None, p1, q1)"
    then show ?thesis using it(1-3) by (intro exI [of _ None] exI [of _ p1] exI [of _ q1]) (simp add: allocated_or_reverted_def)
  qed
qed


section \<open>Filling the blocks\<close>

lemma of_nat_add_neq: "0 < k \<Longrightarrow> k < 2 ^ 64 \<Longrightarrow> (of_nat (T + k) :: u64) \<noteq> of_nat T"
  using unat64_of_nat [of k] by auto

lemma block_chain_links:
  "block_chain B p xs \<Longrightarrow> Suc i < length xs \<Longrightarrow> map_option next_block (B (xs ! i)) = Some (xs ! Suc i)"
proof (induction xs arbitrary: p i)
  case (Cons x ys)
  then obtain b where b: "B x = Some b" "block_chain B (next_block b) ys" by auto
  show ?case
  proof (cases i)
    case 0
    with Cons.prems(2) b block_chain_hd [OF b(2)] show ?thesis by (cases ys) auto
  next
    case (Suc i')
    with Cons.IH [OF b(2), of i'] Cons.prems(2) show ?thesis by simp
  qed
qed simp

text \<open>Where the filling of one block stops.\<close>

lemma stop_index:
  assumes "L < 2 ^ 63"
  shows "(if circular_less_than (of_nat (T + L)) (block_base (of_nat T) + of_nat BLOCK_SIZE) then of_nat (T + L)
      else block_base (of_nat T) + of_nat BLOCK_SIZE) = (of_nat (T + min L (32 * (T div 32) + 32 - T)) :: u64)"
proof -
  have e: "block_base (of_nat T) + of_nat BLOCK_SIZE = of_nat (32 * (T div 32) + 32)" by (simp add: block_base_of_nat BLOCK_SIZE_def)
  have T: "T < 32 * (T div 32) + 32" by simp
  show ?thesis
  proof (cases "T + L < 32 * (T div 32) + 32")
    case True
    then have "circular_less_than (of_nat (T + L)) (of_nat (32 * (T div 32) + 32))"
      by (subst circular_less_than_of_nat) (auto intro: less_trans)
    moreover have "min L (32 * (T div 32) + 32 - T) = L" using True by (simp add: min_def)
    ultimately show ?thesis unfolding e by (simp only: if_True)
  next
    case False
    then have "\<not> circular_less_than (of_nat (T + L)) (of_nat (32 * (T div 32) + 32))"
      using assms T by (intro not_circular_less_than_of_nat) linarith+
    moreover have "min L (32 * (T div 32) + 32 - T) = 32 * (T div 32) + 32 - T" using False T by (intro min_absorb2) linarith
    ultimately show ?thesis unfolding e using T by (simp only: if_False) simp
  qed
qed


definition links_from :: "('e, 'z) block_pool_scheme \<Rightarrow> (nat \<Rightarrow> ptr) \<Rightarrow> nat \<Rightarrow> nat \<Rightarrow> bool" where
  "links_from q V b M \<longleftrightarrow> (\<forall>j. b \<le> j \<and> Suc j < M \<longrightarrow> map_option next_block (blocks q (V j)) = Some (V (Suc j)))"

text \<open>
  What filling relies on: a state \<open>S q xs\<close> in which the elements \<open>xs\<close> from position \<open>H\<close> on are stored, and which one
  construction after the other extends, in blocks up to number \<open>M\<close>.
\<close>

locale filling =
  fixes S :: "('e, 'z) block_pool_scheme \<Rightarrow> 'e list \<Rightarrow> bool" and F :: "ptr set" and V :: "nat \<Rightarrow> ptr" and H M :: nat
  assumes construct_next: "S q xs \<Longrightarrow> H + length xs < 32 * M \<Longrightarrow>
      \<exists>q'. construct (V ((H + length xs) div 32)) (of_nat (H + length xs)) x q = Some q' \<and> S q' (xs @ [x]) \<and>
        agree_on F q q' \<and> same_links q q'"
    and blocks_differ: "S q xs \<Longrightarrow> H div 32 \<le> b \<Longrightarrow> Suc b < M \<Longrightarrow> V b \<noteq> V (M - 1)"
begin

lemma fill_block_inv:
  assumes "S q xs" "T = H + length xs" "32 * b \<le> T" "T + k \<le> 32 * b + 32" "b < M" "k \<le> length items"
  shows "\<exists>q'. fill_block (V b) (of_nat T) (of_nat (T + k)) items q = Some (drop k items, q') \<and>
    S q' (xs @ take k items) \<and> agree_on F q q' \<and> same_links q q'"
  using assms
proof (induction k arbitrary: q xs T items)
  case 0
  then show ?case by (auto simp: fill_block.simps)
next
  case (Suc k)
  then obtain x rest where items: "items = x # rest" "k \<le> length rest" by (cases items) auto
  have b: "b = T div 32" using Suc.prems(3,4) by (intro div_nat_eqI [symmetric]) auto
  have "T < 32 * M" using Suc.prems(3-5) by simp
  from construct_next [OF Suc.prems(1) this [unfolded Suc.prems(2)], of x] obtain q1 where
    1: "construct (V b) (of_nat T) x q = Some q1" "S q1 (xs @ [x])" "agree_on F q q1" "same_links q q1"
    unfolding Suc.prems(2) [symmetric] b by blast
  have "Suc T = H + length (xs @ [x])" "32 * b \<le> Suc T" "Suc T + k \<le> 32 * b + 32" using Suc.prems(2-4) by auto
  from Suc.IH [OF 1(2) this Suc.prems(5) items(2)] obtain q2 where
    2: "fill_block (V b) (of_nat (Suc T)) (of_nat (Suc T + k)) rest q1 = Some (drop k rest, q2)"
      "S q2 ((xs @ [x]) @ take k rest)" "agree_on F q1 q2" "same_links q1 q2" by blast
  have "Suc k < 2 ^ 64" using Suc.prems(3,4) by simp
  then have ne: "(of_nat T :: u64) \<noteq> of_nat (T + Suc k)" by (intro of_nat_add_neq [symmetric]) simp_all
  have "(of_nat T + 1 :: u64) = of_nat (Suc T)" "T + Suc k = Suc T + k" by simp_all
  then have "fill_block (V b) (of_nat T) (of_nat (T + Suc k)) items q = Some (drop k rest, q2)"
    using ne 1(1) 2(1) by (subst fill_block.simps) (simp only: items(1) list.case if_False bind.bind_lunit Option.bind.bind_lunit simp_thms)
  then show ?case using 2 items(1) agree_on_trans [OF 1(3) 2(3)] same_links_trans [OF 1(4) 2(4)] by auto
qed

lemma fill_blocks_inv:
  assumes "S q xs" "T = H + length xs" "items \<noteq> []" "length items < 2 ^ 62"
    "M = (T + length items + 31) div 32" "links_from q V (T div 32) M"
  shows "\<exists>q'. fill_blocks (V (M - 1)) (V (T div 32)) (of_nat T) (of_nat (T + length items)) items q = Some (V (M - 1), q') \<and>
    S q' (xs @ items) \<and> agree_on F q q'"
  using assms
proof (induction "M - T div 32" arbitrary: T q xs items rule: less_induct)
  case less
  define b where "b = T div 32"
  define k where "k = min (length items) (32 * b + 32 - T)"
  have Tb: "32 * b \<le> T" "T < 32 * b + 32" by (simp_all add: b_def)
  have len: "0 < length items" using less.prems(3) by simp
  then have k: "0 < k" "k \<le> length items" "T + k \<le> 32 * b + 32" using Tb(2) by (auto simp: k_def)
  have M: "M = Suc ((T + length items - 1) div 32)"
    using ceil_block(3) [of "T + length items - 1"] len unfolding less.prems(5) by simp
  have "T \<le> T + length items - 1" using len by linarith
  then have bM: "b < M" unfolding M b_def less_Suc_eq_le by (rule div_le_mono)
  have HB: "H div 32 \<le> b" unfolding b_def less.prems(2) by (intro div_le_mono) simp
  from fill_block_inv [OF less.prems(1,2) Tb(1) k(3) bM k(2)] obtain q1 where
    1: "fill_block (V b) (of_nat T) (of_nat (T + k)) items q = Some (drop k items, q1)"
      "S q1 (xs @ take k items)" "agree_on F q q1" "same_links q q1" by blast
  have "length items < 2 ^ 63" using less.prems(4) by simp
  note stop = stop_index [OF this, of T, folded b_def, folded k_def]
  show ?case
  proof (cases "b = M - 1")
    case True
    have "T + length items \<le> 32 * b + 32"
      using ceil_block(4) [of "T + length items"] True bM unfolding less.prems(5) [symmetric] by simp
    then have kk: "k = length items" using Tb(2) by (simp add: k_def)
    have eqV: "V (M - 1) = V b" using True by simp
    have "fill_blocks (V (M - 1)) (V b) (of_nat T) (of_nat (T + length items)) items q = Some (V (M - 1), q1)"
      using 1(1) unfolding eqV by (subst fill_blocks.simps) (simp only: Let_def stop kk if_True Option.bind.bind_lunit split_conv simp_thms)
    then show ?thesis using 1 kk by (auto simp: b_def)
  next
    case False
    then have b1: "Suc b < M" using bM by simp
    have "32 * b + 32 < T + length items"
    proof (rule ccontr)
      assume "\<not> ?thesis"
      then have "(T + length items - 1) div 32 \<le> b" using len by (intro less_Suc_eq_le [THEN iffD1] div_less_iff_less_mult [THEN iffD2]) auto
      then show False using b1 M by simp
    qed
    then have kk: "k = 32 * b + 32 - T" by (simp add: k_def)
    define T' where "T' = T + k"
    have T': "T' = 32 * Suc b" "T' div 32 = Suc b" using kk Tb by (simp_all add: T'_def)
    let ?xs = "xs @ take k items" and ?rest = "drop k items"
    have pre: "T' = H + length ?xs" "?rest \<noteq> []" "length ?rest < 2 ^ 62" "T' + length ?rest = T + length items"
      using less.prems(2,4) k \<open>32 * b + 32 < T + length items\<close> kk Tb by (auto simp: T'_def)
    have lk: "links_from q1 V (T' div 32) M"
      using less.prems(6) 1(4) by (simp add: links_from_def same_links_def T'(2) b_def)
    have "M = (T' + length ?rest + 31) div 32" using less.prems(5) pre(4) by simp
    moreover have "M - T' div 32 < M - T div 32" using b1 unfolding T'(2) b_def by simp
    ultimately obtain q2 where
      2: "fill_blocks (V (M - 1)) (V (T' div 32)) (of_nat T') (of_nat (T' + length ?rest)) ?rest q1 = Some (V (M - 1), q2)"
        "S q2 (?xs @ ?rest)" "agree_on F q1 q2"
      using less.hyps [OF _ 1(2) pre(1-3) _ lk] by blast
    have "V b \<noteq> V (M - 1)" by (rule blocks_differ [OF less.prems(1) HB b1])
    moreover have "map_option next_block (blocks q1 (V b)) = Some (V (Suc b))"
      using less.prems(6) b1 1(4) by (simp add: links_from_def same_links_def b_def)
    then obtain blk where "blocks q1 (V b) = Some blk" "next_block blk = V (Suc b)" by auto
    ultimately have "fill_blocks (V (M - 1)) (V b) (of_nat T) (of_nat (T + length items)) items q =
        fill_blocks (V (M - 1)) (V (Suc b)) (of_nat (T + k)) (of_nat (T + length items)) ?rest q1"
      using 1(1) by (subst fill_blocks.simps) (simp only: Let_def stop if_False Option.bind.bind_lunit split_conv)
    then show ?thesis
      using 2 agree_on_trans [OF 1(3) 2(3)] unfolding pre(4) T'(2) b_def [symmetric] T'_def [symmetric] by auto
  qed
qed

end

interpretation implicit_filling: filling "\<lambda>q xs. producer_blocks p q F V H M \<and> stream_mem q V H M xs" F V H M
  for p F V H M
proof (unfold_locales, elim conjE)
  fix q :: "('a, 'b) block_pool_scheme" and xs :: "'a list" and x
  assume "producer_blocks p q F V H M" "stream_mem q V H M xs" "H + length xs < 32 * M"
  from construct_step [OF this(1,2) refl this(3) refl, of x]
  show "\<exists>q'. construct (V ((H + length xs) div 32)) (of_nat (H + length xs)) x q = Some q' \<and>
      (producer_blocks p q' F V H M \<and> stream_mem q' V H M (xs @ [x])) \<and> agree_on F q q' \<and> same_links q q'" by blast
next
  fix q :: "('a, 'b) block_pool_scheme" and xs :: "'a list" and b
  assume "producer_blocks p q F V H M \<and> stream_mem q V H M xs" "H div 32 \<le> b" "Suc b < M"
  moreover from this have "H div 32 \<le> M - 1" by linarith
  ultimately show "V b \<noteq> V (M - 1)" using producer_block_inj [of p q F V H M b "M - 1"] by auto
qed


section \<open>The whole operation\<close>

lemma allocating_links:
  assumes "allocating p q F V H M xs T N sb first"
  shows "links_from q V (T div 32) M"
  unfolding links_from_def
proof (intro allI impI)
  fix j assume j: "T div 32 \<le> j \<and> Suc j < M"
  have al: "N = (T + 31) div 32" "block_chain (blocks q) first (map V [N..<M])"
    "T mod 32 \<noteq> 0 \<longrightarrow> sb = V (N - 1) \<and> (N < M \<longrightarrow> map_option next_block (blocks q sb) = Some (V N))"
    using allocating_start(2) [OF assms] assms unfolding allocating_def by blast+
  show "map_option next_block (blocks q (V j)) = Some (V (Suc j))"
  proof (cases "N \<le> j")
    case True
    then have "Suc (j - N) < M - N" "[N..<M] ! (j - N) = j" "[N..<M] ! Suc (j - N) = Suc j" using j by auto
    with block_chain_links [OF al(2), of "j - N"] show ?thesis by simp
  next
    case False
    then have "T mod 32 \<noteq> 0" using j al(1) ceil_block(2) [of T] by fastforce
    then have "N = Suc (T div 32)" using al(1) ceil_block(1) by simp
    then have "j = N - 1" "N < M" "Suc j = N" using False j by auto
    then show ?thesis using al(3) \<open>T mod 32 \<noteq> 0\<close> by auto
  qed
qed

lemma allocating_first:
  assumes "allocating p q F V H M xs T N sb first" "N < M"
  shows "(if T mod 32 = 0 \<and> first \<noteq> nullptr then first else sb) = V (T div 32)" "first \<noteq> nullptr"
proof -
  have al: "N = (T + 31) div 32" "block_chain (blocks q) first (map V [N..<M])" "T mod 32 \<noteq> 0 \<longrightarrow> sb = V (N - 1)"
    "producer_blocks p q F V H M" "T = H + length xs"
    using allocating_start(2) [OF assms(1)] assms(1) unfolding allocating_def by blast+
  have f: "first = V N" using block_chain_hd [OF al(2)] assms(2) by (simp add: upt_conv_Cons)
  have "H div 32 \<le> N" unfolding al(1,5) by (intro div_le_mono) simp
  then show nz: "first \<noteq> nullptr" using producer_block(1) [OF al(4) _ assms(2)] f by simp
  show "(if T mod 32 = 0 \<and> first \<noteq> nullptr then first else sb) = V (T div 32)"
    using nz f al(1,3) ceil_block(1,2) [of T] by (cases "T mod 32 = 0") simp_all
qed

lemma enqueue_bulk_inv:
  assumes "producer_inv p q F xs U" "length items \<le> VECTOR_MAX"
  shows "\<exists>ok p' q' U'. enqueue_bulk mem m items (p, q) = Some (ok, p', q') \<and>
    producer_inv p' q' F (if ok then xs @ items else xs) U' \<and> agree_on F q q' \<and> inactive p' = inactive p"
proof -
  from assms(1) obtain V H N where N: "N = (H + length xs + 31) div 32" and pb: "producer_blocks p q F V H N"
    and mem: "stream_mem q V H N xs" and t: "tailIndex p = of_nat (H + length xs)"
      "H div 32 < N \<longrightarrow> tailBlock p = V (N - 1)"
    unfolding producer_inv_def by blast
  define T where "T = H + length xs"
  define L where "L = length items"
  define M where "M = (T + L + 31) div 32"
  have L: "L < 2 ^ 60" using assms(2) by (simp add: L_def VECTOR_MAX_def)
  have NT: "N = (T + 31) div 32" and t': "tailIndex p = of_nat T" "T mod 32 \<noteq> 0 \<longrightarrow> tailBlock p = V (N - 1)"
    using N t started_block [of H xs] by (simp_all add: T_def)
  have NM: "N \<le> M" unfolding NT M_def by (intro div_le_mono) simp
  have small: "M - N < 2 ^ 58"
  proof -
    have "M \<le> (T + 31) div 32 + (L div 32 + 1)" unfolding M_def by linarith
    moreover have "L div 32 < 2 ^ 55" using L by (intro less_mult_imp_div_less) simp
    ultimately have "M < N + (2 ^ 55 + 1)" unfolding NT by linarith
    then show ?thesis using NM by simp
  qed
  have bases: "block_base (of_nat T + of_nat L - 1) - block_base (of_nat T - 1) = (of_nat (32 * (M - N)) :: u64)"
    using block_base_pred [of "T + L"] block_base_pred [of T] NM by (simp add: M_def NT)
  have base0: "block_base (of_nat T - 1) = of_nat (32 * N) - 32" using block_base_pred [of T] by (simp add: NT)
  have al0: "(of_nat T :: u64) AND of_nat (BLOCK_SIZE - 1) = 0 \<longleftrightarrow> T mod 32 = 0" by (rule aligned_of_nat)
  have finish: "\<exists>ok p' q' U'. enqueue_bulk mem m items (p, q) = Some (ok, p', q') \<and>
      producer_inv p' q' F (if ok then xs @ items else xs) U' \<and> agree_on F q q' \<and> inactive p' = inactive p"
    if "items \<noteq> []" "producer_blocks p1 q1 F V1 H M" "stream_mem q1 V1 H M xs" "links_from q1 V1 (T div 32) M" "agree_on F q q1" "inactive p1 = inactive p"
      and eq: "\<And>q2. fill_blocks (V1 (M - 1)) (V1 (T div 32)) (of_nat T) (of_nat (T + L)) items q1 = Some (V1 (M - 1), q2) \<Longrightarrow>
        enqueue_bulk mem m items (p, q) = Some (True, p1\<lparr>tailBlock := V1 (M - 1), tailIndex := of_nat (T + L)\<rparr>, q2)" for p1 q1 V1
  proof -
    have "length items < 2 ^ 62" using L by (simp add: L_def)
    from implicit_filling.fill_blocks_inv [OF conjI [OF that(2,3)] T_def that(1) this M_def [unfolded L_def] that(4)] obtain q2 where
      f: "fill_blocks (V1 (M - 1)) (V1 (T div 32)) (of_nat T) (of_nat (T + L)) items q1 = Some (V1 (M - 1), q2)"
        "producer_blocks p1 q2 F V1 H M" "stream_mem q2 V1 H M (xs @ items)" "agree_on F q1 q2"
      unfolding L_def by blast
    have "\<exists>U'. producer_inv (p1\<lparr>tailBlock := V1 (M - 1), tailIndex := of_nat (T + L)\<rparr>) q2 F (xs @ items) U'"
      by (rule producer_invI [OF _ f(3)]) (use f(2) in \<open>simp_all add: M_def T_def L_def add.assoc\<close>)
    then show ?thesis using eq [OF f(1)] agree_on_trans [OF that(5) f(4)] that(6) by auto
  qed
  show ?thesis
  proof (cases "N = M")
    case True
    have un: "enqueue_bulk mem m items (p, q) =
        (if T mod 32 = 0 \<and> (of_nat L :: u64) \<noteq> 0 then None
         else do {
           (lastBlock, q2) \<leftarrow> fill_blocks (tailBlock p) (tailBlock p) (of_nat T) (of_nat (T + L)) items q;
           Some (True, p\<lparr>tailBlock := lastBlock, tailIndex := of_nat (T + L)\<rparr>, q2)
         })"
      unfolding enqueue_bulk_def Let_def split_conv t'(1) L_def [symmetric] bases al0 True by simp
    show ?thesis
    proof (cases "items = []")
      case True2: True
      then have "L = 0" by (simp add: L_def)
      then have "min L (32 * (T div 32) + 32 - T) = 0" by simp
      with stop_index [of L T] L have "fill_blocks (tailBlock p) (tailBlock p) (of_nat T) (of_nat (T + L)) items q = Some (tailBlock p, q)"
        using \<open>L = 0\<close> True2 by (subst fill_blocks.simps) (simp add: Let_def fill_block.simps)
      then have "enqueue_bulk mem m items (p, q) = Some (True, p, q)"
        unfolding un using \<open>L = 0\<close> t'(1) by simp
      then show ?thesis using assms(1) True2 by auto
    next
      case False
      then have "0 < L" by (simp add: L_def)
      then have odd: "T mod 32 \<noteq> 0"
        using True ceil_block(2) [of T] ceil_block(4) [of "T + L"] unfolding NT M_def by (metis add_le_same_cancel1 linorder_not_le minus_mod_eq_mult_div minus_nat.diff_0)
      have "M - 1 = T div 32" using ceil_block(1) [OF odd] NT True by simp
      then have tb: "tailBlock p = V (M - 1)" "tailBlock p = V (T div 32)" using t'(2) True odd by simp_all
      show ?thesis
      proof (rule finish [OF False, of p q V])
        show "links_from q V (T div 32) M" using \<open>M - 1 = T div 32\<close> by (auto simp: links_from_def)
        show "enqueue_bulk mem m items (p, q) = Some (True, p\<lparr>tailBlock := V (M - 1), tailIndex := of_nat (T + L)\<rparr>, q2)"
          if "fill_blocks (V (M - 1)) (V (T div 32)) (of_nat T) (of_nat (T + L)) items q = Some (V (M - 1), q2)" for q2
        proof -
          have "fill_blocks (tailBlock p) (tailBlock p) (of_nat T) (of_nat (T + L)) items q = Some (V (M - 1), q2)"
            using that tb by metis
          then show ?thesis unfolding un using odd by simp
        qed
      qed (use pb mem True in simp_all)
    qed
  next
    case False
    then have lt: "N < M" using NM by simp
    then have "L \<noteq> 0" using NT M_def by auto
    then have ne: "items \<noteq> []" by (simp add: L_def)
    define d where "d = M - N - 1"
    have d: "M - N = Suc d" "N + Suc d = M" "d < 2 ^ 58" using lt small by (simp_all add: d_def)
    have "unat (of_nat (32 * (M - N)) :: u64) = 32 * (M - N)" using small by (intro unat64_of_nat) simp
    then have pos: "(of_nat (32 * (M - N)) :: u64) > 0" using lt by (simp add: word_greater_zero_iff flip: unat_eq_0)
    have "allocating p q F V H N xs T N (tailBlock p) nullptr"
      unfolding allocating_def using pb mem T_def NT t(2) by simp
    from allocate_blocks_inv [OF this d(3), of mem m] obtain r p1 q1 where
      r: "allocate_blocks mem m (of_nat T) (tailBlock p) (of_nat (32 * (M - N))) (of_nat (32 * N) - 32) nullptr (p, q) = Some (r, p1, q1)"
        "allocated_or_reverted r p1 q1 F H M xs T N (tailBlock p)" "agree_on F q q1" "inactive p1 = inactive p" "tailIndex p1 = tailIndex p"
      unfolding d(1,2) by blast
    have un: "enqueue_bulk mem m items (p, q) =
        (case r of
           None \<Rightarrow> Some (False, p1, q1)
         | Some (first, endBlock) \<Rightarrow>
             if T mod 32 = 0 \<and> first = nullptr \<and> (of_nat L :: u64) \<noteq> 0 then None
             else do {
               (lastBlock, q2) \<leftarrow> fill_blocks endBlock (if T mod 32 = 0 \<and> first \<noteq> nullptr then first else tailBlock p)
                 (of_nat T) (of_nat (T + L)) items q1;
               Some (True, p1\<lparr>tailBlock := lastBlock, tailIndex := of_nat (T + L)\<rparr>, q2)
             })"
      unfolding enqueue_bulk_def Let_def split_conv t'(1) L_def [symmetric] base0 bases [unfolded base0] al0 if_P [OF pos] r(1) Option.bind.bind_lunit of_nat_add ..
    show ?thesis
    proof (cases r)
      case None
      with r(2) obtain V1 where v: "producer_blocks p1 q1 F V1 H N" "stream_mem q1 V1 H N xs" "tailBlock p1 = tailBlock p"
        "H div 32 < N \<longrightarrow> tailBlock p = V1 (N - 1)" by (auto simp: allocated_or_reverted_def)
      then have "\<exists>U'. producer_inv p1 q1 F xs U'"
        using N t r(5) by (intro producer_invI [OF v(1,2)]) (simp_all add: T_def)
      then show ?thesis using un None r(3,4) by auto
    next
      case (Some fe)
      obtain first eb where fe: "fe = (first, eb)" by fastforce
      with Some r(2) obtain V1 where v: "allocating p1 q1 F V1 H M xs T N (tailBlock p) first" "eb = V1 (M - 1)"
        by (auto simp: allocated_or_reverted_def)
      note fs = allocating_first [OF v(1) lt]
      show ?thesis
      proof (rule finish [OF ne _ _ allocating_links [OF v(1)] r(3,4)])
        show "producer_blocks p1 q1 F V1 H M" "stream_mem q1 V1 H M xs" using v(1) by (simp_all add: allocating_def)
        show "enqueue_bulk mem m items (p, q) = Some (True, p1\<lparr>tailBlock := V1 (M - 1), tailIndex := of_nat (T + L)\<rparr>, q2)"
          if "fill_blocks (V1 (M - 1)) (V1 (T div 32)) (of_nat T) (of_nat (T + L)) items q1 = Some (V1 (M - 1), q2)" for q2
          unfolding un Some fe option.case split_conv v(2) fs(1) using fs(2) that by simp
      qed
    qed
  qed
qed

end
