(* ===== verification/Producer_Frame.thy ===== *)
theory Producer_Frame
  imports Producer_Bulk
begin

text \<open>
  What the operations of a producer and of the block pool leave alone: the part of the queue that is not the block
  pool. Also, the invariant of a producer when others work, and of a new one.
\<close>

section \<open>The rest of the queue\<close>

abbreviation rest_of :: "('e, 'z) block_pool_scheme \<Rightarrow> 'z" where
  "rest_of \<equiv> block_pool.more"

named_theorems keeps_rest \<open>operations that change nothing but the block pool\<close>

lemma update_block_rest [keeps_rest]: "update_block p f q = Some q' \<Longrightarrow> rest_of q' = rest_of q"
  by (auto simp: update_block_def split: option.splits)

lemma malloc_rest [keeps_rest]: "malloc mem q = (ok, q') \<Longrightarrow> rest_of q' = rest_of q"
  by (auto simp: malloc_def)

lemma destroy_block_rest [keeps_rest]: "destroy_block p q = Some q' \<Longrightarrow> rest_of q' = rest_of q"
  by (auto simp: destroy_block_def split: if_splits option.splits)

lemma create_block_rest [keeps_rest]: "create_block mem q = (p, q') \<Longrightarrow> rest_of q' = rest_of q"
  by (auto simp: create_block_def malloc_blocks_def Let_def split: if_splits)

lemma add_knowing_rest [keeps_rest]:
  assumes "add_knowing_refcount_is_zero node head q = Some q'"
  shows "rest_of q' = rest_of q"
proof (rule add_knowing_refcount_is_zero.raw_induct [of "\<lambda>node head q q'. rest_of q' = rest_of q", OF _ assms], goal_cases)
  case (1 f node head q q')
  note IH = 1(1)
  from 1(2) show ?case by (auto simp: bind_eq_Some_conv dest!: IH keeps_rest split: if_splits)
qed

lemma free_list_add_rest [keeps_rest]: "free_list_add node q = Some q' \<Longrightarrow> rest_of q' = rest_of q"
  by (auto simp: free_list_add_def bind_eq_Some_conv dest!: keeps_rest split: if_splits)

lemma add_block_rest [keeps_rest]: "add_block_to_free_list p q = Some q' \<Longrightarrow> rest_of q' = rest_of q"
  by (auto simp: add_block_to_free_list_def bind_eq_Some_conv dest!: keeps_rest split: if_splits)

lemma add_blocks_rest [keeps_rest]:
  assumes "add_blocks_to_free_list p q = Some q'"
  shows "rest_of q' = rest_of q"
proof (rule add_blocks_to_free_list.raw_induct [of "\<lambda>p q q'. rest_of q' = rest_of q", OF _ assms], goal_cases)
  case (1 f p q q')
  note IH = 1(1)
  from 1(2) show ?case by (auto simp: bind_eq_Some_conv dest!: IH keeps_rest split: if_splits)
qed

lemma try_get_rest [keeps_rest]:
  assumes "try_get q = Some (p, q')"
  shows "rest_of q' = rest_of q"
proof -
  have "rest_of (snd r) = rest_of q" if "try_get_loop h q = Some r" for h r
  proof (rule try_get_loop.raw_induct [of "\<lambda>h q r. rest_of (snd r) = rest_of q", OF _ that], goal_cases)
    case (1 f h q r)
    note IH = 1(1)
    from 1(2) show ?case by (auto simp: bind_eq_Some_conv dest!: IH keeps_rest split: if_splits)
  qed
  from this [OF assms [unfolded try_get_def]] show ?thesis by simp
qed

lemma requisition_block_rest [keeps_rest]:
  assumes "requisition_block mem m q = Some (p, q')"
  shows "rest_of q' = rest_of q"
proof -
  have "rest_of (snd (try_get_block_from_initial_pool q)) = rest_of q"
    by (simp add: try_get_block_from_initial_pool_def Let_def)
  then show ?thesis
    using assms by (auto simp: requisition_block_def bind_eq_Some_conv dest!: keeps_rest split: if_splits prod.splits)
qed

lemma new_block_index_rest [keeps_rest]: "new_block_index mem (p, q) = Some (ok, p', q') \<Longrightarrow> rest_of q' = rest_of q"
  by (auto simp: new_block_index_def bind_eq_Some_conv Let_def dest!: keeps_rest split: if_splits prod.splits option.splits list.splits)

lemma insert_block_index_entry_rest [keeps_rest]:
  "insert_block_index_entry mem m i (p, q) = Some (r, p', q') \<Longrightarrow> rest_of q' = rest_of q"
  by (auto simp: insert_block_index_entry_def bind_eq_Some_conv dest!: keeps_rest split: if_splits list.splits)

lemma construct_rest [keeps_rest]: "construct b i x q = Some q' \<Longrightarrow> rest_of q' = rest_of q"
  by (auto simp: construct_def dest!: keeps_rest)

lemma take_element_rest [keeps_rest]: "take_element b i q = Some (x, q') \<Longrightarrow> rest_of q' = rest_of q"
  by (auto simp: take_element_def bind_eq_Some_conv dest!: keeps_rest)

lemma enqueue_rest [keeps_rest]: "enqueue mem m x (p, q) = Some (ok, p', q') \<Longrightarrow> rest_of q' = rest_of q"
  by (auto simp: enqueue_def bind_eq_Some_conv Let_def dest!: keeps_rest split: if_splits option.splits)

lemma dequeue_rest [keeps_rest]: "dequeue (p, q) = Some (r, p', q') \<Longrightarrow> rest_of q' = rest_of q"
  by (auto simp: dequeue_def bind_eq_Some_conv Let_def dest!: keeps_rest split: if_splits)

lemma revert_allocations_rest [keeps_rest]:
  "revert_allocations e st sb x (p, q) = Some (p', q') \<Longrightarrow> rest_of q' = rest_of q"
  by (auto simp: revert_allocations_def bind_eq_Some_conv dest!: keeps_rest)

lemma allocate_blocks_rest [keeps_rest]:
  assumes "allocate_blocks mem m st sb d i x (p, q) = Some (r, p', q')"
  shows "rest_of q' = rest_of q"
proof -
  have "rest_of (snd (snd r)) = rest_of (snd s)" if "allocate_blocks mem m st sb d i x s = Some r" for r s
  proof (rule allocate_blocks.raw_induct [of "\<lambda>mem m st sb d i x s r. rest_of (snd (snd r)) = rest_of (snd s)", OF _ that], goal_cases)
    case (1 f mem m st sb d i x s r)
    note IH = 1(1)
    from 1(2) show ?case
      by (cases s) (auto simp: bind_eq_Some_conv Let_def dest!: IH keeps_rest split: if_splits option.splits)
  qed
  from this [OF assms] show ?thesis by simp
qed

lemma fill_block_rest [keeps_rest]:
  assumes "fill_block b i j xs q = Some (ys, q')"
  shows "rest_of q' = rest_of q"
proof -
  have "rest_of (snd r) = rest_of q" if "fill_block b i j xs q = Some r" for r
  proof (rule fill_block.raw_induct [of "\<lambda>b i j xs q r. rest_of (snd r) = rest_of q", OF _ that], goal_cases)
    case (1 f b i j xs q r)
    note IH = 1(1)
    from 1(2) show ?case by (auto simp: bind_eq_Some_conv dest!: IH keeps_rest split: if_splits list.splits)
  qed
  from this [OF assms] show ?thesis by simp
qed

lemma fill_blocks_rest [keeps_rest]:
  assumes "fill_blocks e b i j xs q = Some (y, q')"
  shows "rest_of q' = rest_of q"
proof -
  have "rest_of (snd r) = rest_of q" if "fill_blocks e b i j xs q = Some r" for r
  proof (rule fill_blocks.raw_induct [of "\<lambda>e b i j xs q r. rest_of (snd r) = rest_of q", OF _ that], goal_cases)
    case (1 f e b i j xs q r)
    note IH = 1(1)
    from 1(2) show ?case by (auto simp: bind_eq_Some_conv Let_def dest!: IH keeps_rest split: if_splits)
  qed
  from this [OF assms] show ?thesis by simp
qed

lemma enqueue_bulk_rest [keeps_rest]:
  assumes "enqueue_bulk mem m xs (p, q) = Some (ok, p', q')"
  shows "rest_of q' = rest_of q"
proof -
  from assms obtain al p1 q1 where A: "(if block_base (tailIndex p + of_nat (length xs) - 1) - block_base (tailIndex p - 1) > 0
      then allocate_blocks mem m (tailIndex p) (tailBlock p) (block_base (tailIndex p + of_nat (length xs) - 1) - block_base (tailIndex p - 1))
        (block_base (tailIndex p - 1)) nullptr (p, q)
      else Some (Some (nullptr, tailBlock p), p, q)) = Some (al, p1, q1)" and
    rest: "(case al of
          None \<Rightarrow> Some (False, p1, q1)
        | Some (first, endBlock) \<Rightarrow>
            (if tailIndex p AND of_nat (BLOCK_SIZE - 1) = 0 \<and> first = nullptr \<and> (of_nat (length xs) :: u64) \<noteq> 0 then None
             else do {
               (lastBlock, q2) \<leftarrow> fill_blocks endBlock (if tailIndex p AND of_nat (BLOCK_SIZE - 1) = 0 \<and> first \<noteq> nullptr then first else tailBlock p)
                 (tailIndex p) (tailIndex p + of_nat (length xs)) xs q1;
               Some (True, p1\<lparr>tailBlock := lastBlock, tailIndex := tailIndex p + of_nat (length xs)\<rparr>, q2)
             })) = Some (ok, p', q')"
    unfolding enqueue_bulk_def Let_def split_conv bind_eq_Some_conv split_paired_Ex by blast
  from A have al: "rest_of q1 = rest_of q" by (auto dest!: keeps_rest split: if_splits)
  show ?thesis
  proof (cases al)
    case (Some fe)
    obtain first eb where "fe = (first, eb)" by fastforce
    with rest Some al show ?thesis
      by (simp only: option.case split_conv bind_eq_Some_conv split: if_split_asm) (auto dest!: keeps_rest)
  qed (use rest al in simp)
qed

section \<open>The invariant of a producer\<close>

lemma producer_inv_pool: "producer_inv p q F xs U \<Longrightarrow> \<exists>fs. pool_inv q fs (U \<union> F)" "producer_inv p q F xs U \<Longrightarrow> U \<inter> F = {}"
  by (auto simp: producer_inv_def producer_blocks_def pool_part_def)

lemma producer_inv_frame:
  assumes inv: "producer_inv p q F xs U" and same: "agree_on U q q'" and pool: "pool_inv q' fs (U \<union> F')" "U \<inter> F' = {}"
  shows "producer_inv p q' F' xs U"
proof -
  from inv obtain V H N where v: "N = (H + length xs + 31) div 32" "producer_blocks p q F V H N" "stream_mem q V H N xs"
    "tailIndex p = of_nat (H + length xs)" "U = V ` {H div 32..<N}" "H div 32 < N \<longrightarrow> tailBlock p = V (N - 1)"
    unfolding producer_inv_def by blast
  have "producer_blocks p q' F' V H N"
    using v(2) pool unfolding producer_blocks_def pool_part_def v(5) [symmetric] by blast
  moreover have "stream_mem q' V H N xs"
    by (rule stream_mem_frame [OF v(3)]) (use same v(5) in \<open>auto simp: agree_on_def\<close>)
  ultimately show ?thesis using v unfolding producer_inv_def by blast
qed

lemma producer_inv_inactive [simp]: "producer_inv (p\<lparr>inactive := b\<rparr>) q F xs U = producer_inv p q F xs U"
  by (simp add: producer_inv_def producer_blocks_def index_ok_def index_rep_def entry_def producer_head_def)

lemma size_approx_inv:
  assumes "producer_inv p q F xs U"
  shows "size_approx p = of_nat (length xs)" "length xs < 2 ^ 63"
proof -
  from assms obtain H N where v: "N = (H + length xs + 31) div 32" "producer_head p H N" "tailIndex p = of_nat (H + length xs)"
    unfolding producer_inv_def producer_blocks_def by blast
  have "H + length xs \<le> 32 * N" unfolding v(1) by (rule ceil_block)
  then show len: "length xs < 2 ^ 63" using v(2) by (simp add: producer_head_def)
  have "circular_less_than (of_nat H) (of_nat (H + length xs)) \<longleftrightarrow> xs \<noteq> []"
    using len by (subst circular_less_than_of_nat) auto
  then show "size_approx p = of_nat (length xs)" using v(2,3) by (auto simp: size_approx_def producer_head_def)
qed

lemma new_implicit_producer_inv:
  assumes "pool_inv q fs F"
  shows "\<exists>p n. new_implicit_producer mem q = Some (p, q\<lparr>allocations := n\<rparr>) \<and> producer_inv p (q\<lparr>allocations := n\<rparr>) F [] {} \<and> \<not> inactive p"
proof (cases "mem (allocations q) = nullptr")
  case True
  let ?q = "q\<lparr>allocations := Suc (allocations q)\<rparr>"
  let ?p = "\<lparr>inactive = False, tailIndex = 0, headIndex = 0, dequeueOptimisticCount = 0, dequeueOvercommit = 0,
    tailBlock = nullptr, nextBlockIndexCapacity = IMPLICIT_INITIAL_INDEX_SIZE, blockIndex = [], bi_entries = []\<rparr>"
  have "producer_blocks ?p ?q F (\<lambda>_. nullptr) 0 0"
    using assms by (auto simp: producer_blocks_def index_ok_def pool_part_def producer_head_def)
  then have "producer_inv ?p ?q F [] {}"
    by (auto simp: producer_inv_def stream_mem_def intro!: exI [of _ "\<lambda>_. nullptr"] exI [of _ 0])
  moreover have "new_implicit_producer mem q = Some (?p, ?q)"
    using True by (simp add: new_implicit_producer_def new_block_index_def malloc_def Let_def)
  ultimately show ?thesis by auto
next
  case False
  let ?q = "q\<lparr>allocations := Suc (allocations q)\<rparr>"
  let ?p = "\<lparr>inactive = False, tailIndex = 0, headIndex = 0, dequeueOptimisticCount = 0, dequeueOvercommit = 0,
    tailBlock = nullptr, nextBlockIndexCapacity = 64,
    blockIndex = [\<lparr>bi_capacity = 32, bi_tail = (0 - 1) AND (32 - 1), bi_index = [0..<32]\<rparr>],
    bi_entries = replicate 32 (INVALID_BLOCK_BASE, nullptr)\<rparr>"
  have "new_implicit_producer mem q = Some (?p, ?q)"
    using False by (simp add: new_implicit_producer_def new_block_index_def malloc_def Let_def IMPLICIT_INITIAL_INDEX_SIZE_def)
  moreover have "index_rep ?p 5 0 0 {0..<0} (\<lambda>_. nullptr) 0"
    unfolding index_rep_def entry_def using and_capacity [of "- 1" 5] by auto
  then have "index_ok ?p 0 (\<lambda>_. nullptr) 0" by (rule index_okI) simp_all
  then have "producer_blocks ?p ?q F (\<lambda>_. nullptr) 0 0"
    using assms by (auto simp: producer_blocks_def pool_part_def producer_head_def)
  then have "producer_inv ?p ?q F [] {}"
    by (auto simp: producer_inv_def stream_mem_def intro!: exI [of _ "\<lambda>_. nullptr"] exI [of _ 0])
  ultimately show ?thesis by auto
qed

end
