(* ===== verification/Producer_Take.thy ===== *)
theory Producer_Take
  imports Producer_Frame
begin

text \<open>
  Dequeueing in bulk (\<open>concurrentqueue.h\<close>: \<open>ImplicitProducer::dequeue_bulk\<close>): as many elements as are wanted and there are,
  block by block; each block that is emptied goes back to the pool.
\<close>

section \<open>The operation\<close>

text \<open>Moving the elements of one block out, from an index up to another.\<close>

partial_function (option) take_elements ::
  "ptr \<Rightarrow> u64 \<Rightarrow> u64 \<Rightarrow> ('e, 'z) block_pool_scheme \<Rightarrow> ('e list \<times> ('e, 'z) block_pool_scheme) option" where
  "take_elements block index endIndex q =
     (if index = endIndex then Some ([], q)
      else do {
        (x, q1) \<leftarrow> take_element block index q;
        (xs, q2) \<leftarrow> take_elements block (index + 1) endIndex q1;
        Some (x # xs, q2)
      })"

declare take_elements.simps [code]

text \<open>The loop over the blocks, up to the index \<open>lastIndex\<close>; \<open>indexIndex\<close> is the place in the block index.\<close>

partial_function (option) dequeue_blocks ::
  "u64 \<Rightarrow> u64 \<Rightarrow> nat \<Rightarrow> ImplicitProducer \<times> ('e, 'z) block_pool_scheme \<Rightarrow>
     ('e list \<times> ImplicitProducer \<times> ('e, 'z) block_pool_scheme) option" where
  "dequeue_blocks lastIndex index indexIndex s =
     (let (p, q) = s;
          blockEnd = block_base index + of_nat BLOCK_SIZE;
          endIndex = (if circular_less_than lastIndex blockEnd then lastIndex else blockEnd)
      in do {
        e \<leftarrow> nth_opt (bi_index (hd (blockIndex p))) indexIndex;
        (_, block) \<leftarrow> nth_opt (bi_entries p) e;
        (xs, q1) \<leftarrow> take_elements block index endIndex q;
        b \<leftarrow> blocks q1 block;
        (emptied, b1) \<leftarrow> set_many_empty implicit_context index (endIndex - index) b;
        q2 \<leftarrow> update_block block (\<lambda>_. b1) q1;
        (p3, q3) \<leftarrow> (if emptied then do { q3 \<leftarrow> add_block_to_free_list block q2; Some (store_value e nullptr p, q3) }
                   else Some (p, q2));
        if endIndex = lastIndex then Some (xs, p3, q3)
        else do {
          (ys, p4, q4) \<leftarrow> dequeue_blocks lastIndex endIndex
            (unat ((of_nat indexIndex + 1) AND (bi_capacity (hd (blockIndex p)) - 1))) (p3, q3);
          Some (xs @ ys, p4, q4)
        }
      })"

declare dequeue_blocks.simps [code]

definition dequeue_bulk ::
  "u64 \<Rightarrow> ImplicitProducer \<times> ('e, 'z) block_pool_scheme \<Rightarrow>
     ((u64 \<times> 'e list) \<times> ImplicitProducer \<times> ('e, 'z) block_pool_scheme) option" where
  "dequeue_bulk maximum s =
     (let (p, q) = s;
          overcommit = dequeueOvercommit p;
          available = tailIndex p - (dequeueOptimisticCount p - overcommit)
      in if circular_less_than 0 available then
           (let desiredCount = (if available < maximum then available else maximum);
                myDequeueCount = dequeueOptimisticCount p;
                p1 = p\<lparr>dequeueOptimisticCount := myDequeueCount + desiredCount\<rparr>;
                remaining = tailIndex p1 - (myDequeueCount - overcommit)
            in if circular_less_than 0 remaining then
                 (let actualCount = (if desiredCount < remaining then desiredCount else remaining);
                      p2 = (if actualCount < desiredCount
                            then p1\<lparr>dequeueOvercommit := overcommit + (desiredCount - actualCount)\<rparr> else p1);
                      firstIndex = headIndex p2;
                      p3 = p2\<lparr>headIndex := firstIndex + actualCount\<rparr>
                  in do {
                    indexIndex \<leftarrow> get_block_index_index_for_index firstIndex p3;
                    (xs, p4, q4) \<leftarrow> dequeue_blocks (firstIndex + actualCount) firstIndex indexIndex (p3, q);
                    Some ((actualCount, xs), p4, q4)
                  })
               else Some ((0, []), p1\<lparr>dequeueOvercommit := overcommit + desiredCount\<rparr>, q))
         else Some ((0, []), p, q))"

section \<open>One block\<close>

text \<open>The state of a block after \<open>m\<close> elements from position \<open>H\<close> on are taken.\<close>

definition pops :: "nat \<Rightarrow> nat \<Rightarrow> 'e Block \<Rightarrow> 'e Block" where
  "pops H m blk = fold popped [H..<H + m] blk"

lemma pops_simps [simp]: "pops H 0 blk = blk" "pops H (Suc m) blk = pops (Suc H) m (popped H blk)"
  by (simp_all add: pops_def upt_conv_Cons del: upt_Suc)

lemma pops_fields [simp]:
  "elementsCompletelyDequeued (pops H m blk) = elementsCompletelyDequeued blk + of_nat m"
  "length (elements (pops H m blk)) = length (elements blk)" "freeListRefs (pops H m blk) = freeListRefs blk"
  "dynamicallyAllocated (pops H m blk) = dynamicallyAllocated blk"
  by (induction m arbitrary: H blk) (simp_all add: popped_def)

lemma pops_elements: "pops H m (blk\<lparr>elementsCompletelyDequeued := n\<rparr>) =
    (pops H m blk)\<lparr>elementsCompletelyDequeued := n + of_nat m\<rparr>"
  by (induction m arbitrary: H blk n) (simp_all add: popped_def add.assoc)

lemma pops_counted: "(pops H m blk)\<lparr>elementsCompletelyDequeued := elementsCompletelyDequeued blk + of_nat m\<rparr> = pops H m blk"
  using pops_fields(1) [where H = H and m = m and blk = blk] by simp

text \<open>What \<open>take_elements\<close> leaves, before the elements are counted.\<close>

lemma take_elements_pops:
  assumes "blocks q a = Some blk" "length (elements blk) = 32" "H mod 32 + length xs \<le> 32"
    "\<forall>j < length xs. elements blk ! (H mod 32 + j) = Some (xs ! j)"
  shows "take_elements a (of_nat H) (of_nat (H + length xs)) q = Some (xs, q\<lparr>blocks := (blocks q)(a \<mapsto>
    (pops H (length xs) blk)\<lparr>elementsCompletelyDequeued := elementsCompletelyDequeued blk\<rparr>)\<rparr>)"
  using assms
proof (induction xs arbitrary: H blk q)
  case Nil
  have "(blocks q)(a \<mapsto> blk) = blocks q" using Nil by auto
  then show ?case by (simp add: take_elements.simps)
next
  case (Cons x xs)
  have ne: "(of_nat H :: u64) \<noteq> of_nat (H + length (x # xs))"
    using of_nat_add_neq [of "length (x # xs)" H] Cons.prems(3) by fastforce
  let ?b = "blk\<lparr>elements := (elements blk)[H mod 32 := None]\<rparr>" and ?n = "elementsCompletelyDequeued blk"
  let ?q = "q\<lparr>blocks := (blocks q)(a \<mapsto> ?b)\<rparr>"
  have t: "take_element a (of_nat H) q = Some (x, ?q)"
    using Cons.prems by (auto simp: take_element_def slot_of_nat nth_opt_def)
  have rest: "take_elements a (of_nat (Suc H)) (of_nat (Suc H + length xs)) ?q =
      Some (xs, ?q\<lparr>blocks := (blocks ?q)(a \<mapsto> (pops (Suc H) (length xs) ?b)\<lparr>elementsCompletelyDequeued := ?n\<rparr>)\<rparr>)"
  proof (cases "xs = []")
    case False
    then have s: "Suc H mod 32 = Suc (H mod 32)" using Cons.prems(3) by (cases xs) (auto simp: mod_Suc)
    have "\<forall>j < length xs. elements ?b ! (Suc H mod 32 + j) = Some (xs ! j)"
    proof (intro allI impI)
      fix j assume "j < length xs"
      with Cons.prems(4) [rule_format, of "Suc j"] show "elements ?b ! (Suc H mod 32 + j) = Some (xs ! j)" by (simp add: s)
    qed
    with Cons.IH [of ?q ?b "Suc H"] Cons.prems s show ?thesis by (simp add: fun_upd_def cong: if_cong)
  qed (simp add: take_elements.simps)
  have "?b = (popped H blk)\<lparr>elementsCompletelyDequeued := ?n\<rparr>" by (simp add: popped_def)
  then have p: "(pops (Suc H) (length xs) ?b)\<lparr>elementsCompletelyDequeued := ?n\<rparr> =
      (pops H (length (x # xs)) blk)\<lparr>elementsCompletelyDequeued := ?n\<rparr>"
    by (simp add: pops_elements)
  have next_index: "(of_nat H :: u64) + 1 = of_nat (Suc H)" by simp
  have "H + length (x # xs) = Suc H + length xs" by simp
  with ne t rest show ?case
    by (subst take_elements.simps) (simp only: if_False next_index p, simp)
qed

lemma set_many_empty_pops:
  assumes "elementsCompletelyDequeued blk = of_nat (H mod 32)" "H mod 32 + m \<le> 32"
  shows "set_many_empty implicit_context i (of_nat m) ((pops H m blk)\<lparr>elementsCompletelyDequeued := elementsCompletelyDequeued blk\<rparr>) =
    Some (H mod 32 + m = 32, pops H m blk)"
proof -
  have sum: "(of_nat (H mod 32) :: u64) + of_nat m = of_nat (H mod 32 + m)" by simp
  have u: "unat (of_nat (H mod 32 + m) :: u64) = H mod 32 + m" using assms(2) by (intro unat64_of_nat) simp
  then have "(of_nat (H mod 32 + m) :: u64) \<le> of_nat BLOCK_SIZE" "(of_nat (H mod 32 + m) :: u64) = of_nat BLOCK_SIZE \<longleftrightarrow> H mod 32 + m = 32"
    using assms(2) by (simp_all add: word_le_nat_alt word_unat_eq_iff BLOCK_SIZE_def del: of_nat_add)
  then show ?thesis
    using assms(1) pops_counted [where H = H and m = m and blk = blk] unfolding set_many_empty_def uses_flags_def
    by (simp add: Let_def sum del: of_nat_add)
qed

lemma stream_mem_pops:
  assumes "stream_mem q V H N (xs @ ys)" "blocks q (V (H div 32)) = Some blk" "H div 32 < N" "H mod 32 + length xs \<le> 32"
    and inj: "\<And>b. H div 32 < b \<Longrightarrow> b < N \<Longrightarrow> V b \<noteq> V (H div 32)"
    and q': "\<And>b. (H + length xs) div 32 \<le> b \<Longrightarrow> b < N \<Longrightarrow>
      blocks q' (V' b) = (if b = H div 32 then Some (pops H (length xs) blk) else blocks q (V b))"
  shows "stream_mem q' V' (H + length xs) N ys"
  using assms
proof (induction xs arbitrary: H q blk)
  case Nil
  then have "blocks q' (V' b) = blocks q (V b)" if "H div 32 \<le> b" "b < N" for b using that by auto
  with Nil.prems(1) show ?case by (auto intro: stream_mem_frame)
next
  case (Cons x xs)
  let ?B = "H div 32"
  have mem: "stream_mem q V H N (x # (xs @ ys))" using Cons.prems(1) by simp
  show ?case
  proof (cases "xs = []")
    case True
    with stream_mem_pop [OF mem Cons.prems(2,3), of q' V'] Cons.prems(6) show ?thesis by simp
  next
    case False
    let ?q = "q\<lparr>blocks := (blocks q)(V ?B \<mapsto> popped H blk)\<rparr>"
    have B: "Suc H div 32 = ?B" "Suc H mod 32 = Suc (H mod 32)"
      using Cons.prems(4) False by (cases xs; auto simp: next_block_start mod_Suc)+
    have "stream_mem ?q V (Suc H) N (xs @ ys)"
      using Cons.prems(5) by (intro stream_mem_pop [OF mem Cons.prems(2,3)]) (force simp: B)
    moreover have "blocks q' (V' b) = (if b = Suc H div 32 then Some (pops (Suc H) (length xs) (popped H blk)) else blocks ?q (V b))"
      if "(Suc H + length xs) div 32 \<le> b" "b < N" for b
    proof -
      have "?B \<le> (Suc H + length xs) div 32" unfolding B(1) [symmetric] by (intro div_le_mono) simp
      then show ?thesis using Cons.prems(6) [of b] Cons.prems(5) [of b] that B(1) by (cases "b = ?B") auto
    qed
    ultimately have "stream_mem q' V' (Suc H + length xs) N ys"
      using Cons.prems(3-5) B by (intro Cons.IH [of ?q "Suc H" "popped H blk"]) simp_all
    then show ?thesis by simp
  qed
qed

section \<open>The blocks\<close>

text \<open>One turn of the loop: the part \<open>xs\<close> of the stream is in the head's block.\<close>

definition taking :: "ImplicitProducer \<Rightarrow> ('e, 'z) block_pool_scheme \<Rightarrow> ptr set \<Rightarrow> (nat \<Rightarrow> ptr) \<Rightarrow> nat \<Rightarrow> nat \<Rightarrow> nat \<Rightarrow> nat \<Rightarrow> 'e list \<Rightarrow> bool" where
  "taking p q F V k c H N xs \<longleftrightarrow> index_rep p k c N {H div 32..<N} V (H div 32) \<and> H div 32 \<le> N \<and> N \<le> H div 32 + 2 ^ k \<and>
     pool_part q F V (H div 32) N \<and> stream_mem q V H N xs"

lemma block_end:
  fixes H m :: nat
  shows "H mod 32 + m < 32 \<Longrightarrow> (H + m) div 32 = H div 32" "H mod 32 + m = 32 \<Longrightarrow> (H + m) div 32 = Suc (H div 32)"
    "32 * (H div 32) + 32 - H = 32 - H mod 32"
proof -
  obtain a r where H: "H = 32 * a + r" "r < 32" "H div 32 = a" "H mod 32 = r"
    by (metis mod_less_divisor mult_div_mod_eq zero_less_numeral)
  show "H mod 32 + m < 32 \<Longrightarrow> (H + m) div 32 = H div 32" "H mod 32 + m = 32 \<Longrightarrow> (H + m) div 32 = Suc (H div 32)"
    unfolding H(3,4) using H(1,2) by (auto intro!: div_nat_eqI)
  show "32 * (H div 32) + 32 - H = 32 - H mod 32" unfolding H(3,4) using H(1) by simp
qed

lemma take_chunk:
  assumes t: "taking p q F V k c H N (xs @ ys)" and BN: "H div 32 < N" and m: "H mod 32 + length xs \<le> 32"
  shows "\<exists>q1 b p' q' V'. take_elements (V (H div 32)) (of_nat H) (of_nat (H + length xs)) q = Some (xs, q1) \<and>
    blocks q1 (V (H div 32)) = Some b \<and>
    (\<exists>b1 q2. set_many_empty implicit_context i (of_nat (length xs)) b = Some (H mod 32 + length xs = 32, b1) \<and>
      update_block (V (H div 32)) (\<lambda>_. b1) q1 = Some q2 \<and>
      (if H mod 32 + length xs = 32
       then do { q3 \<leftarrow> add_block_to_free_list (V (H div 32)) q2; Some (store_value (entry k p (H div 32 + c)) nullptr p, q3) }
       else Some (p, q2)) = Some (p', q')) \<and>
    taking p' q' F V' k c (H + length xs) N ys \<and> agree_on F q q' \<and> same_stream p p' \<and> blockIndex p' = blockIndex p \<and>
    (\<forall>b \<ge> (H + length xs) div 32. V' b = V b)"
proof -
  let ?B = "H div 32" and ?m = "length xs"
  have rep: "index_rep p k c N {?B..<N} V ?B" "N \<le> ?B + 2 ^ k" and pool: "pool_part q F V ?B N" and mem: "stream_mem q V H N (xs @ ys)"
    using t by (simp_all add: taking_def)
  obtain blk where blk: "blocks q (V ?B) = Some blk" "length (elements blk) = 32"
    using pool_part_block(3) [OF pool _ BN] by auto
  have inj: "V b \<noteq> V ?B" if "?B < b" "b < N" for b
    using pool that BN unfolding pool_part_def inj_on_def
    by (metis atLeastLessThan_iff less_imp_le_nat less_irrefl order_refl)
  have H32: "H - 32 * ?B = H mod 32" by (simp add: minus_mult_div_eq_mod)
  have cnt: "elementsCompletelyDequeued blk = of_nat (H mod 32)" using mem BN blk(1) H32 by (auto simp: stream_mem_def)
  have el: "elements blk ! (H mod 32 + j) = Some (xs ! j)" if "j < ?m" for j
  proof -
    have "32 * ?B \<le> H + j" "H + j < 32 * ?B + 32" "H + j - 32 * ?B = H mod 32 + j" using that m H32 by linarith+
    moreover have "(xs @ ys) ! j = xs ! j" using that by (simp add: nth_append)
    moreover have "\<forall>j. 32 * ?B \<le> j \<and> j < 32 * ?B + 32 \<and> H \<le> j \<and> j < H + length (xs @ ys) \<longrightarrow> elements blk ! (j - 32 * ?B) = Some ((xs @ ys) ! (j - H))"
      using mem BN blk(1) by (auto simp: stream_mem_def)
    ultimately show ?thesis using that by (auto dest!: spec [of _ "H + j"])
  qed
  let ?q2 = "q\<lparr>blocks := (blocks q)(V ?B \<mapsto> pops H ?m blk)\<rparr>"
  let ?b = "(pops H ?m blk)\<lparr>elementsCompletelyDequeued := elementsCompletelyDequeued blk\<rparr>"
  let ?q1 = "q\<lparr>blocks := (blocks q)(V ?B \<mapsto> ?b)\<rparr>"
  have taken: "take_elements (V ?B) (of_nat H) (of_nat (H + ?m)) q = Some (xs, ?q1)"
    using take_elements_pops [OF blk m] el by blast
  have counted: "set_many_empty implicit_context i (of_nat ?m) ?b = Some (H mod 32 + ?m = 32, pops H ?m blk)"
    by (rule set_many_empty_pops [OF cnt m])
  have upd: "update_block (V ?B) (\<lambda>_. pops H ?m blk) ?q1 = Some ?q2" by simp
  have pool2: "pool_part ?q2 F V ?B N" "agree_on F q ?q2"
    using pool_part_update [OF pool _ BN blk(1), of "pops H ?m blk"] by simp_all
  note pops = stream_mem_pops [OF mem blk(1) BN m inj]
  show ?thesis
  proof (cases "H mod 32 + ?m = 32")
    case False
    then have B: "(H + ?m) div 32 = ?B" using m by (intro block_end(1)) simp
    have "stream_mem ?q2 V (H + ?m) N ys" using inj by (intro pops) (force simp: B)+
    then have "taking p ?q2 F V k c (H + ?m) N ys" using rep pool2 BN by (simp add: taking_def B)
    with False taken counted upd pool2(2) show ?thesis
      by (intro exI [of _ ?q1] exI [of _ ?b] exI [of _ p] exI [of _ ?q2] exI [of _ V]) simp
  next
    case True
    then have B: "(H + ?m) div 32 = Suc ?B" by (rule block_end(2))
    let ?V = "V(?B := nullptr)" and ?p = "store_value (entry k p (?B + c)) nullptr p"
    from leave_block [OF rep pool2(1) BN] obtain q3 where q3: "add_block_to_free_list (V ?B) ?q2 = Some q3"
      "pool_part q3 F ?V (Suc ?B) N" "agree_on (V ` {Suc ?B..<N} \<union> F) ?q2 q3" "index_rep ?p k c N {Suc ?B..<N} ?V (Suc ?B)"
      by blast
    have "stream_mem q3 ?V (H + ?m) N ys"
    proof (intro pops)
      fix b assume b: "(H + ?m) div 32 \<le> b" "b < N"
      then have "blocks q3 (V b) = blocks ?q2 (V b)" using q3(3) B by (auto simp: agree_on_def)
      with b B inj [of b] show "blocks q3 (?V b) = (if b = ?B then Some (pops H ?m blk) else blocks q (V b))" by simp
    qed
    then have "taking ?p q3 F ?V k c (H + ?m) N ys" using rep q3 BN by (simp add: taking_def B)
    moreover have "agree_on F q q3" using pool2(2) q3(3) by (auto simp: agree_on_def)
    moreover have "blockIndex ?p = blockIndex p" by (simp add: store_value_def)
    ultimately show ?thesis using True taken counted upd q3(1) B
      by (intro exI [of _ ?q1] exI [of _ ?b] exI [of _ ?p] exI [of _ q3] exI [of _ ?V]) simp
  qed
qed

text \<open>The loop.\<close>

lemma dequeue_blocks_taking:
  assumes "taking p q F V k c H N (xs @ ys)" "H div 32 < N" "H + length (xs @ ys) \<le> 32 * N" "length xs < 2 ^ 63"
  shows "\<exists>p' q' V'. dequeue_blocks (of_nat (H + length xs)) (of_nat H) (unat (take_bit k (of_nat (H div 32 + c) :: u64))) (p, q) =
      Some (xs, p', q') \<and> taking p' q' F V' k c (H + length xs) N ys \<and> agree_on F q q' \<and> same_stream p p' \<and>
      (\<forall>b \<ge> (H + length xs) div 32. V' b = V b)"
  using assms
proof (induction "length xs" arbitrary: xs p q V H rule: less_induct)
  case less
  let ?L = "length xs" and ?B = "H div 32"
  define m where "m = min ?L (32 - H mod 32)"
  define us where "us = take m xs"
  define vs where "vs = drop m xs"
  have xs: "xs = us @ vs" and m: "length us = m" "H mod 32 + m \<le> 32" "m \<le> ?L" by (auto simp: us_def vs_def m_def)
  have rep: "index_rep p k c N {?B..<N} V ?B" "N \<le> ?B + 2 ^ k" using less.prems(1) by (simp_all add: taking_def)
  have stop: "(if circular_less_than (of_nat (H + ?L)) (block_base (of_nat H) + of_nat BLOCK_SIZE) then of_nat (H + ?L)
      else block_base (of_nat H) + of_nat BLOCK_SIZE) = (of_nat (H + m) :: u64)"
    using stop_index [OF less.prems(4), of H] by (simp add: m_def block_end(3))
  have e: "nth_opt (bi_index (hd (blockIndex p))) (unat (take_bit k (of_nat (?B + c) :: u64))) = Some (entry k p (?B + c))"
    by (rule nth_entry [OF rep(1)])
  have v: "nth_opt (bi_entries p) (entry k p (?B + c)) = Some (of_nat (32 * ?B), V ?B)"
    using rep less.prems(2) nth_entries [OF rep(1), of "?B + c"] by (auto simp: index_rep_def prod_eq_iff)
  from take_chunk [of p q F V k c H N us "vs @ ys" "of_nat H"] less.prems(1,2) m xs obtain q1 b p1 q3 V1 b1 q2 where
    ch: "take_elements (V ?B) (of_nat H) (of_nat (H + m)) q = Some (us, q1)" "blocks q1 (V ?B) = Some b"
      "set_many_empty implicit_context (of_nat H) (of_nat m) b = Some (H mod 32 + m = 32, b1)"
      "update_block (V ?B) (\<lambda>_. b1) q1 = Some q2"
      "(if H mod 32 + m = 32
        then do { q3 \<leftarrow> add_block_to_free_list (V ?B) q2; Some (store_value (entry k p (?B + c)) nullptr p, q3) }
        else Some (p, q2)) = Some (p1, q3)"
    and t1: "taking p1 q3 F V1 k c (H + m) N (vs @ ys)" "agree_on F q q3" "same_stream p p1" "blockIndex p1 = blockIndex p"
      "\<forall>b \<ge> (H + m) div 32. V1 b = V b" by auto
  have diff: "(of_nat (H + m) :: u64) - of_nat H = of_nat m" by simp
  have loop: "dequeue_blocks (of_nat (H + ?L)) (of_nat H) (unat (take_bit k (of_nat (?B + c) :: u64))) (p, q) =
    (if (of_nat (H + m) :: u64) = of_nat (H + ?L) then Some (us, p1, q3)
     else do {
       (zs, p4, q4) \<leftarrow> dequeue_blocks (of_nat (H + ?L)) (of_nat (H + m))
         (unat ((of_nat (unat (take_bit k (of_nat (?B + c) :: u64))) + 1) AND (bi_capacity (hd (blockIndex p)) - 1))) (p1, q3);
       Some (us @ zs, p4, q4)
     })"
    by (subst dequeue_blocks.simps) (simp only: Let_def prod.case stop e v ch diff Option.bind.simps)
  show ?case
  proof (cases "m = ?L")
    case True
    then have "vs = []" "us = xs" by (simp_all add: vs_def us_def True)
    then have "dequeue_blocks (of_nat (H + ?L)) (of_nat H) (unat (take_bit k (of_nat (?B + c) :: u64))) (p, q) = Some (xs, p1, q3)"
      using loop unfolding True by (simp only: if_True refl)
    moreover have "taking p1 q3 F V1 k c (H + ?L) N ys" "\<forall>b \<ge> (H + ?L) div 32. V1 b = V b"
      using t1(1,5) \<open>vs = []\<close> unfolding True by simp_all
    ultimately show ?thesis using t1(2,3) by blast
  next
    case False
    then have lt: "m < ?L" "H mod 32 + m = 32" using m(3) by (auto simp: m_def)
    have B: "(H + m) div 32 = Suc ?B" "(H + m) mod 32 = 0" using lt(2) block_end(2) by (auto simp: mod_add_left_eq [of H 32 m, symmetric])
    have len: "length vs = ?L - m" "H + m + length vs = H + ?L" using lt by (simp_all add: vs_def)
    have "0 < m" using lt(2) mod_less_divisor [of 32 H] by linarith
    then have "length vs < ?L" using lt len by simp
    moreover have "(H + m) div 32 < N"
    proof -
      have "32 * Suc ?B = H + m" using B by (metis add.right_neutral mult_div_mod_eq)
      then show ?thesis using B lt(1) less.prems(3) by simp
    qed
    ultimately obtain p' q' V' where r: "dequeue_blocks (of_nat (H + ?L)) (of_nat (H + m)) (unat (take_bit k (of_nat (Suc ?B + c) :: u64))) (p1, q3) =
        Some (vs, p', q')" "taking p' q' F V' k c (H + ?L) N ys" "agree_on F q3 q'" "same_stream p1 p'"
        "\<forall>b \<ge> (H + ?L) div 32. V' b = V1 b"
      using less.hyps [of vs p1 q3 V1 "H + m"] t1(1) less.prems(3,4) len B by auto
    have "of_nat (H + m + (?L - m)) \<noteq> (of_nat (H + m) :: u64)" using lt(1) less.prems(4) by (intro of_nat_add_neq) simp_all
    then have "of_nat (H + m) \<noteq> (of_nat (H + ?L) :: u64)" using lt(1) by simp
    moreover have nxt: "(of_nat (unat (take_bit k (of_nat (?B + c) :: u64))) + 1) AND (bi_capacity (hd (blockIndex p)) - 1) =
        take_bit k (of_nat (Suc ?B + c) :: u64)"
    proof -
      have "bi_capacity (hd (blockIndex p)) = 2 ^ k" using rep(1) by (simp add: index_rep_def)
      then show ?thesis using take_bit_absorb [of k "of_nat (?B + c)" 1] by (simp add: and_capacity algebra_simps)
    qed
    have "(H + m) div 32 \<le> (H + ?L) div 32" using lt by (intro div_le_mono) simp
    ultimately have "dequeue_blocks (of_nat (H + ?L)) (of_nat H) (unat (take_bit k (of_nat (?B + c) :: u64))) (p, q) = Some (xs, p', q')"
      unfolding loop nxt r(1) by (simp only: if_False Option.bind.simps prod.case xs [symmetric])
    moreover have "\<forall>b \<ge> (H + ?L) div 32. V' b = V b" using r(5) t1(5) \<open>(H + m) div 32 \<le> (H + ?L) div 32\<close> by auto
    ultimately show ?thesis using r(2-4) t1(2,3) agree_on_trans same_stream_trans by blast
  qed
qed

section \<open>The whole operation\<close>

lemma dequeue_bulk_inv:
  assumes "producer_inv p q F xs U"
  shows "\<exists>p' q' U'. dequeue_bulk maximum (p, q) =
      Some ((of_nat (min (unat maximum) (length xs)), take (unat maximum) xs), p', q') \<and>
    producer_inv p' q' F (drop (unat maximum) xs) U' \<and> agree_on F q q' \<and> inactive p' = inactive p"
proof -
  from assms obtain V H N where N: "N = (H + length xs + 31) div 32" and pb: "producer_blocks p q F V H N"
    and mem: "stream_mem q V H N xs" and t: "tailIndex p = of_nat (H + length xs)" "H div 32 < N \<longrightarrow> tailBlock p = V (N - 1)"
    unfolding producer_inv_def by blast
  let ?L = "length xs"
  define M where "M = min (unat maximum) ?L"
  have ph: "headIndex p = of_nat H" "dequeueOptimisticCount p - dequeueOvercommit p = of_nat H" "32 * N < H + 2 ^ 63"
    using pb by (simp_all add: producer_blocks_def producer_head_def)
  have TN: "H + ?L \<le> 32 * N" unfolding N by (rule ceil_block)
  then have L: "?L < 2 ^ 63" using ph(3) by linarith
  have avail: "tailIndex p - (dequeueOptimisticCount p - dequeueOvercommit p) = of_nat ?L" unfolding t(1) ph(2) by simp
  have less: "circular_less_than 0 (of_nat ?L) \<longleftrightarrow> xs \<noteq> []"
    using circular_less_than_of_nat [of 0 ?L] L by simp
  show ?thesis
  proof (cases "xs = []")
    case True
    with less have "dequeue_bulk maximum (p, q) = Some ((0, []), p, q)" by (simp add: dequeue_bulk_def Let_def avail)
    with True assms show ?thesis by fastforce
  next
    case False
    then have BN: "H div 32 < N" using TN by (cases xs) auto
    have uL: "unat (of_nat ?L :: u64) = ?L" using L by (intro unat64_of_nat) simp
    have M: "M \<le> ?L" "unat (of_nat M :: u64) = M" using uL by (auto simp: M_def min_def)
    have M3: "of_nat M = (if of_nat ?L < maximum then of_nat ?L else maximum)"
    proof (cases "of_nat ?L < maximum")
      case False
      then have "M = unat maximum" using uL by (simp add: M_def word_less_nat_alt)
      with False show ?thesis by simp
    qed (use uL in \<open>simp add: M_def word_less_nat_alt\<close>)
    define p3 where "p3 = p\<lparr>dequeueOptimisticCount := dequeueOptimisticCount p + of_nat M, headIndex := headIndex p + of_nat M\<rparr>"
    from pb BN obtain k c where "index_rep p k c N {H div 32..<N} V (H div 32)" "N \<le> H div 32 + 2 ^ k"
      by (auto simp: producer_blocks_def index_ok_def split: if_splits)
    then have rep: "index_rep p3 k c N {H div 32..<N} V (H div 32)" "N \<le> H div 32 + 2 ^ k"
      by (auto simp: p3_def elim: index_rep_frame)
    have "N < H div 32 + 1 + 2 ^ 58" using pb head_block unfolding producer_blocks_def by blast
    then have near: "H div 32 < N - 1 + 2 ^ 58" "N - 1 < H div 32 + 2 ^ 58" using BN by linarith+
    have "V (H div 32) \<noteq> nullptr" using producer_block(1) [OF pb _ BN] by simp
    then have idx: "get_block_index_index_for_index (of_nat H) p3 = Some (unat (take_bit k (of_nat (H div 32 + c) :: u64)))"
      using BN by (intro lookup_index [OF rep(1) _ _ _ near]) (auto simp: block_base_of_nat)
    have len: "length (take M xs) = M" using M(1) by simp
    have "taking p3 q F V k c H N (take M xs @ drop M xs)"
      using rep pb mem BN by (simp add: taking_def producer_blocks_def)
    from dequeue_blocks_taking [OF this BN] TN L M(1) obtain p' q' V' where
      d: "dequeue_blocks (of_nat (H + M)) (of_nat H) (unat (take_bit k (of_nat (H div 32 + c) :: u64))) (p3, q) = Some (take M xs, p', q')"
      and tk: "taking p' q' F V' k c (H + M) N (drop M xs)" and fr: "agree_on F q q'" "same_stream p3 p'"
        "\<forall>b \<ge> (H + M) div 32. V' b = V b"
      unfolding len by fastforce
    have actual: "(if of_nat M < (of_nat ?L :: u64) then of_nat M else of_nat ?L) = (of_nat M :: u64)"
      using M uL by (auto simp: word_less_nat_alt)
    have "dequeue_bulk maximum (p, q) = Some ((of_nat M, take M xs), p', q')"
    proof -
      have "tailIndex (p\<lparr>dequeueOptimisticCount := x\<rparr>) = tailIndex p" "headIndex (p\<lparr>dequeueOptimisticCount := x\<rparr>) = headIndex p" for x
        by simp_all
      moreover have "circular_less_than 0 (of_nat ?L)" using less False by simp
      ultimately show ?thesis
        using d idx unfolding p3_def ph(1) of_nat_add
        by (simp only: dequeue_bulk_def Let_def prod.case avail M3 [symmetric] if_True actual less_irrefl if_False ph(1) Option.bind.simps)
    qed
    moreover have "producer_head p' (H + M) N" using fr(2) ph by (auto simp: producer_head_def same_stream_def p3_def)
    then have "producer_blocks p' q' F V' (H + M) N" using tk by (auto simp: producer_blocks_def taking_def intro: index_okI)
    then have "\<exists>U'. producer_inv p' q' F (drop M xs) U'"
      using tk N M(1) t fr(2,3) by (intro producer_invI [of _ _ _ V' "H + M" N]) (auto simp: taking_def same_stream_def p3_def)
    moreover have "take M xs = take (unat maximum) xs" "drop M xs = drop (unat maximum) xs" by (simp_all add: M_def min_def)
    moreover have "inactive p' = inactive p" using fr(2) by (simp add: same_stream_def p3_def)
    ultimately show ?thesis using fr(1) unfolding M_def [symmetric] by auto
  qed
qed

section \<open>What it leaves alone\<close>

lemma take_elements_rest [keeps_rest]:
  assumes "take_elements b i j q = Some (xs, q')"
  shows "rest_of q' = rest_of q"
proof -
  have "rest_of (snd r) = rest_of q" if "take_elements b i j q = Some r" for r
  proof (rule take_elements.raw_induct [of "\<lambda>b i j q r. rest_of (snd r) = rest_of q", OF _ that], goal_cases)
    case (1 f b i j q r)
    note IH = 1(1)
    from 1(2) show ?case by (auto simp: bind_eq_Some_conv dest!: IH keeps_rest split: if_splits)
  qed
  from this [OF assms] show ?thesis by simp
qed

lemma dequeue_blocks_rest [keeps_rest]:
  assumes "dequeue_blocks l i n (p, q) = Some (xs, p', q')"
  shows "rest_of q' = rest_of q"
proof -
  have "rest_of (snd (snd r)) = rest_of (snd s)" if "dequeue_blocks l i n s = Some r" for r s
  proof (rule dequeue_blocks.raw_induct [of "\<lambda>l i n s r. rest_of (snd (snd r)) = rest_of (snd s)", OF _ that], goal_cases)
    case (1 f l i n s r)
    note IH = 1(1)
    from 1(2) show ?case
      by (cases s) (auto simp: bind_eq_Some_conv Let_def simp del: Product_Type.split_paired_Ex dest!: IH keeps_rest split: if_splits)
  qed
  from this [OF assms] show ?thesis by simp
qed

lemma dequeue_bulk_rest [keeps_rest]: "dequeue_bulk n (p, q) = Some (r, p', q') \<Longrightarrow> rest_of q' = rest_of q"
  by (auto simp: dequeue_bulk_def Let_def bind_eq_Some_conv dest!: keeps_rest split: if_splits)

end
