(* ===== verification/Concurrent_Queue.thy ===== *)
theory Concurrent_Queue
  imports Producer_Take
begin

text \<open>
  The queue itself (\<open>concurrentqueue.h\<close>: \<open>ConcurrentQueue\<close>): a list of producers, one for each thread
  that has enqueued, found through a hash table from thread ids to producers; elements are taken from
  the fullest of the first three producers that are not empty.

  The producers are listed in the order in which they were added, and a pointer to one is its number; the
  code's list runs from the newest to the oldest. All of them are implicit ones: the code of the executor makes no
  token. The hash tables are listed from the current one to the oldest. A thread is its tid.
\<close>

section \<open>Data\<close>

text \<open>The two thread ids that no thread has: the key of a free entry, and that of an entry given up by a thread.\<close>

definition invalid_thread_id :: u64 where
  "invalid_thread_id = 0"

definition invalid_thread_id2 :: u64 where
  "invalid_thread_id2 = 1"

record ImplicitProducerHash =
  hash_capacity :: u64
  hash_entries :: "(u64 \<times> nat option) list"

record 'e ConcurrentQueue = "'e block_pool" +
  producers :: "ImplicitProducer list"
  producerCount :: u32
  implicitProducerHash :: "ImplicitProducerHash list"
  implicitProducerHashCount :: u64
  implicitProducerHashResizeInProgress :: bool
  nextExplicitConsumerId :: u32
  globalExplicitConsumerOffset :: u32

section \<open>Construction\<close>

definition empty_hash :: "u64 \<Rightarrow> ImplicitProducerHash" where
  "empty_hash capacity = \<lparr>hash_capacity = capacity, hash_entries = replicate (unat capacity) (invalid_thread_id, None)\<rparr>"

definition populate_initial_implicit_producer_hash :: "'e ConcurrentQueue \<Rightarrow> 'e ConcurrentQueue" where
  "populate_initial_implicit_producer_hash q =
     q\<lparr>implicitProducerHashCount := 0, implicitProducerHash := [empty_hash INITIAL_IMPLICIT_PRODUCER_HASH_SIZE]\<rparr>"

definition bare_queue :: "'e ConcurrentQueue" where
  "bare_queue = \<lparr>blocks = Map.empty, allocations = 0, initialBlockPool = nullptr, initialBlockPoolSize = 0,
     initialBlockPoolIndex = 0, freeListHead = nullptr, producers = [], producerCount = 0,
     implicitProducerHash = [], implicitProducerHashCount = 0, implicitProducerHashResizeInProgress = False,
     nextExplicitConsumerId = 0, globalExplicitConsumerOffset = 0\<rparr>"

definition new_queue :: "(nat \<Rightarrow> ptr) \<Rightarrow> u64 \<Rightarrow> 'e ConcurrentQueue" where
  "new_queue mem capacity =
     populate_initial_block_list mem
       (capacity div of_nat BLOCK_SIZE + (if capacity AND of_nat (BLOCK_SIZE - 1) = 0 then 0 else 1))
       (populate_initial_implicit_producer_hash bare_queue)"

text \<open>The constructor that computes the number of blocks itself.\<close>

definition new_queue_for :: "(nat \<Rightarrow> ptr) \<Rightarrow> u64 \<Rightarrow> u64 \<Rightarrow> u64 \<Rightarrow> 'e ConcurrentQueue" where
  "new_queue_for mem minCapacity maxExplicitProducers maxImplicitProducers =
     (let blockCount = ((minCapacity + of_nat BLOCK_SIZE - 1) div of_nat BLOCK_SIZE - 1) * (maxExplicitProducers + 1) +
            2 * (maxExplicitProducers + maxImplicitProducers)
      in populate_initial_block_list mem blockCount (populate_initial_implicit_producer_hash bare_queue))"

section \<open>Producers\<close>

definition add_producer :: "ImplicitProducer option \<Rightarrow> 'e ConcurrentQueue \<Rightarrow> nat option \<times> 'e ConcurrentQueue" where
  "add_producer producer q =
     (case producer of
        None \<Rightarrow> (None, q)
      | Some p \<Rightarrow> (Some (length (producers q)), q\<lparr>producerCount := producerCount q + 1, producers := producers q @ [p]\<rparr>))"

definition set_producer :: "nat \<Rightarrow> ImplicitProducer \<Rightarrow> 'e ConcurrentQueue \<Rightarrow> 'e ConcurrentQueue" where
  "set_producer i p q = q\<lparr>producers := (producers q)[i := p]\<rparr>"

text \<open>The list as the code walks it: the newest producer first.\<close>

definition producer_order :: "'e ConcurrentQueue \<Rightarrow> nat list" where
  "producer_order q = rev [0..<length (producers q)]"

definition recycle_or_create_producer :: "(nat \<Rightarrow> ptr) \<Rightarrow> 'e ConcurrentQueue \<Rightarrow> (nat option \<times> 'e ConcurrentQueue) option" where
  "recycle_or_create_producer mem q =
     (case find (\<lambda>i. inactive (producers q ! i)) (producer_order q) of
        Some i \<Rightarrow> Some (Some i, set_producer i ((producers q ! i)\<lparr>inactive := False\<rparr>) q)
      | None \<Rightarrow>
          (case malloc mem q of (ok, q1) \<Rightarrow>
             if \<not> ok then Some (add_producer None q1)
             else do {
               (p, q2) \<leftarrow> new_implicit_producer mem q1;
               Some (add_producer (Some p) q2)
             }))"

section \<open>The hash table of threads\<close>

text \<open>Walking a table from an index, to the first entry whose key ends the walk.\<close>

partial_function (option) probe :: "(u64 \<Rightarrow> bool) \<Rightarrow> u64 \<Rightarrow> ImplicitProducerHash \<Rightarrow> nat option" where
  "probe stop index hash =
     (let i = index AND (hash_capacity hash - 1)
      in do {
        (key, _) \<leftarrow> nth_opt (hash_entries hash) (unat i);
        if stop key then Some (unat i) else probe stop (i + 1) hash
      })"

declare probe.simps [code]

definition set_entry :: "nat \<Rightarrow> u64 \<Rightarrow> nat option \<Rightarrow> ImplicitProducerHash \<Rightarrow> ImplicitProducerHash" where
  "set_entry i key val hash = hash\<lparr>hash_entries := (hash_entries hash)[i := (key, val)]\<rparr>"

text \<open>The entry of a thread in one table, or \<open>None\<close> inside the result when a free entry ends the search.\<close>

definition find_in_hash :: "u64 \<Rightarrow> u64 \<Rightarrow> ImplicitProducerHash \<Rightarrow> nat option option" where
  "find_in_hash tid hashedId hash =
     do {
       i \<leftarrow> probe (\<lambda>k. k = tid \<or> k = invalid_thread_id) hashedId hash;
       Some (if fst (hash_entries hash ! i) = tid then Some i else None)
     }"

text \<open>In all tables: the number of the table, and the producer found there.\<close>

fun find_in_hashes :: "u64 \<Rightarrow> u64 \<Rightarrow> nat \<Rightarrow> ImplicitProducerHash list \<Rightarrow> (nat \<times> nat option) option option" where
  "find_in_hashes tid hashedId n [] = Some None"
| "find_in_hashes tid hashedId n (hash # prevs) =
     do {
       found \<leftarrow> find_in_hash tid hashedId hash;
       case found of
         Some i \<Rightarrow> Some (Some (n, snd (hash_entries hash ! i)))
       | None \<Rightarrow> find_in_hashes tid hashedId (Suc n) prevs
     }"

text \<open>
  Claiming an entry of the current table, a free one or one given up; the result tells whether it was one
  that a thread had given up.
\<close>

definition claim_entry :: "u64 \<Rightarrow> u64 \<Rightarrow> nat option \<Rightarrow> 'e ConcurrentQueue \<Rightarrow> (bool \<times> 'e ConcurrentQueue) option" where
  "claim_entry tid hashedId val q =
     (case implicitProducerHash q of
        [] \<Rightarrow> None
      | mainHash # prevs \<Rightarrow>
          do {
            i \<leftarrow> probe (\<lambda>k. k = invalid_thread_id \<or> k = invalid_thread_id2) hashedId mainHash;
            Some (fst (hash_entries mainHash ! i) = invalid_thread_id2,
              q\<lparr>implicitProducerHash := set_entry i tid val mainHash # prevs\<rparr>)
          })"

partial_function (option) grow_capacity :: "u64 \<Rightarrow> u64 \<Rightarrow> u64 option" where
  "grow_capacity newCount newCapacity =
     (if newCount \<ge> drop_bit 1 newCapacity then grow_capacity newCount (push_bit 1 newCapacity) else Some newCapacity)"

declare grow_capacity.simps [code]

text \<open>A new current table when the old one is half full; false when there is no memory for it.\<close>

definition resize_hash :: "(nat \<Rightarrow> ptr) \<Rightarrow> u64 \<Rightarrow> 'e ConcurrentQueue \<Rightarrow> (bool \<times> 'e ConcurrentQueue) option" where
  "resize_hash mem newCount q =
     (case implicitProducerHash q of
        [] \<Rightarrow> None
      | mainHash # prevs \<Rightarrow>
          if newCount \<ge> drop_bit 1 (hash_capacity mainHash) \<and> \<not> implicitProducerHashResizeInProgress q then
            do {
              newCapacity \<leftarrow> grow_capacity newCount (push_bit 1 (hash_capacity mainHash));
              case malloc mem q of (ok, q1) \<Rightarrow>
                if \<not> ok then
                  Some (False, q1\<lparr>implicitProducerHashCount := implicitProducerHashCount q1 - 1,
                    implicitProducerHashResizeInProgress := False\<rparr>)
                else
                  Some (True, q1\<lparr>implicitProducerHash := empty_hash newCapacity # mainHash # prevs,
                    implicitProducerHashResizeInProgress := False\<rparr>)
            }
          else Some (True, q))"

partial_function (option) insert_thread ::
  "(nat \<Rightarrow> ptr) \<Rightarrow> u64 \<Rightarrow> u64 \<Rightarrow> u64 \<Rightarrow> 'e ConcurrentQueue \<Rightarrow> (nat option \<times> 'e ConcurrentQueue) option" where
  "insert_thread mem tid hashedId newCount q =
     do {
       (ok, q1) \<leftarrow> resize_hash mem newCount q;
       if \<not> ok then Some (None, q1)
       else do {
         let capacity = hash_capacity (hd (implicitProducerHash q1));
         if newCount < drop_bit 1 capacity + drop_bit 2 capacity then do {
           (producer, q2) \<leftarrow> recycle_or_create_producer mem q1;
           case producer of
             None \<Rightarrow> Some (None, q2\<lparr>implicitProducerHashCount := implicitProducerHashCount q2 - 1\<rparr>)
           | Some p \<Rightarrow> do {
               (reused, q3) \<leftarrow> claim_entry tid hashedId (Some p) q2;
               Some (Some p, if reused then q3\<lparr>implicitProducerHashCount := implicitProducerHashCount q3 - 1\<rparr> else q3)
             }
         }
         else insert_thread mem tid hashedId newCount q1
       }
     }"

declare insert_thread.simps [code]

definition get_or_add_implicit_producer ::
  "(nat \<Rightarrow> ptr) \<Rightarrow> u64 \<Rightarrow> 'e ConcurrentQueue \<Rightarrow> (nat option \<times> 'e ConcurrentQueue) option" where
  "get_or_add_implicit_producer mem tid q =
     do {
       let hashedId = hash_64 tid;
       found \<leftarrow> find_in_hashes tid hashedId 0 (implicitProducerHash q);
       case found of
         Some (n, val) \<Rightarrow>
           if n = 0 then Some (val, q)
           else do { (_, q1) \<leftarrow> claim_entry tid hashedId val q; Some (val, q1) }
       | None \<Rightarrow>
           (let newCount = 1 + implicitProducerHashCount q
            in insert_thread mem tid hashedId newCount (q\<lparr>implicitProducerHashCount := newCount\<rparr>))
     }"

text \<open>A thread ends: its entries are given up in every table, and its producer can be used again.\<close>

definition give_up :: "u64 \<Rightarrow> u64 \<Rightarrow> ImplicitProducerHash \<Rightarrow> ImplicitProducerHash option" where
  "give_up tid hashedId hash =
     do {
       i \<leftarrow> probe (\<lambda>k. k = tid \<or> k = invalid_thread_id) hashedId hash;
       Some (if fst (hash_entries hash ! i) = tid then set_entry i invalid_thread_id2 (snd (hash_entries hash ! i)) hash else hash)
     }"

definition implicit_producer_thread_exited :: "u64 \<Rightarrow> nat \<Rightarrow> 'e ConcurrentQueue \<Rightarrow> 'e ConcurrentQueue option" where
  "implicit_producer_thread_exited tid producer q =
     do {
       hashes \<leftarrow> those (map (give_up tid (hash_64 tid)) (implicitProducerHash q));
       Some (set_producer producer ((producers q ! producer)\<lparr>inactive := True\<rparr>) (q\<lparr>implicitProducerHash := hashes\<rparr>))
     }"

section \<open>The operations\<close>

text \<open>Running an operation of one producer.\<close>

definition on_producer ::
  "nat \<Rightarrow> (ImplicitProducer \<times> 'e ConcurrentQueue \<Rightarrow> ('r \<times> ImplicitProducer \<times> 'e ConcurrentQueue) option) \<Rightarrow>
     'e ConcurrentQueue \<Rightarrow> ('r \<times> 'e ConcurrentQueue) option" where
  "on_producer i f q =
     do {
       p \<leftarrow> nth_opt (producers q) i;
       (r, p1, q1) \<leftarrow> f (p, q);
       Some (r, set_producer i p1 q1)
     }"

definition inner_enqueue ::
  "(nat \<Rightarrow> ptr) \<Rightarrow> AllocationMode \<Rightarrow> u64 \<Rightarrow> 'e \<Rightarrow> 'e ConcurrentQueue \<Rightarrow> (bool \<times> 'e ConcurrentQueue) option" where
  "inner_enqueue mem canAlloc tid element q =
     do {
       (producer, q1) \<leftarrow> get_or_add_implicit_producer mem tid q;
       case producer of None \<Rightarrow> Some (False, q1) | Some i \<Rightarrow> on_producer i (enqueue mem canAlloc element) q1
     }"

definition inner_enqueue_bulk ::
  "(nat \<Rightarrow> ptr) \<Rightarrow> AllocationMode \<Rightarrow> u64 \<Rightarrow> 'e list \<Rightarrow> 'e ConcurrentQueue \<Rightarrow> (bool \<times> 'e ConcurrentQueue) option" where
  "inner_enqueue_bulk mem canAlloc tid items q =
     do {
       (producer, q1) \<leftarrow> get_or_add_implicit_producer mem tid q;
       case producer of None \<Rightarrow> Some (False, q1) | Some i \<Rightarrow> on_producer i (enqueue_bulk mem canAlloc items) q1
     }"

text \<open>\<open>enqueue\<close> and \<open>enqueue_bulk\<close> without a token, and the variants that do not allocate blocks. The table of threads is
  never switched off: \<open>INITIAL_IMPLICIT_PRODUCER_HASH_SIZE\<close> is not 0.\<close>

definition queue_enqueue :: "(nat \<Rightarrow> ptr) \<Rightarrow> u64 \<Rightarrow> 'e \<Rightarrow> 'e ConcurrentQueue \<Rightarrow> (bool \<times> 'e ConcurrentQueue) option" where
  "queue_enqueue mem tid item q = inner_enqueue mem CanAlloc tid item q"

definition queue_enqueue_bulk :: "(nat \<Rightarrow> ptr) \<Rightarrow> u64 \<Rightarrow> 'e list \<Rightarrow> 'e ConcurrentQueue \<Rightarrow> (bool \<times> 'e ConcurrentQueue) option" where
  "queue_enqueue_bulk mem tid items q = inner_enqueue_bulk mem CanAlloc tid items q"

definition try_enqueue :: "(nat \<Rightarrow> ptr) \<Rightarrow> u64 \<Rightarrow> 'e \<Rightarrow> 'e ConcurrentQueue \<Rightarrow> (bool \<times> 'e ConcurrentQueue) option" where
  "try_enqueue mem tid item q = inner_enqueue mem CannotAlloc tid item q"

definition try_enqueue_bulk :: "(nat \<Rightarrow> ptr) \<Rightarrow> u64 \<Rightarrow> 'e list \<Rightarrow> 'e ConcurrentQueue \<Rightarrow> (bool \<times> 'e ConcurrentQueue) option" where
  "try_enqueue_bulk mem tid items q = inner_enqueue_bulk mem CannotAlloc tid items q"

text \<open>Scoring the producers: the number of non-empty ones seen, the best one and its size.\<close>

fun score_producers :: "'e ConcurrentQueue \<Rightarrow> nat \<Rightarrow> nat option \<Rightarrow> u64 \<Rightarrow> nat list \<Rightarrow> nat \<times> nat option" where
  "score_producers q nonEmptyCount best bestSize [] = (nonEmptyCount, best)"
| "score_producers q nonEmptyCount best bestSize (i # is) =
     (if nonEmptyCount < 3 then
        (let size = size_approx (producers q ! i)
         in if size > 0 then
              (if size > bestSize then score_producers q (Suc nonEmptyCount) (Some i) size is
               else score_producers q (Suc nonEmptyCount) best bestSize is)
            else score_producers q nonEmptyCount best bestSize is)
      else (nonEmptyCount, best))"

text \<open>Trying the producers one after the other.\<close>

fun try_producers :: "nat option \<Rightarrow> nat list \<Rightarrow> 'e ConcurrentQueue \<Rightarrow> ('e option \<times> 'e ConcurrentQueue) option" where
  "try_producers best [] q = Some (None, q)"
| "try_producers best (i # is) q =
     (if best = Some i then try_producers best is q
      else do {
        (r, q1) \<leftarrow> on_producer i dequeue q;
        if r \<noteq> None then Some (r, q1) else try_producers best is q1
      })"

definition try_dequeue :: "'e ConcurrentQueue \<Rightarrow> ('e option \<times> 'e ConcurrentQueue) option" where
  "try_dequeue q =
     (case score_producers q 0 None 0 (producer_order q) of (nonEmptyCount, best) \<Rightarrow>
        if nonEmptyCount > 0 then
          (case best of
             None \<Rightarrow> None
           | Some b \<Rightarrow>
               do {
                 (r, q1) \<leftarrow> on_producer b dequeue q;
                 if r \<noteq> None then Some (r, q1) else try_producers best (producer_order q1) q1
               })
        else Some (None, q))"

text \<open>Without scoring: the producers in turn.\<close>

definition try_dequeue_non_interleaved :: "'e ConcurrentQueue \<Rightarrow> ('e option \<times> 'e ConcurrentQueue) option" where
  "try_dequeue_non_interleaved q = try_producers None (producer_order q) q"

text \<open>Several elements: from each producer in turn as many as are still wanted.\<close>

fun bulk_from :: "u64 \<Rightarrow> u64 \<Rightarrow> nat list \<Rightarrow> 'e ConcurrentQueue \<Rightarrow> ((u64 \<times> 'e list) \<times> 'e ConcurrentQueue) option" where
  "bulk_from maximum cnt [] q = Some ((cnt, []), q)"
| "bulk_from maximum cnt (i # is) q =
     do {
       ((n, xs), q1) \<leftarrow> on_producer i (dequeue_bulk (maximum - cnt)) q;
       let cnt1 = cnt + n;
       if cnt1 = maximum then Some ((cnt1, xs), q1)
       else do {
         ((total, ys), q2) \<leftarrow> bulk_from maximum cnt1 is q1;
         Some ((total, xs @ ys), q2)
       }
     }"

definition try_dequeue_bulk :: "u64 \<Rightarrow> 'e ConcurrentQueue \<Rightarrow> ((u64 \<times> 'e list) \<times> 'e ConcurrentQueue) option" where
  "try_dequeue_bulk maximum q = bulk_from maximum 0 (producer_order q) q"

definition queue_size_approx :: "'e ConcurrentQueue \<Rightarrow> u64" where
  "queue_size_approx q = sum_list (map (\<lambda>i. size_approx (producers q ! i)) (producer_order q))"

end
