(* ===== verification/Queue_Streams.thy ===== *)
theory Queue_Streams
  imports Concurrent_Queue
begin

text \<open>
  The streams of all producers of a queue: each is a first-in first-out list, all draw on one block pool, and
  no block belongs to two of them. The lists are computed from the state by \<open>streams\<close>.
\<close>

section \<open>Reading a stream\<close>

definition element_at :: "('e, 'z) block_pool_scheme \<Rightarrow> ImplicitProducer \<Rightarrow> nat \<Rightarrow> 'e option" where
  "element_at q p n =
     (let i = headIndex p + of_nat n
      in do {
        e \<leftarrow> get_block_index_entry_for_index i p;
        (_, block) \<leftarrow> nth_opt (bi_entries p) e;
        b \<leftarrow> blocks q block;
        cell \<leftarrow> nth_opt (elements b) (slot i);
        cell
      })"

definition producer_elements :: "('e, 'z) block_pool_scheme \<Rightarrow> ImplicitProducer \<Rightarrow> 'e list" where
  "producer_elements q p = map (\<lambda>n. the (element_at q p n)) [0..<unat (tailIndex p - headIndex p)]"

definition streams :: "'e ConcurrentQueue \<Rightarrow> 'e list list" where
  "streams q = map (producer_elements q) (producers q)"

lemma producer_elements_inv:
  assumes "producer_inv p q F xs U"
  shows "producer_elements q p = xs"
proof -
  from assms obtain V H N where v: "N = (H + length xs + 31) div 32" "producer_blocks p q F V H N" "stream_mem q V H N xs"
    "tailIndex p = of_nat (H + length xs)"
    unfolding producer_inv_def by blast
  have head: "headIndex p = of_nat H" using v(2) by (simp add: producer_blocks_def producer_head_def)
  have "unat (of_nat (length xs) :: u64) = length xs"
    using size_approx_inv(2) [OF assms] by (intro unat64_of_nat) simp
  then have len: "unat (tailIndex p - headIndex p) = length xs" unfolding v(4) head by simp
  have "element_at q p n = Some (xs ! n)" if n: "n < length xs" for n
  proof -
    define j where "j = H + n"
    have ih: "headIndex p + of_nat n = of_nat j" by (simp add: head j_def)
    have TN: "H + length xs \<le> 32 * N" unfolding v(1) by (rule ceil_block)
    have b: "H div 32 \<le> j div 32" "j div 32 < N" using n TN by (auto simp: j_def div_le_mono)
    from block_lookup [OF v(2) b block_base_of_nat] obtain e where
      e: "get_block_index_entry_for_index (of_nat j) p = Some e" "nth_opt (bi_entries p) e = Some (of_nat (32 * (j div 32)), V (j div 32))"
      by blast
    from v(3) b obtain blk where blk: "blocks q (V (j div 32)) = Some blk"
      "\<forall>i. 32 * (j div 32) \<le> i \<and> i < 32 * (j div 32) + 32 \<and> H \<le> i \<and> i < H + length xs \<longrightarrow>
         elements blk ! (i - 32 * (j div 32)) = Some (xs ! (i - H))" unfolding stream_mem_def by blast
    have "length (elements blk) = 32" using producer_block(3) [OF v(2) b] blk(1) by auto
    moreover have "elements blk ! (j mod 32) = Some (xs ! n)"
      using blk(2) [rule_format, of j] n by (simp add: j_def minus_mult_div_eq_mod)
    ultimately show ?thesis using e blk(1) unfolding element_at_def ih by (simp add: slot_of_nat nth_opt_def)
  qed
  then show ?thesis unfolding producer_elements_def len by (intro nth_equalityI) auto
qed

section \<open>All producers together\<close>

definition others :: "nat \<Rightarrow> ptr set list \<Rightarrow> ptr set" where
  "others i Us = \<Union> {Us ! j | j. j < length Us \<and> j \<noteq> i}"

definition producers_inv :: "ImplicitProducer list \<Rightarrow> ('e, 'z) block_pool_scheme \<Rightarrow> 'e list list \<Rightarrow> ptr set list \<Rightarrow> bool" where
  "producers_inv ps q xss Us \<longleftrightarrow> length xss = length ps \<and> length Us = length ps \<and> (\<exists>fs. pool_inv q fs (\<Union> (set Us))) \<and>
     (\<forall>i < length ps. producer_inv (ps ! i) q (others i Us) (xss ! i) (Us ! i))"

lemma others_Un: "i < length Us \<Longrightarrow> Us ! i \<union> others i Us = \<Union> (set Us)"
  unfolding others_def set_conv_nth by blast

lemma others_sub: "j < length Us \<Longrightarrow> j \<noteq> i \<Longrightarrow> Us ! j \<subseteq> others i Us"
  unfolding others_def by blast

lemma others_update: "i < length Us \<Longrightarrow> others i (Us[i := U]) = others i Us"
  unfolding others_def by (auto simp: nth_list_update)

lemma producers_inv_update:
  assumes inv: "producers_inv ps q xss Us" and i: "i < length ps"
    and new: "producer_inv p' q' (others i Us) xs' U'" "agree_on (others i Us) q q'"
  shows "producers_inv (ps[i := p']) q' (xss[i := xs']) (Us[i := U'])"
proof -
  have len: "length xss = length ps" "length Us = length ps" using inv by (auto simp: producers_inv_def)
  obtain fs where fs: "pool_inv q' fs (U' \<union> others i Us)" "U' \<inter> others i Us = {}" using producer_inv_pool [OF new(1)] by blast
  have all: "\<Union> (set (Us[i := U'])) = U' \<union> others i Us"
    using others_Un [of i "Us[i := U']"] others_update [of i Us U'] i len by simp
  have "producer_inv (ps ! j) q' (others j (Us[i := U'])) (xss ! j) (Us ! j)" if j: "j < length ps" "j \<noteq> i" for j
  proof (rule producer_inv_frame)
    show "producer_inv (ps ! j) q (others j Us) (xss ! j) (Us ! j)" using inv j by (simp add: producers_inv_def)
    show "agree_on (Us ! j) q q'" using new(2) others_sub [of j Us i] j len by (auto simp: agree_on_def)
    have "Us[i := U'] ! j = Us ! j" using j by simp
    then show "pool_inv q' fs (Us ! j \<union> others j (Us[i := U']))"
      using fs(1) others_Un [of j "Us[i := U']"] j len all by simp
    have "producer_inv (ps ! j) q (others j Us) (xss ! j) (Us ! j)" using inv j by (simp add: producers_inv_def)
    then have "Us ! j \<inter> others j Us = {}" by (rule producer_inv_pool)
    moreover have "Us ! j \<inter> U' = {}" using fs(2) others_sub [of j Us i] j len by auto
    moreover have "others j (Us[i := U']) \<subseteq> others j Us \<union> U'"
      using i len by (auto simp: others_def nth_list_update)
    ultimately show "Us ! j \<inter> others j (Us[i := U']) = {}" by blast
  qed
  then show ?thesis
    using len i new(1) fs(1) all others_update [of i Us U'] by (auto simp: producers_inv_def nth_list_update)
qed

lemma producers_inv_append:
  assumes inv: "producers_inv ps q xss Us" and new: "producer_inv p q' (\<Union> (set Us)) [] {}" "agree_on (\<Union> (set Us)) q q'"
  shows "producers_inv (ps @ [p]) q' (xss @ [[]]) (Us @ [{}])"
proof -
  have len: "length xss = length ps" "length Us = length ps" using inv by (auto simp: producers_inv_def)
  obtain fs where fs: "pool_inv q' fs (\<Union> (set Us))" using producer_inv_pool(1) [OF new(1)] by auto
  have ot: "others j (Us @ [{}]) = others j Us" for j
    unfolding others_def by (auto simp: nth_append)
  have last: "others (length Us) Us = \<Union> (set Us)" unfolding others_def set_conv_nth by blast
  have "producer_inv (ps ! j) q' (others j Us) (xss ! j) (Us ! j)" if j: "j < length ps" for j
  proof (rule producer_inv_frame)
    show "producer_inv (ps ! j) q (others j Us) (xss ! j) (Us ! j)" using inv j by (simp add: producers_inv_def)
    then show "Us ! j \<inter> others j Us = {}" by (rule producer_inv_pool)
    show "agree_on (Us ! j) q q'" using new(2) others_Un [of j Us] j len by (auto simp: agree_on_def)
    show "pool_inv q' fs (Us ! j \<union> others j Us)" using fs others_Un [of j Us] j len by simp
  qed
  then show ?thesis
    using len new(1) fs by (auto simp: producers_inv_def ot last [unfolded len] nth_append less_Suc_eq)
qed


section \<open>Operations on one of the producers\<close>

definition streams_inv :: "'e ConcurrentQueue \<Rightarrow> bool" where
  "streams_inv q \<longleftrightarrow> (\<exists>Us. producers_inv (producers q) q (streams q) Us)"

lemma streams_invI:
  assumes "producers_inv (producers q) q xss Us"
  shows "streams q = xss" "streams_inv q"
proof -
  show "streams q = xss"
    using assms producer_elements_inv unfolding producers_inv_def streams_def by (intro nth_equalityI [where xs = "map _ _"]) fastforce+
  then show "streams_inv q" using assms by (auto simp: streams_inv_def)
qed

lemma length_streams [simp]: "length (streams q) = length (producers q)"
  by (simp add: streams_def)

text \<open>What only the thread table is about.\<close>

definition same_table :: "'e ConcurrentQueue \<Rightarrow> 'e ConcurrentQueue \<Rightarrow> bool" where
  "same_table q q' \<longleftrightarrow> map inactive (producers q') = map inactive (producers q) \<and>
     implicitProducerHash q' = implicitProducerHash q \<and> implicitProducerHashCount q' = implicitProducerHashCount q \<and>
     implicitProducerHashResizeInProgress q' = implicitProducerHashResizeInProgress q \<and> producerCount q' = producerCount q \<and>
     nextExplicitConsumerId q' = nextExplicitConsumerId q \<and> globalExplicitConsumerOffset q' = globalExplicitConsumerOffset q"

lemma same_table_refl [simp]: "same_table q q"
  by (simp add: same_table_def)

lemma same_table_trans: "same_table q q' \<Longrightarrow> same_table q' q'' \<Longrightarrow> same_table q q''"
  by (simp add: same_table_def)

lemma same_table_length: "same_table q q' \<Longrightarrow> length (producers q') = length (producers q)"
  unfolding same_table_def by (metis length_map)

lemma rest_fields:
  assumes "rest_of q' = rest_of (q :: 'e ConcurrentQueue)"
  shows "producers q' = producers q" "implicitProducerHash q' = implicitProducerHash q"
    "implicitProducerHashCount q' = implicitProducerHashCount q"
    "implicitProducerHashResizeInProgress q' = implicitProducerHashResizeInProgress q" "producerCount q' = producerCount q"
    "nextExplicitConsumerId q' = nextExplicitConsumerId q" "globalExplicitConsumerOffset q' = globalExplicitConsumerOffset q"
  using assms by (cases q; cases q'; simp)+

text \<open>The streams depend on the block pool and the producers only.\<close>

lemma pool_inv_fields [simp]:
  "pool_inv (q\<lparr>producers := ps\<rparr>) fs U = pool_inv q fs U" "pool_inv (q\<lparr>producerCount := n\<rparr>) fs U = pool_inv q fs U"
  "pool_inv (q\<lparr>implicitProducerHash := h\<rparr>) fs U = pool_inv q fs U" "pool_inv (q\<lparr>implicitProducerHashCount := c\<rparr>) fs U = pool_inv q fs U"
  "pool_inv (q\<lparr>implicitProducerHashResizeInProgress := b\<rparr>) fs U = pool_inv q fs U"
  by (simp_all add: pool_inv_def pool_rest_def initial_blocks_def block_ok_def)

lemma producer_inv_fields [simp]:
  "producer_inv p (q\<lparr>producers := ps\<rparr>) F xs U = producer_inv p q F xs U" "producer_inv p (q\<lparr>producerCount := n\<rparr>) F xs U = producer_inv p q F xs U"
  "producer_inv p (q\<lparr>implicitProducerHash := h\<rparr>) F xs U = producer_inv p q F xs U"
  "producer_inv p (q\<lparr>implicitProducerHashCount := c\<rparr>) F xs U = producer_inv p q F xs U"
  "producer_inv p (q\<lparr>implicitProducerHashResizeInProgress := b\<rparr>) F xs U = producer_inv p q F xs U"
  by (simp_all add: producer_inv_def producer_blocks_def pool_part_def stream_mem_def)

lemma producers_inv_fields [simp]:
  "producers_inv ps (q\<lparr>producers := ps'\<rparr>) xss Us = producers_inv ps q xss Us" "producers_inv ps (q\<lparr>producerCount := n\<rparr>) xss Us = producers_inv ps q xss Us"
  "producers_inv ps (q\<lparr>implicitProducerHash := h\<rparr>) xss Us = producers_inv ps q xss Us"
  "producers_inv ps (q\<lparr>implicitProducerHashCount := c\<rparr>) xss Us = producers_inv ps q xss Us"
  "producers_inv ps (q\<lparr>implicitProducerHashResizeInProgress := b\<rparr>) xss Us = producers_inv ps q xss Us"
  by (simp_all add: producers_inv_def)

lemma on_producer_inv:
  assumes inv: "streams_inv q" and i: "i < length (producers q)"
    and step: "\<And>F xs U. producer_inv (producers q ! i) q F xs U \<Longrightarrow>
      \<exists>r p' q' U'. f (producers q ! i, q) = Some (r, p', q') \<and> producer_inv p' q' F (g r xs) U' \<and> R r xs \<and> agree_on F q q' \<and>
        inactive p' = inactive (producers q ! i)"
    and rest: "\<And>p r p' q'. f (p, q) = Some (r, p', q') \<Longrightarrow> rest_of q' = rest_of q"
  shows "\<exists>r q'. on_producer i f q = Some (r, q') \<and> streams_inv q' \<and> streams q' = (streams q)[i := g r (streams q ! i)] \<and>
    R r (streams q ! i) \<and> same_table q q'"
proof -
  from inv obtain Us where us: "producers_inv (producers q) q (streams q) Us" by (auto simp: streams_inv_def)
  then have "producer_inv (producers q ! i) q (others i Us) (streams q ! i) (Us ! i)" using i by (simp add: producers_inv_def)
  from step [OF this] obtain r p' q' U' where s: "f (producers q ! i, q) = Some (r, p', q')"
    "producer_inv p' q' (others i Us) (g r (streams q ! i)) U'" "R r (streams q ! i)" "agree_on (others i Us) q q'"
    "inactive p' = inactive (producers q ! i)" by blast
  note fields = rest_fields [OF rest [OF s(1)]]
  let ?q = "set_producer i p' q'"
  have ps: "producers ?q = (producers q)[i := p']" by (simp add: set_producer_def fields)
  have "producers_inv (producers ?q) ?q ((streams q)[i := g r (streams q ! i)]) (Us[i := U'])"
    unfolding ps using producers_inv_update [OF us i s(2,4)] by (simp add: set_producer_def)
  note streams_invI [OF this]
  moreover have "on_producer i f q = Some (r, ?q)" using i s(1) by (simp add: on_producer_def nth_opt_def)
  moreover have "same_table q ?q"
    using fields s(5) by (simp add: same_table_def set_producer_def map_update) (metis i list_update_id map_update nth_map length_map)
  ultimately show ?thesis using s(3) by auto
qed

lemma on_producer_enqueue_bulk:
  assumes "streams_inv q" "i < length (producers q)" "length xs \<le> VECTOR_MAX"
  shows "\<exists>ok q'. on_producer i (enqueue_bulk mem m xs) q = Some (ok, q') \<and> streams_inv q' \<and> same_table q q' \<and>
    streams q' = (streams q)[i := streams q ! i @ (if ok then xs else [])]"
proof -
  have "\<exists>ok q'. on_producer i (enqueue_bulk mem m xs) q = Some (ok, q') \<and> streams_inv q' \<and>
      streams q' = (streams q)[i := (\<lambda>ok ys. if ok then ys @ xs else ys) ok (streams q ! i)] \<and> True \<and> same_table q q'"
  proof (rule on_producer_inv [OF assms(1,2), where R = "\<lambda>_ _. True"])
    fix F ys U assume p: "producer_inv (producers q ! i) q F ys U"
    show "\<exists>r p' q' U'. enqueue_bulk mem m xs (producers q ! i, q) = Some (r, p', q') \<and> producer_inv p' q' F (if r then ys @ xs else ys) U' \<and>
        True \<and> agree_on F q q' \<and> inactive p' = inactive (producers q ! i)"
      using enqueue_bulk_inv [OF p assms(3), of mem m] by blast
  qed (rule enqueue_bulk_rest)
  then show ?thesis by (auto split: if_splits)
qed

lemma on_producer_enqueue:
  assumes "streams_inv q" "i < length (producers q)"
  shows "\<exists>ok q'. on_producer i (enqueue mem m x) q = Some (ok, q') \<and> streams_inv q' \<and> same_table q q' \<and>
    streams q' = (streams q)[i := streams q ! i @ (if ok then [x] else [])]"
proof -
  have "\<exists>ok q'. on_producer i (enqueue mem m x) q = Some (ok, q') \<and> streams_inv q' \<and>
      streams q' = (streams q)[i := (\<lambda>ok ys. if ok then ys @ [x] else ys) ok (streams q ! i)] \<and> True \<and> same_table q q'"
  proof (rule on_producer_inv [OF assms(1,2), where R = "\<lambda>_ _. True"])
    fix F ys U assume p: "producer_inv (producers q ! i) q F ys U"
    show "\<exists>r p' q' U'. enqueue mem m x (producers q ! i, q) = Some (r, p', q') \<and> producer_inv p' q' F (if r then ys @ [x] else ys) U' \<and>
        True \<and> agree_on F q q' \<and> inactive p' = inactive (producers q ! i)"
      using enqueue_inv [OF p, of mem m x] by blast
  qed (rule enqueue_rest)
  then show ?thesis by (auto split: if_splits)
qed

lemma on_producer_dequeue:
  assumes "streams_inv q" "i < length (producers q)"
  shows "\<exists>q'. on_producer i dequeue q = Some (if streams q ! i = [] then None else Some (hd (streams q ! i)), q') \<and>
    streams_inv q' \<and> same_table q q' \<and> streams q' = (streams q)[i := tl (streams q ! i)]"
proof -
  have "\<exists>r q'. on_producer i dequeue q = Some (r, q') \<and> streams_inv q' \<and>
      streams q' = (streams q)[i := (\<lambda>_. tl) r (streams q ! i)] \<and> (r = (if streams q ! i = [] then None else Some (hd (streams q ! i)))) \<and>
      same_table q q'"
  proof (rule on_producer_inv [OF assms, where R = "\<lambda>r xs. r = (if xs = [] then None else Some (hd xs))"])
    fix F xs U assume p: "producer_inv (producers q ! i) q F xs U"
    show "\<exists>r p' q' U'. dequeue (producers q ! i, q) = Some (r, p', q') \<and> producer_inv p' q' F (tl xs) U' \<and>
        r = (if xs = [] then None else Some (hd xs)) \<and> agree_on F q q' \<and> inactive p' = inactive (producers q ! i)"
    proof (cases xs)
      case Nil
      with p dequeue_empty show ?thesis by fastforce
    next
      case (Cons x ys)
      with dequeue_inv p show ?thesis by fastforce
    qed
  qed (rule dequeue_rest)
  then show ?thesis by auto
qed

lemma on_producer_dequeue_bulk:
  assumes "streams_inv q" "i < length (producers q)"
  shows "\<exists>q'. on_producer i (dequeue_bulk n) q = Some ((of_nat (min (unat n) (length (streams q ! i))), take (unat n) (streams q ! i)), q') \<and>
    streams_inv q' \<and> same_table q q' \<and> streams q' = (streams q)[i := drop (unat n) (streams q ! i)]"
proof -
  have "\<exists>r q'. on_producer i (dequeue_bulk n) q = Some (r, q') \<and> streams_inv q' \<and>
      streams q' = (streams q)[i := (\<lambda>_. drop (unat n)) r (streams q ! i)] \<and>
      r = (of_nat (min (unat n) (length (streams q ! i))), take (unat n) (streams q ! i)) \<and> same_table q q'"
  proof (rule on_producer_inv [OF assms, where R = "\<lambda>r xs. r = (of_nat (min (unat n) (length xs)), take (unat n) xs)"])
    fix F xs U assume p: "producer_inv (producers q ! i) q F xs U"
    show "\<exists>r p' q' U'. dequeue_bulk n (producers q ! i, q) = Some (r, p', q') \<and> producer_inv p' q' F (drop (unat n) xs) U' \<and>
        r = (of_nat (min (unat n) (length xs)), take (unat n) xs) \<and> agree_on F q q' \<and> inactive p' = inactive (producers q ! i)"
      using dequeue_bulk_inv [OF p, of n] by blast
  qed (rule dequeue_bulk_rest)
  then show ?thesis by auto
qed

end
