(* ===== verification/Queue_Scan.thy ===== *)
theory Queue_Scan
  imports Queue_Streams
begin

text \<open>
  What the operations that walk the list of producers do to the streams: taking an element out of one of them,
  counting, and making or reusing a producer.
\<close>

section \<open>Taking an element\<close>

lemma stream_size:
  assumes "streams_inv q" "i < length (producers q)"
  shows "size_approx (producers q ! i) = of_nat (length (streams q ! i))" "length (streams q ! i) < 2 ^ 63"
proof -
  from assms(1) obtain Us where "producers_inv (producers q) q (streams q) Us" by (auto simp: streams_inv_def)
  then have "producer_inv (producers q ! i) q (others i Us) (streams q ! i) (Us ! i)"
    using assms(2) by (simp add: producers_inv_def)
  from size_approx_inv [OF this]
  show "size_approx (producers q ! i) = of_nat (length (streams q ! i))" "length (streams q ! i) < 2 ^ 63" .
qed

text \<open>The producers that \<open>try_dequeue\<close> compares: the first three in its order that have elements.\<close>

definition candidates :: "'e ConcurrentQueue \<Rightarrow> nat list" where
  "candidates q = take 3 (filter (\<lambda>i. streams q ! i \<noteq> []) (producer_order q))"

definition fullest :: "'e ConcurrentQueue \<Rightarrow> nat list \<Rightarrow> nat \<Rightarrow> bool" where
  "fullest q is i \<longleftrightarrow> i \<in> set is \<and> (\<forall>j \<in> set is. length (streams q ! j) \<le> length (streams q ! i))"

lemma score_producers_fullest:
  assumes "streams_inv q" "\<forall>i \<in> set is. i < length (producers q)" "n \<le> 3" "z = of_nat s" "s < 2 ^ 63"
    "score_producers q n best z is = (n', best')" "cs = take (3 - n) (filter (\<lambda>i. streams q ! i \<noteq> []) is)"
  shows "n' = n + length cs \<and>
    ((best' = best \<and> (\<forall>j \<in> set cs. length (streams q ! j) \<le> s)) \<or>
     (\<exists>i. best' = Some i \<and> fullest q cs i \<and> s < length (streams q ! i)))"
  using assms(2-)
proof (induction "is" arbitrary: n best z s cs)
  case (Cons i "is")
  note sz = stream_size [OF assms(1), of i]
  have i: "i < length (producers q)" using Cons.prems by simp
  show ?case
  proof (cases "n < 3")
    case True
    then obtain m where m: "3 - n = Suc m" "m = 3 - Suc n" by (cases "3 - n") auto
    have u: "unat (of_nat (length (streams q ! i)) :: u64) = length (streams q ! i)" "unat (of_nat s :: u64) = s"
      using sz(2) [OF i] Cons.prems(4) by (auto intro!: unat64_of_nat)
    have pos: "size_approx (producers q ! i) > 0 \<longleftrightarrow> streams q ! i \<noteq> []"
      and more: "size_approx (producers q ! i) > z \<longleftrightarrow> s < length (streams q ! i)"
      using u by (simp_all add: sz(1) [OF i] Cons.prems(3) word_less_nat_alt)
    show ?thesis
    proof (cases "streams q ! i = []")
      case empty: True
      have "score_producers q n best z is = (n', best')" "cs = take (3 - n) (filter (\<lambda>i. streams q ! i \<noteq> []) is)"
        using Cons.prems True pos empty by (simp_all add: Let_def)
      from Cons.IH [OF _ Cons.prems(2-4) this] Cons.prems(1) show ?thesis by simp
    next
      case ne: False
      define ds where "ds = take (3 - Suc n) (filter (\<lambda>i. streams q ! i \<noteq> []) is)"
      have cs: "cs = i # ds" using Cons.prems(6) ne m by (simp add: ds_def)
      show ?thesis
      proof (cases "s < length (streams q ! i)")
        case bigger: True
        then have "score_producers q (Suc n) (Some i) (of_nat (length (streams q ! i))) is = (n', best')"
          using Cons.prems(5) True pos more ne sz(1) [OF i] by (simp add: Let_def)
        from Cons.IH [OF _ _ refl sz(2) [OF i] this ds_def] Cons.prems(1) True
        show ?thesis using bigger by (auto simp: cs fullest_def)
      next
        case False
        then have "score_producers q (Suc n) best z is = (n', best')"
          using Cons.prems(5) True pos more ne by (simp add: Let_def)
        from Cons.IH [OF _ _ Cons.prems(3,4) this ds_def] Cons.prems(1) True
        show ?thesis using False by (auto simp: cs fullest_def)
      qed
    qed
  next
    case False
    with Cons.prems show ?thesis by simp
  qed
qed simp

lemma candidates_none: "candidates q = [] \<longleftrightarrow> (\<forall>xs \<in> set (streams q). xs = [])"
  unfolding candidates_def producer_order_def all_set_conv_all_nth by (auto simp: filter_empty_conv)

lemma candidates_bound: "i \<in> set (candidates q) \<Longrightarrow> i < length (producers q) \<and> streams q ! i \<noteq> []"
  unfolding candidates_def producer_order_def by (drule in_set_takeD) auto

lemma try_dequeue_empty:
  assumes "streams_inv q" "candidates q = []"
  shows "try_dequeue q = Some (None, q)"
proof -
  obtain n best where s: "score_producers q 0 None 0 (producer_order q) = (n, best)" by fastforce
  have "candidates q = take (3 - 0) (filter (\<lambda>i. streams q ! i \<noteq> []) (producer_order q))" by (simp add: candidates_def)
  from score_producers_fullest [OF assms(1) _ _ _ _ s this, of 0] assms(2)
  have "n = 0" by (simp add: producer_order_def)
  with s show ?thesis by (simp add: try_dequeue_def)
qed

lemma try_dequeue_takes:
  assumes "streams_inv q" "candidates q \<noteq> []"
  shows "\<exists>i q'. fullest q (candidates q) i \<and> try_dequeue q = Some (Some (hd (streams q ! i)), q') \<and>
    streams_inv q' \<and> same_table q q' \<and> streams q' = (streams q)[i := tl (streams q ! i)]"
proof -
  obtain n best where s: "score_producers q 0 None 0 (producer_order q) = (n, best)" by fastforce
  have "candidates q = take (3 - 0) (filter (\<lambda>i. streams q ! i \<noteq> []) (producer_order q))" by (simp add: candidates_def)
  from score_producers_fullest [OF assms(1) _ _ _ _ s this, of 0]
  have n: "n = length (candidates q)" and
    "(\<forall>j \<in> set (candidates q). streams q ! j = []) \<or> (\<exists>i. best = Some i \<and> fullest q (candidates q) i)"
    by (auto simp: producer_order_def)
  then obtain i where i: "best = Some i" "fullest q (candidates q) i"
    using assms(2) candidates_bound by (metis list.set_intros(1) neq_Nil_conv)
  then have "i < length (producers q)" "streams q ! i \<noteq> []" using candidates_bound by (auto simp: fullest_def)
  from on_producer_dequeue [OF assms(1) this(1)] this(2) obtain q' where
    q': "on_producer i dequeue q = Some (Some (hd (streams q ! i)), q')" "streams_inv q'" "same_table q q'"
    "streams q' = (streams q)[i := tl (streams q ! i)]" by auto
  have "try_dequeue q = Some (Some (hd (streams q ! i)), q')"
    using assms(2) by (simp add: try_dequeue_def s n i(1) q'(1))
  with q' i(2) show ?thesis by blast
qed

text \<open>Without scoring, the newest producer that has elements serves.\<close>

lemma try_producers_takes:
  assumes "streams_inv q" "\<forall>i \<in> set is. i < length (producers q)"
  shows "case find (\<lambda>i. streams q ! i \<noteq> []) is of
      None \<Rightarrow> \<exists>q'. try_producers None is q = Some (None, q') \<and> streams_inv q' \<and> same_table q q' \<and> streams q' = streams q
    | Some i \<Rightarrow> \<exists>q'. try_producers None is q = Some (Some (hd (streams q ! i)), q') \<and> streams_inv q' \<and> same_table q q' \<and>
        streams q' = (streams q)[i := tl (streams q ! i)]"
  using assms
proof (induction "is" arbitrary: q)
  case (Cons i "is")
  then obtain q1 where q1: "on_producer i dequeue q = Some (if streams q ! i = [] then None else Some (hd (streams q ! i)), q1)"
    "streams_inv q1" "same_table q q1" "streams q1 = (streams q)[i := tl (streams q ! i)]"
    using on_producer_dequeue [of q i] by auto
  show ?case
  proof (cases "streams q ! i = []")
    case True
    then have s: "streams q1 = streams q" using q1(4) by simp (metis list_update_id)
    have "\<forall>i \<in> set is. i < length (producers q1)" using Cons.prems(2) same_table_length [OF q1(3)] by simp
    from Cons.IH [OF q1(2) this] show ?thesis
      using q1(1,3) True s by (auto split: option.splits intro: same_table_trans)
  next
    case False
    with q1 show ?thesis by simp
  qed
qed auto

text \<open>Taking several elements, from the streams in the order of the list.\<close>

fun bulk_take :: "nat \<Rightarrow> 'e list list \<Rightarrow> 'e list \<times> 'e list list" where
  "bulk_take n [] = ([], [])"
| "bulk_take n (xs # xss) = (case bulk_take (n - length xs) xss of (ys, yss) \<Rightarrow> (take n xs @ ys, drop n xs # yss))"

lemma bulk_take_none [simp]: "bulk_take 0 xss = ([], xss)"
  by (induction xss) simp_all

lemma bulk_take_length: "bulk_take n xss = (ys, yss) \<Longrightarrow> length yss = length xss"
  by (induction xss arbitrary: n ys yss) (auto split: prod.splits)

text \<open>Each stream is cut in two.\<close>

lemma bulk_take_cut:
  "bulk_take n xss = (ys, yss) \<Longrightarrow> \<exists>us. ys = concat us \<and> length us = length xss \<and> (\<forall>i < length xss. xss ! i = us ! i @ yss ! i)"
proof (induction xss arbitrary: n ys yss)
  case (Cons xs xss)
  obtain vs vss where v: "bulk_take (n - length xs) xss = (vs, vss)" by fastforce
  with Cons.prems have e: "ys = take n xs @ vs" "yss = drop n xs # vss" by auto
  from Cons.IH [OF v] obtain us where "vs = concat us" "length us = length xss" "\<forall>i < length xss. xss ! i = us ! i @ vss ! i" by blast
  then show ?case unfolding e by (intro exI [of _ "take n xs # us"]) (auto simp: nth_Cons split: nat.split)
qed simp

lemma bulk_from_takes:
  assumes "streams_inv q" "is = rev [0..<m]" "m \<le> length (producers q)" "unat maximum = unat cnt + n"
    "bulk_take n (rev (take m (streams q))) = (ys, yss)"
  shows "\<exists>q'. bulk_from maximum cnt is q = Some ((cnt + of_nat (length ys), ys), q') \<and> streams_inv q' \<and> same_table q q' \<and>
    streams q' = rev yss @ drop m (streams q)"
  using assms
proof (induction m arbitrary: q "is" cnt n ys yss)
  case (Suc m)
  have m: "m < length (producers q)" "m < length (streams q)" using Suc.prems(3) by auto
  let ?xs = "streams q ! m"
  have diff: "unat (maximum - cnt) = n"
    using Suc.prems(4) by (subst unat_sub) (simp_all add: word_le_nat_alt)
  have len: "length ?xs < 2 ^ 63" by (rule stream_size(2) [OF Suc.prems(1) m(1)])
  from on_producer_dequeue_bulk [OF Suc.prems(1) m(1), of "maximum - cnt"] obtain q1 where
    q1: "on_producer m (dequeue_bulk (maximum - cnt)) q = Some ((of_nat (min n (length ?xs)), take n ?xs), q1)" "streams_inv q1"
      "same_table q q1" "streams q1 = (streams q)[m := drop n ?xs]" unfolding diff by blast
  have st: "take (Suc m) (streams q) = take m (streams q) @ [?xs]" using m(2) by (rule take_Suc_conv_app_nth)
  obtain vs vss where v: "bulk_take (n - length ?xs) (rev (take m (streams q))) = (vs, vss)" by fastforce
  then have ys: "ys = take n ?xs @ vs" "yss = drop n ?xs # vss" using Suc.prems(5) unfolding st by auto
  have len_vss: "length vss = m" using bulk_take_length [OF v] m(2) by simp
  let ?cnt = "cnt + of_nat (min n (length ?xs)) :: u64"
  have nmax: "n \<le> unat maximum" using Suc.prems(4) by simp
  have umin: "unat (of_nat (min n (length ?xs)) :: u64) = min n (length ?xs)" using len by (intro unat64_of_nat) simp
  have "unat cnt + min n (length ?xs) < 2 ^ 64"
    using Suc.prems(4) unsigned_less [of maximum, where ?'a = nat] by (auto simp: min_def)
  then have ucnt: "unat ?cnt = unat cnt + min n (length ?xs)" by (simp add: unat_plus_if' umin)
  have stop: "?cnt = maximum \<longleftrightarrow> n \<le> length ?xs"
    unfolding word_unat_eq_iff ucnt Suc.prems(4) by (simp add: min_def)
  have idx: "is = m # rev [0..<m]" using Suc.prems(2) by simp
  show ?case
  proof (cases "n \<le> length ?xs")
    case True
    then have "vs = []" "vss = rev (take m (streams q))" using v by simp_all
    moreover have "streams q1 = take m (streams q) @ drop n ?xs # drop (Suc m) (streams q)"
      using q1(4) m(2) by (simp add: upd_conv_take_nth_drop)
    ultimately show ?thesis
      using q1 stop True ys unfolding idx by (auto simp: min_absorb1)
  next
    case False
    then have *: "unat maximum = unat ?cnt + (n - length ?xs)" using Suc.prems(4) ucnt by simp
    have same: "take m (streams q1) = take m (streams q)" "drop m (streams q1) = drop n ?xs # drop (Suc m) (streams q)"
      using q1(4) m(2) by (simp_all add: upd_conv_take_nth_drop)
    from Suc.IH [OF q1(2) refl _ *(1) v [folded same(1)]] m(1) same_table_length [OF q1(3)] obtain q' where
      q': "bulk_from maximum ?cnt (rev [0..<m]) q1 = Some ((?cnt + of_nat (length vs), vs), q')" "streams_inv q'" "same_table q1 q'"
        "streams q' = rev vss @ drop n ?xs # drop (Suc m) (streams q)" unfolding same(2) by auto
    have "of_nat (length ys) = (of_nat (min n (length ?xs)) + of_nat (length vs) :: u64)" using False by (simp add: ys)
    with q1 q' stop False ys show ?thesis unfolding idx by (auto simp: add.assoc intro: same_table_trans)
  qed
qed auto

lemma try_dequeue_bulk_takes:
  assumes "streams_inv q" "bulk_take (unat maximum) (rev (streams q)) = (ys, yss)"
  shows "\<exists>q'. try_dequeue_bulk maximum q = Some ((of_nat (length ys), ys), q') \<and> streams_inv q' \<and> same_table q q' \<and>
    streams q' = rev yss"
  using bulk_from_takes [OF assms(1) refl order_refl, of maximum 0 "unat maximum" ys yss] assms(2)
  by (simp add: try_dequeue_bulk_def producer_order_def)

lemma queue_size_approx_streams:
  assumes "streams_inv q"
  shows "queue_size_approx q = of_nat (sum_list (map length (streams q)))"
proof -
  have "map (\<lambda>i. length (streams q ! i)) [0..<length (producers q)] = map length (streams q)"
    by (intro nth_equalityI) simp_all
  then have "(\<Sum>i\<leftarrow>producer_order q. length (streams q ! i)) = sum_list (map length (streams q))"
    by (simp add: producer_order_def rev_map [symmetric])
  moreover have "sum_list (map (\<lambda>i. size_approx (producers q ! i)) is) = (of_nat (\<Sum>i\<leftarrow>is. length (streams q ! i)) :: u64)"
    if "\<forall>i \<in> set is. i < length (producers q)" for "is"
    using that by (induction "is") (simp_all add: stream_size [OF assms])
  from this [of "producer_order q"] have "queue_size_approx q = of_nat (\<Sum>i\<leftarrow>producer_order q. length (streams q ! i))"
    by (simp add: queue_size_approx_def producer_order_def)
  ultimately show ?thesis by simp
qed

section \<open>Making a producer\<close>

lemma new_queue_streams: "streams_inv (new_queue mem capacity)" "streams (new_queue mem capacity) = []"
proof -
  let ?n = "capacity div of_nat BLOCK_SIZE + (if capacity AND of_nat (BLOCK_SIZE - 1) = 0 then 0 else 1)"
  let ?q = "populate_initial_implicit_producer_hash bare_queue"
  have "pool_inv (populate_initial_block_list mem ?n ?q) [] {}"
    by (rule populate_initial_block_list_inv) (simp_all add: populate_initial_implicit_producer_hash_def bare_queue_def)
  then have pool: "pool_inv (new_queue mem capacity) [] {}" by (simp add: new_queue_def)
  have "producers (new_queue mem capacity) = []"
    by (auto simp: new_queue_def populate_initial_block_list_def create_array_def malloc_blocks_def Let_def
        populate_initial_implicit_producer_hash_def bare_queue_def split: prod.splits if_splits)
  with pool have "producers_inv (producers (new_queue mem capacity)) (new_queue mem capacity) [] []"
    by (auto simp: producers_inv_def)
  then show "streams_inv (new_queue mem capacity)" "streams (new_queue mem capacity) = []" by (rule streams_invI)+
qed

text \<open>
  A producer for a new thread: one that was inactive, with whatever its stream still holds, or a new one with an
  empty stream; none only when there is no memory.
\<close>

lemma streams_inv_activate:
  assumes "streams_inv q" "i < length (producers q)"
  shows "streams_inv (set_producer i ((producers q ! i)\<lparr>inactive := b\<rparr>) q)"
    "streams (set_producer i ((producers q ! i)\<lparr>inactive := b\<rparr>) q) = streams q"
proof -
  from assms(1) obtain Us where "producers_inv (producers q) q (streams q) Us" by (auto simp: streams_inv_def)
  then have "producers_inv ((producers q)[i := (producers q ! i)\<lparr>inactive := b\<rparr>]) q (streams q) Us"
    using assms(2) by (auto simp: producers_inv_def nth_list_update)
  then have "producers_inv (producers (set_producer i ((producers q ! i)\<lparr>inactive := b\<rparr>) q))
      (set_producer i ((producers q ! i)\<lparr>inactive := b\<rparr>) q) (streams q) Us"
    by (simp add: set_producer_def)
  from streams_invI [OF this] show "streams_inv (set_producer i ((producers q ! i)\<lparr>inactive := b\<rparr>) q)"
    "streams (set_producer i ((producers q ! i)\<lparr>inactive := b\<rparr>) q) = streams q" by blast+
qed

lemma producer_elements_table [simp]:
  "producer_elements (q\<lparr>implicitProducerHash := h\<rparr>) p = producer_elements q p"
  "producer_elements (q\<lparr>implicitProducerHashCount := c\<rparr>) p = producer_elements q p"
  "producer_elements (q\<lparr>implicitProducerHashResizeInProgress := b\<rparr>) p = producer_elements q p"
  "producer_elements (q\<lparr>allocations := n\<rparr>) p = producer_elements q p"
  by (simp_all add: producer_elements_def element_at_def)

lemma streams_table [simp]:
  "streams (q\<lparr>implicitProducerHash := h\<rparr>) = streams q" "streams (q\<lparr>implicitProducerHashCount := c\<rparr>) = streams q"
  "streams (q\<lparr>implicitProducerHashResizeInProgress := b\<rparr>) = streams q" "streams (q\<lparr>allocations := n\<rparr>) = streams q"
  by (simp_all add: streams_def)

lemma producers_inv_allocations [simp]: "producers_inv ps (q\<lparr>allocations := n\<rparr>) xss Us = producers_inv ps q xss Us"
  by (simp add: producers_inv_def producer_inv_def producer_blocks_def pool_part_def stream_mem_def)

lemma streams_inv_table [simp]:
  "streams_inv (q\<lparr>implicitProducerHash := h\<rparr>) = streams_inv q" "streams_inv (q\<lparr>implicitProducerHashCount := c\<rparr>) = streams_inv q"
  "streams_inv (q\<lparr>implicitProducerHashResizeInProgress := b\<rparr>) = streams_inv q" "streams_inv (q\<lparr>allocations := n\<rparr>) = streams_inv q"
  by (simp_all add: streams_inv_def)

lemma recycle_or_create_producer_inv:
  assumes "streams_inv q"
  shows "\<exists>r q'. recycle_or_create_producer mem q = Some (r, q') \<and> streams_inv q' \<and>
    implicitProducerHash q' = implicitProducerHash q \<and> implicitProducerHashCount q' = implicitProducerHashCount q \<and>
    implicitProducerHashResizeInProgress q' = implicitProducerHashResizeInProgress q \<and>
    (case r of
       None \<Rightarrow> streams q' = streams q \<and> producers q' = producers q
     | Some i \<Rightarrow>
         if i < length (producers q)
         then inactive (producers q ! i) \<and> streams q' = streams q \<and>
           map inactive (producers q') = (map inactive (producers q))[i := False]
         else i = length (producers q) \<and> streams q' = streams q @ [[]] \<and>
           map inactive (producers q') = map inactive (producers q) @ [False])"
proof (cases "find (\<lambda>i. inactive (producers q ! i)) (producer_order q)")
  case (Some i)
  then have i: "i < length (producers q)" "inactive (producers q ! i)"
    by (auto simp: find_Some_iff producer_order_def rev_nth)
  with Some streams_inv_activate [OF assms i(1), of False] show ?thesis
    by (auto simp: recycle_or_create_producer_def set_producer_def map_update)
next
  case None
  show ?thesis
  proof (cases "mem (allocations q) = nullptr")
    case True
    with None assms show ?thesis by (auto simp: recycle_or_create_producer_def malloc_def add_producer_def)
  next
    case False
    let ?q1 = "q\<lparr>allocations := Suc (allocations q)\<rparr>"
    from assms obtain Us where us: "producers_inv (producers q) ?q1 (streams q) Us" by (auto simp: streams_inv_def)
    then obtain fs where "pool_inv ?q1 fs (\<Union> (set Us))" by (auto simp: producers_inv_def)
    from new_implicit_producer_inv [OF this, of mem] obtain p n where
      p: "new_implicit_producer mem ?q1 = Some (p, ?q1\<lparr>allocations := n\<rparr>)"
      "producer_inv p (?q1\<lparr>allocations := n\<rparr>) (\<Union> (set Us)) [] {}" "\<not> inactive p" by blast
    let ?q2 = "snd (add_producer (Some p) (?q1\<lparr>allocations := n\<rparr>))"
    have "producers_inv (producers q @ [p]) (?q1\<lparr>allocations := n\<rparr>) (streams q @ [[]]) (Us @ [{}])"
      using producers_inv_append [OF us p(2)] by (simp add: agree_on_def)
    then have "producers_inv (producers ?q2) ?q2 (streams q @ [[]]) (Us @ [{}])" by (simp add: add_producer_def)
    note streams_invI [OF this]
    moreover have "recycle_or_create_producer mem q = Some (Some (length (producers q)), ?q2)"
      using None False p(1) by (simp add: recycle_or_create_producer_def malloc_def add_producer_def)
    ultimately show ?thesis using p(3) by (auto simp: add_producer_def)
  qed
qed

end
