(* ===== verification/Thread_Hash.thy ===== *)
theory Thread_Hash
  imports Queue_Scan
begin

text \<open>
  The hash table from threads to producers, by linear probing: a walk that has an entry to stop at ends at the
  first one, every thread in a table is found from the index its id hashes to, and claiming an entry or giving
  one up keeps it so. What the code computes is then a lookup in an association list.
\<close>

section \<open>Probing\<close>

definition key_at :: "ImplicitProducerHash \<Rightarrow> nat \<Rightarrow> u64" where
  "key_at h i = fst (hash_entries h ! i)"

definition table_size :: "nat \<Rightarrow> ImplicitProducerHash \<Rightarrow> bool" where
  "table_size c h \<longleftrightarrow> c < 64 \<and> hash_capacity h = 2 ^ c \<and> length (hash_entries h) = 2 ^ c"

text \<open>The entry at which a walk from an index ends: nothing on the way to it ends the walk.\<close>

definition reaches :: "(u64 \<Rightarrow> bool) \<Rightarrow> nat \<Rightarrow> ImplicitProducerHash \<Rightarrow> nat \<Rightarrow> bool" where
  "reaches stop x h i \<longleftrightarrow> (let n = length (hash_entries h)
     in \<exists>m. i = (x + m) mod n \<and> stop (key_at h i) \<and> (\<forall>j < m. \<not> stop (key_at h ((x + j) mod n))))"

lemma unat64_power2: "c < 64 \<Longrightarrow> unat (2 ^ c :: u64) = 2 ^ c"
  using unat64_of_nat [of "2 ^ c"] power_strict_increasing [of c 64 "2 :: nat"] by simp

lemma probe_start:
  assumes "table_size c h"
  shows "unat (x AND (hash_capacity h - 1)) = unat x mod 2 ^ c"
  using assms by (simp add: table_size_def and_capacity unsigned_take_bit_eq take_bit_nat_def)

lemma probe_reaches:
  assumes "table_size c h" "reaches stop (unat x) h i"
  shows "probe stop x h = Some i"
proof -
  have len: "length (hash_entries h) = 2 ^ c" "c < 64" using assms(1) by (simp_all add: table_size_def)
  have "probe stop x h = Some ((unat x + m) mod 2 ^ c)"
    if "stop (key_at h ((unat x + m) mod 2 ^ c))" "\<forall>j < m. \<not> stop (key_at h ((unat x + j) mod 2 ^ c))" for m
    using that
  proof (induction m arbitrary: x)
    case 0
    then show ?case
      by (subst probe.simps) (simp add: probe_start [OF assms(1)] Let_def nth_opt_def len key_at_def split_beta)
  next
    case (Suc m)
    let ?i = "x AND (hash_capacity h - 1)"
    have u: "unat ?i = unat x mod 2 ^ c" by (rule probe_start [OF assms(1)])
    have "unat (2 ^ c :: u64) = 2 ^ c" using len(2) by (rule unat64_power2)
    then have "?i < 2 ^ c" using u by (simp add: word_less_nat_alt)
    from unat64_Suc [OF this] u have "unat (?i + 1) = Suc (unat x mod 2 ^ c)" by simp
    then have "(unat (?i + 1) + j) mod 2 ^ c = (unat x + Suc j) mod 2 ^ c" for j
      using mod_add_left_eq [of "unat x" "2 ^ c" "Suc j"] by simp
    moreover have "\<forall>j < m. \<not> stop (key_at h ((unat x + Suc j) mod 2 ^ c))" using Suc.prems(2) by blast
    ultimately have "probe stop (?i + 1) h = Some ((unat x + Suc m) mod 2 ^ c)"
      using Suc.IH [of "?i + 1"] Suc.prems(1) by simp
    moreover have "\<not> stop (key_at h (unat x mod 2 ^ c))" using Suc.prems(2) by fastforce
    ultimately show ?case
      by (subst probe.simps) (simp add: u Let_def nth_opt_def len key_at_def split_beta)
  qed
  with assms(2) show ?thesis by (auto simp: reaches_def len Let_def)
qed

lemma reaches_ex:
  assumes "i < length (hash_entries h)" "stop (key_at h i)"
  shows "\<exists>j < length (hash_entries h). reaches stop x h j"
proof -
  let ?n = "length (hash_entries h)" and ?P = "\<lambda>m. stop (key_at h ((x + m) mod length (hash_entries h)))"
  have "(x + (?n - x mod ?n + i)) mod ?n = (x mod ?n + (?n - x mod ?n) + i) mod ?n" by (simp add: mod_simps add.assoc)
  also have "\<dots> = i" using assms(1) mod_less_divisor [of ?n x] by (cases "?n = 0") (simp_all del: mod_less_divisor)
  finally have "?P (?n - x mod ?n + i)" using assms(2) by simp
  then have "?P (LEAST m. ?P m)" "\<forall>j < (LEAST m. ?P m). \<not> ?P j" by (rule LeastI, use not_less_Least in blast)
  then show ?thesis
    unfolding reaches_def Let_def using assms(1) by (intro exI [of _ "(x + (LEAST m. ?P m)) mod ?n"]) (auto intro!: mod_less_divisor simp del: length_greater_0_conv)
qed

lemma reaches_stop: "reaches stop x h i \<Longrightarrow> stop (key_at h i)"
  by (auto simp: reaches_def Let_def)

lemma key_at_set_entry:
  "i < length (hash_entries h) \<Longrightarrow> key_at (set_entry i k v h) j = (if j = i then k else key_at h j)"
  by (simp add: key_at_def set_entry_def)

lemma set_entry_simps [simp]:
  "hash_capacity (set_entry i k v h) = hash_capacity h" "length (hash_entries (set_entry i k v h)) = length (hash_entries h)"
  by (simp_all add: set_entry_def)

text \<open>A change elsewhere, to a key that does not end the walk, leaves its end.\<close>

lemma reaches_update:
  assumes "reaches stop x h j" "j \<noteq> i" "\<not> stop k" "i < length (hash_entries h)"
  shows "reaches stop x (set_entry i k v h) j"
  using assms by (auto simp: reaches_def Let_def key_at_set_entry)

lemma reaches_claimed:
  assumes "reaches (\<lambda>k. k = invalid_thread_id \<or> k = invalid_thread_id2) x h i" "i < length (hash_entries h)"
    "\<forall>j < length (hash_entries h). key_at h j \<noteq> tid"
  shows "reaches (\<lambda>k. k = tid \<or> k = invalid_thread_id) x (set_entry i tid v h) i"
proof -
  let ?n = "length (hash_entries h)"
  from assms(1) obtain m where m: "i = (x + m) mod ?n" "key_at h i = invalid_thread_id \<or> key_at h i = invalid_thread_id2"
    "\<forall>j < m. key_at h ((x + j) mod ?n) \<noteq> invalid_thread_id \<and> key_at h ((x + j) mod ?n) \<noteq> invalid_thread_id2"
    by (auto simp: reaches_def Let_def)
  have "(x + j) mod ?n \<noteq> i \<and> (x + j) mod ?n < ?n" if "j < m" for j
    using m(2,3) that assms(2) by (metis mod_less_divisor length_pos_if_in_set nth_mem)
  with m assms show ?thesis
    by (auto simp: reaches_def Let_def key_at_set_entry intro!: exI [of _ m])
qed

section \<open>A table as a map\<close>

definition used :: "ImplicitProducerHash \<Rightarrow> nat" where
  "used h = length (filter (\<lambda>e. fst e \<noteq> invalid_thread_id) (hash_entries h))"

definition thread_ids :: "u64 set" where
  "thread_ids = {tid. tid \<noteq> invalid_thread_id \<and> tid \<noteq> invalid_thread_id2}"

definition table_ok :: "ImplicitProducerHash \<Rightarrow> bool" where
  "table_ok h \<longleftrightarrow> (\<exists>c. table_size c h) \<and> used h < length (hash_entries h) \<and>
     (\<forall>i < length (hash_entries h). key_at h i \<in> thread_ids \<longrightarrow>
        reaches (\<lambda>k. k = key_at h i \<or> k = invalid_thread_id) (unat (hash_64 (key_at h i))) h i)"

lemma free_entry:
  assumes "used h < length (hash_entries h)"
  shows "\<exists>i < length (hash_entries h). key_at h i = invalid_thread_id"
proof (rule ccontr)
  assume "\<not> ?thesis"
  then have "filter (\<lambda>e. fst e \<noteq> invalid_thread_id) (hash_entries h) = hash_entries h"
    by (auto simp: filter_id_conv key_at_def in_set_conv_nth) (metis fst_conv)
  with assms show False by (simp add: used_def)
qed

lemma map_of_nth:
  assumes "table_ok h" "tid \<in> thread_ids" "i < length (hash_entries h)" "key_at h i = tid"
  shows "map_of (hash_entries h) tid = Some (snd (hash_entries h ! i))"
proof -
  let ?stop = "\<lambda>k. k = tid \<or> k = invalid_thread_id"
  obtain c where c: "table_size c h" using assms(1) by (auto simp: table_ok_def)
  have p: "probe ?stop (hash_64 tid) h = Some j" if "j < length (hash_entries h)" "key_at h j = tid" for j
    using assms(1,2) that by (intro probe_reaches [OF c]) (auto simp: table_ok_def)
  have "hash_entries h ! i \<in> set (hash_entries h)" "fst (hash_entries h ! i) = tid"
    using assms(3,4) by (simp_all add: key_at_def)
  then obtain v where v: "map_of (hash_entries h) tid = Some v"
    by (metis map_of_eq_None_iff image_eqI not_None_eq)
  then obtain j where j: "j < length (hash_entries h)" "hash_entries h ! j = (tid, v)"
    by (metis map_of_SomeD in_set_conv_nth)
  then have "j = i" using p [OF j(1)] p [OF assms(3,4)] by (simp add: key_at_def)
  with v j show ?thesis by simp
qed

lemma map_of_none:
  "map_of (hash_entries h) tid = None \<longleftrightarrow> (\<forall>i < length (hash_entries h). key_at h i \<noteq> tid)"
proof -
  have "tid \<in> fst ` set (hash_entries h) \<longleftrightarrow> (\<exists>i < length (hash_entries h). key_at h i = tid)"
    unfolding set_conv_nth key_at_def by auto
  then show ?thesis by (auto simp: map_of_eq_None_iff)
qed

lemma probe_thread:
  assumes "table_ok h" "tid \<in> thread_ids"
  shows "\<exists>i < length (hash_entries h). probe (\<lambda>k. k = tid \<or> k = invalid_thread_id) (hash_64 tid) h = Some i \<and>
    (case map_of (hash_entries h) tid of
       Some v \<Rightarrow> hash_entries h ! i = (tid, v)
     | None \<Rightarrow> key_at h i = invalid_thread_id)"
proof -
  let ?stop = "\<lambda>k. k = tid \<or> k = invalid_thread_id"
  obtain c where c: "table_size c h" using assms(1) by (auto simp: table_ok_def)
  obtain i where i: "i < length (hash_entries h)" "reaches ?stop (unat (hash_64 tid)) h i"
    using free_entry [of h] reaches_ex [of _ h ?stop] assms(1) unfolding table_ok_def by blast
  note p = probe_reaches [OF c i(2)]
  show ?thesis
  proof (cases "map_of (hash_entries h) tid")
    case None
    then have "key_at h i \<noteq> tid" using i(1) by (simp add: map_of_none)
    with None i reaches_stop [OF i(2)] p show ?thesis by auto
  next
    case (Some v)
    then obtain j where j: "j < length (hash_entries h)" "hash_entries h ! j = (tid, v)"
      by (metis map_of_SomeD in_set_conv_nth)
    then have "reaches ?stop (unat (hash_64 tid)) h j" using assms by (auto simp: table_ok_def key_at_def)
    from probe_reaches [OF c this] j Some show ?thesis by auto
  qed
qed

lemma find_in_hash_map_of:
  assumes "table_ok h" "tid \<in> thread_ids"
  shows "\<exists>r. find_in_hash tid (hash_64 tid) h = Some r \<and>
    (case map_of (hash_entries h) tid of
       Some v \<Rightarrow> (\<exists>i. r = Some i \<and> hash_entries h ! i = (tid, v))
     | None \<Rightarrow> r = None)"
  using probe_thread [OF assms] assms(2)
  by (auto simp: find_in_hash_def thread_ids_def key_at_def split: option.splits)

section \<open>Changing a table\<close>

lemma used_set_entry:
  assumes "i < length (hash_entries h)"
  shows "used (set_entry i k v h) + (if key_at h i = invalid_thread_id then 0 else 1) =
    used h + (if k = invalid_thread_id then 0 else 1)"
proof -
  have "length (filter P (xs[i := x])) + (if P (xs ! i) then 1 else 0) = length (filter P xs) + (if P x then 1 else (0 :: nat))"
    if "i < length xs" for P xs and x :: "u64 \<times> nat option"
    using that
  proof (induction xs arbitrary: i)
    case (Cons y ys)
    then show ?case using Cons.IH [of "i - 1"] by (cases i) auto
  qed simp
  from this [OF assms, of "\<lambda>e. fst e \<noteq> invalid_thread_id" "(k, v)"] show ?thesis
    by (simp add: used_def set_entry_def key_at_def split: if_splits)
qed

lemma map_of_update:
  assumes "i < length xs" "fst (xs ! i) \<noteq> k" "fst x \<noteq> k"
  shows "map_of (xs[i := x]) k = map_of xs k"
  using assms by (induction xs arbitrary: i) (auto split: nat.splits)

lemma claim_probe:
  assumes "table_ok h" "tid \<in> thread_ids" "map_of (hash_entries h) tid = None" "used h + 1 < length (hash_entries h)"
  shows "\<exists>i. probe (\<lambda>k. k = invalid_thread_id \<or> k = invalid_thread_id2) (hash_64 tid) h = Some i \<and>
    i < length (hash_entries h) \<and> table_ok (set_entry i tid v h) \<and>
    used (set_entry i tid v h) = used h + (if key_at h i = invalid_thread_id2 then 0 else 1) \<and>
    (\<forall>k \<in> thread_ids. map_of (hash_entries (set_entry i tid v h)) k = (if k = tid then Some v else map_of (hash_entries h) k))"
proof -
  let ?stop = "\<lambda>k. k = invalid_thread_id \<or> k = invalid_thread_id2"
  obtain c where c: "table_size c h" using assms(1) by (auto simp: table_ok_def)
  obtain i where i: "i < length (hash_entries h)" "reaches ?stop (unat (hash_64 tid)) h i"
    using free_entry [of h] reaches_ex [of _ h ?stop] assms(1) unfolding table_ok_def by blast
  let ?h = "set_entry i tid v h"
  have free: "key_at h i = invalid_thread_id \<or> key_at h i = invalid_thread_id2" using reaches_stop [OF i(2)] .
  have tid: "tid \<noteq> invalid_thread_id" "tid \<noteq> invalid_thread_id2" "invalid_thread_id2 \<noteq> invalid_thread_id"
    using assms(2) by (simp_all add: thread_ids_def invalid_thread_id_def invalid_thread_id2_def)
  have used: "used ?h = used h + (if key_at h i = invalid_thread_id2 then 0 else 1)"
    using used_set_entry [OF i(1), of tid v] free tid by (auto split: if_splits)
  have new: "reaches (\<lambda>k. k = tid \<or> k = invalid_thread_id) (unat (hash_64 tid)) ?h i"
    using reaches_claimed [OF i(2,1)] assms(3) by (simp add: map_of_none)
  have "reaches (\<lambda>k. k = key_at ?h j \<or> k = invalid_thread_id) (unat (hash_64 (key_at ?h j))) ?h j"
    if j: "j < length (hash_entries h)" "key_at ?h j \<in> thread_ids" for j
  proof (cases "j = i")
    case False
    then have k: "key_at ?h j = key_at h j" using i(1) by (simp add: key_at_set_entry)
    have "key_at h j \<noteq> tid" using assms(3) j(1) by (simp add: map_of_none)
    with j False tid(1) assms(1) i(1) show ?thesis unfolding k by (intro reaches_update) (auto simp: table_ok_def k)
  qed (use new i(1) in \<open>simp add: key_at_set_entry\<close>)
  moreover have "table_size c ?h" using c by (simp add: table_size_def)
  ultimately have "table_ok ?h" using used assms(4) by (auto simp: table_ok_def)
  moreover have "map_of (hash_entries ?h) k = (if k = tid then Some v else map_of (hash_entries h) k)" if "k \<in> thread_ids" for k
  proof (cases "k = tid")
    case True
    with map_of_nth [OF \<open>table_ok ?h\<close> assms(2), of i] i(1) show ?thesis by (simp add: key_at_set_entry) (simp add: set_entry_def)
  next
    case False
    then show ?thesis using free that i(1) by (auto simp: set_entry_def thread_ids_def key_at_def intro!: map_of_update)
  qed
  ultimately show ?thesis using probe_reaches [OF c i(2)] i(1) used by blast
qed

lemma give_up_map_of:
  assumes "table_ok h" "tid \<in> thread_ids"
  shows "\<exists>h'. give_up tid (hash_64 tid) h = Some h' \<and> table_ok h' \<and> used h' = used h \<and> hash_capacity h' = hash_capacity h \<and>
    (\<forall>k \<in> thread_ids. map_of (hash_entries h') k = (if k = tid then None else map_of (hash_entries h) k))"
proof -
  from probe_thread [OF assms] obtain i where i: "i < length (hash_entries h)"
    "probe (\<lambda>k. k = tid \<or> k = invalid_thread_id) (hash_64 tid) h = Some i"
    "case map_of (hash_entries h) tid of Some v \<Rightarrow> hash_entries h ! i = (tid, v) | None \<Rightarrow> key_at h i = invalid_thread_id"
    by blast
  have tid: "tid \<noteq> invalid_thread_id" "tid \<noteq> invalid_thread_id2" "invalid_thread_id2 \<noteq> invalid_thread_id"
    using assms(2) by (simp_all add: thread_ids_def invalid_thread_id_def invalid_thread_id2_def)
  show ?thesis
  proof (cases "map_of (hash_entries h) tid")
    case None
    then have "key_at h i \<noteq> tid" using i(1) by (simp add: map_of_none)
    then have "give_up tid (hash_64 tid) h = Some h" using i(2) by (simp add: give_up_def key_at_def)
    then show ?thesis using assms(1) None by simp
  next
    case (Some v)
    let ?h = "set_entry i invalid_thread_id2 (snd (hash_entries h ! i)) h"
    have key: "key_at h i = tid" using Some i(3) by (simp add: key_at_def)
    then have "give_up tid (hash_64 tid) h = Some ?h" using i(2) by (simp add: give_up_def key_at_def)
    moreover have used: "used ?h = used h"
      using used_set_entry [OF i(1), of invalid_thread_id2 "snd (hash_entries h ! i)"] key tid by simp
    moreover have ok: "table_ok ?h"
    proof -
      have "reaches (\<lambda>k. k = key_at ?h j \<or> k = invalid_thread_id) (unat (hash_64 (key_at ?h j))) ?h j"
        if j: "j < length (hash_entries h)" "key_at ?h j \<in> thread_ids" for j
      proof -
        have "j \<noteq> i" using j(2) i(1) by (auto simp: key_at_set_entry thread_ids_def)
        then have k: "key_at ?h j = key_at h j" using i(1) by (simp add: key_at_set_entry)
        with j \<open>j \<noteq> i\<close> tid(3) assms(1) i(1) show ?thesis
          unfolding k by (intro reaches_update) (auto simp: table_ok_def thread_ids_def)
      qed
      moreover obtain c where "table_size c h" using assms(1) by (auto simp: table_ok_def)
      then have "table_size c ?h" by (simp add: table_size_def)
      ultimately show ?thesis using used assms(1) by (auto simp: table_ok_def)
    qed
    moreover have "map_of (hash_entries ?h) k = (if k = tid then None else map_of (hash_entries h) k)" if "k \<in> thread_ids" for k
    proof (cases "k = tid")
      case True
      have "key_at ?h j \<noteq> tid" if j: "j < length (hash_entries h)" for j
      proof
        assume "key_at ?h j = tid"
        then have "j \<noteq> i" "key_at h j = tid" using tid(2) i(1) by (auto simp: key_at_set_entry split: if_splits)
        moreover obtain c where c: "table_size c h" using assms(1) by (auto simp: table_ok_def)
        ultimately show False
          using i(2) j probe_reaches [OF c, of "\<lambda>k. k = tid \<or> k = invalid_thread_id" "hash_64 tid" j] assms
          by (auto simp: table_ok_def)
      qed
      then have "map_of (hash_entries ?h) tid = None" by (simp add: map_of_none)
      with True show ?thesis by simp
    next
      case False
      then show ?thesis using key that i(1) by (auto simp: set_entry_def thread_ids_def key_at_def intro!: map_of_update)
    qed
    ultimately show ?thesis by auto
  qed
qed

lemma empty_hash_ok:
  assumes "c < 64"
  shows "table_ok (empty_hash (2 ^ c))" "used (empty_hash (2 ^ c)) = 0"
    "k \<in> thread_ids \<Longrightarrow> map_of (hash_entries (empty_hash (2 ^ c))) k = None"
  using unat64_power2 [OF assms] assms
  by (auto simp: table_ok_def empty_hash_def table_size_def used_def key_at_def thread_ids_def map_of_eq_None_iff)

section \<open>All tables\<close>

fun thread_lookup :: "ImplicitProducerHash list \<Rightarrow> u64 \<Rightarrow> nat option option" where
  "thread_lookup [] tid = None"
| "thread_lookup (h # hs) tid = (case map_of (hash_entries h) tid of Some v \<Rightarrow> Some v | None \<Rightarrow> thread_lookup hs tid)"

lemma find_in_hashes_lookup:
  assumes "\<forall>h \<in> set hs. table_ok h" "tid \<in> thread_ids"
  shows "\<exists>r. find_in_hashes tid (hash_64 tid) n hs = Some r \<and>
    (case thread_lookup hs tid of
       None \<Rightarrow> r = None
     | Some v \<Rightarrow> (\<exists>m \<ge> n. r = Some (m, v) \<and> (m = n \<longleftrightarrow> map_of (hash_entries (hd hs)) tid \<noteq> None)))"
  using assms(1)
proof (induction hs arbitrary: n)
  case (Cons h hs)
  obtain r where r: "find_in_hash tid (hash_64 tid) h = Some r"
    "case map_of (hash_entries h) tid of Some v \<Rightarrow> (\<exists>i. r = Some i \<and> hash_entries h ! i = (tid, v)) | None \<Rightarrow> r = None"
    using find_in_hash_map_of [of h tid] Cons.prems assms(2) by auto
  obtain s where s: "find_in_hashes tid (hash_64 tid) (Suc n) hs = Some s"
    "case thread_lookup hs tid of None \<Rightarrow> s = None | Some v \<Rightarrow> (\<exists>m \<ge> Suc n. s = Some (m, v))"
    using Cons.IH [of "Suc n"] Cons.prems by (fastforce split: option.splits)
  show ?case
  proof (cases "map_of (hash_entries h) tid")
    case None
    with r s show ?thesis by (auto split: option.splits)
  next
    case (Some v)
    with r show ?thesis by auto
  qed
qed simp

lemma give_up_all:
  assumes "\<forall>h \<in> set hs. table_ok h" "tid \<in> thread_ids"
  shows "\<exists>hs'. those (map (give_up tid (hash_64 tid)) hs) = Some hs' \<and> (\<forall>h \<in> set hs'. table_ok h) \<and>
    map used hs' = map used hs \<and> map hash_capacity hs' = map hash_capacity hs \<and>
    (\<forall>k \<in> thread_ids. thread_lookup hs' k = (if k = tid then None else thread_lookup hs k))"
  using assms(1)
proof (induction hs)
  case (Cons h hs)
  obtain h' where h': "give_up tid (hash_64 tid) h = Some h'" "table_ok h'" "used h' = used h" "hash_capacity h' = hash_capacity h"
    "\<forall>k \<in> thread_ids. map_of (hash_entries h') k = (if k = tid then None else map_of (hash_entries h) k)"
    using give_up_map_of [of h tid] Cons.prems assms(2) by auto
  from Cons show ?case using h' by (auto split: option.split)
qed simp

end
