(* ===== verification/Queue_Threads.thy ===== *)
theory Queue_Threads
  imports Thread_Hash
begin

text \<open>
  Which producer a thread writes to: every thread has at most one, no two threads share one, and a producer without
  a thread is inactive. The tables have room for all threads, so that no search runs forever.
\<close>

section \<open>The tables have room\<close>

text \<open>Threads that only an older table knows: an entry of the current one is kept for each.\<close>

definition old_ids :: "ImplicitProducerHash list \<Rightarrow> u64 set" where
  "old_ids hs = {k \<in> thread_ids. map_of (hash_entries (hd hs)) k = None \<and> thread_lookup (tl hs) k \<noteq> None}"

definition capacity_of :: "ImplicitProducerHash list \<Rightarrow> nat" where
  "capacity_of hs = unat (hash_capacity (hd hs))"

definition tables_inv :: "nat \<Rightarrow> ImplicitProducerHash list \<Rightarrow> bool" where
  "tables_inv n hs \<longleftrightarrow> hs \<noteq> [] \<and> (\<forall>h \<in> set hs. table_ok h) \<and> used (hd hs) + card (old_ids hs) \<le> n \<and>
     32 \<le> capacity_of hs \<and> capacity_of hs \<le> max 32 (4 * (n + 1))"

lemma finite_lookup: "finite {k. thread_lookup hs k \<noteq> None}"
proof (induction hs)
  case (Cons h hs)
  have "{k. thread_lookup (h # hs) k \<noteq> None} \<subseteq> fst ` set (hash_entries h) \<union> {k. thread_lookup hs k \<noteq> None}"
    by (auto simp: map_of_eq_None_iff split: option.splits)
  with Cons show ?case by (meson finite_UnI finite_imageI finite_set finite_subset)
qed simp

lemma finite_old_ids [simp]: "finite (old_ids hs)"
  by (rule finite_subset [OF _ finite_lookup [of "tl hs"]]) (auto simp: old_ids_def)

lemma length_capacity: "tables_inv n hs \<Longrightarrow> length (hash_entries (hd hs)) = capacity_of hs"
  using unat64_power2 by (cases hs) (auto simp: tables_inv_def capacity_of_def table_ok_def table_size_def)

lemma known_ids:
  assumes "hs \<noteq> []"
  shows "card {k \<in> thread_ids. thread_lookup hs k \<noteq> None} \<le> used (hd hs) + card (old_ids hs)"
proof -
  obtain h ps where hs: "hs = h # ps" using assms by (cases hs) auto
  let ?K = "fst ` set (filter (\<lambda>e. fst e \<noteq> invalid_thread_id) (hash_entries h))"
  have "{k \<in> thread_ids. thread_lookup hs k \<noteq> None} \<subseteq> ?K \<union> old_ids hs"
  proof
    fix k assume k: "k \<in> {k \<in> thread_ids. thread_lookup hs k \<noteq> None}"
    show "k \<in> ?K \<union> old_ids hs"
    proof (cases "map_of (hash_entries h) k")
      case None
      with k show ?thesis by (simp add: hs old_ids_def)
    next
      case (Some v)
      with k show ?thesis by (force simp: thread_ids_def dest: map_of_SomeD)
    qed
  qed
  then have "card {k \<in> thread_ids. thread_lookup hs k \<noteq> None} \<le> card (?K \<union> old_ids hs)" by (intro card_mono) auto
  also have "\<dots> \<le> card ?K + card (old_ids hs)" by (rule card_Un_le)
  also have "card ?K \<le> used h"
    unfolding used_def by (meson card_image_le card_length finite_set le_trans)
  finally show ?thesis by (simp add: hs)
qed

text \<open>A new current table, when the old one is half full.\<close>

lemma grow_capacity_once: "newCount < drop_bit 1 newCapacity \<Longrightarrow> grow_capacity newCount newCapacity = Some newCapacity"
  by (subst grow_capacity.simps) (simp only: not_le [symmetric] if_False)

lemma table_words:
  assumes "table_size c h" "c < 63"
  shows "unat (drop_bit 1 (hash_capacity h)) = 2 ^ c div 2" "unat (drop_bit 2 (hash_capacity h)) = 2 ^ c div 4"
    "push_bit 1 (hash_capacity h) = 2 ^ Suc c" "drop_bit 1 (push_bit 1 (hash_capacity h)) = hash_capacity h"
proof -
  have c: "hash_capacity h = 2 ^ c" using assms(1) by (simp add: table_size_def)
  have u: "unat (2 ^ c :: u64) = 2 ^ c" "unat (2 ^ Suc c :: u64) = 2 ^ Suc c" using assms(2) by (simp_all add: unat64_power2 del: power_Suc)
  show "unat (drop_bit 1 (hash_capacity h)) = 2 ^ c div 2" "unat (drop_bit 2 (hash_capacity h)) = 2 ^ c div 4"
    by (simp_all only: c unat_drop_bit_eq u(1)) (simp_all add: drop_bit_eq_div)
  show p: "push_bit 1 (hash_capacity h) = 2 ^ Suc c" by (simp add: c push_bit_eq_mult)
  show "drop_bit 1 (push_bit 1 (hash_capacity h)) = hash_capacity h"
    unfolding p word_unat_eq_iff unat_drop_bit_eq u(2) unfolding c u(1) by (simp add: drop_bit_eq_div)
qed

lemma resize_hash_inv:
  assumes inv: "tables_inv n hs" and hs: "implicitProducerHash q = hs" and room: "4 * n < 3 * capacity_of hs" "n < 2 ^ 59"
    and nc: "unat newCount = n + 1" and idle: "\<not> implicitProducerHashResizeInProgress q"
  shows "\<exists>ok q' hs' a. resize_hash mem newCount q = Some (ok, q') \<and>
    (if ok then tables_inv n hs' \<and> 4 * (n + 1) < 3 * capacity_of hs' \<and> (\<forall>k \<in> thread_ids. thread_lookup hs' k = thread_lookup hs k) \<and>
       newCount < drop_bit 1 (hash_capacity (hd hs')) + drop_bit 2 (hash_capacity (hd hs')) \<and>
       q' = q\<lparr>implicitProducerHash := hs', allocations := a\<rparr>
     else q' = q\<lparr>allocations := a, implicitProducerHashCount := implicitProducerHashCount q - 1\<rparr>)"
proof -
  obtain h ps where h: "hs = h # ps" using inv by (cases hs) (auto simp: tables_inv_def)
  then obtain c where c: "table_size c h" using inv by (auto simp: tables_inv_def table_ok_def)
  have cap: "hash_capacity h = 2 ^ c" "capacity_of hs = 2 ^ c" "c < 64"
    using c unat64_power2 [of c] by (simp_all add: h capacity_of_def table_size_def)
  have "2 ^ c \<le> max 32 (4 * (n + 1))" "32 \<le> (2 :: nat) ^ c" using inv cap by (simp_all add: tables_inv_def)
  then have "(2 :: nat) ^ c \<le> 2 ^ 61" "(2 :: nat) ^ 5 \<le> 2 ^ c" using room(2) by (auto simp: max_def split: if_splits)
  then have c62: "c \<le> 61" "5 \<le> c" by (simp_all only: power2_le_iff)
  define d where "d = c - 2"
  have cd: "c = d + 2" using c62 by (simp add: d_def)
  have d: "(2 :: nat) ^ c = 4 * 2 ^ d" "1 \<le> (2 :: nat) ^ d" using cd by (simp_all add: power_add)
  note w = table_words [OF c, unfolded d(1)]
  have c63: "c < 63" using c62 by simp
  have enough: "x < drop_bit 1 (hash_capacity h') + drop_bit 2 (hash_capacity h')"
    if "table_size e h'" "e < 63" "unat x < 2 ^ e div 2" for x :: u64 and h' e
  proof -
    have "(2 :: nat) ^ e \<le> 2 ^ 62" using that(2) by (intro power_increasing) auto
    then have "unat (drop_bit 1 (hash_capacity h') + drop_bit 2 (hash_capacity h')) = 2 ^ e div 2 + 2 ^ e div 4"
      by (simp add: unat_word_ariths table_words [OF that(1,2)] del: One_nat_def)
    with that(3) show ?thesis by (simp add: word_less_nat_alt)
  qed
  show ?thesis
  proof (cases "newCount \<ge> drop_bit 1 (hash_capacity h)")
    case False
    then have small: "unat newCount < 2 ^ c div 2" using table_words(1) [OF c c63] by (simp add: word_le_nat_alt)
    then have "resize_hash mem newCount q = Some (True, q)" using False hs h by (simp add: resize_hash_def)
    moreover have "q = q\<lparr>implicitProducerHash := hs, allocations := allocations q\<rparr>" using hs by (cases q) simp
    ultimately show ?thesis
      using inv enough [OF c c63 small] small nc h cap(2)
      by (intro exI [of _ True] exI [of _ q] exI [of _ hs] exI [of _ "allocations q"]) auto
  next
    case True
    then have full: "2 ^ c div 2 \<le> n + 1" using table_words(1) [OF c c63] nc by (simp add: word_le_nat_alt)
    have "unat newCount < 2 ^ c" using room(1) d nc by (simp add: cap(2))
    then have "newCount < drop_bit 1 (push_bit 1 (hash_capacity h))"
      unfolding table_words(4) [OF c c63] by (simp add: word_less_nat_alt cap(1) unat64_power2 cap(3))
    note grow = grow_capacity_once [OF this]
    let ?q = "q\<lparr>allocations := Suc (allocations q)\<rparr>"
    show ?thesis
    proof (cases "mem (allocations q) = nullptr")
      case no_memory: True
      have "resize_hash mem newCount q = Some (False, q\<lparr>allocations := Suc (allocations q),
          implicitProducerHashCount := implicitProducerHashCount q - 1, implicitProducerHashResizeInProgress := False\<rparr>)"
        using True no_memory hs h idle grow by (simp add: resize_hash_def malloc_def)
      also have "\<dots> = Some (False, q\<lparr>allocations := Suc (allocations q), implicitProducerHashCount := implicitProducerHashCount q - 1\<rparr>)"
        using idle by (cases q) simp
      finally show ?thesis by auto
    next
      case False
      let ?hs = "empty_hash (2 ^ Suc c) # hs"
      have sc: "Suc c < 64" using c62 by simp
      note new = empty_hash_ok [OF sc]
      have "resize_hash mem newCount q = Some (True, q\<lparr>allocations := Suc (allocations q),
          implicitProducerHash := ?hs, implicitProducerHashResizeInProgress := False\<rparr>)"
        using True False hs h idle grow table_words(3) [OF c c63] by (simp add: resize_hash_def malloc_def)
      also have "\<dots> = Some (True, q\<lparr>implicitProducerHash := ?hs, allocations := Suc (allocations q)\<rparr>)"
        using idle by (cases q) simp
      finally have res: "resize_hash mem newCount q = \<dots>" .
      have cap': "capacity_of ?hs = 2 * 2 ^ c" using unat64_power2 [OF sc] by (simp add: capacity_of_def empty_hash_def)
      have "old_ids ?hs = {k \<in> thread_ids. thread_lookup hs k \<noteq> None}" using new(3) by (auto simp: old_ids_def)
      then have "card (old_ids ?hs) \<le> n" using known_ids [of hs] inv by (simp add: tables_inv_def)
      then have "tables_inv n ?hs"
        using inv new(1,2) full cap cap' d by (auto simp: tables_inv_def)
      moreover have "4 * (n + 1) < 3 * capacity_of ?hs" using room(1) cap(2) cap' d by simp
      moreover have "newCount < drop_bit 1 (hash_capacity (hd ?hs)) + drop_bit 2 (hash_capacity (hd ?hs))"
        using enough [of "Suc c" "empty_hash (2 ^ Suc c)" newCount] c62 \<open>unat newCount < 2 ^ c\<close> new(1) unat64_power2 [OF sc]
        by (auto simp: table_size_def empty_hash_def)
      ultimately show ?thesis using res new(3)
        by (intro exI [of _ True] exI [of _ "q\<lparr>implicitProducerHash := ?hs, allocations := Suc (allocations q)\<rparr>"] exI [of _ ?hs]
            exI [of _ "Suc (allocations q)"]) simp
    qed
  qed
qed

text \<open>
  Claiming an entry for a thread that the current table does not know: the count covers it when the thread is known
  to an older table, and is one more when it is new and no entry that was given up is used again.
\<close>

lemma claim_entry_inv:
  assumes inv: "tables_inv n hs" and hs: "implicitProducerHash q = hs" and tid: "tid \<in> thread_ids"
    and new: "map_of (hash_entries (hd hs)) tid = None" and old: "thread_lookup hs tid = None \<or> thread_lookup hs tid = Some v"
    and room: "used (hd hs) + 1 < capacity_of hs"
  shows "\<exists>reused hs'. claim_entry tid (hash_64 tid) v q = Some (reused, q\<lparr>implicitProducerHash := hs'\<rparr>) \<and>
    tables_inv (if reused \<or> thread_lookup hs tid \<noteq> None then n else n + 1) hs' \<and> capacity_of hs' = capacity_of hs \<and>
    (\<forall>k \<in> thread_ids. thread_lookup hs' k = (if k = tid then Some v else thread_lookup hs k))"
proof -
  obtain h ps where h: "hs = h # ps" using inv by (cases hs) (auto simp: tables_inv_def)
  have ok: "table_ok h" and len: "length (hash_entries h) = capacity_of hs" using inv length_capacity [OF inv] by (simp_all add: h tables_inv_def)
  obtain i where i: "probe (\<lambda>k. k = invalid_thread_id \<or> k = invalid_thread_id2) (hash_64 tid) h = Some i"
    "table_ok (set_entry i tid v h)"
    "used (set_entry i tid v h) = used h + (if key_at h i = invalid_thread_id2 then 0 else 1)"
    "\<forall>k \<in> thread_ids. map_of (hash_entries (set_entry i tid v h)) k = (if k = tid then Some v else map_of (hash_entries h) k)"
    using claim_probe [OF ok tid, of v] new room len by (auto simp: h)
  let ?hs = "set_entry i tid v h # ps" and ?reused = "key_at h i = invalid_thread_id2"
  have ids: "old_ids ?hs = old_ids hs - {tid}" using i(4) by (auto simp: old_ids_def h split: if_splits)
  have "used (hd ?hs) + card (old_ids ?hs) \<le> (if ?reused \<or> thread_lookup hs tid \<noteq> None then n else n + 1)"
  proof (cases "thread_lookup hs tid = None")
    case True
    then have "tid \<notin> old_ids hs" using new by (auto simp: old_ids_def h)
    with ids inv i(3) True show ?thesis by (auto simp: tables_inv_def h)
  next
    case False
    then have "tid \<in> old_ids hs" using new tid by (simp add: old_ids_def h)
    then have "card (old_ids hs) = Suc (card (old_ids hs - {tid}))" by (rule card.remove [OF finite_old_ids])
    with ids inv i(3) False show ?thesis by (auto simp: tables_inv_def h)
  qed
  moreover have "capacity_of ?hs = capacity_of hs" by (simp add: capacity_of_def h)
  ultimately have "tables_inv (if ?reused \<or> thread_lookup hs tid \<noteq> None then n else n + 1) ?hs"
    using inv i(2) by (auto simp: tables_inv_def h split: if_splits)
  moreover have "claim_entry tid (hash_64 tid) v q = Some (?reused, q\<lparr>implicitProducerHash := ?hs\<rparr>)"
    using i(1) by (simp add: claim_entry_def hs h key_at_def)
  ultimately show ?thesis using i(4) old \<open>capacity_of ?hs = capacity_of hs\<close>
    by (intro exI [of _ ?reused] exI [of _ ?hs]) (auto simp: h split: option.split)
qed

section \<open>Threads and their producers\<close>

definition owner :: "'e ConcurrentQueue \<Rightarrow> u64 \<Rightarrow> nat option" where
  "owner q tid = (case thread_lookup (implicitProducerHash q) tid of Some v \<Rightarrow> v | None \<Rightarrow> None)"

text \<open>Of a list of flags, the active producers are those that a thread owns, each owned by one thread.\<close>

definition owners_ok :: "bool list \<Rightarrow> (u64 \<Rightarrow> nat option) \<Rightarrow> bool" where
  "owners_ok inactives own \<longleftrightarrow>
     (\<forall>k \<in> thread_ids. \<forall>i. own k = Some i \<longrightarrow> i < length inactives \<and> \<not> inactives ! i) \<and>
     (\<forall>i < length inactives. \<not> inactives ! i \<longrightarrow> (\<exists>!k. k \<in> thread_ids \<and> own k = Some i))"

definition threads_inv :: "'e ConcurrentQueue \<Rightarrow> bool" where
  "threads_inv q \<longleftrightarrow>
     tables_inv (unat (implicitProducerHashCount q)) (implicitProducerHash q) \<and>
     4 * unat (implicitProducerHashCount q) < 3 * capacity_of (implicitProducerHash q) \<and>
     \<not> implicitProducerHashResizeInProgress q \<and>
     (\<forall>k \<in> thread_ids. thread_lookup (implicitProducerHash q) k = map_option Some (owner q k)) \<and>
     owners_ok (map inactive (producers q)) (owner q)"

lemma owners_ok_owned:
  assumes "owners_ok inactives own" "k \<in> thread_ids" "own k = Some i"
  shows "i < length inactives" "\<not> inactives ! i"
  using assms by (auto simp: owners_ok_def)

lemma owners_ok_unique:
  assumes "owners_ok inactives own" "k \<in> thread_ids" "k' \<in> thread_ids" "own k = Some i" "own k' = Some i"
  shows "k = k'"
proof -
  have "i < length inactives" "\<not> inactives ! i" using owners_ok_owned [OF assms(1,2,4)] .
  then have "\<exists>!k. k \<in> thread_ids \<and> own k = Some i" using assms(1) by (simp add: owners_ok_def)
  with assms(2-) show ?thesis by blast
qed

text \<open>A thread gets a producer that no thread owns, and gives it dec.\<close>

lemma owners_ok_take:
  assumes ok: "owners_ok inactives own" and tid: "tid \<in> thread_ids" "own tid = None"
    and i: "if i < length inactives then inactives ! i \<and> inactives' = inactives[i := False]
      else i = length inactives \<and> inactives' = inactives @ [False]"
    and own': "\<forall>k \<in> thread_ids. own' k = (if k = tid then Some i else own k)"
  shows "owners_ok inactives' own'"
proof -
  have free: "own k \<noteq> Some i" if "k \<in> thread_ids" for k using ok i that by (auto simp: owners_ok_def split: if_splits)
  have nth: "j < length inactives' \<and> \<not> inactives' ! j \<longleftrightarrow> j = i \<or> (j < length inactives \<and> \<not> inactives ! j)" for j
    using i by (auto simp: nth_append nth_list_update less_Suc_eq split: if_splits)
  have "\<exists>!k. k \<in> thread_ids \<and> own' k = Some j" if j: "j < length inactives'" "\<not> inactives' ! j" for j
  proof (cases "j = i")
    case True
    show ?thesis by (rule ex1I [of _ tid]) (use tid own' free True in \<open>auto split: if_splits\<close>)
  next
    case False
    then have "\<exists>!k. k \<in> thread_ids \<and> own k = Some j" using nth [of j] j ok by (auto simp: owners_ok_def)
    moreover have "k \<in> thread_ids \<and> own' k = Some j \<longleftrightarrow> k \<in> thread_ids \<and> own k = Some j" for k
      using own' tid False by (auto split: if_splits)
    ultimately show ?thesis by simp
  qed
  moreover have "j < length inactives' \<and> \<not> inactives' ! j" if "k \<in> thread_ids" "own' k = Some j" for k j
    unfolding nth using that own' owners_ok_owned [OF ok] by (auto split: if_splits)
  ultimately show ?thesis by (simp add: owners_ok_def)
qed

lemma owners_ok_release:
  assumes ok: "owners_ok inactives own" and tid: "tid \<in> thread_ids" "own tid = Some i"
    and own': "\<forall>k \<in> thread_ids. own' k = (if k = tid then None else own k)"
  shows "owners_ok (inactives[i := True]) own'"
proof -
  have only: "k = tid" if "k \<in> thread_ids" "own k = Some i" for k
    using owners_ok_unique [OF ok that(1) tid(1) that(2) tid(2)] .
  have nth: "j < length inactives \<and> \<not> inactives[i := True] ! j \<longleftrightarrow> j \<noteq> i \<and> j < length inactives \<and> \<not> inactives ! j" for j
    using owners_ok_owned(1) [OF ok tid] by (auto simp: nth_list_update)
  have "\<exists>!k. k \<in> thread_ids \<and> own' k = Some j" if j: "j < length inactives" "\<not> inactives[i := True] ! j" for j
  proof -
    have "j \<noteq> i" "\<exists>!k. k \<in> thread_ids \<and> own k = Some j" using nth [of j] j ok by (auto simp: owners_ok_def)
    moreover have "k \<in> thread_ids \<and> own' k = Some j \<longleftrightarrow> k \<in> thread_ids \<and> own k = Some j" for k
      using own' tid \<open>j \<noteq> i\<close> by (auto split: if_splits)
    ultimately show ?thesis by simp
  qed
  moreover have "j < length inactives \<and> \<not> inactives[i := True] ! j" if "k \<in> thread_ids" "own' k = Some j" for k j
    unfolding nth using that own' owners_ok_owned [OF ok] only by (auto split: if_splits)
  ultimately show ?thesis by (simp add: owners_ok_def)
qed

text \<open>Operations on producers leave all this alone.\<close>

lemma same_table_threads:
  assumes "same_table q q'"
  shows "threads_inv q' \<longleftrightarrow> threads_inv q" "owner q' = owner q"
proof -
  show own: "owner q' = owner q" using assms by (simp add: owner_def fun_eq_iff same_table_def)
  show "threads_inv q' \<longleftrightarrow> threads_inv q" using assms by (simp add: threads_inv_def own) (simp add: same_table_def)
qed

lemma owners_ok_cong: "\<forall>k \<in> thread_ids. own' k = own k \<Longrightarrow> owners_ok inactives own' = owners_ok inactives own"
proof -
  assume eq: "\<forall>k \<in> thread_ids. own' k = own k"
  then have "k \<in> thread_ids \<and> own' k = Some i \<longleftrightarrow> k \<in> thread_ids \<and> own k = Some i" for k i by auto
  with eq show ?thesis by (simp add: owners_ok_def)
qed

lemma threads_invI:
  assumes "tables_inv n hs" "4 * n < 3 * capacity_of hs" "\<forall>k \<in> thread_ids. thread_lookup hs k = map_option Some (own k)"
    "owners_ok (map inactive (producers q)) own" "implicitProducerHash q = hs" "unat (implicitProducerHashCount q) = n"
    "\<not> implicitProducerHashResizeInProgress q"
  shows "threads_inv q" "\<forall>k \<in> thread_ids. owner q k = own k"
proof -
  show own: "\<forall>k \<in> thread_ids. owner q k = own k" using assms(3,5) by (auto simp: owner_def split: option.split)
  from owners_ok_cong [OF this] assms own show "threads_inv q" by (simp add: threads_inv_def)
qed

lemma new_queue_threads:
  "threads_inv (new_queue mem capacity :: 'e ConcurrentQueue)" "owner (new_queue mem capacity :: 'e ConcurrentQueue) k = None"
proof -
  let ?q = "new_queue mem capacity :: 'e ConcurrentQueue"
  have f: "implicitProducerHash ?q = [empty_hash (2 ^ 5)]" "implicitProducerHashCount ?q = 0" "producers ?q = []"
    "\<not> implicitProducerHashResizeInProgress ?q"
    by (auto simp: new_queue_def populate_initial_block_list_def create_array_def malloc_blocks_def Let_def
        populate_initial_implicit_producer_hash_def bare_queue_def INITIAL_IMPLICIT_PRODUCER_HASH_SIZE_def split: prod.splits if_splits)
  note e = empty_hash_ok [of 5]
  have "tables_inv 0 [empty_hash (2 ^ 5)]" "capacity_of [empty_hash (2 ^ 5)] = 32"
    using e by (auto simp: tables_inv_def old_ids_def capacity_of_def empty_hash_def)
  moreover have "owners_ok (map inactive (producers ?q)) (\<lambda>_. None)" by (simp add: f(3) owners_ok_def)
  ultimately show "threads_inv ?q" using e(3) f by (intro threads_invI(1) [of 0 "[empty_hash (2 ^ 5)]" "\<lambda>_. None"]) auto
  show "owner ?q k = None"
    by (auto simp: owner_def f(1) empty_hash_def split: option.split dest!: map_of_SomeD)
qed

section \<open>Finding or adding the producer of a thread\<close>

lemma insert_thread_inv:
  assumes inv: "threads_inv q" "streams_inv q" and tid: "tid \<in> thread_ids" "owner q tid = None"
    and few: "unat (implicitProducerHashCount q) < 2 ^ 59"
  defines "newCount \<equiv> 1 + implicitProducerHashCount q"
  shows "\<exists>r q'. insert_thread mem tid (hash_64 tid) newCount (q\<lparr>implicitProducerHashCount := newCount\<rparr>) = Some (r, q') \<and>
    threads_inv q' \<and> streams_inv q' \<and> (\<forall>k \<in> thread_ids. owner q' k = (if k = tid then r else owner q k)) \<and>
    unat (implicitProducerHashCount q') \<le> unat (implicitProducerHashCount q) + (if r = None then 0 else 1) \<and>
    (case r of
       None \<Rightarrow> streams q' = streams q \<and> producers q' = producers q
     | Some i \<Rightarrow>
         if i < length (producers q) then inactive (producers q ! i) \<and> streams q' = streams q
         else i = length (producers q) \<and> streams q' = streams q @ [[]])"
proof -
  let ?n = "unat (implicitProducerHashCount q)" and ?hs = "implicitProducerHash q"
  let ?q1 = "q\<lparr>implicitProducerHashCount := newCount\<rparr>"
  have t: "tables_inv ?n ?hs" "4 * ?n < 3 * capacity_of ?hs" "\<not> implicitProducerHashResizeInProgress q"
    "\<forall>k \<in> thread_ids. thread_lookup ?hs k = map_option Some (owner q k)" "owners_ok (map inactive (producers q)) (owner q)"
    using inv(1) by (auto simp: threads_inv_def)
  have nc: "unat newCount = ?n + 1" using few by (simp add: newCount_def unat_word_ariths)
  have dec: "newCount - 1 = implicitProducerHashCount q" by (simp add: newCount_def)
  have "implicitProducerHash ?q1 = ?hs" "\<not> implicitProducerHashResizeInProgress ?q1" using t(3) by simp_all
  from resize_hash_inv [OF t(1) this(1) t(2) few nc this(2), of mem] obtain ok q2 hs2 a where
    r: "resize_hash mem newCount ?q1 = Some (ok, q2)" and
    ok: "if ok then tables_inv ?n hs2 \<and> 4 * (?n + 1) < 3 * capacity_of hs2 \<and> (\<forall>k \<in> thread_ids. thread_lookup hs2 k = thread_lookup ?hs k) \<and>
       newCount < drop_bit 1 (hash_capacity (hd hs2)) + drop_bit 2 (hash_capacity (hd hs2)) \<and>
       q2 = ?q1\<lparr>implicitProducerHash := hs2, allocations := a\<rparr>
     else q2 = ?q1\<lparr>allocations := a, implicitProducerHashCount := implicitProducerHashCount ?q1 - 1\<rparr>"
    by blast
  show ?thesis
  proof (cases ok)
    case False
    with r have "insert_thread mem tid (hash_64 tid) newCount ?q1 = Some (None, q2)" by (subst insert_thread.simps) simp
    moreover from False ok have q2: "q2 = q\<lparr>implicitProducerHashCount := implicitProducerHashCount q, allocations := a\<rparr>"
      by (simp add: dec)
    have "threads_inv q2" "\<forall>k \<in> thread_ids. owner q2 k = owner q k"
      using threads_invI [OF t(1,2,4), of q2] t(3,5) by (simp_all add: q2)
    ultimately show ?thesis using inv(2) tid(2) by (auto simp: q2)
  next
    case True
    with ok have h2: "tables_inv ?n hs2" "4 * (?n + 1) < 3 * capacity_of hs2"
      "\<forall>k \<in> thread_ids. thread_lookup hs2 k = map_option Some (owner q k)"
      "newCount < drop_bit 1 (hash_capacity (hd hs2)) + drop_bit 2 (hash_capacity (hd hs2))"
      and q2: "q2 = ?q1\<lparr>implicitProducerHash := hs2, allocations := a\<rparr>" using t(4) by auto
    have s2: "streams_inv q2" "streams q2 = streams q" using inv(2) by (simp_all add: q2)
    have f2: "producers q2 = producers q" "implicitProducerHash q2 = hs2" "implicitProducerHashCount q2 = newCount"
      "implicitProducerHashResizeInProgress q2 = False" using t(3) by (simp_all add: q2)
    obtain p q3 where p: "recycle_or_create_producer mem q2 = Some (p, q3)" "streams_inv q3"
      "implicitProducerHash q3 = hs2" "implicitProducerHashCount q3 = newCount" "\<not> implicitProducerHashResizeInProgress q3"
      and pr: "case p of
         None \<Rightarrow> streams q3 = streams q \<and> producers q3 = producers q
       | Some i \<Rightarrow>
           if i < length (producers q)
           then inactive (producers q ! i) \<and> streams q3 = streams q \<and>
             map inactive (producers q3) = (map inactive (producers q))[i := False]
           else i = length (producers q) \<and> streams q3 = streams q @ [[]] \<and>
             map inactive (producers q3) = map inactive (producers q) @ [False]"
      using recycle_or_create_producer_inv [OF s2(1), of mem] unfolding f2 s2(2) by blast
    have step: "insert_thread mem tid (hash_64 tid) newCount ?q1 =
        (case p of
             None \<Rightarrow> Some (None, q3\<lparr>implicitProducerHashCount := implicitProducerHashCount q3 - 1\<rparr>)
           | Some p \<Rightarrow> do {
               (reused, q3) \<leftarrow> claim_entry tid (hash_64 tid) (Some p) q3;
               Some (Some p, if reused then q3\<lparr>implicitProducerHashCount := implicitProducerHashCount q3 - 1\<rparr> else q3)
             })"
      using r True h2(4) p(1) by (subst insert_thread.simps) (simp add: q2)
    show ?thesis
    proof (cases p)
      case None
      let ?q = "q3\<lparr>implicitProducerHashCount := implicitProducerHashCount q3 - 1\<rparr>"
      have "threads_inv ?q" "\<forall>k \<in> thread_ids. owner ?q k = owner q k"
        using threads_invI [OF h2(1) _ h2(3), of ?q] h2(2) p(3-5) t(5) pr None by (simp_all add: dec)
      with step None pr p tid(2) show ?thesis by (auto simp: dec)
    next
      case (Some i)
      have lk: "thread_lookup hs2 tid = None" using h2(3) tid by simp
      then have "map_of (hash_entries (hd hs2)) tid = None" using h2(1) by (cases hs2) (auto simp: tables_inv_def split: option.splits)
      moreover have "used (hd hs2) + 1 < capacity_of hs2" using h2(1,2) by (simp add: tables_inv_def)
      ultimately obtain reused hs3 where c: "claim_entry tid (hash_64 tid) (Some i) q3 = Some (reused, q3\<lparr>implicitProducerHash := hs3\<rparr>)"
        "tables_inv (if reused then ?n else ?n + 1) hs3" "capacity_of hs3 = capacity_of hs2"
        "\<forall>k \<in> thread_ids. thread_lookup hs3 k = (if k = tid then Some (Some i) else thread_lookup hs2 k)"
        using claim_entry_inv [OF h2(1) p(3) tid(1), of "Some i"] lk by auto
      let ?own = "\<lambda>k. if k = tid then Some i else owner q k"
      let ?q = "if reused then q3\<lparr>implicitProducerHash := hs3, implicitProducerHashCount := implicitProducerHashCount q3 - 1\<rparr>
        else q3\<lparr>implicitProducerHash := hs3\<rparr>"
      have "insert_thread mem tid (hash_64 tid) newCount ?q1 = Some (Some i, ?q)" using step Some c(1) by simp
      moreover have own: "owners_ok (map inactive (producers q3)) ?own"
        by (rule owners_ok_take [OF t(5) tid, of i]) (use pr Some in \<open>auto split: if_splits\<close>)
      have lk3: "\<forall>k \<in> thread_ids. thread_lookup hs3 k = map_option Some (?own k)" using c(4) h2(3) by simp
      have "threads_inv ?q \<and> (\<forall>k \<in> thread_ids. owner ?q k = ?own k) \<and> unat (implicitProducerHashCount ?q) \<le> ?n + 1"
      proof (cases reused)
        case True
        with threads_invI [OF c(2) _ lk3, of ?q] own c(3) h2(2) p(3-5) show ?thesis by (simp add: dec)
      next
        case False
        with threads_invI [OF c(2) _ lk3, of ?q] own c(3) h2(2) p(3-5) nc show ?thesis by simp
      qed
      moreover have "streams_inv ?q" "streams ?q = streams q3" using p(2) by simp_all
      ultimately show ?thesis using pr Some by (intro exI [of _ "Some i"] exI [of _ ?q]) (auto split: if_splits)
    qed
  qed
qed

end
