(* ===== verification/Queue_Correct.thy ===== *)
theory Queue_Correct
  imports Queue_Threads
begin

text \<open>
  What the queue promises its users: it is a collection of first-in first-out streams, one for each thread that
  enqueues; an element is handed out once, and nothing is lost. The operations never run into undefined behaviour
  and always return.
\<close>

section \<open>The invariant of the queue\<close>

definition queue_inv :: "'e ConcurrentQueue \<Rightarrow> bool" where
  "queue_inv q \<longleftrightarrow> threads_inv q \<and> streams_inv q"

lemma get_or_add_implicit_producer_inv:
  assumes inv: "queue_inv q" and tid: "tid \<in> thread_ids" and few: "unat (implicitProducerHashCount q) < 2 ^ 59"
  shows "\<exists>r q'. get_or_add_implicit_producer mem tid q = Some (r, q') \<and> queue_inv q' \<and>
    (\<forall>k \<in> thread_ids. owner q' k = (if k = tid then r else owner q k)) \<and>
    unat (implicitProducerHashCount q') \<le> unat (implicitProducerHashCount q) + (if r = owner q tid then 0 else 1) \<and>
    (case owner q tid of
       Some i \<Rightarrow> r = Some i \<and> producers q' = producers q \<and> streams q' = streams q
     | None \<Rightarrow>
         (case r of
            None \<Rightarrow> streams q' = streams q \<and> producers q' = producers q
          | Some i \<Rightarrow>
              if i < length (producers q) then inactive (producers q ! i) \<and> streams q' = streams q
              else i = length (producers q) \<and> streams q' = streams q @ [[]]))"
proof -
  let ?hs = "implicitProducerHash q" and ?n = "unat (implicitProducerHashCount q)"
  have t: "tables_inv ?n ?hs" "4 * ?n < 3 * capacity_of ?hs" "\<not> implicitProducerHashResizeInProgress q"
    "\<forall>k \<in> thread_ids. thread_lookup ?hs k = map_option Some (owner q k)" "owners_ok (map inactive (producers q)) (owner q)"
    and inv': "threads_inv q" "streams_inv q"
    using inv by (auto simp: queue_inv_def threads_inv_def)
  have "\<forall>h \<in> set ?hs. table_ok h" using t(1) by (simp add: tables_inv_def)
  from find_in_hashes_lookup [OF this tid, of 0] obtain r where r: "find_in_hashes tid (hash_64 tid) 0 ?hs = Some r"
    "case thread_lookup ?hs tid of None \<Rightarrow> r = None
     | Some v \<Rightarrow> (\<exists>m \<ge> 0. r = Some (m, v) \<and> (m = 0 \<longleftrightarrow> map_of (hash_entries (hd ?hs)) tid \<noteq> None))"
    by blast
  show ?thesis
  proof (cases "owner q tid")
    case None
    then have "r = None" using r(2) t(4) tid by simp
    then have "get_or_add_implicit_producer mem tid q =
        insert_thread mem tid (hash_64 tid) (1 + implicitProducerHashCount q) (q\<lparr>implicitProducerHashCount := 1 + implicitProducerHashCount q\<rparr>)"
      using r(1) by (simp add: get_or_add_implicit_producer_def Let_def)
    with insert_thread_inv [OF inv' tid None few, of mem] None show ?thesis by (auto simp: queue_inv_def split: if_splits)
  next
    case (Some i)
    then have lk: "thread_lookup ?hs tid = Some (Some i)" using t(4) tid by simp
    with r(2) obtain m where m: "r = Some (m, Some i)" "m = 0 \<longleftrightarrow> map_of (hash_entries (hd ?hs)) tid \<noteq> None" by auto
    show ?thesis
    proof (cases "m = 0")
      case True
      then have "get_or_add_implicit_producer mem tid q = Some (Some i, q)" using r(1) m(1) by (simp add: get_or_add_implicit_producer_def)
      with inv Some show ?thesis by auto
    next
      case False
      then have new: "map_of (hash_entries (hd ?hs)) tid = None" using m(2) by simp
      then have "tid \<in> old_ids ?hs" using lk tid t(1) by (cases ?hs) (auto simp: old_ids_def)
      then have "card (old_ids ?hs) \<noteq> 0" by auto
      then have "used (hd ?hs) + 1 < capacity_of ?hs" using t(1,2) by (auto simp: tables_inv_def)
      from claim_entry_inv [OF t(1) refl tid new _ this, of "Some i"] lk obtain reused hs' where
        c: "claim_entry tid (hash_64 tid) (Some i) q = Some (reused, q\<lparr>implicitProducerHash := hs'\<rparr>)"
        "tables_inv ?n hs'" "capacity_of hs' = capacity_of ?hs"
        "\<forall>k \<in> thread_ids. thread_lookup hs' k = (if k = tid then Some (Some i) else thread_lookup ?hs k)" by auto
      let ?q = "q\<lparr>implicitProducerHash := hs'\<rparr>"
      have "get_or_add_implicit_producer mem tid q = Some (Some i, ?q)"
        using r(1) m(1) False c(1) by (simp add: get_or_add_implicit_producer_def)
      moreover have "\<forall>k \<in> thread_ids. thread_lookup hs' k = map_option Some (owner q k)" using c(4) t(4) Some by simp
      note threads_invI [OF c(2) _ this, of ?q]
      then have "threads_inv ?q" "\<forall>k \<in> thread_ids. owner ?q k = owner q k" using c(3) t by simp_all
      ultimately show ?thesis using inv'(2) Some by (intro exI [of _ "Some i"] exI [of _ ?q]) (simp add: queue_inv_def)
    qed
  qed
qed

text \<open>A thread ends: its producer, with what is left in its stream, is free for another thread.\<close>

lemma thread_exited_inv:
  assumes inv: "queue_inv q" and tid: "tid \<in> thread_ids" "owner q tid = Some i"
  shows "\<exists>q'. implicit_producer_thread_exited tid i q = Some q' \<and> queue_inv q' \<and> streams q' = streams q \<and>
    implicitProducerHashCount q' = implicitProducerHashCount q \<and>
    map inactive (producers q') = (map inactive (producers q))[i := True] \<and>
    (\<forall>k \<in> thread_ids. owner q' k = (if k = tid then None else owner q k))"
proof -
  let ?hs = "implicitProducerHash q" and ?n = "unat (implicitProducerHashCount q)"
  have t: "tables_inv ?n ?hs" "4 * ?n < 3 * capacity_of ?hs" "\<not> implicitProducerHashResizeInProgress q"
    "\<forall>k \<in> thread_ids. thread_lookup ?hs k = map_option Some (owner q k)" "owners_ok (map inactive (producers q)) (owner q)"
    and s: "streams_inv q"
    using inv by (auto simp: queue_inv_def threads_inv_def)
  have i: "i < length (producers q)" using owners_ok_owned(1) [OF t(5) tid] by simp
  have ok: "?hs \<noteq> []" "\<forall>h \<in> set ?hs. table_ok h" using t(1) by (simp_all add: tables_inv_def)
  from give_up_all [OF ok(2) tid(1)] obtain hs where hs: "those (map (give_up tid (hash_64 tid)) ?hs) = Some hs"
    "\<forall>h \<in> set hs. table_ok h" "map used hs = map used ?hs" "map hash_capacity hs = map hash_capacity ?hs"
    "\<forall>k \<in> thread_ids. thread_lookup hs k = (if k = tid then None else thread_lookup ?hs k)" by blast
  from ok(1) obtain h ps where h: "?hs = h # ps" by (cases ?hs) auto
  with hs obtain h' ps' where h': "hs = h' # ps'" "give_up tid (hash_64 tid) h = Some h'" "those (map (give_up tid (hash_64 tid)) ps) = Some ps'"
    by (auto split: option.splits)
  have eqs: "used h' = used h" "hash_capacity h' = hash_capacity h" using hs(3,4) by (simp_all add: h h'(1))
  have maps: "\<forall>k \<in> thread_ids. map_of (hash_entries h') k = (if k = tid then None else map_of (hash_entries h) k)"
    using give_up_map_of [of h tid] ok(2) tid(1) h h'(2) by auto
  have prevs: "\<forall>k \<in> thread_ids. thread_lookup ps' k = (if k = tid then None else thread_lookup ps k)"
    using give_up_all [of ps tid] ok(2) tid(1) h h'(3) by auto
  have "old_ids hs \<subseteq> old_ids ?hs"
  proof
    fix k assume k: "k \<in> old_ids hs"
    then have "k \<in> thread_ids" "map_of (hash_entries h') k = None" "thread_lookup ps' k \<noteq> None"
      by (simp_all add: old_ids_def h'(1))
    with maps prevs show "k \<in> old_ids ?hs" by (cases "k = tid") (simp_all add: old_ids_def h)
  qed
  then have "card (old_ids hs) \<le> card (old_ids ?hs)" by (intro card_mono) auto
  moreover have cap: "capacity_of hs = capacity_of ?hs" by (simp add: capacity_of_def h h'(1) eqs)
  ultimately have "tables_inv ?n hs" using t(1) hs(2) eqs by (auto simp: tables_inv_def h h'(1))
  let ?q = "set_producer i ((producers q ! i)\<lparr>inactive := True\<rparr>) (q\<lparr>implicitProducerHash := hs\<rparr>)"
  let ?own = "\<lambda>k. if k = tid then None else owner q k"
  have flags: "map inactive (producers ?q) = (map inactive (producers q))[i := True]" by (simp add: set_producer_def map_update)
  have "owners_ok (map inactive (producers ?q)) ?own"
    unfolding flags by (rule owners_ok_release [OF t(5) tid]) simp
  moreover have "\<forall>k \<in> thread_ids. thread_lookup hs k = map_option Some (?own k)" using hs(5) t(4) by simp
  ultimately have "threads_inv ?q \<and> (\<forall>k \<in> thread_ids. owner ?q k = ?own k)"
    using threads_invI [OF \<open>tables_inv ?n hs\<close>, of ?own ?q] cap t(2,3) by (simp add: set_producer_def)
  moreover have "streams_inv ?q" "streams ?q = streams q"
    using streams_inv_activate [of "q\<lparr>implicitProducerHash := hs\<rparr>" i True] s i by simp_all
  moreover have "implicit_producer_thread_exited tid i q = Some ?q"
    using hs(1) by (simp add: implicit_producer_thread_exited_def set_producer_def)
  ultimately show ?thesis using flags by (intro exI [of _ ?q]) (auto simp: queue_inv_def set_producer_def)
qed

section \<open>The operations\<close>

lemma same_table_inv:
  assumes "same_table q q'" "queue_inv q" "streams_inv q'"
  shows "queue_inv q'" "owner q' = owner q" "implicitProducerHashCount q' = implicitProducerHashCount q"
  using assms same_table_threads [OF assms(1)] by (simp_all add: queue_inv_def same_table_def)

text \<open>The stream a thread writes to: its own, one that no thread has, or a new one.\<close>

definition gets_stream ::
  "'e list list \<times> (u64 \<Rightarrow> nat option) \<Rightarrow> u64 \<Rightarrow> nat \<Rightarrow> 'e list list \<times> (u64 \<Rightarrow> nat option) \<Rightarrow> bool" where
  "gets_stream s tid i s' \<longleftrightarrow> snd s' = (snd s)(tid \<mapsto> i) \<and>
     (if i < length (fst s)
      then fst s' = fst s \<and> (snd s tid = Some i \<or> (snd s tid = None \<and> (\<forall>k. snd s k \<noteq> Some i)))
      else fst s' = fst s @ [[]] \<and> i = length (fst s) \<and> snd s tid = None)"

definition spec_of :: "'e ConcurrentQueue \<Rightarrow> 'e list list \<times> (u64 \<Rightarrow> nat option)" where
  "spec_of q = (streams q, \<lambda>k. if k \<in> thread_ids then owner q k else None)"

lemma spec_of_simps [simp]: "fst (spec_of q) = streams q" "snd (spec_of q) = (\<lambda>k. if k \<in> thread_ids then owner q k else None)"
  by (simp_all add: spec_of_def)

lemma inactive_unowned:
  assumes "queue_inv q" "inactive (producers q ! i)" "i < length (producers q)" "k \<in> thread_ids"
  shows "owner q k \<noteq> Some i"
  using assms by (auto simp: queue_inv_def threads_inv_def dest: owners_ok_owned(2))

lemma get_or_add_gets_stream:
  assumes inv: "queue_inv q" and tid: "tid \<in> thread_ids" and few: "unat (implicitProducerHashCount q) < 2 ^ 59"
  shows "\<exists>r q'. get_or_add_implicit_producer mem tid q = Some (r, q') \<and> queue_inv q' \<and>
    unat (implicitProducerHashCount q') \<le> unat (implicitProducerHashCount q) + (if r = owner q tid then 0 else 1) \<and>
    (case r of
       None \<Rightarrow> owner q tid = None \<and> spec_of q' = spec_of q
     | Some i \<Rightarrow> i < length (producers q') \<and> gets_stream (spec_of q) tid i (spec_of q'))"
proof -
  from get_or_add_implicit_producer_inv [OF assms, of mem] obtain r q' where
    g: "get_or_add_implicit_producer mem tid q = Some (r, q')" "queue_inv q'"
    "\<forall>k \<in> thread_ids. owner q' k = (if k = tid then r else owner q k)"
    "unat (implicitProducerHashCount q') \<le> unat (implicitProducerHashCount q) + (if r = owner q tid then 0 else 1)"
    and ca: "case owner q tid of
       Some i \<Rightarrow> r = Some i \<and> producers q' = producers q \<and> streams q' = streams q
     | None \<Rightarrow>
         (case r of
            None \<Rightarrow> streams q' = streams q \<and> producers q' = producers q
          | Some i \<Rightarrow>
              if i < length (producers q) then inactive (producers q ! i) \<and> streams q' = streams q
              else i = length (producers q) \<and> streams q' = streams q @ [[]])"
    by blast
  have own: "snd (spec_of q') = (snd (spec_of q))(tid := r)" using g(3) tid by (auto simp: fun_eq_iff)
  have "case r of None \<Rightarrow> owner q tid = None \<and> spec_of q' = spec_of q
     | Some i \<Rightarrow> i < length (producers q') \<and> gets_stream (spec_of q) tid i (spec_of q')"
  proof (cases r)
    case None
    then have "owner q tid = None" "streams q' = streams q" using ca by (auto split: option.splits)
    then have "snd (spec_of q') = snd (spec_of q)" using own None by auto
    with \<open>streams q' = streams q\<close> \<open>owner q tid = None\<close> None show ?thesis by (simp add: prod_eq_iff)
  next
    case (Some i)
    have "i < length (producers q)" if "owner q tid = Some i"
      using owners_ok_owned(1) [of "map inactive (producers q)" "owner q" tid i] that inv tid by (auto simp: queue_inv_def threads_inv_def)
    moreover have "owner q k \<noteq> Some i" if "owner q tid = None" "i < length (producers q)" "k \<in> thread_ids" for k
      using inactive_unowned [OF inv _ that(2,3)] ca Some that by simp
    ultimately show ?thesis
      using ca Some tid own by (auto simp: gets_stream_def simp flip: length_streams split: option.splits if_splits)
  qed
  with g(1,2,4) show ?thesis by blast
qed

text \<open>An enqueuing operation of a thread, in terms of what it does to the stream.\<close>

definition enqueues :: "'e ConcurrentQueue \<Rightarrow> u64 \<Rightarrow> 'e list \<Rightarrow> bool \<Rightarrow> 'e ConcurrentQueue \<Rightarrow> bool" where
  "enqueues q tid xs ok q' \<longleftrightarrow> queue_inv q' \<and>
     unat (implicitProducerHashCount q') \<le> unat (implicitProducerHashCount q) + (if owner q' tid = owner q tid then 0 else 1) \<and>
     ((\<exists>i yss own. gets_stream (spec_of q) tid i (yss, own) \<and> spec_of q' = (yss[i := yss ! i @ (if ok then xs else [])], own)) \<or>
      (\<not> ok \<and> spec_of q' = spec_of q))"

lemma on_producer_enqueues:
  assumes inv: "queue_inv q" and tid: "tid \<in> thread_ids" and few: "unat (implicitProducerHashCount q) < 2 ^ 59"
    and f: "\<And>i q. streams_inv q \<Longrightarrow> i < length (producers q) \<Longrightarrow>
      \<exists>ok q'. on_producer i f q = Some (ok, q') \<and> streams_inv q' \<and> same_table q q' \<and>
        streams q' = (streams q)[i := streams q ! i @ (if ok then xs else [])]"
  shows "\<exists>ok q'. do {
       (producer, q1) \<leftarrow> get_or_add_implicit_producer mem tid q;
       case producer of None \<Rightarrow> Some (False, q1) | Some i \<Rightarrow> on_producer i f q1
     } = Some (ok, q') \<and> enqueues q tid xs ok q'"
proof -
  from get_or_add_gets_stream [OF inv tid few, of mem] obtain r q1 where
    g: "get_or_add_implicit_producer mem tid q = Some (r, q1)" "queue_inv q1"
    "unat (implicitProducerHashCount q1) \<le> unat (implicitProducerHashCount q) + (if r = owner q tid then 0 else 1)"
    and ca: "case r of None \<Rightarrow> owner q tid = None \<and> spec_of q1 = spec_of q
     | Some i \<Rightarrow> i < length (producers q1) \<and> gets_stream (spec_of q) tid i (spec_of q1)" by blast
  show ?thesis
  proof (cases r)
    case None
    then have same: "spec_of q1 = spec_of q" using ca by simp
    then have "snd (spec_of q1) tid = snd (spec_of q) tid" by simp
    then have "owner q1 tid = owner q tid" using tid by simp
    moreover have "owner q tid = None" using ca None by simp
    ultimately show ?thesis using g None same by (auto simp: enqueues_def)
  next
    case (Some i)
    then have i: "i < length (producers q1)" "gets_stream (spec_of q) tid i (spec_of q1)" using ca by simp_all
    from f [OF _ i(1)] g(2) obtain ok q' where o: "on_producer i f q1 = Some (ok, q')" "streams_inv q'" "same_table q1 q'"
      "streams q' = (streams q1)[i := streams q1 ! i @ (if ok then xs else [])]" by (auto simp: queue_inv_def)
    note s = same_table_inv [OF o(3) g(2) o(2)]
    have "snd (spec_of q1) tid = Some i" using i(2) by (simp add: gets_stream_def)
    then have "owner q1 tid = r" using tid Some by simp
    moreover have "gets_stream (spec_of q) tid i (streams q1, snd (spec_of q1))" using i(2) by (simp add: spec_of_def)
    moreover have "spec_of q' = ((streams q1)[i := streams q1 ! i @ (if ok then xs else [])], snd (spec_of q1))"
      unfolding spec_of_def s(2) o(4) by simp
    ultimately have "enqueues q tid xs ok q'"
      using s g(3) unfolding enqueues_def by (metis (no_types))
    with g(1) o(1) Some show ?thesis by simp
  qed
qed

lemma inner_enqueue_inv:
  assumes "queue_inv q" "tid \<in> thread_ids" "unat (implicitProducerHashCount q) < 2 ^ 59"
  shows "\<exists>ok q'. inner_enqueue mem canAlloc tid x q = Some (ok, q') \<and> enqueues q tid [x] ok q'"
  unfolding inner_enqueue_def by (rule on_producer_enqueues [OF assms on_producer_enqueue])

lemma inner_enqueue_bulk_inv:
  assumes "queue_inv q" "tid \<in> thread_ids" "unat (implicitProducerHashCount q) < 2 ^ 59" "length xs \<le> VECTOR_MAX"
  shows "\<exists>ok q'. inner_enqueue_bulk mem canAlloc tid xs q = Some (ok, q') \<and> enqueues q tid xs ok q'"
  unfolding inner_enqueue_bulk_def by (rule on_producer_enqueues [OF assms(1-3) on_producer_enqueue_bulk [OF _ _ assms(4)]])

lemma queue_enqueue_bulk_inv:
  assumes "queue_inv q" "tid \<in> thread_ids" "unat (implicitProducerHashCount q) < 2 ^ 59" "length xs \<le> VECTOR_MAX"
  shows "\<exists>ok q'. queue_enqueue_bulk mem tid xs q = Some (ok, q') \<and> enqueues q tid xs ok q'"
  unfolding queue_enqueue_bulk_def by (rule inner_enqueue_bulk_inv [OF assms])

lemmas enqueue_defs = queue_enqueue_def queue_enqueue_bulk_def try_enqueue_def try_enqueue_bulk_def

lemma try_dequeue_inv:
  assumes "queue_inv q"
  shows "\<exists>r q'. try_dequeue q = Some (r, q') \<and> queue_inv q' \<and> owner q' = owner q \<and>
    implicitProducerHashCount q' = implicitProducerHashCount q \<and>
    (case r of
       None \<Rightarrow> q' = q \<and> (\<forall>xs \<in> set (streams q). xs = [])
     | Some x \<Rightarrow> (\<exists>i ys. fullest q (candidates q) i \<and> i < length (streams q) \<and> streams q ! i = x # ys \<and> streams q' = (streams q)[i := ys]))"
proof (cases "candidates q = []")
  case True
  with try_dequeue_empty [of q] candidates_none [of q] assms show ?thesis by (auto simp: queue_inv_def)
next
  case False
  from try_dequeue_takes [OF _ False] assms obtain i q' where i: "fullest q (candidates q) i"
    "try_dequeue q = Some (Some (hd (streams q ! i)), q')" "streams_inv q'" "same_table q q'"
    "streams q' = (streams q)[i := tl (streams q ! i)]" by (auto simp: queue_inv_def)
  then have "i < length (producers q)" "streams q ! i \<noteq> []" using candidates_bound by (auto simp: fullest_def)
  with i same_table_inv [OF i(4) assms i(3)] show ?thesis
    by (intro exI [of _ "Some (hd (streams q ! i))"] exI [of _ q'])
      (auto intro!: exI [of _ i] exI [of _ "tl (streams q ! i)"])
qed

lemma try_dequeue_non_interleaved_inv:
  assumes "queue_inv q"
  shows "\<exists>r q'. try_dequeue_non_interleaved q = Some (r, q') \<and> queue_inv q' \<and> owner q' = owner q \<and>
    implicitProducerHashCount q' = implicitProducerHashCount q \<and>
    (case r of
       None \<Rightarrow> streams q' = streams q \<and> (\<forall>xs \<in> set (streams q). xs = [])
     | Some x \<Rightarrow> (\<exists>i ys. i < length (streams q) \<and> streams q ! i = x # ys \<and> streams q' = (streams q)[i := ys] \<and>
         (\<forall>j < length (streams q). i < j \<longrightarrow> streams q ! j = [])))"
proof -
  from assms have t: "case find (\<lambda>i. streams q ! i \<noteq> []) (producer_order q) of
      None \<Rightarrow> \<exists>q'. try_producers None (producer_order q) q = Some (None, q') \<and> streams_inv q' \<and> same_table q q' \<and> streams q' = streams q
    | Some i \<Rightarrow> \<exists>q'. try_producers None (producer_order q) q = Some (Some (hd (streams q ! i)), q') \<and> streams_inv q' \<and>
        same_table q q' \<and> streams q' = (streams q)[i := tl (streams q ! i)]"
    by (intro try_producers_takes) (simp_all add: queue_inv_def producer_order_def)
  show ?thesis
  proof (cases "find (\<lambda>i. streams q ! i \<noteq> []) (producer_order q)")
    case None
    then have "\<forall>i < length (streams q). streams q ! i = []" by (auto simp: find_None_iff producer_order_def)
    then have "\<forall>xs \<in> set (streams q). xs = []" by (auto simp: in_set_conv_nth)
    with None t same_table_inv [OF _ assms] show ?thesis unfolding try_dequeue_non_interleaved_def by force
  next
    case (Some i)
    then obtain q' where q': "try_dequeue_non_interleaved q = Some (Some (hd (streams q ! i)), q')" "streams_inv q'" "same_table q q'"
      "streams q' = (streams q)[i := tl (streams q ! i)]" using t by (auto simp: try_dequeue_non_interleaved_def)
    from Some obtain k where k: "k < length (streams q)" "streams q ! i \<noteq> []" "i = rev [0..<length (streams q)] ! k"
      "\<forall>j < k. streams q ! (rev [0..<length (streams q)] ! j) = []" by (auto simp: find_Some_iff producer_order_def)
    then have i: "i = length (streams q) - Suc k" by (simp add: rev_nth)
    have "streams q ! j = []" if "j < length (streams q)" "i < j" for j
      using k(4) [rule_format, of "length (streams q) - Suc j"] that k(1) unfolding i by (simp add: rev_nth)
    moreover have "streams q ! i = hd (streams q ! i) # tl (streams q ! i)" "i < length (streams q)" using k(1,2) i by simp_all
    ultimately show ?thesis using q' same_table_inv [OF q'(3) assms q'(2)] by auto
  qed
qed

lemma try_dequeue_bulk_inv:
  assumes "queue_inv q" "bulk_take (unat maximum) (rev (streams q)) = (ys, yss)"
  shows "\<exists>q'. try_dequeue_bulk maximum q = Some ((of_nat (length ys), ys), q') \<and> queue_inv q' \<and> owner q' = owner q \<and>
    implicitProducerHashCount q' = implicitProducerHashCount q \<and> streams q' = rev yss"
proof -
  from assms(1) have "streams_inv q" by (simp add: queue_inv_def)
  from try_dequeue_bulk_takes [OF this assms(2)] obtain q' where
    q': "try_dequeue_bulk maximum q = Some ((of_nat (length ys), ys), q')" "streams_inv q'" "same_table q q'" "streams q' = rev yss" by blast
  with same_table_inv [OF q'(3) assms(1) q'(2)] show ?thesis by blast
qed

section \<open>Histories\<close>

text \<open>
  A history of operations on one queue. The exit of a thread is a step of its own: the notifier calls the queue
  for the producer that the thread was given, if it has one.
\<close>

datatype 'e queue_op =
    Enqueue u64 'e | Enqueue_bulk u64 "'e list" | Try_enqueue u64 'e | Try_enqueue_bulk u64 "'e list"
  | Dequeue | Dequeue_in_order | Dequeue_bulk u64 | Thread_exit u64

datatype 'e queue_result = Stored bool | Taken "'e option" | Taken_many u64 "'e list" | Exited

fun run_op :: "(nat \<Rightarrow> ptr) \<Rightarrow> 'e queue_op \<Rightarrow> 'e ConcurrentQueue \<Rightarrow> ('e queue_result \<times> 'e ConcurrentQueue) option" where
  "run_op mem (Enqueue tid x) q = do { (ok, q') \<leftarrow> queue_enqueue mem tid x q; Some (Stored ok, q') }"
| "run_op mem (Enqueue_bulk tid xs) q = do { (ok, q') \<leftarrow> queue_enqueue_bulk mem tid xs q; Some (Stored ok, q') }"
| "run_op mem (Try_enqueue tid x) q = do { (ok, q') \<leftarrow> try_enqueue mem tid x q; Some (Stored ok, q') }"
| "run_op mem (Try_enqueue_bulk tid xs) q = do { (ok, q') \<leftarrow> try_enqueue_bulk mem tid xs q; Some (Stored ok, q') }"
| "run_op mem Dequeue q = do { (r, q') \<leftarrow> try_dequeue q; Some (Taken r, q') }"
| "run_op mem Dequeue_in_order q = do { (r, q') \<leftarrow> try_dequeue_non_interleaved q; Some (Taken r, q') }"
| "run_op mem (Dequeue_bulk maximum) q = do { ((n, xs), q') \<leftarrow> try_dequeue_bulk maximum q; Some (Taken_many n xs, q') }"
| "run_op mem (Thread_exit tid) q =
     (case owner q tid of
        None \<Rightarrow> Some (Exited, q)
      | Some i \<Rightarrow> do { q' \<leftarrow> implicit_producer_thread_exited tid i q; Some (Exited, q') })"

fun run_ops :: "(nat \<Rightarrow> ptr) \<Rightarrow> 'e queue_op list \<Rightarrow> 'e ConcurrentQueue \<Rightarrow> ('e queue_result list \<times> 'e ConcurrentQueue) option" where
  "run_ops mem [] q = Some ([], q)"
| "run_ops mem (op # ops) q = do { (r, q1) \<leftarrow> run_op mem op q; (rs, q') \<leftarrow> run_ops mem ops q1; Some (r # rs, q') }"

fun op_ok :: "'e queue_op \<Rightarrow> bool" where
  "op_ok (Enqueue tid x) \<longleftrightarrow> tid \<in> thread_ids"
| "op_ok (Enqueue_bulk tid xs) \<longleftrightarrow> tid \<in> thread_ids \<and> length xs \<le> VECTOR_MAX"
| "op_ok (Try_enqueue tid x) \<longleftrightarrow> tid \<in> thread_ids"
| "op_ok (Try_enqueue_bulk tid xs) \<longleftrightarrow> tid \<in> thread_ids \<and> length xs \<le> VECTOR_MAX"
| "op_ok (Thread_exit tid) \<longleftrightarrow> tid \<in> thread_ids"
| "op_ok _ \<longleftrightarrow> True"

fun elements_of :: "'e queue_op \<Rightarrow> 'e list" where
  "elements_of (Enqueue tid x) = [x]"
| "elements_of (Enqueue_bulk tid xs) = xs"
| "elements_of (Try_enqueue tid x) = [x]"
| "elements_of (Try_enqueue_bulk tid xs) = xs"
| "elements_of _ = []"

fun thread_of :: "'e queue_op \<Rightarrow> u64" where
  "thread_of (Enqueue tid x) = tid"
| "thread_of (Enqueue_bulk tid xs) = tid"
| "thread_of (Try_enqueue tid x) = tid"
| "thread_of (Try_enqueue_bulk tid xs) = tid"
| "thread_of (Thread_exit tid) = tid"
| "thread_of _ = invalid_thread_id"

fun is_enqueue :: "'e queue_op \<Rightarrow> bool" where
  "is_enqueue (Enqueue tid x) \<longleftrightarrow> True"
| "is_enqueue (Enqueue_bulk tid xs) \<longleftrightarrow> True"
| "is_enqueue (Try_enqueue tid x) \<longleftrightarrow> True"
| "is_enqueue (Try_enqueue_bulk tid xs) \<longleftrightarrow> True"
| "is_enqueue _ \<longleftrightarrow> False"

fun is_dequeue :: "'e queue_op \<Rightarrow> bool" where
  "is_dequeue Dequeue \<longleftrightarrow> True"
| "is_dequeue Dequeue_in_order \<longleftrightarrow> True"
| "is_dequeue _ \<longleftrightarrow> False"

section \<open>The specification\<close>

inductive queue_step ::
  "'e list list \<times> (u64 \<Rightarrow> nat option) \<Rightarrow> 'e queue_op \<Rightarrow> 'e queue_result \<Rightarrow> 'e list list \<times> (u64 \<Rightarrow> nat option) \<Rightarrow> bool" where
  Store: "is_enqueue op \<Longrightarrow> gets_stream s (thread_of op) i (yss, own) \<Longrightarrow>
     queue_step s op (Stored True) (yss[i := yss ! i @ elements_of op], own)"
| Refuse_block: "is_enqueue op \<Longrightarrow> gets_stream s (thread_of op) i s' \<Longrightarrow> queue_step s op (Stored False) s'"
| Refuse_producer: "is_enqueue op \<Longrightarrow> queue_step s op (Stored False) s"
| Take: "is_dequeue op \<Longrightarrow> i < length xss \<Longrightarrow> xss ! i = x # ys \<Longrightarrow>
     queue_step (xss, own) op (Taken (Some x)) (xss[i := ys], own)"
| Empty: "is_dequeue op \<Longrightarrow> \<forall>xs \<in> set xss. xs = [] \<Longrightarrow> queue_step (xss, own) op (Taken None) (xss, own)"
| Take_many: "bulk_take (unat maximum) (rev xss) = (ys, yss) \<Longrightarrow>
     queue_step (xss, own) (Dequeue_bulk maximum) (Taken_many (of_nat (length ys)) ys) (rev yss, own)"
| Exit: "queue_step (xss, own) (Thread_exit tid) Exited (xss, own(tid := None))"

inductive queue_steps ::
  "'e list list \<times> (u64 \<Rightarrow> nat option) \<Rightarrow> 'e queue_op list \<Rightarrow> 'e queue_result list \<Rightarrow> 'e list list \<times> (u64 \<Rightarrow> nat option) \<Rightarrow> bool" where
  Nil: "queue_steps s [] [] s"
| Cons: "queue_step s op r s1 \<Longrightarrow> queue_steps s1 ops rs s' \<Longrightarrow> queue_steps s (op # ops) (r # rs) s'"

inductive_cases queue_steps_NilE: "queue_steps s [] rs s'"
inductive_cases queue_steps_ConsE: "queue_steps s (op # ops) rs s'"

lemma enqueues_step:
  assumes "enqueues q (thread_of op) (elements_of op) ok q'" "is_enqueue op"
  shows "queue_step (spec_of q) op (Stored ok) (spec_of q')"
proof -
  consider (stored) i yss own where "gets_stream (spec_of q) (thread_of op) i (yss, own)"
      "spec_of q' = (yss[i := yss ! i @ (if ok then elements_of op else [])], own)"
    | (refused) "\<not> ok" "spec_of q' = spec_of q"
    using assms(1) unfolding enqueues_def by blast
  then show ?thesis
  proof cases
    case stored
    then show ?thesis using assms(2) by (cases ok) (auto intro: queue_step.Store queue_step.Refuse_block)
  next
    case refused
    then show ?thesis using assms(2) by (auto intro: queue_step.Refuse_producer)
  qed
qed

text \<open>One operation of the code is one step of the specification.\<close>

lemma run_enqueue_step:
  assumes "is_enqueue op" "queue_inv q" "op_ok op" "unat (implicitProducerHashCount q) < 2 ^ 59"
  shows "\<exists>ok q'. run_op mem op q = Some (Stored ok, q') \<and> enqueues q (thread_of op) (elements_of op) ok q'"
proof (cases op)
  case (Enqueue tid x)
  with inner_enqueue_inv [of q tid mem CanAlloc x] assms show ?thesis by (auto simp: enqueue_defs)
next
  case (Enqueue_bulk tid xs)
  with inner_enqueue_bulk_inv [of q tid xs mem CanAlloc] assms show ?thesis by (auto simp: enqueue_defs)
next
  case (Try_enqueue tid x)
  with inner_enqueue_inv [of q tid mem CannotAlloc x] assms show ?thesis by (auto simp: enqueue_defs)
next
  case (Try_enqueue_bulk tid xs)
  with inner_enqueue_bulk_inv [of q tid xs mem CannotAlloc] assms show ?thesis by (auto simp: enqueue_defs)
qed (use assms(1) in auto)

lemma run_dequeue_step:
  assumes "is_dequeue op" "queue_inv q"
  shows "\<exists>r q'. run_op mem op q = Some (Taken r, q') \<and> queue_inv q' \<and> owner q' = owner q \<and>
    implicitProducerHashCount q' = implicitProducerHashCount q \<and>
    (case r of
       None \<Rightarrow> streams q' = streams q \<and> (\<forall>xs \<in> set (streams q). xs = [])
     | Some x \<Rightarrow> (\<exists>i ys. i < length (streams q) \<and> streams q ! i = x # ys \<and> streams q' = (streams q)[i := ys]))"
proof (cases op)
  case Dequeue
  from try_dequeue_inv [OF assms(2)] obtain r q' where d: "try_dequeue q = Some (r, q')" "queue_inv q'" "owner q' = owner q"
    "implicitProducerHashCount q' = implicitProducerHashCount q" and
    r: "case r of
       None \<Rightarrow> q' = q \<and> (\<forall>xs \<in> set (streams q). xs = [])
     | Some x \<Rightarrow> (\<exists>i ys. fullest q (candidates q) i \<and> i < length (streams q) \<and> streams q ! i = x # ys \<and> streams q' = (streams q)[i := ys])"
    by blast
  with Dequeue show ?thesis by (intro exI [of _ r] exI [of _ q']) (auto split: option.splits)
next
  case Dequeue_in_order
  from try_dequeue_non_interleaved_inv [OF assms(2)] obtain r q' where
    d: "try_dequeue_non_interleaved q = Some (r, q')" "queue_inv q'" "owner q' = owner q"
    "implicitProducerHashCount q' = implicitProducerHashCount q" and
    r: "case r of
       None \<Rightarrow> streams q' = streams q \<and> (\<forall>xs \<in> set (streams q). xs = [])
     | Some x \<Rightarrow> (\<exists>i ys. i < length (streams q) \<and> streams q ! i = x # ys \<and> streams q' = (streams q)[i := ys] \<and>
         (\<forall>j < length (streams q). i < j \<longrightarrow> streams q ! j = []))"
    by blast
  with Dequeue_in_order show ?thesis by (intro exI [of _ r] exI [of _ q']) (auto split: option.splits)
qed (use assms(1) in auto)

text \<open>One operation of the code is one step of the specification.\<close>

lemma run_op_step:
  assumes inv: "queue_inv q" and ok: "op_ok op" and few: "unat (implicitProducerHashCount q) < 2 ^ 59"
  shows "\<exists>r q'. run_op mem op q = Some (r, q') \<and> queue_inv q' \<and> queue_step (spec_of q) op r (spec_of q') \<and>
    unat (implicitProducerHashCount q') \<le> unat (implicitProducerHashCount q) + 1"
proof -
  consider (enq) "is_enqueue op" | (deq) "is_dequeue op" | (bulk) maximum where "op = Dequeue_bulk maximum" | (exit) tid where "op = Thread_exit tid"
    by (cases op) auto
  then show ?thesis
  proof cases
    case enq
    from run_enqueue_step [OF enq inv ok few, of mem] obtain b q' where
      q': "run_op mem op q = Some (Stored b, q')" "enqueues q (thread_of op) (elements_of op) b q'" by blast
    with enqueues_step [OF q'(2) enq] show ?thesis by (auto simp: enqueues_def split: if_splits)
  next
    case deq
    from run_dequeue_step [OF deq inv, of mem] obtain r q' where d: "run_op mem op q = Some (Taken r, q')" "queue_inv q'" "owner q' = owner q"
      "implicitProducerHashCount q' = implicitProducerHashCount q" and
      r: "case r of
         None \<Rightarrow> streams q' = streams q \<and> (\<forall>xs \<in> set (streams q). xs = [])
       | Some x \<Rightarrow> (\<exists>i ys. i < length (streams q) \<and> streams q ! i = x # ys \<and> streams q' = (streams q)[i := ys])"
      by blast
    have "queue_step (spec_of q) op (Taken r) (spec_of q')"
      unfolding spec_of_def d(3) using r deq by (cases r) (auto intro!: queue_step.Empty queue_step.Take)
    with d show ?thesis by auto
  next
    case bulk
    obtain ys yss where b: "bulk_take (unat maximum) (rev (streams q)) = (ys, yss)" by fastforce
    from try_dequeue_bulk_inv [OF inv b] obtain q' where
      d: "try_dequeue_bulk maximum q = Some ((of_nat (length ys), ys), q')" "queue_inv q'" "owner q' = owner q"
      "implicitProducerHashCount q' = implicitProducerHashCount q" "streams q' = rev yss" by blast
    have "queue_step (spec_of q) op (Taken_many (of_nat (length ys)) ys) (spec_of q')"
      unfolding spec_of_def d(3,5) bulk by (rule queue_step.Take_many [OF b])
    with d bulk show ?thesis by auto
  next
    case (exit tid)
    show ?thesis
    proof (cases "owner q tid")
      case None
      then have "(snd (spec_of q))(tid := None) = snd (spec_of q)" by auto
      then have "queue_step (spec_of q) op Exited (spec_of q)"
        using queue_step.Exit [of "streams q" "snd (spec_of q)" tid] by (simp add: exit spec_of_def)
      with None exit inv show ?thesis by auto
    next
      case (Some i)
      with thread_exited_inv [OF inv _ Some] ok exit obtain q' where
        q': "implicit_producer_thread_exited tid i q = Some q'" "queue_inv q'" "streams q' = streams q"
        "implicitProducerHashCount q' = implicitProducerHashCount q"
        "\<forall>k \<in> thread_ids. owner q' k = (if k = tid then None else owner q k)" by auto
      then have "snd (spec_of q') = (snd (spec_of q))(tid := None)" by (auto simp: fun_eq_iff)
      then have "queue_step (spec_of q) op Exited (spec_of q')"
        using queue_step.Exit [of "streams q" "snd (spec_of q)" tid] q'(3) by (simp add: exit spec_of_def)
      with q' Some exit show ?thesis by auto
    qed
  qed
qed

lemma run_ops_steps:
  assumes "queue_inv q" "list_all op_ok ops" "unat (implicitProducerHashCount q) + length ops \<le> 2 ^ 59"
  shows "\<exists>rs q'. run_ops mem ops q = Some (rs, q') \<and> queue_inv q' \<and> queue_steps (spec_of q) ops rs (spec_of q')"
  using assms
proof (induction ops arbitrary: q)
  case Nil
  then show ?case by (auto intro: queue_steps.Nil)
next
  case (Cons op ops)
  then obtain r q1 where r: "run_op mem op q = Some (r, q1)" "queue_inv q1" "queue_step (spec_of q) op r (spec_of q1)"
    "unat (implicitProducerHashCount q1) \<le> unat (implicitProducerHashCount q) + 1"
    using run_op_step [of q op mem] by auto
  with Cons.IH [of q1] Cons.prems obtain rs q' where "run_ops mem ops q1 = Some (rs, q')" "queue_inv q'"
    "queue_steps (spec_of q1) ops rs (spec_of q')" by auto
  with r show ?case by (auto intro: queue_steps.Cons)
qed

lemma new_queue_count [simp]: "implicitProducerHashCount (new_queue mem capacity) = 0"
  by (auto simp: new_queue_def populate_initial_block_list_def create_array_def malloc_blocks_def Let_def
      populate_initial_implicit_producer_hash_def bare_queue_def split: prod.splits if_splits)

lemma new_queue_inv:
  "queue_inv (new_queue mem capacity :: 'e ConcurrentQueue)" "spec_of (new_queue mem capacity :: 'e ConcurrentQueue) = ([], \<lambda>_. None)"
  using new_queue_threads [of mem capacity] new_queue_streams [of mem capacity] by (auto simp: queue_inv_def spec_of_def fun_eq_iff)

end
