(* ===== verification/Ready_Queue.thy ===== *)
theory Ready_Queue
  imports Worker_History Queue_Correct
begin

text \<open>
  The ready queue of a worker group (\<open>worker_group.hpp\<close>: \<open>ready_queue\<close>) is the queue of
  \<open>concurrentqueue.h\<close>. It provides what the group relies on, so what is proved of a group holds with
  this queue. One thread enqueues, the one that spins the executor; all workers dequeue. \<open>None\<close> is the state
  after undefined behaviour, which no run of a group gets to.
\<close>

section \<open>The operations\<close>

definition ready_queue_ops ::
  "(nat \<Rightarrow> ptr) \<Rightarrow> u64 \<Rightarrow> ('b option ConcurrentQueue option, 'b option) queue_ops" where
  "ready_queue_ops mem tid =
     \<lparr>q_enqueue_bulk = (\<lambda>xs s. case s of None \<Rightarrow> (False, None) | Some q \<Rightarrow>
        (case queue_enqueue_bulk mem tid xs q of None \<Rightarrow> (False, None) | Some (ok, q') \<Rightarrow> (ok, Some q'))),
      q_try_dequeue = (\<lambda>s. case s of None \<Rightarrow> (None, None) | Some q \<Rightarrow>
        (case try_dequeue q of None \<Rightarrow> (None, None) | Some (r, q') \<Rightarrow> (r, Some q')))\<rparr>"

text \<open>A queue into which one thread enqueues: it has no producer yet, or the only one.\<close>

definition ready_queue_inv :: "u64 \<Rightarrow> 'e ConcurrentQueue \<Rightarrow> bool" where
  "ready_queue_inv tid q \<longleftrightarrow> tid \<in> thread_ids \<and> queue_inv q \<and> unat (implicitProducerHashCount q) \<le> length (streams q) \<and>
     (streams q = [] \<and> owner q tid = None \<or> length (streams q) = 1 \<and> owner q tid = Some 0)"

definition ready_queue_ok :: "u64 \<Rightarrow> 'e ConcurrentQueue option \<Rightarrow> bool" where
  "ready_queue_ok tid s \<longleftrightarrow> (\<exists>q. s = Some q \<and> ready_queue_inv tid q)"

definition ready_elements :: "'e ConcurrentQueue option \<Rightarrow> 'e list" where
  "ready_elements s = (case s of None \<Rightarrow> [] | Some q \<Rightarrow> concat (streams q))"

lemma ready_enqueue:
  assumes inv: "ready_queue_inv tid q" and len: "length xs \<le> VECTOR_MAX"
  shows "\<exists>ok q'. queue_enqueue_bulk mem tid xs q = Some (ok, q') \<and> ready_queue_inv tid q' \<and>
    concat (streams q') = concat (streams q) @ (if ok then xs else [])"
proof -
  have q: "tid \<in> thread_ids" "queue_inv q" and "unat (implicitProducerHashCount q) \<le> 1"
    using inv by (auto simp: ready_queue_inv_def simp del: length_streams)
  then have "unat (implicitProducerHashCount q) < 2 ^ 59" by simp
  from queue_enqueue_bulk_inv [OF q(2,1) this len, of mem] obtain ok q' where
    e: "queue_enqueue_bulk mem tid xs q = Some (ok, q')" "enqueues q tid xs ok q'" by blast
  have c: "queue_inv q'" "unat (implicitProducerHashCount q') \<le> unat (implicitProducerHashCount q) + (if owner q' tid = owner q tid then 0 else 1)"
    and alt: "(\<exists>i yss own. gets_stream (spec_of q) tid i (yss, own) \<and> spec_of q' = (yss[i := yss ! i @ (if ok then xs else [])], own)) \<or>
      (\<not> ok \<and> spec_of q' = spec_of q)"
    using e(2) by (auto simp: enqueues_def)
  have own: "owner q tid = snd (spec_of q) tid" "owner q' tid = snd (spec_of q') tid" using q(1) by simp_all
  have str: "streams q = fst (spec_of q)" "streams q' = fst (spec_of q')" by simp_all
  from alt show ?thesis
  proof
    assume "\<not> ok \<and> spec_of q' = spec_of q"
    then have same: "\<not> ok" "owner q' tid = owner q tid" "streams q' = streams q" using own str by simp_all
    then have "ready_queue_inv tid q'" using c inv by (simp add: ready_queue_inv_def del: length_streams)
    with e(1) same show ?thesis by auto
  next
    assume "\<exists>i yss own. gets_stream (spec_of q) tid i (yss, own) \<and> spec_of q' = (yss[i := yss ! i @ (if ok then xs else [])], own)"
    then obtain i yss own' where g: "gets_stream (spec_of q) tid i (yss, own')" "spec_of q' = (yss[i := yss ! i @ (if ok then xs else [])], own')"
      by blast
    have o': "owner q' tid = Some i" and s': "streams q' = yss[i := yss ! i @ (if ok then xs else [])]"
      using g own(2) str(2) by (simp_all add: gets_stream_def)
    have "i = 0 \<and> length yss = 1 \<and> concat yss = concat (streams q)"
      using g(1) inv q(1) by (auto simp: gets_stream_def ready_queue_inv_def simp del: length_streams split: if_splits)
    then obtain ys where y: "i = 0" "yss = [ys]" "concat (streams q) = ys" by (auto simp: length_Suc_conv)
    have "unat (implicitProducerHashCount q') \<le> 1" using c(2) inv o' y(1)
      by (auto simp: ready_queue_inv_def simp del: length_streams split: if_splits)
    then have "ready_queue_inv tid q'" using q(1) c(1) o' s' y by (simp add: ready_queue_inv_def del: length_streams)
    with e(1) s' y show ?thesis by auto
  qed
qed

lemma ready_dequeue:
  assumes inv: "ready_queue_inv tid q"
  shows "\<exists>r q'. try_dequeue q = Some (r, q') \<and> ready_queue_inv tid q' \<and>
    (case r of None \<Rightarrow> concat (streams q) = [] \<and> concat (streams q') = [] | Some x \<Rightarrow> concat (streams q) = x # concat (streams q'))"
proof -
  have q: "queue_inv q" using inv by (simp add: ready_queue_inv_def)
  from try_dequeue_inv [OF q] obtain r q' where d: "try_dequeue q = Some (r, q')" "queue_inv q'" "owner q' = owner q"
    "implicitProducerHashCount q' = implicitProducerHashCount q" and
    r: "case r of
       None \<Rightarrow> q' = q \<and> (\<forall>xs \<in> set (streams q). xs = [])
     | Some x \<Rightarrow> (\<exists>i ys. fullest q (candidates q) i \<and> i < length (streams q) \<and> streams q ! i = x # ys \<and> streams q' = (streams q)[i := ys])"
    by blast
  show ?thesis
  proof (cases r)
    case None
    with d r inv show ?thesis by auto
  next
    case (Some x)
    with r obtain i ys where i: "i < length (streams q)" "streams q ! i = x # ys" "streams q' = (streams q)[i := ys]" by auto
    then have "length (streams q) = 1" using inv by (auto simp: ready_queue_inv_def simp del: length_streams)
    then have "streams q = [x # ys]" using i by (auto simp: length_Suc_conv simp del: length_streams)
    moreover have "i = 0" using i(1) \<open>length (streams q) = 1\<close> by simp
    ultimately have "ready_queue_inv tid q'" "concat (streams q) = x # concat (streams q')"
      using inv d i(3) by (simp_all add: ready_queue_inv_def del: length_streams)
    with d(1) Some show ?thesis by auto
  qed
qed

interpretation rq: fifo_queue "ready_queue_ops mem tid" "ready_queue_ok tid" ready_elements for mem tid
proof unfold_locales
  fix q q' :: "'b option ConcurrentQueue option" and xs b r and x :: "'b option"
  assume ok: "ready_queue_ok tid q"
  then obtain s where s: "q = Some s" "ready_queue_inv tid s" by (auto simp: ready_queue_ok_def)
  { assume l: "length xs \<le> VECTOR_MAX" and e: "q_enqueue_bulk (ready_queue_ops mem tid) xs q = (b, q')"
    from ready_enqueue [OF s(2) l, of mem] e s(1)
    show "ready_queue_ok tid q'" "ready_elements q' = (if b then ready_elements q @ xs else ready_elements q)"
      "mset (ready_elements q') = (if b then mset (ready_elements q) + mset xs else mset (ready_elements q))"
      by (auto simp: ready_queue_ops_def ready_queue_ok_def ready_elements_def) }
  { assume e: "q_try_dequeue (ready_queue_ops mem tid) q = (r, q')"
    from ready_dequeue [OF s(2)] e s(1)
    show "ready_queue_ok tid q'" by (auto simp: ready_queue_ops_def ready_queue_ok_def ready_elements_def) }
  { assume e: "q_try_dequeue (ready_queue_ops mem tid) q = (Some x, q')"
    from ready_dequeue [OF s(2)] e s(1)
    show "ready_elements q = x # ready_elements q'" "mset (ready_elements q) = add_mset x (mset (ready_elements q'))"
      by (auto simp: ready_queue_ops_def ready_queue_ok_def ready_elements_def) }
  { assume e: "q_try_dequeue (ready_queue_ops mem tid) q = (None, q')"
    from ready_dequeue [OF s(2)] e s(1)
    show "mset (ready_elements q) = {#} \<and> mset (ready_elements q') = {#}"
      by (auto simp: ready_queue_ops_def ready_queue_ok_def ready_elements_def) }
qed

section \<open>Groups with this queue\<close>

lemma new_ready_queue [simp]:
  "ready_queue_ok tid (Some (new_queue mem capacity)) \<longleftrightarrow> tid \<in> thread_ids" "ready_elements (Some (new_queue mem capacity)) = []"
  by (simp_all add: ready_queue_ok_def ready_queue_inv_def ready_elements_def new_queue_inv(1) new_queue_threads(2) new_queue_streams(2))

text \<open>The state in which the constructors leave a group: its threads are spawned, its queue is new.\<close>

definition new_group :: "(nat \<Rightarrow> ptr) \<Rightarrow> u64 \<Rightarrow> bool \<Rightarrow> int \<Rightarrow> int \<Rightarrow> ('b option ConcurrentQueue option, 'b) group_sys" where
  "new_group mem capacity mutex prio n =
     start_group (if mutex then make_mutex_group prio (Some (new_queue mem capacity)) else make_group prio n (Some (new_queue mem capacity)))"

abbreviation ready_inv :: "u64 \<Rightarrow> ('b option ConcurrentQueue option, 'b) group_sys \<Rightarrow> bool" where
  "ready_inv tid \<equiv> group_inv (ready_queue_ok tid) (\<lambda>q. mset (ready_elements q))"

lemma new_group_inv:
  assumes "tid \<in> thread_ids"
  shows "ready_inv tid (new_group mem capacity mutex prio n)"
    "permits_cover (new_group mem capacity mutex prio n)"
    "permits_exact (\<lambda>q. mset (ready_elements q)) (new_group mem capacity mutex prio n)"
    "rq.accounted (new_group mem capacity mutex prio n) []" "rq.in_order (new_group mem capacity True prio n) []"
    "length (workers (new_group mem capacity True prio n)) = 1"
proof -
  show "ready_inv tid (new_group mem capacity mutex prio n)"
    by (cases mutex) (simp_all add: new_group_def rq.start_group_inv assms)
qed (simp_all add: new_group_def permits_cover_def permits_exact_def rq.accounted_def rq.in_order_def start_group_def
      make_group_def make_mutex_group_def carried_def counting_def)

section \<open>An example run\<close>

text \<open>A \<open>malloc\<close> that always succeeds, and the first batch of a thread into a new queue: it is stored.\<close>

definition example_mem :: "nat \<Rightarrow> ptr" where
  "example_mem k = 4096 * (k + 1)"






lemma example_thread: "2000 \<in> thread_ids"
  by (simp add: thread_ids_def invalid_thread_id_def invalid_thread_id2_def)


text \<open>A group for the examples, three threads or one, and its state after the dispatcher has queued a batch.\<close>

definition example_group :: "bool \<Rightarrow> (bool option ConcurrentQueue option, bool) group_sys" where
  "example_group mutex = new_group example_mem 1024 mutex 5 3"

definition example_dispatched :: "bool \<Rightarrow> (bool option ConcurrentQueue option, bool) group_sys" where
  "example_dispatched mutex = (case dispatch (ready_queue_ops example_mem 2000) [True, False] (grp (example_group mutex)) of
     (d, g) \<Rightarrow> (example_group mutex)\<lparr>dispatcher := d, grp := g\<rparr>)"

lemma example_group_idle [simp]: "dispatcher (example_group mutex) = D_idle" "running (example_group mutex)"
    "length (workers (example_group False)) = 3" "length (workers (example_group True)) = 1"
  by (simp_all add: example_group_def new_group_def start_group_def make_mutex_group_def make_group_def)

lemma example_history_of_group:
  "\<exists>bs. group_history (ready_queue_ops example_mem 2000) (new_group example_mem 1024 mutex 5 3) bs (example_dispatched mutex)"
proof -
  let ?ops = "ready_queue_ops example_mem 2000 :: (bool option ConcurrentQueue option, bool option) queue_ops"
  obtain d g where d: "dispatch ?ops [True, False] (grp (example_group mutex)) = (d, g)" by fastforce
  have "length [True, False] \<le> VECTOR_MAX" by (simp add: VECTOR_MAX_def)
  from group_history.batch [OF group_history.start example_group_idle(1) this d] show ?thesis
    unfolding example_dispatched_def d prod.case by (auto simp: example_group_def)
qed


section \<open>Properties\<close>



text \<open>
  C2. Every bundle that the dispatcher has queued is run once: at any moment it is in the list of those run, with a worker
  that has popped it, or in the queue.
\<close>

theorem bundles_run_once:
  assumes "tid \<in> thread_ids" "group_history (ready_queue_ops mem tid) (new_group mem capacity mutex prio n) bs s"
  shows "mset (map Some bs) =
    mset (map Some (executed (grp s))) + mset (map Some (carried (workers s))) + mset (ready_elements (queue (grp s)))"
  using rq.accounted_history [OF assms(2) new_group_inv(1,4) [OF assms(1)]] by (simp add: rq.accounted_def)

theorem bundles_run_once_witness:
  "\<exists>bs. mset (map Some bs) = mset (map Some (executed (grp (example_dispatched False)))) +
    mset (map Some (carried (workers (example_dispatched False)))) + mset (ready_elements (queue (grp (example_dispatched False))))"
  using bundles_run_once [OF example_thread] example_history_of_group [of False] by blast

text \<open>
  C15. The group of a mutex runs its bundles in the order in which the dispatcher queued them.
\<close>

theorem mutex_group_in_order:
  assumes "tid \<in> thread_ids" "group_history (ready_queue_ops mem tid) (new_group mem capacity True prio n) bs s"
  shows "map Some bs = map Some (executed (grp s)) @ map Some (carried (workers s)) @ ready_elements (queue (grp s))"
  using rq.in_order_history [OF assms(2) new_group_inv(1,5,6) [OF assms(1)]] by (simp add: rq.in_order_def)

theorem mutex_group_in_order_witness:
  "\<exists>bs. map Some bs = map Some (executed (grp (example_dispatched True))) @ map Some (carried (workers (example_dispatched True))) @
    ready_elements (queue (grp (example_dispatched True)))"
  using mutex_group_in_order [OF example_thread] example_history_of_group [of True] by blast







end
