(* ===== verification/Queue_Histories.thy ===== *)
theory Queue_Histories
  imports Queue_Correct
begin

text \<open>
  Properties of every history of operations on a queue, read off the specification that the code refines.
\<close>

section \<open>What a history stores and takes\<close>

fun stored_elements :: "'e queue_op list \<Rightarrow> 'e queue_result list \<Rightarrow> 'e list" where
  "stored_elements (op # ops) (r # rs) = (if r = Stored True then elements_of op else []) @ stored_elements ops rs"
| "stored_elements _ _ = []"

fun taken_elements :: "'e queue_result list \<Rightarrow> 'e list" where
  "taken_elements [] = []"
| "taken_elements (r # rs) = (case r of Taken (Some x) \<Rightarrow> x # taken_elements rs | Taken_many n xs \<Rightarrow> xs @ taken_elements rs | _ \<Rightarrow> taken_elements rs)"

lemma taken_elements_append: "taken_elements (r # rs) = taken_elements [r] @ taken_elements rs"
  by (simp split: queue_result.splits option.splits)

lemma bulk_take_mset: "bulk_take n xss = (ys, yss) \<Longrightarrow> mset (concat xss) = mset ys + mset (concat yss)"
proof (induction xss arbitrary: n ys yss)
  case (Cons xs xss)
  obtain vs vss where v: "bulk_take (n - length xs) xss = (vs, vss)" by fastforce
  with Cons.prems have e: "ys = take n xs @ vs" "yss = drop n xs # vss" by auto
  have "mset xs = mset (take n xs) + mset (drop n xs)" by (metis append_take_drop_id mset_append)
  with Cons.IH [OF v] show ?case unfolding e by simp
qed simp

lemma bulk_take_total: "bulk_take n xss = (ys, yss) \<Longrightarrow> length ys = min n (length (concat xss))"
  by (induction xss arbitrary: n ys yss) (fastforce split: prod.splits)+

lemma mset_concat_rev: "mset (concat (rev xss)) = mset (concat xss)"
  by (induction xss) simp_all

lemma gets_stream_bound: "gets_stream s tid i s' \<Longrightarrow> i < length (fst s')"
  by (auto simp: gets_stream_def split: if_splits)

lemma gets_stream_mset: "gets_stream s tid i s' \<Longrightarrow> mset (concat (fst s')) = mset (concat (fst s))"
  by (auto simp: gets_stream_def split: if_splits)

lemma queue_step_mset:
  assumes "queue_step s op r s'"
  shows "mset (concat (fst s)) + mset (stored_elements [op] [r]) = mset (taken_elements [r]) + mset (concat (fst s'))"
  using assms
proof cases
  case (Store i yss own)
  then show ?thesis
    using gets_stream_mset [OF Store(4)] mset_concat_update [OF gets_stream_bound [OF Store(4)], of "fst (yss, own) ! i @ elements_of op"]
    by simp
next
  case (Refuse_block i)
  then show ?thesis using gets_stream_mset by fastforce
next
  case (Take i xss x ys own)
  then show ?thesis using mset_concat_update [of i xss ys] by (cases op) simp_all
next
  case (Empty xss own)
  then show ?thesis by simp
next
  case (Take_many maximum xss ys yss own)
  then show ?thesis using bulk_take_mset [OF Take_many(5)] by (simp add: mset_concat_rev)
qed auto

lemma queue_steps_mset:
  "queue_steps s ops rs s' \<Longrightarrow>
   mset (concat (fst s)) + mset (stored_elements ops rs) = mset (taken_elements rs) + mset (concat (fst s'))"
proof (induction rule: queue_steps.induct)
  case (Cons s op r s1 ops rs s')
  have "mset (stored_elements (op # ops) (r # rs)) = mset (stored_elements [op] [r]) + mset (stored_elements ops rs)" by simp
  moreover have "mset (taken_elements (r # rs)) = mset (taken_elements [r]) + mset (taken_elements rs)"
    by (subst taken_elements_append) simp
  moreover have "a + (s1 + s2) = (t1 + t2) + c" if "a + s1 = t1 + b" "b + s2 = t2 + c" for a b c s1 s2 t1 t2 :: "'a multiset"
    using that by (metis add.assoc)
  note this [OF queue_step_mset [OF Cons.hyps(1)] Cons.IH]
  ultimately show ?case by simp
qed simp

section \<open>The order of one thread's elements\<close>



text \<open>Elements that carry the id of the thread that enqueues them, and threads that do not end.\<close>

fun signed :: "(u64 \<times> 'a) queue_op \<Rightarrow> bool" where
  "signed (Thread_exit tid) \<longleftrightarrow> False"
| "signed op \<longleftrightarrow> (\<forall>x \<in> set (elements_of op). fst x = thread_of op)"











section \<open>Draining a queue\<close>

lemma run_drains:
  assumes "queue_inv q"
  shows "\<exists>xs q'. run_ops mem (replicate (length (concat (streams q))) Dequeue) q = Some (map (\<lambda>x. Taken (Some x)) xs, q') \<and>
    mset xs = mset (concat (streams q)) \<and> try_dequeue q' = Some (None, q')"
  using assms
proof (induction "length (concat (streams q))" arbitrary: q)
  case 0
  then have e: "\<forall>xs \<in> set (streams q). xs = []" by simp
  then have "candidates q = []" by (simp add: candidates_none)
  then have "try_dequeue q = Some (None, q)" using try_dequeue_empty 0(2) by (auto simp: queue_inv_def)
  then show ?case using e by (intro exI [of _ "[]"] exI [of _ q]) (simp flip: 0(1))
next
  case (Suc n)
  have "concat (streams q) \<noteq> []" using Suc.hyps(2) by force
  then have ne: "\<not> (\<forall>xs \<in> set (streams q). xs = [])" by (auto simp: concat_eq_Nil_conv)
  from try_dequeue_inv [OF Suc.prems] obtain r q1 where d: "try_dequeue q = Some (r, q1)" "queue_inv q1" and
    r: "case r of
       None \<Rightarrow> q1 = q \<and> (\<forall>xs \<in> set (streams q). xs = [])
     | Some x \<Rightarrow> (\<exists>i ys. fullest q (candidates q) i \<and> i < length (streams q) \<and> streams q ! i = x # ys \<and> streams q1 = (streams q)[i := ys])"
    by blast
  with ne obtain x i ys where x: "r = Some x" "i < length (streams q)" "streams q ! i = x # ys" "streams q1 = (streams q)[i := ys]"
    by (auto split: option.splits)
  have m: "mset (concat (streams q1)) + {#x#} = mset (concat (streams q))"
    using mset_concat_update [OF x(2), of ys] by (simp add: x(3,4))
  then have "size (mset (concat (streams q1))) + 1 = size (mset (concat (streams q)))"
    by (metis size_union size_single)
  then have n: "n = length (concat (streams q1))" using Suc.hyps(2) by (simp only: size_mset)
  from Suc.hyps(1) [OF n d(2)] obtain xs q' where rest: "run_ops mem (replicate n Dequeue) q1 = Some (map (\<lambda>x. Taken (Some x)) xs, q')"
    "mset xs = mset (concat (streams q1))" "try_dequeue q' = Some (None, q')" using n by auto
  then have "run_ops mem (replicate (Suc n) Dequeue) q = Some (map (\<lambda>x. Taken (Some x)) (x # xs), q')" using d(1) x(1) by simp
  moreover have "mset (x # xs) = mset (concat (streams q))" using m rest(2) by (simp only: mset.simps flip: m) simp
  ultimately show ?case unfolding Suc.hyps(2) [symmetric] using rest(3) by blast
qed

section \<open>Memory\<close>



section \<open>Every history of a new queue\<close>

lemma new_queue_runs:
  assumes "list_all op_ok ops" "length ops \<le> 2 ^ 59"
  shows "\<exists>rs q. run_ops mem ops (new_queue mem capacity) = Some (rs, q) \<and> queue_inv q \<and> queue_steps ([], \<lambda>_. None) ops rs (spec_of q)"
  using run_ops_steps [OF new_queue_inv(1) assms(1), of mem capacity mem] assms(2) unfolding new_queue_inv(2) by simp

lemma history:
  assumes "list_all op_ok ops" "length ops \<le> 2 ^ 59" "run_ops mem ops (new_queue mem capacity) = Some (rs, q)"
  shows "queue_inv q" "queue_steps ([], \<lambda>_. None) ops rs (spec_of q)"
  using new_queue_runs [OF assms(1,2), of mem capacity] assms(3) by auto

text \<open>A history for the examples: two threads, one of which ends, and \<open>malloc\<close> that always succeeds.\<close>

definition example_ops :: "(u64 \<times> nat) queue_op list" where
  "example_ops = [Enqueue 2000 (2000, 7), Enqueue_bulk 3000 [(3000, 1), (3000, 2)], Dequeue, Enqueue 2000 (2000, 8),
     Try_enqueue 3000 (3000, 3), Try_enqueue_bulk 2000 [(2000, 9)], Dequeue_bulk 3, Dequeue_in_order, Enqueue 3000 (3000, 4)]"

lemma example_ops_ok: "list_all op_ok example_ops" "length example_ops \<le> 2 ^ 59" "list_all signed example_ops"
  by (simp_all add: example_ops_def thread_ids_def invalid_thread_id_def invalid_thread_id2_def VECTOR_MAX_def)

lemma example_history: "\<exists>rs q. run_ops (\<lambda>k. 4096 * (k + 1)) example_ops (new_queue (\<lambda>k. 4096 * (k + 1)) 0) = Some (rs, q)"
  using new_queue_runs [OF example_ops_ok(1,2)] by blast

section \<open>Properties\<close>



text \<open>
  C7. Safety: every element that was stored has either been taken, once, or is still in a stream.
\<close>

theorem queue_keeps_elements:
  assumes "list_all op_ok ops" "length ops \<le> 2 ^ 59" "run_ops mem ops (new_queue mem capacity) = Some (rs, q)"
  shows "mset (stored_elements ops rs) = mset (taken_elements rs) + mset (concat (streams q))"
  using queue_steps_mset [OF history(2) [OF assms]] by simp

theorem queue_keeps_elements_witness:
  "\<exists>rs q. run_ops (\<lambda>k. 4096 * (k + 1)) example_ops (new_queue (\<lambda>k. 4096 * (k + 1)) 0) = Some (rs, q) \<and>
    mset (stored_elements example_ops rs) = mset (taken_elements rs) + mset (concat (streams q))"
  using example_history queue_keeps_elements [OF example_ops_ok(1,2)] by blast



text \<open>
  C21. Liveness: as many calls of \<open>try_dequeue\<close> as there are elements left hand out exactly these, none of them failing,
  and then the queue reports that it is empty.
\<close>

theorem queue_drains:
  assumes "list_all op_ok ops" "length ops \<le> 2 ^ 59" "run_ops mem ops (new_queue mem capacity) = Some (rs, q)"
  shows "\<exists>xs q'. run_ops mem (replicate (length (stored_elements ops rs) - length (taken_elements rs)) Dequeue) q =
      Some (map (\<lambda>x. Taken (Some x)) xs, q') \<and>
    mset (stored_elements ops rs) = mset (taken_elements rs @ xs) \<and> try_dequeue q' = Some (None, q')"
proof -
  have m: "mset (stored_elements ops rs) = mset (taken_elements rs) + mset (concat (streams q))"
    using queue_steps_mset [OF history(2) [OF assms]] by simp
  have "length (stored_elements ops rs) = length (taken_elements rs) + length (concat (streams q))"
    using arg_cong [OF m, of size] by (simp only: size_union size_mset)
  moreover obtain xs q' where "run_ops mem (replicate (length (concat (streams q))) Dequeue) q = Some (map (\<lambda>x. Taken (Some x)) xs, q')"
    "mset xs = mset (concat (streams q))" "try_dequeue q' = Some (None, q')"
    using run_drains [OF history(1) [OF assms], of mem] by blast
  ultimately show ?thesis using m by (intro exI [of _ xs] exI [of _ q']) simp
qed

theorem queue_drains_witness:
  "\<exists>rs q xs q'. run_ops (\<lambda>k. 4096 * (k + 1)) example_ops (new_queue (\<lambda>k. 4096 * (k + 1)) 0) = Some (rs, q) \<and>
    run_ops (\<lambda>k. 4096 * (k + 1)) (replicate (length (stored_elements example_ops rs) - length (taken_elements rs)) Dequeue) q =
      Some (map (\<lambda>x. Taken (Some x)) xs, q') \<and> try_dequeue q' = Some (None, q')"
  using example_history queue_drains [OF example_ops_ok(1,2)] by blast

text \<open>
  C19. Invariant: no two threads have the same producer, and a producer is waiting to be used again exactly when no
  thread has it.
\<close>

theorem threads_keep_apart:
  assumes "list_all op_ok ops" "length ops \<le> 2 ^ 59" "run_ops mem ops (new_queue mem capacity) = Some (rs, q)"
  shows "inj_on (owner q) {k \<in> thread_ids. owner q k \<noteq> None} \<and>
    {i. i < length (producers q) \<and> \<not> inactive (producers q ! i)} = {i. \<exists>k. k \<in> thread_ids \<and> owner q k = Some i}"
proof -
  have ok: "owners_ok (map inactive (producers q)) (owner q)"
    using history(1) [OF assms] by (simp add: queue_inv_def threads_inv_def)
  then have "inj_on (owner q) {k \<in> thread_ids. owner q k \<noteq> None}"
    by (auto simp: inj_on_def dest: owners_ok_unique)
  moreover have "\<exists>k. k \<in> thread_ids \<and> owner q k = Some i" if "i < length (producers q)" "\<not> inactive (producers q ! i)" for i
    using ok that by (auto simp: owners_ok_def)
  moreover have "i < length (producers q) \<and> \<not> inactive (producers q ! i)" if "k \<in> thread_ids" "owner q k = Some i" for k i
    using owners_ok_owned [OF ok that] by auto
  ultimately show ?thesis by blast
qed

theorem threads_keep_apart_witness:
  "\<exists>rs q. run_ops (\<lambda>k. 4096 * (k + 1)) example_ops (new_queue (\<lambda>k. 4096 * (k + 1)) 0) = Some (rs, q) \<and>
    inj_on (owner q) {k \<in> thread_ids. owner q k \<noteq> None}"
  using example_history threads_keep_apart [OF example_ops_ok(1,2)] by blast



text \<open>
  C24. \<open>try_dequeue\<close> fails only when the whole queue is empty; otherwise it takes the oldest element of the fullest of the
  three newest producers that are not empty.
\<close>

theorem try_dequeue_takes_fullest:
  assumes "list_all op_ok ops" "length ops \<le> 2 ^ 59" "run_ops mem ops (new_queue mem capacity) = Some (rs, q)"
  shows "if concat (streams q) = [] then try_dequeue q = Some (None, q)
    else \<exists>i x ys q'. fullest q (candidates q) i \<and> streams q ! i = x # ys \<and> try_dequeue q = Some (Some x, q') \<and>
      streams q' = (streams q)[i := ys]"
proof -
  from try_dequeue_inv [OF history(1) [OF assms]] obtain r q' where d: "try_dequeue q = Some (r, q')" and
    r: "case r of
       None \<Rightarrow> q' = q \<and> (\<forall>xs \<in> set (streams q). xs = [])
     | Some x \<Rightarrow> (\<exists>i ys. fullest q (candidates q) i \<and> i < length (streams q) \<and> streams q ! i = x # ys \<and> streams q' = (streams q)[i := ys])"
    by blast
  show ?thesis
  proof (cases r)
    case None
    with r d show ?thesis by simp
  next
    case (Some x)
    with r obtain i ys where i: "fullest q (candidates q) i" "i < length (streams q)" "streams q ! i = x # ys" "streams q' = (streams q)[i := ys]"
      by auto
    then have "x # ys \<in> set (streams q)" by (metis nth_mem)
    then have "concat (streams q) \<noteq> []" by (auto simp: concat_eq_Nil_conv)
    with i d Some show ?thesis by auto
  qed
qed

theorem try_dequeue_takes_fullest_witness:
  "\<exists>rs q. run_ops (\<lambda>k. 4096 * (k + 1)) example_ops (new_queue (\<lambda>k. 4096 * (k + 1)) 0) = Some (rs, q) \<and>
    (if concat (streams q) = [] then try_dequeue q = Some (None, q)
     else \<exists>i x ys q'. fullest q (candidates q) i \<and> streams q ! i = x # ys \<and> try_dequeue q = Some (Some x, q') \<and>
       streams q' = (streams q)[i := ys])"
proof -
  from example_history obtain rs q where
    h: "run_ops (\<lambda>k. 4096 * (k + 1)) example_ops (new_queue (\<lambda>k. 4096 * (k + 1)) 0) = Some (rs, q)" by blast
  from try_dequeue_takes_fullest [OF example_ops_ok(1,2) h] h show ?thesis by blast
qed

text \<open>
  C12. \<open>try_dequeue_bulk\<close> hands out as many elements as it was asked for, or all there are; it empties the newest
  producers first, and of each producer it takes the oldest elements.
\<close>

theorem try_dequeue_bulk_takes_what_it_can:
  assumes "list_all op_ok ops" "length ops \<le> 2 ^ 59" "run_ops mem ops (new_queue mem capacity) = Some (rs, q)"
  shows "\<exists>ys yss q'. bulk_take (unat maximum) (rev (streams q)) = (ys, yss) \<and>
    try_dequeue_bulk maximum q = Some ((of_nat (length ys), ys), q') \<and> streams q' = rev yss \<and>
    length ys = min (unat maximum) (length (stored_elements ops rs) - length (taken_elements rs)) \<and>
    queue_size_approx q' = queue_size_approx q - of_nat (length ys)"
proof -
  obtain ys yss where b: "bulk_take (unat maximum) (rev (streams q)) = (ys, yss)" by fastforce
  from try_dequeue_bulk_inv [OF history(1) [OF assms] b] obtain q' where
    q': "try_dequeue_bulk maximum q = Some ((of_nat (length ys), ys), q')" "queue_inv q'" "streams q' = rev yss" by blast
  have total: "length (stored_elements ops rs) - length (taken_elements rs) = length (concat (streams q))"
    using arg_cong [OF queue_steps_mset [OF history(2) [OF assms]], of size] by simp
  have rev: "length (concat (rev xss)) = length (concat xss)" for xss :: "'a list list"
    using arg_cong [OF mset_concat_rev, of size] by simp
  have "length ys + length (concat yss) = length (concat (streams q))"
    using arg_cong [OF bulk_take_mset [OF b], of size] by (simp only: size_mset size_union rev)
  moreover have inv: "streams_inv q" "streams_inv q'" using q'(2) history(1) [OF assms] by (simp_all add: queue_inv_def)
  ultimately have "queue_size_approx q' = queue_size_approx q - of_nat (length ys)"
    unfolding queue_size_approx_streams [OF inv(2)] queue_size_approx_streams [OF inv(1)] length_concat [symmetric] q'(3) rev
    by (metis add_diff_cancel_left' of_nat_add)
  moreover have "length ys = min (unat maximum) (length (concat (streams q)))" using bulk_take_total [OF b] unfolding rev .
  ultimately show ?thesis using b q'(1,3) unfolding total by blast
qed

theorem try_dequeue_bulk_takes_what_it_can_witness:
  "\<exists>rs q ys q'. run_ops (\<lambda>k. 4096 * (k + 1)) example_ops (new_queue (\<lambda>k. 4096 * (k + 1)) 0) = Some (rs, q) \<and>
    try_dequeue_bulk 2 q = Some ((of_nat (length ys), ys), q') \<and>
    length ys = min 2 (length (stored_elements example_ops rs) - length (taken_elements rs))"
proof -
  from example_history obtain rs q where
    h: "run_ops (\<lambda>k. 4096 * (k + 1)) example_ops (new_queue (\<lambda>k. 4096 * (k + 1)) 0) = Some (rs, q)" by blast
  from try_dequeue_bulk_takes_what_it_can [OF example_ops_ok(1,2) h, of 2] h show ?thesis by auto
qed

text \<open>
  When nothing else runs, \<open>size_approx\<close> is not an approximation: it counts the elements stored and not taken.
\<close>

theorem size_approx_exact:
  assumes "list_all op_ok ops" "length ops \<le> 2 ^ 59" "run_ops mem ops (new_queue mem capacity) = Some (rs, q)"
  shows "queue_size_approx q = of_nat (length (stored_elements ops rs) - length (taken_elements rs))"
proof -
  have m: "mset (stored_elements ops rs) = mset (taken_elements rs) + mset (concat (streams q))"
    using queue_steps_mset [OF history(2) [OF assms]] by simp
  have "length (stored_elements ops rs) = length (taken_elements rs) + length (concat (streams q))"
    using arg_cong [OF m, of size] by (simp only: size_union size_mset)
  then have "length (stored_elements ops rs) - length (taken_elements rs) = sum_list (map length (streams q))"
    by (simp add: length_concat)
  moreover have "streams_inv q" using history(1) [OF assms] by (simp add: queue_inv_def)
  ultimately show ?thesis by (simp only: queue_size_approx_streams)
qed

theorem size_approx_exact_witness:
  "\<exists>rs q. run_ops (\<lambda>k. 4096 * (k + 1)) example_ops (new_queue (\<lambda>k. 4096 * (k + 1)) 0) = Some (rs, q) \<and>
    queue_size_approx q = of_nat (length (stored_elements example_ops rs) - length (taken_elements rs))"
  using example_history size_approx_exact [OF example_ops_ok(1,2)] by blast

end
