(* ===== verification/Executor_Queue.thy ===== *)
theory Executor_Queue
  imports Executor_Correctness Ready_Queue Queue_Histories
begin

text \<open>
  The executor with the queue of \<open>concurrentqueue.h\<close> in its worker groups: what \<open>populate_ready_queues\<close> adds to
  each ready queue, and that the groups it spawns, fills and leaves to their threads stay in order.
\<close>

section \<open>Groups between two turns of the executor\<close>











end
