(* ===== verification/Executor_Rounds.thy ===== *)
theory Executor_Rounds
  imports Executor_Queue
begin

text \<open>
  All turns of \<open>spin\<close>, with the queue of \<open>concurrentqueue.h\<close> in the worker groups: between two turns the threads of the
  groups take any steps, in each turn the executor hands over what is ready.
\<close>

section \<open>One turn\<close>












section \<open>All turns\<close>





section \<open>Properties\<close>







end
