(* ===== verification/Consumer_Tokens.thy ===== *)
theory Consumer_Tokens
  imports Queue_Histories
begin

text \<open>
  Consumer tokens (\<open>concurrentqueue.h\<close>: \<open>ConsumerToken\<close> and the operations that take one): a token remembers the
  producer that a consumer takes from; whenever one token has taken its quota, all tokens move on to the next
  producer of the list. Producers are numbered as in \<open>Concurrent_Queue\<close>.
\<close>

section \<open>The code\<close>

definition EXPLICIT_CONSUMER_CONSUMPTION_QUOTA_BEFORE_ROTATE :: u32 where
  "EXPLICIT_CONSUMER_CONSUMPTION_QUOTA_BEFORE_ROTATE = 256"

record ConsumerToken =
  initialOffset :: u32
  lastKnownGlobalOffset :: u32
  itemsConsumedFromCurrent :: u32
  currentProducer :: "nat option"
  desiredProducer :: "nat option"

definition new_consumer_token :: "'e ConcurrentQueue \<Rightarrow> ConsumerToken \<times> 'e ConcurrentQueue" where
  "new_consumer_token q =
     (\<lparr>initialOffset = nextExplicitConsumerId q, lastKnownGlobalOffset = - 1, itemsConsumedFromCurrent = 0,
        currentProducer = None, desiredProducer = None\<rparr>,
      q\<lparr>nextExplicitConsumerId := nextExplicitConsumerId q + 1\<rparr>)"

text \<open>The list of producers, from its tail, the newest one, to the oldest, which has no next.\<close>

definition producer_list_tail :: "'e ConcurrentQueue \<Rightarrow> nat option" where
  "producer_list_tail q = (if producers q = [] then None else Some (length (producers q) - 1))"

definition next_prod :: "nat \<Rightarrow> nat option" where
  "next_prod i = (if i = 0 then None else Some (i - 1))"

definition next_or_tail :: "'e ConcurrentQueue \<Rightarrow> nat \<Rightarrow> nat option" where
  "next_or_tail q i = (case next_prod i of None \<Rightarrow> producer_list_tail q | Some j \<Rightarrow> Some j)"

primrec advance_producer :: "nat \<Rightarrow> 'e ConcurrentQueue \<Rightarrow> nat \<Rightarrow> nat option" where
  "advance_producer 0 q i = Some i"
| "advance_producer (Suc n) q i = do { j \<leftarrow> next_or_tail q i; advance_producer n q j }"

text \<open>A remainder by zero is undefined.\<close>

definition remainder :: "u32 \<Rightarrow> u32 \<Rightarrow> u32 option" where
  "remainder a b = (if b = 0 then None else Some (a mod b))"

definition update_current_producer_after_rotation :: "ConsumerToken \<Rightarrow> 'e ConcurrentQueue \<Rightarrow> (bool \<times> ConsumerToken) option" where
  "update_current_producer_after_rotation token q =
     (if desiredProducer token = None \<and> producer_list_tail q = None then Some (False, token)
      else do {
        let prodCount = producerCount q;
        let globalOffset = globalExplicitConsumerOffset q;
        desired \<leftarrow> (case desiredProducer token of
            Some d \<Rightarrow> Some d
          | None \<Rightarrow> do {
              tail \<leftarrow> producer_list_tail q;
              r \<leftarrow> remainder (initialOffset token) prodCount;
              advance_producer (unat (prodCount - 1 - r)) q tail
            });
        let delta = globalOffset - lastKnownGlobalOffset token;
        delta1 \<leftarrow> (if delta \<ge> prodCount then remainder delta prodCount else Some delta);
        desired1 \<leftarrow> advance_producer (unat delta1) q desired;
        Some (True, token\<lparr>desiredProducer := Some desired1, lastKnownGlobalOffset := globalOffset,
          currentProducer := Some desired1, itemsConsumedFromCurrent := 0\<rparr>)
      })"

definition rotate_token :: "ConsumerToken \<Rightarrow> 'e ConcurrentQueue \<Rightarrow> (bool \<times> ConsumerToken) option" where
  "rotate_token token q =
     (if desiredProducer token = None \<or> lastKnownGlobalOffset token \<noteq> globalExplicitConsumerOffset q
      then update_current_producer_after_rotation token q else Some (True, token))"

text \<open>From a producer around the list to the current one.\<close>

partial_function (option) token_scan :: "nat \<Rightarrow> nat \<Rightarrow> 'e ConcurrentQueue \<Rightarrow> ((nat \<times> 'e) option \<times> 'e ConcurrentQueue) option" where
  "token_scan current i q =
     (if i = current then Some (None, q)
      else do {
        (r, q1) \<leftarrow> on_producer i dequeue q;
        case r of
          Some x \<Rightarrow> Some (Some (i, x), q1)
        | None \<Rightarrow> do { j \<leftarrow> next_or_tail q1 i; token_scan current j q1 }
      })"

declare token_scan.simps [code]

definition try_dequeue_token ::
  "ConsumerToken \<Rightarrow> 'e ConcurrentQueue \<Rightarrow> ('e option \<times> ConsumerToken \<times> 'e ConcurrentQueue) option" where
  "try_dequeue_token token q =
     do {
       (ok, token1) \<leftarrow> rotate_token token q;
       if \<not> ok then Some (None, token1, q)
       else do {
         current \<leftarrow> currentProducer token1;
         (r, q1) \<leftarrow> on_producer current dequeue q;
         case r of
           Some x \<Rightarrow>
             (let items = itemsConsumedFromCurrent token1 + 1
              in Some (Some x, token1\<lparr>itemsConsumedFromCurrent := items\<rparr>,
                   if items = EXPLICIT_CONSUMER_CONSUMPTION_QUOTA_BEFORE_ROTATE
                   then q1\<lparr>globalExplicitConsumerOffset := globalExplicitConsumerOffset q1 + 1\<rparr> else q1))
         | None \<Rightarrow>
             do {
               j \<leftarrow> next_or_tail q1 current;
               (found, q2) \<leftarrow> token_scan current j q1;
               case found of
                 None \<Rightarrow> Some (None, token1, q2)
               | Some (i, x) \<Rightarrow> Some (Some x, token1\<lparr>currentProducer := Some i, itemsConsumedFromCurrent := 1\<rparr>, q2)
             }
       }
     }"

partial_function (option) token_scan_bulk ::
  "u64 \<Rightarrow> u64 \<Rightarrow> nat \<Rightarrow> ConsumerToken \<Rightarrow> 'e ConcurrentQueue \<Rightarrow> ((u64 \<times> 'e list) \<times> ConsumerToken \<times> 'e ConcurrentQueue) option" where
  "token_scan_bulk maximum cnt i token q =
     (if currentProducer token = Some i then Some ((cnt, []), token, q)
      else do {
        ((dequeued, xs), q1) \<leftarrow> on_producer i (dequeue_bulk maximum) q;
        let cnt1 = cnt + dequeued;
        let token1 = (if dequeued \<noteq> 0 then token\<lparr>currentProducer := Some i, itemsConsumedFromCurrent := ucast dequeued\<rparr> else token);
        if dequeued = maximum then Some ((cnt1, xs), token1, q1)
        else do {
          j \<leftarrow> next_or_tail q1 i;
          ((total, ys), token2, q2) \<leftarrow> token_scan_bulk (maximum - dequeued) cnt1 j token1 q1;
          Some ((total, xs @ ys), token2, q2)
        }
      })"

declare token_scan_bulk.simps [code]

definition try_dequeue_bulk_token ::
  "u64 \<Rightarrow> ConsumerToken \<Rightarrow> 'e ConcurrentQueue \<Rightarrow> ((u64 \<times> 'e list) \<times> ConsumerToken \<times> 'e ConcurrentQueue) option" where
  "try_dequeue_bulk_token maximum token q =
     do {
       (ok, token1) \<leftarrow> rotate_token token q;
       if \<not> ok then Some ((0, []), token1, q)
       else do {
         current \<leftarrow> currentProducer token1;
         ((cnt, xs), q1) \<leftarrow> on_producer current (dequeue_bulk maximum) q;
         let items = itemsConsumedFromCurrent token1 + ucast cnt;
         let token2 = token1\<lparr>itemsConsumedFromCurrent := items\<rparr>;
         if cnt = maximum then
           Some ((maximum, xs), token2,
             if items \<ge> EXPLICIT_CONSUMER_CONSUMPTION_QUOTA_BEFORE_ROTATE
             then q1\<lparr>globalExplicitConsumerOffset := globalExplicitConsumerOffset q1 + 1\<rparr> else q1)
         else do {
           j \<leftarrow> next_or_tail q1 current;
           ((total, ys), token3, q2) \<leftarrow> token_scan_bulk (maximum - cnt) cnt j token2 q1;
           Some ((total, xs @ ys), token3, q2)
         }
       }
     }"

section \<open>The ring of producers\<close>

text \<open>The producers from \<open>i\<close> around to before \<open>current\<close>, for \<open>n\<close> producers.\<close>

definition ring_next :: "nat \<Rightarrow> nat \<Rightarrow> nat" where
  "ring_next n i = (if i = 0 then n - 1 else i - 1)"

definition scan_order :: "nat \<Rightarrow> nat \<Rightarrow> nat \<Rightarrow> nat list" where
  "scan_order n current i =
     (if current \<le> i then rev [Suc current..<Suc i] else rev [0..<Suc i] @ rev [Suc current..<n])"

lemma ring_next_less: "i < n \<Longrightarrow> ring_next n i < n"
  by (auto simp: ring_next_def)

lemma next_or_tail_ring: "i < length (producers q) \<Longrightarrow> next_or_tail q i = Some (ring_next (length (producers q)) i)"
  by (auto simp: next_or_tail_def next_prod_def producer_list_tail_def ring_next_def)

lemma scan_order_refl [simp]: "scan_order n i i = []"
  by (simp add: scan_order_def)

lemma scan_order_next:
  assumes "i < n" "current < n" "i \<noteq> current"
  shows "scan_order n current i = i # scan_order n current (ring_next n i)"
proof (cases i)
  case 0
  with assms show ?thesis by (cases n) (auto simp: scan_order_def ring_next_def)
next
  case (Suc j)
  with assms show ?thesis by (auto simp: scan_order_def ring_next_def)
qed

lemma scan_order_all:
  assumes "current < n"
  shows "set (scan_order n current (ring_next n current)) = {..<n} - {current}"
  using assms by (auto simp: scan_order_def ring_next_def)

lemma scan_order_less: "i < n \<Longrightarrow> set (scan_order n current i) \<subseteq> {..<n} - {current}"
  by (auto simp: scan_order_def)

text \<open>Where a token ends up: so many steps further round the ring.\<close>

lemma advance_producer_ring:
  assumes "i < length (producers q)"
  shows "advance_producer k q i = Some (nat ((int i - int k) mod int (length (producers q))))"
  using assms
proof (induction k arbitrary: i)
  case (Suc k)
  let ?n = "length (producers q)" and ?j = "ring_next (length (producers q)) i"
  have "int ?j = (int i - 1) mod int ?n"
  proof (cases i)
    case 0
    have "(- 1 :: int) mod int ?n = int ?n - 1" using Suc.prems 0 by (simp add: zmod_minus1)
    moreover have "int (?n - 1) = int ?n - 1" using Suc.prems by arith
    ultimately show ?thesis using 0 by (simp add: ring_next_def)
  next
    case (Suc j)
    with \<open>i < ?n\<close> show ?thesis by (simp add: ring_next_def)
  qed
  then have "(int ?j - int k) mod int ?n = (int i - int (Suc k)) mod int ?n"
    by (simp add: mod_diff_left_eq algebra_simps)
  then show ?case using Suc.IH [OF ring_next_less [OF Suc.prems]] next_or_tail_ring [OF Suc.prems] by simp
qed simp

section \<open>Taking elements from streams\<close>

text \<open>A sequence of elements taken one after the other, each from the front of some stream.\<close>

inductive takes :: "'e list list \<Rightarrow> 'e list \<Rightarrow> 'e list list \<Rightarrow> bool" where
  Nil: "takes xss [] xss"
| Cons: "i < length xss \<Longrightarrow> xss ! i = x # zs \<Longrightarrow> takes (xss[i := zs]) ys xss' \<Longrightarrow> takes xss (x # ys) xss'"

lemma takes_append: "takes xss xs yss \<Longrightarrow> takes yss ys zss \<Longrightarrow> takes xss (xs @ ys) zss"
  by (induction rule: takes.induct) (auto intro: takes.intros)

lemma takes_length: "takes xss ys xss' \<Longrightarrow> length xss' = length xss"
  by (induction rule: takes.induct) auto

lemma takes_mset: "takes xss ys xss' \<Longrightarrow> mset (concat xss) = mset ys + mset (concat xss')"
proof (induction rule: takes.induct)
  case (Cons i xss x zs ys xss')
  then show ?case using mset_concat_update [of i xss zs] by simp
qed simp

lemma takes_front:
  assumes "i < length xss"
  shows "takes xss (take n (xss ! i)) (xss[i := drop n (xss ! i)])"
  using assms
proof (induction "xss ! i" arbitrary: xss n)
  case Nil
  then have "xss[i := []] = xss" by (metis list_update_id)
  with Nil show ?case by (simp flip: Nil.hyps) (rule takes.Nil)
next
  case (Cons x zs)
  show ?case
  proof (cases n)
    case 0
    then show ?thesis by (simp add: takes.Nil)
  next
    case (Suc m)
    from Cons.hyps(1) [of "xss[i := zs]" m] Cons.prems have "takes (xss[i := zs]) (take m zs) (xss[i := drop m zs])" by simp
    from takes.Cons [OF Cons.prems Cons.hyps(2) [symmetric] this] show ?thesis using Suc by (simp flip: Cons.hyps(2))
  qed
qed

text \<open>A queue whose producers are counted; each operation of the code keeps the difference.\<close>

definition count_gap :: "'e ConcurrentQueue \<Rightarrow> u32" where
  "count_gap q = producerCount q - of_nat (length (producers q))"

definition counted :: "'e ConcurrentQueue \<Rightarrow> bool" where
  "counted q \<longleftrightarrow> count_gap q = 0 \<and> length (producers q) < 2 ^ 32"

definition token_ok :: "'e ConcurrentQueue \<Rightarrow> ConsumerToken \<Rightarrow> bool" where
  "token_ok q token \<longleftrightarrow> (\<forall>i. currentProducer token = Some i \<longrightarrow> i < length (producers q)) \<and>
     (\<forall>i. desiredProducer token = Some i \<longrightarrow> i < length (producers q) \<and> currentProducer token \<noteq> None)"

lemma new_token_ok: "new_consumer_token q = (token, q') \<Longrightarrow> token_ok q' token \<and> q' = q\<lparr>nextExplicitConsumerId := nextExplicitConsumerId q + 1\<rparr>"
  by (auto simp: new_consumer_token_def token_ok_def)

section \<open>Moving on to the next producer\<close>

lemma counted_count:
  assumes "counted q"
  shows "producerCount q = of_nat (length (producers q))" "unat (producerCount q) = length (producers q)"
    "producerCount q = 0 \<longleftrightarrow> producers q = []"
proof -
  show c: "producerCount q = of_nat (length (producers q))" using assms by (simp add: counted_def count_gap_def)
  then show u: "unat (producerCount q) = length (producers q)"
    using assms by (simp add: counted_def unat_of_nat take_bit_nat_eq_self)
  show "producerCount q = 0 \<longleftrightarrow> producers q = []" using u by (metis length_0_conv unat_eq_zero)
qed

text \<open>
  With \<open>n\<close> producers, a new token starts at producer \<open>initialOffset mod n\<close>; every token moves back by as many producers as
  there were rotations since it last looked.
\<close>

definition start_position :: "ConsumerToken \<Rightarrow> nat \<Rightarrow> nat" where
  "start_position token n = (case desiredProducer token of Some d \<Rightarrow> d | None \<Rightarrow> unat (initialOffset token) mod n)"

lemma update_current_producer:
  assumes "counted q" "token_ok q token" "producers q \<noteq> []"
  shows "\<exists>d. update_current_producer_after_rotation token q = Some (True, token\<lparr>desiredProducer := Some d,
      lastKnownGlobalOffset := globalExplicitConsumerOffset q, currentProducer := Some d, itemsConsumedFromCurrent := 0\<rparr>) \<and>
    d < length (producers q) \<and>
    int d = (int (start_position token (length (producers q))) - int (unat (globalExplicitConsumerOffset q - lastKnownGlobalOffset token)))
      mod int (length (producers q))"
proof -
  let ?n = "length (producers q)" and ?delta = "globalExplicitConsumerOffset q - lastKnownGlobalOffset token"
  note c = counted_count [OF assms(1)]
  have n: "0 < ?n" "producerCount q \<noteq> 0" using assms(3) c(3) by simp_all
  have start: "start_position token ?n < ?n" using assms(2) n(1) by (auto simp: start_position_def token_ok_def split: option.split)
  have desired: "(case desiredProducer token of
            Some d \<Rightarrow> Some d
          | None \<Rightarrow> do {
              tail \<leftarrow> producer_list_tail q;
              r \<leftarrow> remainder (initialOffset token) (producerCount q);
              advance_producer (unat (producerCount q - 1 - r)) q tail
            }) = Some (start_position token ?n)"
  proof (cases "desiredProducer token")
    case None
    let ?r = "initialOffset token mod producerCount q"
    have r: "unat ?r = unat (initialOffset token) mod ?n" by (simp add: unat_mod c(2))
    have le: "?r \<le> producerCount q - 1" "1 \<le> producerCount q"
    proof -
      show 1: "1 \<le> producerCount q" using n(1) c(2) by (simp add: word_le_nat_alt Suc_le_eq)
      have "unat (producerCount q - 1) = ?n - 1" using 1 c(2) by (simp add: unat_sub)
      moreover have "unat ?r < ?n" using r n(1) by simp
      ultimately show "?r \<le> producerCount q - 1" by (simp add: word_le_nat_alt)
    qed
    have steps: "unat (producerCount q - 1 - ?r) = ?n - 1 - unat (initialOffset token) mod ?n"
      using le by (simp add: unat_sub r c(2))
    have "advance_producer (unat (producerCount q - 1 - ?r)) q (?n - 1) = Some (unat (initialOffset token) mod ?n)"
    proof -
      have "int (?n - 1) - int (?n - 1 - unat (initialOffset token) mod ?n) = int (unat (initialOffset token) mod ?n)"
        using mod_less_divisor [OF n(1), of "unat (initialOffset token)"] by arith
      then show ?thesis
        using advance_producer_ring [of "?n - 1" q] n(1) unfolding steps by (simp flip: of_nat_mod)
    qed
    with None n assms(3) show ?thesis by (simp add: producer_list_tail_def remainder_def start_position_def)
  qed (simp add: start_position_def)
  let ?delta1 = "if ?delta \<ge> producerCount q then ?delta mod producerCount q else ?delta"
  have d1: "(if ?delta \<ge> producerCount q then remainder ?delta (producerCount q) else Some ?delta) = Some ?delta1"
    using n(2) by (simp add: remainder_def)
  have "unat ?delta1 mod ?n = unat ?delta mod ?n" by (simp add: unat_mod c(2))
  then have "int (unat ?delta1) mod int ?n = int (unat ?delta) mod int ?n" by (metis of_nat_mod)
  then have same: "(int s - int (unat ?delta1)) mod int ?n = (int s - int (unat ?delta)) mod int ?n" for s by (metis mod_diff_right_eq)
  define d where "d = nat ((int (start_position token ?n) - int (unat ?delta)) mod int ?n)"
  have d: "int d = (int (start_position token ?n) - int (unat ?delta)) mod int ?n" "d < ?n"
    using n(1) by (simp_all add: d_def nat_less_iff)
  have "advance_producer (unat ?delta1) q (start_position token ?n) = Some d"
    using advance_producer_ring [OF start, of "unat ?delta1"] unfolding same d_def .
  moreover have "\<not> (desiredProducer token = None \<and> producer_list_tail q = None)" using assms(3) by (simp add: producer_list_tail_def)
  ultimately have "update_current_producer_after_rotation token q = Some (True, token\<lparr>desiredProducer := Some d,
      lastKnownGlobalOffset := globalExplicitConsumerOffset q, currentProducer := Some d, itemsConsumedFromCurrent := 0\<rparr>)"
    unfolding update_current_producer_after_rotation_def by (simp only: if_False Let_def desired d1 Option.bind.simps)
  with d show ?thesis by blast
qed

text \<open>Before an operation: the token is moved on if it is new or a rotation has happened.\<close>

lemma rotate_token:
  assumes "counted q" "token_ok q token"
  shows "(producers q = [] \<and> rotate_token token q = Some (False, token)) \<or>
    (\<exists>token1 c. rotate_token token q = Some (True, token1) \<and> token_ok q token1 \<and> currentProducer token1 = Some c \<and> c < length (producers q) \<and>
      desiredProducer token1 \<noteq> None)"
proof (cases "desiredProducer token = None \<or> lastKnownGlobalOffset token \<noteq> globalExplicitConsumerOffset q")
  case True
  show ?thesis
  proof (cases "producers q = []")
    case empty: True
    then have "desiredProducer token = None" using assms(2) by (cases "desiredProducer token") (auto simp: token_ok_def)
    with empty True show ?thesis
      by (simp add: rotate_token_def update_current_producer_after_rotation_def producer_list_tail_def)
  next
    case False
    from update_current_producer [OF assms False] True show ?thesis by (auto simp: rotate_token_def token_ok_def)
  qed
next
  case False
  then obtain d c where "desiredProducer token = Some d" "currentProducer token = Some c" using assms(2) by (auto simp: token_ok_def)
  with False assms(2) show ?thesis by (auto simp: rotate_token_def token_ok_def)
qed

section \<open>Scanning the ring\<close>

lemma token_scan_takes:
  assumes "streams_inv q" "i < length (producers q)" "current < length (producers q)"
  shows "\<exists>r q'. token_scan current i q = Some (r, q') \<and> streams_inv q' \<and> same_table q q' \<and>
    (case r of
       None \<Rightarrow> streams q' = streams q \<and> (\<forall>j \<in> set (scan_order (length (producers q)) current i). streams q ! j = [])
     | Some (j, x) \<Rightarrow> j < length (producers q) \<and> (\<exists>ys. streams q ! j = x # ys \<and> streams q' = (streams q)[j := ys]))"
  using assms
proof (induction "length (scan_order (length (producers q)) current i)" arbitrary: q i)
  case 0
  then have "i = current" using scan_order_next by fastforce
  then show ?case using 0 by (simp add: token_scan.simps)
next
  case (Suc k)
  let ?n = "length (producers q)"
  have ne: "i \<noteq> current" using Suc.hyps(2) by auto
  note order = scan_order_next [OF Suc.prems(2,3) ne]
  from on_producer_dequeue [OF Suc.prems(1,2)] obtain q1 where
    q1: "on_producer i dequeue q = Some (if streams q ! i = [] then None else Some (hd (streams q ! i)), q1)"
    "streams_inv q1" "same_table q q1" "streams q1 = (streams q)[i := tl (streams q ! i)]" by auto
  show ?case
  proof (cases "streams q ! i = []")
    case True
    then have s: "streams q1 = streams q" using q1(4) by simp (metis list_update_id)
    have n: "length (producers q1) = ?n" by (rule same_table_length [OF q1(3)])
    have "k = length (scan_order (length (producers q1)) current (ring_next ?n i))" using Suc.hyps(2) order n by simp
    from Suc.hyps(1) [OF this q1(2), unfolded n, OF ring_next_less [OF Suc.prems(2)] Suc.prems(3)] obtain r q' where
      q': "token_scan current (ring_next ?n i) q1 = Some (r, q')" "streams_inv q'" "same_table q1 q'"
        "case r of
           None \<Rightarrow> streams q' = streams q1 \<and> (\<forall>j \<in> set (scan_order ?n current (ring_next ?n i)). streams q1 ! j = [])
         | Some (j, x) \<Rightarrow> j < ?n \<and> (\<exists>ys. streams q1 ! j = x # ys \<and> streams q' = (streams q1)[j := ys])" by blast
    have "token_scan current i q = Some (r, q')"
      using ne q1(1) True q'(1) next_or_tail_ring [of i q1] Suc.prems(2) n by (subst token_scan.simps) simp
    moreover have "same_table q q'" by (rule same_table_trans [OF q1(3) q'(3)])
    ultimately show ?thesis using q'(2,4) True order s by (intro exI [of _ r] exI [of _ q']) (auto split: option.splits)
  next
    case False
    then have "token_scan current i q = Some (Some (i, hd (streams q ! i)), q1)" using ne q1(1) by (subst token_scan.simps) simp
    with q1 False Suc.prems(2) show ?thesis
      by (intro exI [of _ "Some (i, hd (streams q ! i))"] exI [of _ q1]) (auto intro!: exI [of _ "tl (streams q ! i)"])
  qed
qed

text \<open>In bulk: a producer that gave something becomes the current one, and the scan starts again from there.\<close>

lemma scan_order_length: "i < n \<Longrightarrow> current < n \<Longrightarrow> length (scan_order n current i) < n"
  by (auto simp: scan_order_def)

lemma concat_length_update:
  assumes "i < length xss"
  shows "length (concat (xss[i := ys])) + length (xss ! i) = length (concat xss) + length ys"
  using arg_cong [OF mset_concat_update [OF assms, of ys], of size] by (simp only: size_union size_mset)

definition nonempty :: "'e ConcurrentQueue \<Rightarrow> nat set" where
  "nonempty q = {j. j < length (streams q) \<and> streams q ! j \<noteq> []}"

lemma finite_nonempty [simp]: "finite (nonempty q)"
  by (simp add: nonempty_def)

lemma nonempty_none: "nonempty q = {} \<Longrightarrow> concat (streams q) = []"
  by (auto simp: nonempty_def in_set_conv_nth concat_eq_Nil_conv simp del: length_streams)

lemma token_scan_bulk_takes:
  assumes "streams_inv q" "length (producers q) = n" "i < n" "currentProducer token = Some c" "c < n"
    "nonempty q \<subseteq> set (scan_order n c i)"
  shows "\<exists>ys token' q'. token_scan_bulk maximum cnt i token q = Some ((cnt + of_nat (length ys), ys), token', q') \<and> streams_inv q' \<and>
    same_table q q' \<and> takes (streams q) ys (streams q') \<and> length ys = min (unat maximum) (length (concat (streams q))) \<and>
    (\<exists>c' < n. currentProducer token' = Some c') \<and> desiredProducer token' = desiredProducer token"
  using assms
proof (induction "card (nonempty q) * Suc n + length (scan_order n c i)" arbitrary: q i token c cnt maximum rule: less_induct)
  case less
  show ?case
  proof (cases "i = c")
    case True
    then have "concat (streams q) = []" using less.prems(6) by (intro nonempty_none) simp
    with True less.prems(1,4,5) show ?thesis
      by (intro exI [of _ "[]"] exI [of _ token] exI [of _ q]) (simp add: token_scan_bulk.simps takes.Nil del: concat_eq_Nil_conv)
  next
    case False
    let ?xs = "streams q ! i" and ?M = "unat maximum"
    have i: "i < length (producers q)" "i < length (streams q)" using less.prems(2,3) by simp_all
    note order = scan_order_next [OF less.prems(3,5) False]
    have len: "length ?xs < 2 ^ 63" by (rule stream_size(2) [OF less.prems(1) i(1)])
    from on_producer_dequeue_bulk [OF less.prems(1) i(1), of maximum] obtain q1 where
      q1: "on_producer i (dequeue_bulk maximum) q = Some ((of_nat (min ?M (length ?xs)), take ?M ?xs), q1)" "streams_inv q1"
        "same_table q q1" "streams q1 = (streams q)[i := drop ?M ?xs]" by blast
    let ?d = "of_nat (min ?M (length ?xs)) :: u64"
    have d: "unat ?d = min ?M (length ?xs)" using len by (intro unat64_of_nat) simp
    have stop: "?d = maximum \<longleftrightarrow> ?M \<le> length ?xs" unfolding word_unat_eq_iff d by (simp add: min_def)
    have zero: "?d = 0 \<longleftrightarrow> ?M = 0 \<or> ?xs = []"
      unfolding word_unat_eq_iff d by (cases ?xs) (simp_all add: min_def)
    have n1: "length (producers q1) = n" using same_table_length [OF q1(3)] less.prems(2) by simp
    let ?token = "if ?d \<noteq> 0 then token\<lparr>currentProducer := Some i, itemsConsumedFromCurrent := ucast ?d\<rparr> else token"
    let ?c = "if ?d \<noteq> 0 then i else c"
    have c: "currentProducer ?token = Some ?c" "?c < n" "desiredProducer ?token = desiredProducer token" using less.prems(3-5) by simp_all
    have tk: "takes (streams q) (take ?M ?xs) (streams q1)" unfolding q1(4) by (rule takes_front [OF i(2)])
    have loop: "token_scan_bulk maximum cnt i token q =
      (if ?M \<le> length ?xs then Some ((cnt + ?d, take ?M ?xs), ?token, q1)
       else do {
         ((total, ys), token2, q2) \<leftarrow> token_scan_bulk (maximum - ?d) (cnt + ?d) (ring_next n i) ?token q1;
         Some ((total, take ?M ?xs @ ys), token2, q2)
       })"
    proof -
      have "currentProducer token \<noteq> Some i" "next_or_tail q1 i = Some (ring_next n i)"
        using False less.prems(3,4) next_or_tail_ring [of i q1] n1 by simp_all
      then show ?thesis by (subst token_scan_bulk.simps) (simp only: if_False q1(1) Option.bind.simps prod.case Let_def stop)
    qed
    show ?thesis
    proof (cases "?M \<le> length ?xs")
      case True
      then have "length (take ?M ?xs) = min ?M (length (concat (streams q)))"
        using concat_length_update [OF i(2), of "[]"] by simp
      with loop True q1(2,3) tk c show ?thesis
        by (intro exI [of _ "take ?M ?xs"] exI [of _ ?token] exI [of _ q1]) (simp add: min_absorb1)
    next
      case False
      then have all: "take ?M ?xs = ?xs" "drop ?M ?xs = []" "min ?M (length ?xs) = length ?xs" "?M \<noteq> 0" by simp_all
      have ne: "nonempty q1 = nonempty q - {i}" 
        unfolding nonempty_def q1(4) all(2) using i(2) by (auto simp: nth_list_update split: if_splits)
      have sub: "nonempty q1 \<subseteq> set (scan_order n ?c (ring_next n i))"
      proof (cases "?xs = []")
        case True
        then have "?c = c" using zero by simp
        then show ?thesis using less.prems(6) order ne by auto
      next
        case False
        then have "?c = i" using zero all(4) by simp
        moreover have "nonempty q1 \<subseteq> {..<n} - {i}" unfolding ne using less.prems(2) by (auto simp: nonempty_def)
        ultimately show ?thesis using scan_order_all [OF less.prems(3)] by simp
      qed
      have "card (nonempty q1) * Suc n + length (scan_order n ?c (ring_next n i)) < card (nonempty q) * Suc n + length (scan_order n c i)"
      proof (cases "?xs = []")
        case True
        then have "i \<notin> nonempty q" "?c = c" using zero by (simp_all add: nonempty_def)
        then show ?thesis using ne order by simp
      next
        case False
        then have "i \<in> nonempty q" "?c = i" using zero all(4) i by (simp_all add: nonempty_def)
        then have "card (nonempty q) = Suc (card (nonempty q1))" using ne by (metis card_Suc_Diff1 finite_nonempty)
        moreover have "length (scan_order n i (ring_next n i)) < n" by (rule scan_order_length [OF ring_next_less [OF less.prems(3)] less.prems(3)])
        ultimately show ?thesis using \<open>?c = i\<close> by simp
      qed
      from less.hyps [OF this q1(2) n1 ring_next_less [OF less.prems(3)] c(1,2) sub, of "maximum - ?d" "cnt + ?d"]
      obtain ys token' q' where r: "token_scan_bulk (maximum - ?d) (cnt + ?d) (ring_next n i) ?token q1 =
          Some ((cnt + ?d + of_nat (length ys), ys), token', q')" "streams_inv q'" "same_table q1 q'" "takes (streams q1) ys (streams q')"
          "length ys = min (unat (maximum - ?d)) (length (concat (streams q1)))" "\<exists>c' < n. currentProducer token' = Some c'"
          "desiredProducer token' = desiredProducer token"
        using c(3) by auto
      have "unat (maximum - ?d) = ?M - length ?xs"
        using d all(3) False by (subst unat_sub) (simp_all add: word_le_nat_alt)
      moreover have "length (concat (streams q1)) + length ?xs = length (concat (streams q))"
        unfolding q1(4) all(2) using concat_length_update [OF i(2), of "[]"] by simp
      ultimately have "length (?xs @ ys) = min ?M (length (concat (streams q)))" using r(5) False by simp
      moreover have "takes (streams q) (?xs @ ys) (streams q')" using takes_append [OF tk r(4)] all(1) by simp
      moreover have "token_scan_bulk maximum cnt i token q = Some ((cnt + of_nat (length (?xs @ ys)), ?xs @ ys), token', q')"
        unfolding loop r(1) using False all by (simp add: add.assoc)
      ultimately show ?thesis using r(2,6,7) same_table_trans [OF q1(3) r(3)] by blast
    qed
  qed
qed

section \<open>Counting producers\<close>

named_theorems keeps_gap

lemma count_gap_simps [simp]:
  "count_gap (q\<lparr>implicitProducerHash := h\<rparr>) = count_gap q" "count_gap (q\<lparr>implicitProducerHashCount := c\<rparr>) = count_gap q"
  "count_gap (q\<lparr>implicitProducerHashResizeInProgress := b\<rparr>) = count_gap q" "count_gap (q\<lparr>allocations := n\<rparr>) = count_gap q"
  "count_gap (q\<lparr>nextExplicitConsumerId := k\<rparr>) = count_gap q" "count_gap (q\<lparr>globalExplicitConsumerOffset := g\<rparr>) = count_gap q"
  "count_gap (set_producer i p q) = count_gap q"
  by (simp_all add: count_gap_def set_producer_def)

lemma rest_gap:
  assumes "rest_of q' = rest_of (q :: 'e ConcurrentQueue)"
  shows "count_gap q' = count_gap q"
  using rest_fields [OF assms] by (simp add: count_gap_def)

lemma on_producer_gap:
  assumes "on_producer i f q = Some (r, q')" "\<And>p r p' q'. f (p, q) = Some (r, p', q') \<Longrightarrow> rest_of q' = rest_of q"
  shows "count_gap q' = count_gap q"
proof -
  from assms(1) obtain p p1 q1 where "f (p, q) = Some (r, p1, q1)" "q' = set_producer i p1 q1"
    by (auto simp: on_producer_def bind_eq_Some_conv)
  with rest_gap [OF assms(2)] show ?thesis by simp
qed

lemma recycle_gap [keeps_gap]:
  assumes "recycle_or_create_producer mem q = Some (r, q')"
  shows "count_gap q' = count_gap q"
proof (cases "find (\<lambda>i. inactive (producers q ! i)) (producer_order q)")
  case None
  obtain ok q1 where m: "malloc mem q = (ok, q1)" by fastforce
  then have "count_gap q1 = count_gap q" by (intro rest_gap) (simp add: malloc_rest)
  show ?thesis
  proof (cases ok)
    case False
    with assms None m \<open>count_gap q1 = count_gap q\<close> show ?thesis by (simp add: recycle_or_create_producer_def add_producer_def)
  next
    case True
    with assms None m obtain p q2 where p: "new_implicit_producer mem q1 = Some (p, q2)" "q' = snd (add_producer (Some p) q2)"
      by (auto simp: recycle_or_create_producer_def bind_eq_Some_conv)
    then have "rest_of q2 = rest_of q1" by (auto simp: new_implicit_producer_def bind_eq_Some_conv dest: keeps_rest)
    then have "count_gap q2 = count_gap q1" by (rule rest_gap)
    with p(2) \<open>count_gap q1 = count_gap q\<close> show ?thesis by (simp add: add_producer_def count_gap_def)
  qed
qed (use assms in \<open>auto simp: recycle_or_create_producer_def\<close>)

lemma claim_entry_gap [keeps_gap]: "claim_entry tid h v q = Some (r, q') \<Longrightarrow> count_gap q' = count_gap q"
  by (auto simp: claim_entry_def bind_eq_Some_conv split: list.splits)

lemma resize_hash_gap [keeps_gap]:
  assumes "resize_hash mem n q = Some (r, q')"
  shows "count_gap q' = count_gap q"
proof -
  obtain ok q1 where m: "malloc mem q = (ok, q1)" by fastforce
  then have "count_gap q1 = count_gap q" by (intro rest_gap) (simp add: malloc_rest)
  with assms m show ?thesis by (auto simp: resize_hash_def bind_eq_Some_conv split: list.splits if_splits)
qed

lemma insert_thread_gap [keeps_gap]:
  assumes "insert_thread mem tid h n q = Some (r, q')"
  shows "count_gap q' = count_gap q"
proof -
  have "count_gap (snd r) = count_gap q" if "insert_thread mem tid h n q = Some r" for r
  proof (rule insert_thread.raw_induct [of "\<lambda>mem tid h n q r. count_gap (snd r) = count_gap q", OF _ that], goal_cases)
    case (1 f mem tid h n q r)
    note IH = 1(1)
    from 1(2) show ?case
      by (auto simp: bind_eq_Some_conv Let_def simp del: Product_Type.split_paired_Ex dest!: IH keeps_gap split: if_splits option.splits)
  qed
  from this [OF assms] show ?thesis by simp
qed

lemma get_or_add_gap [keeps_gap]:
  assumes "get_or_add_implicit_producer mem tid q = Some (r, q')"
  shows "count_gap q' = count_gap q"
  using assms unfolding get_or_add_implicit_producer_def
  by (auto simp: bind_eq_Some_conv Let_def dest!: keeps_gap split: if_splits option.splits)

lemma inner_enqueue_gap [keeps_gap]: "inner_enqueue mem m tid x q = Some (r, q') \<Longrightarrow> count_gap q' = count_gap q"
  by (auto simp: inner_enqueue_def bind_eq_Some_conv dest!: keeps_gap on_producer_gap [OF _ enqueue_rest] split: option.splits)

lemma inner_enqueue_bulk_gap [keeps_gap]: "inner_enqueue_bulk mem m tid xs q = Some (r, q') \<Longrightarrow> count_gap q' = count_gap q"
  by (auto simp: inner_enqueue_bulk_def bind_eq_Some_conv dest!: keeps_gap on_producer_gap [OF _ enqueue_bulk_rest] split: option.splits)

lemma on_producer_dequeue_gap [keeps_gap]: "on_producer i dequeue q = Some (r, q') \<Longrightarrow> count_gap q' = count_gap q"
  by (rule on_producer_gap) (auto dest: keeps_rest)

lemma on_producer_dequeue_bulk_gap [keeps_gap]: "on_producer i (dequeue_bulk n) q = Some (r, q') \<Longrightarrow> count_gap q' = count_gap q"
  by (rule on_producer_gap) (auto dest: keeps_rest)

lemma try_producers_gap [keeps_gap]: "try_producers best is q = Some (r, q') \<Longrightarrow> count_gap q' = count_gap q"
proof (induction "is" arbitrary: q)
  case (Cons i "is")
  then show ?case by (auto simp: bind_eq_Some_conv split: if_splits dest!: Cons.IH keeps_gap)
qed simp

lemma bulk_from_gap [keeps_gap]: "bulk_from m c is q = Some (r, q') \<Longrightarrow> count_gap q' = count_gap q"
proof (induction "is" arbitrary: c q r)
  case (Cons i "is")
  then show ?case by (auto simp: bind_eq_Some_conv Let_def split: if_splits dest!: Cons.IH keeps_gap)
qed simp

lemma try_dequeue_gap [keeps_gap]: "try_dequeue q = Some (r, q') \<Longrightarrow> count_gap q' = count_gap q"
  by (auto simp: try_dequeue_def bind_eq_Some_conv dest!: keeps_gap split: if_splits option.splits prod.splits)

lemma thread_exited_gap [keeps_gap]: "implicit_producer_thread_exited tid i q = Some q' \<Longrightarrow> count_gap q' = count_gap q"
  by (auto simp: implicit_producer_thread_exited_def bind_eq_Some_conv)

lemma run_op_gap:
  assumes "run_op mem op q = Some (r, q')"
  shows "count_gap q' = count_gap q"
  using assms
  by (cases op) (auto simp: bind_eq_Some_conv enqueue_defs try_dequeue_non_interleaved_def try_dequeue_bulk_def dest!: keeps_gap
      split: option.splits)

section \<open>The operations\<close>

lemma token_fields [simp]:
  "streams (q\<lparr>nextExplicitConsumerId := k\<rparr>) = streams q" "streams (q\<lparr>globalExplicitConsumerOffset := g\<rparr>) = streams q"
  "owner (q\<lparr>nextExplicitConsumerId := k\<rparr>) = owner q" "owner (q\<lparr>globalExplicitConsumerOffset := g\<rparr>) = owner q"
  by (simp_all add: streams_def producer_elements_def element_at_def owner_def fun_eq_iff)

lemma token_fields_inv [simp]:
  "queue_inv (q\<lparr>nextExplicitConsumerId := k\<rparr>) = queue_inv q" "queue_inv (q\<lparr>globalExplicitConsumerOffset := g\<rparr>) = queue_inv q"
  "counted (q\<lparr>nextExplicitConsumerId := k\<rparr>) = counted q" "counted (q\<lparr>globalExplicitConsumerOffset := g\<rparr>) = counted q"
  by (simp_all add: queue_inv_def threads_inv_def streams_inv_def producers_inv_def producer_inv_def producer_blocks_def pool_part_def
      stream_mem_def pool_inv_def pool_rest_def initial_blocks_def block_ok_def counted_def)

lemma token_ok_fields [simp]: "token_ok (q\<lparr>nextExplicitConsumerId := k\<rparr>) = token_ok q"
  by (simp add: token_ok_def fun_eq_iff)

text \<open>What an operation with a token keeps.\<close>

definition token_step :: "'e ConcurrentQueue \<Rightarrow> ConsumerToken \<Rightarrow> 'e ConcurrentQueue \<Rightarrow> bool" where
  "token_step q token q' \<longleftrightarrow> queue_inv q' \<and> counted q' \<and> token_ok q' token \<and> owner q' = owner q \<and>
     implicitProducerHashCount q' = implicitProducerHashCount q \<and> length (producers q') = length (producers q)"

lemma token_stepI:
  assumes "queue_inv q" "counted q" "same_table q q'" "streams_inv q'" "token_ok q token"
  shows "token_step q token q'" "token_step q token (q'\<lparr>globalExplicitConsumerOffset := g\<rparr>)"
proof -
  have "length (producers q') = length (producers q)" by (rule same_table_length [OF assms(3)])
  moreover have "producerCount q' = producerCount q" using assms(3) by (simp add: same_table_def)
  ultimately show "token_step q token q'" "token_step q token (q'\<lparr>globalExplicitConsumerOffset := g\<rparr>)"
    using assms(2,5) same_table_inv [OF assms(3,1,4)] by (simp_all add: token_step_def counted_def count_gap_def token_ok_def)
qed

lemma try_dequeue_token_inv:
  assumes "queue_inv q" "counted q" "token_ok q token"
  shows "\<exists>r token' q'. try_dequeue_token token q = Some (r, token', q') \<and> token_step q token' q' \<and>
    (case r of
       None \<Rightarrow> streams q' = streams q \<and> (\<forall>xs \<in> set (streams q). xs = [])
     | Some x \<Rightarrow> (\<exists>i ys. i < length (streams q) \<and> streams q ! i = x # ys \<and> streams q' = (streams q)[i := ys]))"
proof -
  have si: "streams_inv q" using assms(1) by (simp add: queue_inv_def)
  from rotate_token [OF assms(2,3)] consider (none) "producers q = []" "rotate_token token q = Some (False, token)"
    | (some) token1 c where "rotate_token token q = Some (True, token1)" "token_ok q token1" "currentProducer token1 = Some c"
        "c < length (producers q)" "desiredProducer token1 \<noteq> None" by blast
  then show ?thesis
  proof cases
    case none
    then have "try_dequeue_token token q = Some (None, token, q)" by (simp add: try_dequeue_token_def)
    moreover have "streams q = []" using none(1) by (simp flip: length_0_conv)
    ultimately show ?thesis using token_stepI(1) [OF assms(1,2) same_table_refl si assms(3)] by auto
  next
    case some
    let ?n = "length (producers q)"
    from on_producer_dequeue [OF si some(4)] obtain q1 where
      q1: "on_producer c dequeue q = Some (if streams q ! c = [] then None else Some (hd (streams q ! c)), q1)" "streams_inv q1"
        "same_table q q1" "streams q1 = (streams q)[c := tl (streams q ! c)]" by blast
    note start = token_stepI [OF assms(1,2) q1(3,2)]
    show ?thesis
    proof (cases "streams q ! c = []")
      case False
      define token' where "token' = token1\<lparr>itemsConsumedFromCurrent := itemsConsumedFromCurrent token1 + 1\<rparr>"
      have ok: "token_ok q token'" using some(2) by (simp add: token_ok_def token'_def)
      have "\<exists>q'. try_dequeue_token token q = Some (Some (hd (streams q ! c)), token', q') \<and> token_step q token' q' \<and> streams q' = streams q1"
        using some(1,3) q1(1) False start [OF ok] by (simp add: try_dequeue_token_def Let_def token'_def [symmetric])
      moreover have "streams q ! c = hd (streams q ! c) # tl (streams q ! c)" "c < length (streams q)" using False some(4) by simp_all
      ultimately show ?thesis using q1(4) by fastforce
    next
      case True
      then have s: "streams q1 = streams q" using q1(4) by simp (metis list_update_id)
      have n: "length (producers q1) = ?n" by (rule same_table_length [OF q1(3)])
      from token_scan_takes [OF q1(2), unfolded n, OF ring_next_less [OF some(4)] some(4)] obtain r q2 where
        r: "token_scan c (ring_next ?n c) q1 = Some (r, q2)" "streams_inv q2" "same_table q1 q2"
          "case r of
             None \<Rightarrow> streams q2 = streams q1 \<and> (\<forall>j \<in> set (scan_order ?n c (ring_next ?n c)). streams q1 ! j = [])
           | Some (j, x) \<Rightarrow> j < ?n \<and> (\<exists>ys. streams q1 ! j = x # ys \<and> streams q2 = (streams q1)[j := ys])" by blast
      note finish = token_stepI(1) [OF assms(1,2) same_table_trans [OF q1(3) r(3)] r(2)]
      have nxt: "next_or_tail q1 c = Some (ring_next ?n c)" using next_or_tail_ring [of c q1] some(4) n by simp
      show ?thesis
      proof (cases r)
        case None
        then have "streams q ! j = []" if "j < ?n" for j using that r(4) True s scan_order_all [OF some(4)] by (cases "j = c") auto
        then have "\<forall>xs \<in> set (streams q). xs = []" by (auto simp: in_set_conv_nth)
        moreover have "try_dequeue_token token q = Some (None, token1, q2)"
          using some(1,3) q1(1) True nxt r(1) None by (simp add: try_dequeue_token_def)
        ultimately show ?thesis using finish [OF some(2)] r(4) s None by auto
      next
        case (Some jx)
        then obtain j x ys where jx: "r = Some (j, x)" "j < ?n" "streams q ! j = x # ys" "streams q2 = (streams q)[j := ys]"
          using r(4) s by (cases jx) auto
        let ?token = "token1\<lparr>currentProducer := Some j, itemsConsumedFromCurrent := 1\<rparr>"
        have "token_ok q ?token" using some(2) jx(2) by (auto simp: token_ok_def)
        moreover have "try_dequeue_token token q = Some (Some x, ?token, q2)"
          using some(1,3) q1(1) True nxt r(1) jx(1) by (simp add: try_dequeue_token_def)
        ultimately show ?thesis using finish jx(2-4) by fastforce
      qed
    qed
  qed
qed

lemma try_dequeue_bulk_token_inv:
  assumes "queue_inv q" "counted q" "token_ok q token"
  shows "\<exists>ys token' q'. try_dequeue_bulk_token maximum token q = Some ((of_nat (length ys), ys), token', q') \<and> token_step q token' q' \<and>
    takes (streams q) ys (streams q') \<and> length ys = min (unat maximum) (length (concat (streams q)))"
proof -
  have si: "streams_inv q" using assms(1) by (simp add: queue_inv_def)
  from rotate_token [OF assms(2,3)] consider (none) "producers q = []" "rotate_token token q = Some (False, token)"
    | (some) token1 c where "rotate_token token q = Some (True, token1)" "token_ok q token1" "currentProducer token1 = Some c"
        "c < length (producers q)" "desiredProducer token1 \<noteq> None" by blast
  then show ?thesis
  proof cases
    case none
    then have "streams q = []" by (simp flip: length_0_conv)
    with none token_stepI(1) [OF assms(1,2) same_table_refl si assms(3)] show ?thesis
      by (intro exI [of _ "[]"]) (simp add: try_dequeue_bulk_token_def takes.Nil)
  next
    case some
    let ?n = "length (producers q)" and ?xs = "streams q ! c" and ?M = "unat maximum"
    have c: "c < length (streams q)" using some(4) by simp
    have len: "length ?xs < 2 ^ 63" by (rule stream_size(2) [OF si some(4)])
    from on_producer_dequeue_bulk [OF si some(4), of maximum] obtain q1 where
      q1: "on_producer c (dequeue_bulk maximum) q = Some ((of_nat (min ?M (length ?xs)), take ?M ?xs), q1)" "streams_inv q1"
        "same_table q q1" "streams q1 = (streams q)[c := drop ?M ?xs]" by blast
    let ?d = "of_nat (min ?M (length ?xs)) :: u64"
    have d: "unat ?d = min ?M (length ?xs)" using len by (intro unat64_of_nat) simp
    have stop: "?d = maximum \<longleftrightarrow> ?M \<le> length ?xs" unfolding word_unat_eq_iff d by (simp add: min_def)
    let ?token = "token1\<lparr>itemsConsumedFromCurrent := itemsConsumedFromCurrent token1 + ucast ?d\<rparr>"
    have ok: "token_ok q ?token" using some(2) by (simp add: token_ok_def)
    have tk: "takes (streams q) (take ?M ?xs) (streams q1)" unfolding q1(4) by (rule takes_front [OF c])
    note start = token_stepI [OF assms(1,2) q1(3,2) ok]
    have total: "length (concat (streams q1)) + min ?M (length ?xs) = length (concat (streams q))"
      unfolding q1(4) using concat_length_update [OF c, of "drop ?M ?xs"] by simp
    show ?thesis
    proof (cases "?M \<le> length ?xs")
      case True
      then have "\<exists>q'. try_dequeue_bulk_token maximum token q = Some ((maximum, take ?M ?xs), ?token, q') \<and> token_step q ?token q' \<and>
          streams q' = streams q1"
        using some(1,3) q1(1) start stop by (simp add: try_dequeue_bulk_token_def Let_def min_absorb1)
      moreover have "maximum = of_nat (length (take ?M ?xs))" using True by simp
      moreover have "length (take ?M ?xs) = min ?M (length (concat (streams q)))" using True total by simp
      ultimately show ?thesis using tk by metis
    next
      case False
      then have all: "take ?M ?xs = ?xs" "drop ?M ?xs = []" "min ?M (length ?xs) = length ?xs" by simp_all
      have n: "length (producers q1) = ?n" by (rule same_table_length [OF q1(3)])
      have "nonempty q1 \<subseteq> {..<?n} - {c}"
        using c n unfolding nonempty_def q1(4) all(2) by (auto simp: nth_list_update split: if_splits)
      then have sub: "nonempty q1 \<subseteq> set (scan_order ?n c (ring_next ?n c))" unfolding scan_order_all [OF some(4)] .
      have "currentProducer ?token = Some c" using some(3) by simp
      from token_scan_bulk_takes [OF q1(2) n ring_next_less [OF some(4)] this some(4) sub, of "maximum - ?d" ?d]
      obtain ys token' q' where r: "token_scan_bulk (maximum - ?d) ?d (ring_next ?n c) ?token q1 =
          Some ((?d + of_nat (length ys), ys), token', q')" "streams_inv q'" "same_table q1 q'" "takes (streams q1) ys (streams q')"
          "length ys = min (unat (maximum - ?d)) (length (concat (streams q1)))" "\<exists>c' < ?n. currentProducer token' = Some c'"
          "desiredProducer token' = desiredProducer ?token" by blast
      have "unat (maximum - ?d) = ?M - length ?xs"
        using d all(3) False by (subst unat_sub) (simp_all add: word_le_nat_alt)
      then have "length (?xs @ ys) = min ?M (length (concat (streams q)))" using r(5) False total all(3) by simp
      moreover have "token_ok q token'" using r(6,7) some(2) by (auto simp: token_ok_def)
      note token_stepI(1) [OF assms(1,2) same_table_trans [OF q1(3) r(3)] r(2) this]
      moreover have "takes (streams q) (?xs @ ys) (streams q')" using takes_append [OF tk r(4)] all(1) by simp
      moreover have "next_or_tail q1 c = Some (ring_next ?n c)" using next_or_tail_ring [of c q1] some(4) n by simp
      then have "try_dequeue_bulk_token maximum token q = Some ((?d + of_nat (length ys), take ?M ?xs @ ys), token', q')"
        unfolding try_dequeue_bulk_token_def
        by (simp only: some(1,3) q1(1) r(1) stop Option.bind.simps prod.case Let_def if_False False not_True_eq_False)
      then have "try_dequeue_bulk_token maximum token q = Some ((of_nat (length (?xs @ ys)), ?xs @ ys), token', q')"
        unfolding all(1,3) by simp
      ultimately show ?thesis by blast
    qed
  qed
qed

section \<open>Histories with tokens\<close>

text \<open>Tokens are numbered in the order in which they are made. Results that are not of a queue operation are \<open>None\<close>.\<close>

datatype 'e token_op = Queue_op "'e queue_op" | New_token | Token_dequeue nat | Token_dequeue_bulk nat u64

fun run_token_op ::
  "(nat \<Rightarrow> ptr) \<Rightarrow> 'e token_op \<Rightarrow> ConsumerToken list \<times> 'e ConcurrentQueue \<Rightarrow>
     ('e queue_result option \<times> ConsumerToken list \<times> 'e ConcurrentQueue) option" where
  "run_token_op mem (Queue_op op) (ts, q) = do { (r, q') \<leftarrow> run_op mem op q; Some (Some r, ts, q') }"
| "run_token_op mem New_token (ts, q) = (case new_consumer_token q of (t, q') \<Rightarrow> Some (None, ts @ [t], q'))"
| "run_token_op mem (Token_dequeue k) (ts, q) =
     do { t \<leftarrow> nth_opt ts k; (r, t', q') \<leftarrow> try_dequeue_token t q; Some (Some (Taken r), ts[k := t'], q') }"
| "run_token_op mem (Token_dequeue_bulk k maximum) (ts, q) =
     do { t \<leftarrow> nth_opt ts k; ((n, xs), t', q') \<leftarrow> try_dequeue_bulk_token maximum t q; Some (Some (Taken_many n xs), ts[k := t'], q') }"

fun run_token_ops ::
  "(nat \<Rightarrow> ptr) \<Rightarrow> 'e token_op list \<Rightarrow> ConsumerToken list \<times> 'e ConcurrentQueue \<Rightarrow>
     ('e queue_result option list \<times> ConsumerToken list \<times> 'e ConcurrentQueue) option" where
  "run_token_ops mem [] s = Some ([], s)"
| "run_token_ops mem (op # ops) s = do { (r, s1) \<leftarrow> run_token_op mem op s; (rs, s') \<leftarrow> run_token_ops mem ops s1; Some (r # rs, s') }"

text \<open>Histories that use tokens only after they were made; \<open>n\<close> is the number of tokens there are.\<close>

fun token_ops_ok :: "nat \<Rightarrow> 'e token_op list \<Rightarrow> bool" where
  "token_ops_ok n [] \<longleftrightarrow> True"
| "token_ops_ok n (Queue_op op # ops) \<longleftrightarrow> op_ok op \<and> token_ops_ok n ops"
| "token_ops_ok n (New_token # ops) \<longleftrightarrow> token_ops_ok (Suc n) ops"
| "token_ops_ok n (Token_dequeue k # ops) \<longleftrightarrow> k < n \<and> token_ops_ok n ops"
| "token_ops_ok n (Token_dequeue_bulk k m # ops) \<longleftrightarrow> k < n \<and> token_ops_ok n ops"

fun token_stored :: "'e token_op list \<Rightarrow> 'e queue_result option list \<Rightarrow> 'e list" where
  "token_stored (Queue_op op # ops) (Some r # rs) = stored_elements [op] [r] @ token_stored ops rs"
| "token_stored (_ # ops) (_ # rs) = token_stored ops rs"
| "token_stored _ _ = []"

fun token_taken :: "'e queue_result option list \<Rightarrow> 'e list" where
  "token_taken [] = []"
| "token_taken (Some r # rs) = taken_elements [r] @ token_taken rs"
| "token_taken (None # rs) = token_taken rs"

definition tokens_inv :: "nat \<Rightarrow> ConsumerToken list \<times> 'e ConcurrentQueue \<Rightarrow> bool" where
  "tokens_inv k s \<longleftrightarrow> queue_inv (snd s) \<and> counted (snd s) \<and> list_all (token_ok (snd s)) (fst s) \<and>
     unat (implicitProducerHashCount (snd s)) \<le> k \<and> length (producers (snd s)) \<le> k"

lemma token_ok_more: "token_ok q t \<Longrightarrow> length (producers q) \<le> length (producers q') \<Longrightarrow> token_ok q' t"
  by (auto simp: token_ok_def)

lemma queue_step_length:
  "queue_step s op r s' \<Longrightarrow> length (fst s) \<le> length (fst s') \<and> length (fst s') \<le> Suc (length (fst s))"
  by (induction rule: queue_step.induct) (auto simp: gets_stream_def dest: bulk_take_length split: if_splits)

lemma token_step_inv:
  assumes "token_step q t q'" "tokens_inv k (ts, q)"
  shows "tokens_inv (Suc k) (ts[i := t], q')"
proof -
  have n: "length (producers q') = length (producers q)" using assms(1) by (simp add: token_step_def)
  have "list_all (token_ok q') (ts[i := t])"
    unfolding list_all_length
  proof (intro allI impI)
    fix j assume "j < length (ts[i := t])"
    then show "token_ok q' (ts[i := t] ! j)"
      using assms n by (cases "j = i") (auto simp: token_step_def tokens_inv_def list_all_length intro: token_ok_more)
  qed
  with assms n show ?thesis by (simp add: tokens_inv_def token_step_def)
qed

lemma run_token_op_step:
  assumes inv: "tokens_inv k (ts, q)" and ok: "token_ops_ok (length ts) [op]" and k: "k < 2 ^ 31"
  shows "\<exists>r ts' q'. run_token_op mem op (ts, q) = Some (r, ts', q') \<and> tokens_inv (Suc k) (ts', q') \<and>
    length ts' = length ts + (if op = New_token then 1 else 0) \<and>
    mset (concat (streams q)) + mset (token_stored [op] [r]) = mset (token_taken [r]) + mset (concat (streams q'))"
proof -
  have q: "queue_inv q" "counted q" "unat (implicitProducerHashCount q) < 2 ^ 59"
    and tok: "token_ok q (ts ! i)" if "i < length ts" for i
    using inv k that by (auto simp: tokens_inv_def list_all_length)
  have q: "queue_inv q" "counted q" "unat (implicitProducerHashCount q) < 2 ^ 59" "length (producers q) \<le> k"
    using inv k by (auto simp: tokens_inv_def)
  show ?thesis
  proof (cases op)
    case (Queue_op op')
    with ok run_op_step [OF q(1) _ q(3), of op' mem] obtain r q' where
      r: "run_op mem op' q = Some (r, q')" "queue_inv q'" "queue_step (spec_of q) op' r (spec_of q')"
        "unat (implicitProducerHashCount q') \<le> unat (implicitProducerHashCount q) + 1" by auto
    have len: "length (producers q) \<le> length (producers q')" "length (producers q') \<le> Suc (length (producers q))"
      using queue_step_length [OF r(3)] by simp_all
    then have "counted q'" using run_op_gap [OF r(1)] q(2,4) k by (simp add: counted_def)
    moreover have "list_all (token_ok q') ts" using inv token_ok_more [OF _ len(1)] by (auto simp: tokens_inv_def list_all_iff)
    ultimately have "tokens_inv (Suc k) (ts, q')" using r(2,4) len(2) inv by (simp add: tokens_inv_def)
    with r(1) Queue_op queue_step_mset [OF r(3)] show ?thesis by auto
  next
    case New_token
    obtain t q' where t: "new_consumer_token q = (t, q')" by fastforce
    from new_token_ok [OF t] inv have "tokens_inv (Suc k) (ts @ [t], q')" by (auto simp: tokens_inv_def token_ok_def)
    with t new_token_ok [OF t] New_token show ?thesis by auto
  next
    case (Token_dequeue i)
    then have i: "i < length ts" using ok by simp
    from try_dequeue_token_inv [OF q(1,2) tok [OF i]] obtain r t q' where
      d: "try_dequeue_token (ts ! i) q = Some (r, t, q')" "token_step q t q'" and
      r: "case r of
         None \<Rightarrow> streams q' = streams q \<and> (\<forall>xs \<in> set (streams q). xs = [])
       | Some x \<Rightarrow> (\<exists>i ys. i < length (streams q) \<and> streams q ! i = x # ys \<and> streams q' = (streams q)[i := ys])" by blast
    have "mset (concat (streams q)) = mset (taken_elements [Taken r]) + mset (concat (streams q'))"
    proof (cases r)
      case (Some x)
      with r obtain j ys where "j < length (streams q)" "streams q ! j = x # ys" "streams q' = (streams q)[j := ys]" by auto
      with Some mset_concat_update [of j "streams q" ys] show ?thesis by simp
    qed (use r in simp)
    with d token_step_inv [OF d(2) inv, of i] Token_dequeue i show ?thesis by (simp add: nth_opt_def)
  next
    case (Token_dequeue_bulk i maximum)
    then have i: "i < length ts" using ok by simp
    from try_dequeue_bulk_token_inv [OF q(1,2) tok [OF i], of maximum] obtain ys t q' where
      d: "try_dequeue_bulk_token maximum (ts ! i) q = Some ((of_nat (length ys), ys), t, q')" "token_step q t q'"
        "takes (streams q) ys (streams q')" by blast
    with token_step_inv [OF d(2) inv, of i] takes_mset [OF d(3)] Token_dequeue_bulk i show ?thesis by (simp add: nth_opt_def)
  qed
qed

lemma run_token_ops_steps:
  assumes "tokens_inv k s" "token_ops_ok (length (fst s)) ops" "k + length ops \<le> 2 ^ 31"
  shows "\<exists>rs s'. run_token_ops mem ops s = Some (rs, s') \<and> tokens_inv (k + length ops) s' \<and>
    mset (concat (streams (snd s))) + mset (token_stored ops rs) = mset (token_taken rs) + mset (concat (streams (snd s')))"
  using assms
proof (induction ops arbitrary: k s)
  case (Cons op ops)
  obtain ts q where s: "s = (ts, q)" by fastforce
  have "token_ops_ok (length ts) [op]" using Cons.prems(2) s by (cases op) auto
  from run_token_op_step [OF Cons.prems(1) [unfolded s] this, of mem] Cons.prems(3) obtain r ts' q' where
    r: "run_token_op mem op (ts, q) = Some (r, ts', q')" "tokens_inv (Suc k) (ts', q')"
      "length ts' = length ts + (if op = New_token then 1 else 0)"
      "mset (concat (streams q)) + mset (token_stored [op] [r]) = mset (token_taken [r]) + mset (concat (streams q'))" by auto
  have "token_ops_ok (length ts') ops" using Cons.prems(2) s r(3) by (cases op) auto
  with Cons.IH [OF r(2)] Cons.prems(3) obtain rs s' where
    rs: "run_token_ops mem ops (ts', q') = Some (rs, s')" "tokens_inv (Suc k + length ops) s'"
      "mset (concat (streams q')) + mset (token_stored ops rs) = mset (token_taken rs) + mset (concat (streams (snd s')))" by auto
  have st: "mset (token_stored (op # ops) (r # rs)) = mset (token_stored [op] [r]) + mset (token_stored ops rs)"
    "mset (token_taken (r # rs)) = mset (token_taken [r]) + mset (token_taken rs)"
    by (cases op; cases r; simp)+
  have "a + (s1 + s2) = (t1 + t2) + c" if "a + s1 = t1 + b" "b + s2 = t2 + c" for a b c s1 s2 t1 t2 :: "'a multiset"
    using that by (metis add.assoc)
  from this [OF r(4) rs(3)] st have "mset (concat (streams q)) + mset (token_stored (op # ops) (r # rs)) =
      mset (token_taken (r # rs)) + mset (concat (streams (snd s')))" by simp
  with r(1) rs(1,2) s show ?case by auto
qed auto

lemma new_queue_tokens: "tokens_inv 0 ([], new_queue mem capacity :: 'e ConcurrentQueue)"
proof -
  have "producers (new_queue mem capacity :: 'e ConcurrentQueue) = []" "producerCount (new_queue mem capacity :: 'e ConcurrentQueue) = 0"
    by (auto simp: new_queue_def populate_initial_block_list_def create_array_def malloc_blocks_def Let_def
      populate_initial_implicit_producer_hash_def bare_queue_def split: prod.splits if_splits)
  then show ?thesis
    using new_queue_inv(1) [of mem capacity, where 'e = 'e] by (simp add: tokens_inv_def counted_def count_gap_def)
qed

lemma new_queue_runs_tokens:
  assumes "token_ops_ok 0 ops" "length ops \<le> 2 ^ 31"
  shows "\<exists>rs ts q. run_token_ops mem ops ([], new_queue mem capacity) = Some (rs, ts, q) \<and> tokens_inv (length ops) (ts, q) \<and>
    mset (token_stored ops rs) = mset (token_taken rs) + mset (concat (streams q))"
  using run_token_ops_steps [OF new_queue_tokens [of mem capacity], where ops = ops and mem = mem] assms
  by (auto simp: new_queue_streams(2))

text \<open>A history for the examples: a token that takes from two threads.\<close>

definition example_token_ops :: "(u64 \<times> nat) token_op list" where
  "example_token_ops = [New_token, Token_dequeue 0, Queue_op (Enqueue 2000 (2000, 7)), New_token,
     Queue_op (Enqueue_bulk 3000 [(3000, 1), (3000, 2)]), Token_dequeue 1, Token_dequeue_bulk 0 1]"

lemma example_token_ops_ok: "token_ops_ok 0 example_token_ops" "length example_token_ops \<le> 2 ^ 31"
  by (simp_all add: example_token_ops_def thread_ids_def invalid_thread_id_def invalid_thread_id2_def VECTOR_MAX_def)

lemma example_token_history:
  "\<exists>rs ts q. run_token_ops (\<lambda>k. 4096 * (k + 1)) example_token_ops ([], new_queue (\<lambda>k. 4096 * (k + 1)) 0) = Some (rs, ts, q)"
  using new_queue_runs_tokens [OF example_token_ops_ok] by blast

section \<open>Properties\<close>

text \<open>
  C10. Consumers with tokens, in any history with the other operations: every operation returns; nothing is lost or handed
  out twice; and a token fails to get an element only when there is none, in bulk it gets as many as it asked for or all.
\<close>

theorem tokens_take_what_there_is:
  assumes "token_ops_ok 0 ops" "length ops \<le> 2 ^ 31"
  shows "\<exists>rs ts q. run_token_ops mem ops ([], new_queue mem capacity) = Some (rs, ts, q) \<and>
    mset (token_stored ops rs) = mset (token_taken rs) + mset (concat (streams q)) \<and>
    (\<forall>t \<in> set ts.
       (\<exists>r t' q'. try_dequeue_token t q = Some (r, t', q') \<and> (r = None \<longleftrightarrow> concat (streams q) = []) \<and>
          mset (concat (streams q)) = mset (taken_elements [Taken r]) + mset (concat (streams q'))) \<and>
       (\<forall>maximum. \<exists>ys t' q'. try_dequeue_bulk_token maximum t q = Some ((of_nat (length ys), ys), t', q') \<and>
          takes (streams q) ys (streams q') \<and> length ys = min (unat maximum) (length (concat (streams q)))))"
proof -
  from new_queue_runs_tokens [OF assms] obtain rs ts q where
    run: "run_token_ops mem ops ([], new_queue mem capacity) = Some (rs, ts, q)" "tokens_inv (length ops) (ts, q)"
      "mset (token_stored ops rs) = mset (token_taken rs) + mset (concat (streams q))" by blast
  have q: "queue_inv q" "counted q" and tok: "\<And>t. t \<in> set ts \<Longrightarrow> token_ok q t"
    using run(2) by (auto simp: tokens_inv_def list_all_iff)
  have one: "\<exists>r t' q'. try_dequeue_token t q = Some (r, t', q') \<and> (r = None \<longleftrightarrow> concat (streams q) = []) \<and>
      mset (concat (streams q)) = mset (taken_elements [Taken r]) + mset (concat (streams q'))" if "t \<in> set ts" for t
  proof -
    from try_dequeue_token_inv [OF q tok [OF that]] obtain r t' q' where d: "try_dequeue_token t q = Some (r, t', q')" and
      r: "case r of
         None \<Rightarrow> streams q' = streams q \<and> (\<forall>xs \<in> set (streams q). xs = [])
       | Some x \<Rightarrow> (\<exists>i ys. i < length (streams q) \<and> streams q ! i = x # ys \<and> streams q' = (streams q)[i := ys])" by blast
    show ?thesis
    proof (cases r)
      case None
      with d r show ?thesis by auto
    next
      case (Some x)
      with r obtain i ys where i: "i < length (streams q)" "streams q ! i = x # ys" "streams q' = (streams q)[i := ys]" by auto
      then have "concat (streams q) \<noteq> []" by (metis concat_eq_Nil_conv list.distinct(1) nth_mem)
      with d Some i mset_concat_update [of i "streams q" ys] show ?thesis by auto
    qed
  qed
  from try_dequeue_bulk_token_inv [OF q tok] have "\<exists>ys t' q'. try_dequeue_bulk_token maximum t q = Some ((of_nat (length ys), ys), t', q') \<and>
      takes (streams q) ys (streams q') \<and> length ys = min (unat maximum) (length (concat (streams q)))" if "t \<in> set ts" for t maximum
    using that by blast
  with run(1,3) one show ?thesis by blast
qed

theorem tokens_take_what_there_is_witness:
  "\<exists>rs ts q. run_token_ops (\<lambda>k. k) example_token_ops ([], new_queue (\<lambda>k. k) 64) = Some (rs, ts, q) \<and>
    mset (token_stored example_token_ops rs) = mset (token_taken rs) + mset (concat (streams q))"
  using tokens_take_what_there_is [OF example_token_ops_ok] by blast

text \<open>
  Where tokens go: with \<open>n\<close> producers, a token that has not been used yet starts at producer \<open>initialOffset mod n\<close>, so that
  successive tokens start at successive producers, and every rotation since the token last looked moves it by one
  producer around the ring; with no producer it stays unused.
\<close>

theorem token_moves_around:
  assumes "token_ops_ok 0 ops" "length ops \<le> 2 ^ 31" "run_token_ops mem ops ([], new_queue mem capacity) = Some (rs, ts, q)"
    "t \<in> set ts"
  shows "if producers q = [] then update_current_producer_after_rotation t q = Some (False, t)
    else \<exists>d. update_current_producer_after_rotation t q = Some (True, t\<lparr>desiredProducer := Some d,
        lastKnownGlobalOffset := globalExplicitConsumerOffset q, currentProducer := Some d, itemsConsumedFromCurrent := 0\<rparr>) \<and>
      d < length (producers q) \<and>
      int d = (int (start_position t (length (producers q))) - int (unat (globalExplicitConsumerOffset q - lastKnownGlobalOffset t)))
        mod int (length (producers q))"
proof -
  from new_queue_runs_tokens [OF assms(1,2), of mem capacity] assms(3) have "tokens_inv (length ops) (ts, q)" by auto
  then have t: "counted q" "token_ok q t" using assms(4) by (auto simp: tokens_inv_def list_all_iff)
  show ?thesis
  proof (cases "producers q = []")
    case True
    then have "desiredProducer t = None" using t(2) by (cases "desiredProducer t") (auto simp: token_ok_def)
    with True show ?thesis by (simp add: update_current_producer_after_rotation_def producer_list_tail_def)
  next
    case False
    with update_current_producer [OF t False] show ?thesis by simp
  qed
qed

theorem token_moves_around_witness:
  "\<exists>rs ts q. run_token_ops (\<lambda>k. 4096 * (k + 1)) example_token_ops ([], new_queue (\<lambda>k. 4096 * (k + 1)) 0) = Some (rs, ts, q) \<and>
    (\<forall>t \<in> set ts. \<exists>r. update_current_producer_after_rotation t q = Some r)"
proof -
  from example_token_history obtain rs ts q where
    h: "run_token_ops (\<lambda>k. 4096 * (k + 1)) example_token_ops ([], new_queue (\<lambda>k. 4096 * (k + 1)) 0) = Some (rs, ts, q)" by blast
  from token_moves_around [OF example_token_ops_ok h] h show ?thesis by (metis (no_types, lifting))
qed

end
