(* ===== verification/Producer_Destroy.thy ===== *)
theory Producer_Destroy
  imports Producer_Take
begin

text \<open>
  The end of an implicit producer (\<open>concurrentqueue.h\<close>: \<open>~ImplicitProducer\<close>): the elements that are left are
  destroyed, oldest first, and its blocks go to the free list. No element is destroyed twice or read where there is
  none, and no block is forgotten or given back twice.
\<close>

section \<open>The code\<close>

text \<open>The loop over the elements; the block of the last one stays with the caller. Destroyed elements are listed.\<close>

partial_function (option) destroy_elements ::
  "u64 \<Rightarrow> u64 \<Rightarrow> ptr \<Rightarrow> ImplicitProducer \<times> ('e, 'z) block_pool_scheme \<Rightarrow> ('e list \<times> ('e, 'z) block_pool_scheme) option" where
  "destroy_elements index tail block s =
     (if index = tail then Some ([], snd s)
      else do {
        (block1, q1) \<leftarrow>
          (if index AND of_nat (BLOCK_SIZE - 1) = 0 \<or> block = nullptr then do {
             q1 \<leftarrow> (if block \<noteq> nullptr then add_block_to_free_list block (snd s) else Some (snd s));
             e \<leftarrow> get_block_index_entry_for_index index (fst s);
             (_, val) \<leftarrow> nth_opt (bi_entries (fst s)) e;
             Some (val, q1)
           }
           else Some (block, snd s));
        (x, q2) \<leftarrow> take_element block1 index q1;
        (xs, q3) \<leftarrow> destroy_elements (index + 1) tail block1 (fst s, q2);
        Some (x # xs, q3)
      })"

declare destroy_elements.simps [code]

definition destroy_implicit_producer ::
  "ImplicitProducer \<Rightarrow> ('e, 'z) block_pool_scheme \<Rightarrow> ('e list \<times> ('e, 'z) block_pool_scheme) option" where
  "destroy_implicit_producer p q =
     (let tail = tailIndex p; index = headIndex p; forceFreeLastBlock = (index \<noteq> tail)
      in if \<not> (index = tail \<or> circular_less_than index tail) then None
         else do {
           (xs, q1) \<leftarrow> destroy_elements index tail nullptr (p, q);
           q2 \<leftarrow> (if tailBlock p \<noteq> nullptr \<and> (forceFreeLastBlock \<or> tail AND of_nat (BLOCK_SIZE - 1) \<noteq> 0)
                 then add_block_to_free_list (tailBlock p) q1 else Some q1);
           Some (xs, q2)
         })"

section \<open>The loop\<close>

text \<open>
  In the loop, with the elements \<open>xs\<close> from position \<open>j\<close> on still to come: the blocks from number \<open>C\<close> on are the
  producer's, and the index finds those of all positions to come.
\<close>

definition cell :: "('e, 'z) block_pool_scheme \<Rightarrow> (nat \<Rightarrow> ptr) \<Rightarrow> nat \<Rightarrow> 'e option" where
  "cell q V i = (case blocks q (V (i div 32)) of Some b \<Rightarrow> elements b ! (i mod 32) | None \<Rightarrow> None)"

definition draining ::
  "ImplicitProducer \<Rightarrow> ('e, 'z) block_pool_scheme \<Rightarrow> ptr set \<Rightarrow> (nat \<Rightarrow> ptr) \<Rightarrow> nat \<Rightarrow> nat \<Rightarrow> nat \<Rightarrow> 'e list \<Rightarrow> bool" where
  "draining p q F V C N j xs \<longleftrightarrow>
     (\<exists>fs. pool_inv q fs (V ` {C..<N} \<union> F)) \<and> inj_on V {C..<N} \<and> V ` {C..<N} \<inter> F = {} \<and> j + length xs \<le> 32 * N \<and>
     (\<forall>i < length xs. cell q V (j + i) = Some (xs ! i)) \<and>
     (\<forall>i < length xs. \<exists>e k. get_block_index_entry_for_index (of_nat (j + i)) p = Some e \<and> nth_opt (bi_entries p) e = Some (k, V ((j + i) div 32)))"

lemma draining_block:
  assumes "draining p q F V C N j xs" "C \<le> b" "b < N"
  shows "V b \<noteq> nullptr"
proof -
  have "V b \<in> V ` {C..<N} \<union> F" using assms(2,3) by simp
  with assms(1) show ?thesis unfolding draining_def using pool_inv_used(1) by blast
qed

text \<open>One element is destroyed.\<close>

lemma destroy_one:
  assumes d: "draining p q F V (j div 32) N j (x # xs)"
  shows "\<exists>q'. take_element (V (j div 32)) (of_nat j) q = Some (x, q') \<and> draining p q' F V (j div 32) N (Suc j) xs \<and> agree_on F q q'"
proof -
  let ?B = "j div 32"
  from d obtain fs where pool: "pool_inv q fs (V ` {?B..<N} \<union> F)" and inj: "inj_on V {?B..<N}" "V ` {?B..<N} \<inter> F = {}"
    and len: "j + length (x # xs) \<le> 32 * N"
    and cells: "\<And>i. i < length (x # xs) \<Longrightarrow> cell q V (j + i) = Some ((x # xs) ! i)"
    and look: "\<forall>i < length (x # xs). \<exists>e k. get_block_index_entry_for_index (of_nat (j + i)) p = Some e \<and> nth_opt (bi_entries p) e = Some (k, V ((j + i) div 32))"
    unfolding draining_def by blast
  have B: "?B < N" using len by simp
  then have VB: "V ?B \<in> V ` {?B..<N} \<union> F" by simp
  from pool_inv_used(2) [OF pool VB] obtain blk where blk: "blocks q (V ?B) = Some blk" "length (elements blk) = 32"
    by (auto simp: BLOCK_SIZE_def)
  have x: "elements blk ! (j mod 32) = Some x" using cells [of 0] blk by (simp add: cell_def)
  let ?b = "blk\<lparr>elements := (elements blk)[j mod 32 := None]\<rparr>"
  let ?q = "q\<lparr>blocks := (blocks q)(V ?B \<mapsto> ?b)\<rparr>"
  have "take_element (V ?B) (of_nat j) q = Some (x, ?q)"
    using blk x by (simp add: take_element_def slot_of_nat nth_opt_def)
  moreover have "\<exists>fs. pool_inv ?q fs (V ` {?B..<N} \<union> F)" 
    by (intro exI [of _ fs] pool_inv_update [OF pool VB blk(1)]) simp_all
  moreover have "cell ?q V (Suc j + i) = Some (xs ! i)" if "i < length xs" for i
  proof -
    let ?i = "Suc j + i"
    have c: "cell q V ?i = Some (xs ! i)" using cells [of "Suc i"] that by simp
    show ?thesis
    proof (cases "?i div 32 = ?B")
      case True
      then have "?i mod 32 \<noteq> j mod 32" by (metis add_Suc less_add_Suc1 less_irrefl mult_div_mod_eq)
      with c True blk show ?thesis by (simp add: cell_def)
    next
      case False
      have "?B \<le> ?i div 32" by (rule div_le_mono) simp
      moreover have "?i div 32 < N" using len that by simp
      ultimately have "V (?i div 32) \<noteq> V ?B" using inj(1) B False by (auto simp: inj_on_def)
      with c show ?thesis by (simp add: cell_def)
    qed
  qed
  moreover have "\<exists>e k. get_block_index_entry_for_index (of_nat (Suc j + i)) p = Some e \<and> nth_opt (bi_entries p) e = Some (k, V ((Suc j + i) div 32))"
    if "i < length xs" for i using look [rule_format, of "Suc i"] that by (simp only: add_Suc add_Suc_right) simp
  moreover have "V ?B \<notin> F" using inj(2) B by fastforce
  then have "agree_on F q ?q" by (auto simp: agree_on_def)
  ultimately show ?thesis using inj len unfolding draining_def by (intro exI [of _ ?q]) simp
qed

text \<open>The block of the elements before \<open>j\<close> is given back.\<close>

lemma leave_drained:
  assumes "draining p q F V C N j xs" "C < N" "32 * Suc C \<le> j"
  shows "\<exists>q'. add_block_to_free_list (V C) q = Some q' \<and> draining p q' F V (Suc C) N j xs \<and> agree_on F q q'"
proof -
  from assms(1) obtain fs where pool: "pool_inv q fs (V ` {C..<N} \<union> F)" and inj: "inj_on V {C..<N}" "V ` {C..<N} \<inter> F = {}"
    unfolding draining_def by blast
  have rng: "{C..<N} = insert C {Suc C..<N}" using assms(2) by auto
  have "V C \<notin> V ` {Suc C..<N} \<union> F" using inj unfolding rng by (auto simp: inj_on_def)
  moreover have "pool_inv q fs (insert (V C) (V ` {Suc C..<N} \<union> F))" using pool unfolding rng by simp
  ultimately obtain q' fs' where q': "add_block_to_free_list (V C) q = Some q'"
    "agree_on (V ` {Suc C..<N} \<union> F) q q'" "pool_inv q' fs' (V ` {Suc C..<N} \<union> F)" using add_block_to_free_list_inv by blast
  have "cell q' V (j + i) = cell q V (j + i)" if "i < length xs" for i
  proof -
    have "Suc C \<le> (j + i) div 32" using div_le_mono [of "32 * Suc C" "j + i" 32] assms(3) by simp
    moreover have "(j + i) div 32 < N" using assms(1) that by (auto simp: draining_def)
    ultimately show ?thesis using q'(2) by (simp add: cell_def agree_on_def)
  qed
  then have "draining p q' F V (Suc C) N j xs"
    using assms(1) q'(3) inj unfolding draining_def rng by (auto simp: inj_on_def)
  with q'(1,2) show ?thesis by (auto simp: agree_on_def)
qed

lemma index_aligned: "(of_nat j :: u64) AND of_nat (BLOCK_SIZE - 1) = 0 \<longleftrightarrow> j mod 32 = 0"
proof -
  have "slot (of_nat j) = j mod 32" by (rule slot_of_nat)
  then show ?thesis unfolding slot_def by (metis unsigned_0 unsigned_eq_0_iff)
qed

lemma destroy_elements_draining:
  fixes q :: "('e, 'z) block_pool_scheme"
  assumes "draining p q F V C N j xs" "length xs < 2 ^ 64"
    "block = nullptr \<and> C = j div 32 \<or> block = V C \<and> block \<noteq> nullptr \<and> 0 < j \<and> C = (j - 1) div 32 \<and> C < N"
  shows "\<exists>q'. destroy_elements (of_nat j) (of_nat (j + length xs)) block (p, q) = Some (xs, q') \<and> agree_on F q q' \<and>
    draining p q' F V (if xs = [] then C else (j + length xs - 1) div 32) N (j + length xs) []"
  using assms
proof (induction xs arbitrary: q C j block)
  case Nil
  then show ?case by (auto simp: destroy_elements.simps agree_on_def)
next
  case (Cons x xs)
  let ?B = "j div 32"
  have ne: "(of_nat j :: u64) \<noteq> of_nat (j + length (x # xs))"
    using of_nat_add_neq [of "length (x # xs)" j] Cons.prems(2) by fastforce
  from Cons.prems(1) obtain e k where look: "get_block_index_entry_for_index (of_nat j) p = Some e"
    "nth_opt (bi_entries p) e = Some (k, V ?B)"
    unfolding draining_def by (auto dest!: spec [of _ 0])
  have "j < 32 * N" using Cons.prems(1) by (simp add: draining_def)
  then have BN: "?B < N" by simp
  have "\<exists>q1. (if (of_nat j :: u64) AND of_nat (BLOCK_SIZE - 1) = 0 \<or> block = nullptr then do {
             q1 \<leftarrow> (if block \<noteq> nullptr then add_block_to_free_list block q else Some q);
             e \<leftarrow> get_block_index_entry_for_index (of_nat j) p;
             (_, val) \<leftarrow> nth_opt (bi_entries p) e;
             Some (val, q1)
           }
           else Some (block, q)) = Some (V ?B, q1) \<and> draining p q1 F V ?B N j (x # xs) \<and> agree_on F q q1"
  proof (cases "block = nullptr")
    case True
    with look Cons.prems(1,3) show ?thesis by (auto simp: agree_on_def)
  next
    case False
    then have b: "block = V C" "0 < j" "C = (j - 1) div 32" "C < N" using Cons.prems(3) by auto
    show ?thesis
    proof (cases "j mod 32 = 0")
      case True
      then have j: "j = 32 * ?B" by (metis add.right_neutral mult_div_mod_eq)
      then have "0 < ?B" "j - 1 = 32 * (?B - 1) + 31" using b(2) by linarith+
      then have C: "Suc C = ?B" "32 * Suc C \<le> j" unfolding b(3) by (simp_all only: div_mult_self4) (use j in simp_all)
      have "(of_nat j :: u64) AND of_nat (BLOCK_SIZE - 1) = 0" by (rule iffD2 [OF index_aligned True])
      with leave_drained [OF Cons.prems(1) b(4) C(2)] look \<open>block \<noteq> nullptr\<close> b(1) C(1) show ?thesis by auto
    next
      case False
      then have "C = ?B" unfolding b(3) using b(2) by (metis Suc_pred' div_Suc mod_Suc)
      moreover have "(of_nat j :: u64) AND of_nat (BLOCK_SIZE - 1) \<noteq> 0" using False index_aligned [of j] by simp
      ultimately show ?thesis using Cons.prems(1) b(1) \<open>block \<noteq> nullptr\<close> by (auto simp: agree_on_def)
    qed
  qed
  then obtain q1 where q1: "(if (of_nat j :: u64) AND of_nat (BLOCK_SIZE - 1) = 0 \<or> block = nullptr then do {
             q1 \<leftarrow> (if block \<noteq> nullptr then add_block_to_free_list block q else Some q);
             e \<leftarrow> get_block_index_entry_for_index (of_nat j) p;
             (_, val) \<leftarrow> nth_opt (bi_entries p) e;
             Some (val, q1)
           }
           else Some (block, q)) = Some (V ?B, q1)" "draining p q1 F V ?B N j (x # xs)" "agree_on F q q1" by blast
  from destroy_one [OF q1(2)] obtain q2 where q2: "take_element (V ?B) (of_nat j) q1 = Some (x, q2)"
    "draining p q2 F V ?B N (Suc j) xs" "agree_on F q1 q2" by blast
  from Cons.IH [OF q2(2), of "V ?B"] Cons.prems(2) draining_block [OF q1(2) _ BN] BN obtain q3 where
    q3: "destroy_elements (of_nat (Suc j)) (of_nat (Suc j + length xs)) (V ?B) (p, q2) = Some (xs, q3)" "agree_on F q2 q3"
      "draining p q3 F V (if xs = [] then ?B else (Suc j + length xs - 1) div 32) N (Suc j + length xs) []" by auto
  have nxt: "(of_nat j :: u64) + 1 = of_nat (Suc j)" "j + length (x # xs) = Suc j + length xs" by simp_all
  have "destroy_elements (of_nat j) (of_nat (j + length (x # xs))) block (p, q) = Some (x # xs, q3)"
    by (subst destroy_elements.simps)
      (simp only: ne [unfolded nxt(2)] if_False fst_conv snd_conv q1(1) Option.bind.simps prod.case q2(1) nxt q3(1))
  moreover have "agree_on F q q3" using q1(3) q2(3) q3(2) by (simp add: agree_on_def)
  moreover have "(if xs = [] then ?B else (Suc j + length xs - 1) div 32) = (j + length (x # xs) - 1) div 32" by simp
  ultimately show ?case using q3(3) nxt(2) by auto
qed
section \<open>The whole destructor\<close>

lemma stream_mem_cell:
  assumes "stream_mem q V H N xs" "i < length xs" "H + length xs \<le> 32 * N"
  shows "cell q V (H + i) = Some (xs ! i)"
proof -
  let ?b = "(H + i) div 32"
  have "H div 32 \<le> ?b" "?b < N" using assms(2,3) by (simp_all add: div_le_mono)
  with assms(1) obtain blk where blk: "blocks q (V ?b) = Some blk"
    "\<forall>j. 32 * ?b \<le> j \<and> j < 32 * ?b + 32 \<and> H \<le> j \<and> j < H + length xs \<longrightarrow> elements blk ! (j - 32 * ?b) = Some (xs ! (j - H))"
    unfolding stream_mem_def by blast
  have m: "H + i - 32 * ?b = (H + i) mod 32" by (simp add: minus_mult_div_eq_mod)
  have "32 * ?b \<le> H + i" "H + i < 32 * ?b + 32" by simp_all
  then have "elements blk ! (H + i - 32 * ?b) = Some (xs ! i)" using blk(2) [rule_format, of "H + i"] assms(2) by simp
  with blk(1) show ?thesis by (simp add: cell_def m)
qed

lemma destroy_implicit_producer_inv:
  assumes "producer_inv p q F xs U"
  shows "\<exists>q' fs. destroy_implicit_producer p q = Some (xs, q') \<and> pool_inv q' fs F \<and> agree_on F q q'"
proof -
  from assms obtain V H N where N: "N = (H + length xs + 31) div 32" and pb: "producer_blocks p q F V H N"
    and mem: "stream_mem q V H N xs" and t: "tailIndex p = of_nat (H + length xs)" "H div 32 < N \<longrightarrow> tailBlock p = V (N - 1)"
    unfolding producer_inv_def by blast
  let ?T = "H + length xs"
  have ph: "headIndex p = of_nat H" "32 * N < H + 2 ^ 63" using pb by (simp_all add: producer_blocks_def producer_head_def)
  have TN: "?T \<le> 32 * N" unfolding N by (rule ceil_block)
  then have L: "length xs < 2 ^ 63" using ph(2) by linarith
  have look: "\<exists>e k. get_block_index_entry_for_index (of_nat (H + i)) p = Some e \<and> nth_opt (bi_entries p) e = Some (k, V ((H + i) div 32))"
    if "i < length xs" for i
  proof -
    have "H div 32 \<le> (H + i) div 32" "(H + i) div 32 < N" using that TN by (simp_all add: div_le_mono)
    from block_lookup [OF pb this block_base_of_nat] show ?thesis by blast
  qed
  have "H + length xs \<le> 32 * N" "\<forall>i < length xs. cell q V (H + i) = Some (xs ! i)" using TN stream_mem_cell [OF mem _ TN] by blast+
  with look pb have d: "draining p q F V (H div 32) N H xs"
    unfolding draining_def producer_blocks_def pool_part_def by blast
  from destroy_elements_draining [OF d _ disjI1 [OF conjI [OF refl refl]]] L obtain q1 where
    q1: "destroy_elements (of_nat H) (of_nat ?T) nullptr (p, q) = Some (xs, q1)" "agree_on F q q1"
      "draining p q1 F V (if xs = [] then H div 32 else (?T - 1) div 32) N ?T []" by auto
  have nonempty: "(of_nat H :: u64) \<noteq> of_nat ?T \<longleftrightarrow> xs \<noteq> []" using of_nat_add_neq [of "length xs" H] L by auto
  have ok: "of_nat H = (of_nat ?T :: u64) \<or> circular_less_than (of_nat H) (of_nat ?T :: u64)"
    using circular_less_than_of_nat [of H ?T] L by (cases "xs = []") auto
  show ?thesis
  proof (cases "xs = [] \<and> ?T mod 32 = 0")
    case True
    then have "N = H div 32" unfolding N by (auto elim!: dvdE)
    then obtain fs where "pool_inv q1 fs F" using q1(3) True by (auto simp: draining_def)
    moreover have "destroy_implicit_producer p q = Some (xs, q1)"
      using q1(1) ok True index_aligned [of ?T] unfolding destroy_implicit_producer_def t(1) ph(1) by auto
    ultimately show ?thesis using q1(2) by blast
  next
    case False
    have "N = Suc (if xs = [] then H div 32 else (?T - 1) div 32)"
    proof (cases "xs = []")
      case True
      then have "H mod 32 \<noteq> 0" using False by simp
      moreover obtain a r where H: "H = 32 * a + r" "r < 32" "H div 32 = a" "H mod 32 = r"
        by (metis mod_less_divisor mult_div_mod_eq zero_less_numeral)
      ultimately have "(H + 31) div 32 = Suc a" by (intro div_nat_eqI) simp_all
      with True H(3) show ?thesis unfolding N by simp
    next
      case False
      then show ?thesis unfolding N by (cases xs) simp_all
    qed
    moreover from this have "tailBlock p = V (N - 1)" using t(2) div_le_mono [of H "?T - 1" 32] by (cases xs) auto
    ultimately have l: "draining p q1 F V (N - 1) N ?T []" "tailBlock p = V (N - 1)" "N - 1 < N" using q1(3) by auto
    have "{N - 1..<N} = {N - 1}" using l(3) by auto
    with l(1) obtain fs where pool: "pool_inv q1 fs (insert (V (N - 1)) F)" "V (N - 1) \<notin> F"
      unfolding draining_def by auto
    then obtain q2 fs' where q2: "add_block_to_free_list (V (N - 1)) q1 = Some q2" "agree_on F q1 q2" "pool_inv q2 fs' F"
      using add_block_to_free_list_inv by blast
    have "destroy_implicit_producer p q = Some (xs, q2)"
      using q1(1) ok False q2(1) nonempty draining_block [OF l(1) order_refl l(3)] index_aligned [of ?T]
      unfolding destroy_implicit_producer_def t(1) ph(1) l(2) by auto
    then show ?thesis using q2(2,3) q1(2) by (auto simp: agree_on_def)
  qed
qed

section \<open>What it leaves alone\<close>

lemma destroy_elements_rest [keeps_rest]:
  assumes "destroy_elements i t b (p, q) = Some (xs, q')"
  shows "rest_of q' = rest_of q"
proof -
  have "rest_of (snd r) = rest_of (snd s)" if "destroy_elements i t b s = Some r" for r s
  proof (rule destroy_elements.raw_induct [of "\<lambda>i t b s r. rest_of (snd r) = rest_of (snd s)", OF _ that], goal_cases)
    case (1 f i t b s r)
    note IH = 1(1)
    from 1(2) show ?case
      by (cases s) (auto simp: bind_eq_Some_conv simp del: Product_Type.split_paired_Ex dest!: IH keeps_rest split: if_splits)
  qed
  from this [OF assms] show ?thesis by simp
qed

lemma destroy_implicit_producer_rest [keeps_rest]:
  "destroy_implicit_producer p q = Some (xs, q') \<Longrightarrow> rest_of q' = rest_of q"
  by (auto simp: destroy_implicit_producer_def Let_def bind_eq_Some_conv dest!: keeps_rest split: if_splits)

end
