(* ===== verification/Queue_Lifetime.thy ===== *)
theory Queue_Lifetime
  imports Queue_Histories Producer_Destroy
begin

text \<open>
  Operations on a whole queue that no thread uses (\<open>concurrentqueue.h\<close>): the end of a queue, \<open>~ConcurrentQueue\<close>, in which its
  producers are destroyed, newest first, with the elements they still hold, then the tables of threads, the blocks on
  the free list and the initial pool; moving a queue and swapping two.
\<close>

section \<open>The destructor\<close>

fun destroy_producers :: "nat list \<Rightarrow> 'e ConcurrentQueue \<Rightarrow> ('e list \<times> 'e ConcurrentQueue) option" where
  "destroy_producers [] q = Some ([], q)"
| "destroy_producers (i # is) q =
     do {
       p \<leftarrow> nth_opt (producers q) i;
       (xs, q1) \<leftarrow> destroy_implicit_producer p q;
       (ys, q2) \<leftarrow> destroy_producers is q1;
       Some (xs @ ys, q2)
     }"

text \<open>The tables that were allocated; the oldest one is part of the queue object.\<close>

fun destroy_hashes :: "ImplicitProducerHash list \<Rightarrow> ImplicitProducerHash list" where
  "destroy_hashes [] = []"
| "destroy_hashes [hash] = [hash]"
| "destroy_hashes (hash # prev # hashes) = destroy_hashes (prev # hashes)"

partial_function (option) destroy_free_blocks ::
  "ptr \<Rightarrow> ('e, 'z) block_pool_scheme \<Rightarrow> ('e, 'z) block_pool_scheme option" where
  "destroy_free_blocks block q =
     (if block = nullptr then Some q
      else do {
        b \<leftarrow> blocks q block;
        q1 \<leftarrow> (if dynamicallyAllocated b then destroy_block block q else Some q);
        destroy_free_blocks (freeListNext b) q1
      })"

declare destroy_free_blocks.simps [code]

definition destroy_array :: "ptr \<Rightarrow> u64 \<Rightarrow> ('e, 'z) block_pool_scheme \<Rightarrow> ('e, 'z) block_pool_scheme option" where
  "destroy_array p cnt q =
     (if p = nullptr then Some q
      else if cnt = 0 \<or> \<not> list_all (\<lambda>i. blocks q (p + i) \<noteq> None) [0..<unat cnt] then None
      else Some (q\<lparr>blocks := (\<lambda>a. if p \<le> a \<and> a < p + unat cnt then None else blocks q a)\<rparr>))"

text \<open>The elements that are destroyed, in the order in which they are, and what is left.\<close>

definition destroy_queue :: "'e ConcurrentQueue \<Rightarrow> ('e list \<times> 'e ConcurrentQueue) option" where
  "destroy_queue q =
     do {
       (xs, q1) \<leftarrow> destroy_producers (producer_order q) q;
       let q2 = q1\<lparr>producers := [], implicitProducerHash := destroy_hashes (implicitProducerHash q1)\<rparr>;
       q3 \<leftarrow> destroy_free_blocks (freeListHead q2) q2;
       q4 \<leftarrow> destroy_array (initialBlockPool q3) (initialBlockPoolSize q3) q3;
       Some (xs, q4)
     }"

section \<open>Moving and swapping\<close>

text \<open>
  The last table of threads is part of a queue object: the code copies its entries and redirects the links to it, which
  leaves each queue with the list of tables that the other had. The parent of the producers, which \<open>reown_producers\<close>
  sets, is the queue that an operation is called on.
\<close>

definition swap_implicit_producer_hashes :: "'e ConcurrentQueue \<Rightarrow> 'e ConcurrentQueue \<Rightarrow> 'e ConcurrentQueue \<times> 'e ConcurrentQueue" where
  "swap_implicit_producer_hashes this other =
     (this\<lparr>implicitProducerHash := implicitProducerHash other, implicitProducerHashCount := implicitProducerHashCount other\<rparr>,
      other\<lparr>implicitProducerHash := implicitProducerHash this, implicitProducerHashCount := implicitProducerHashCount this\<rparr>)"

text \<open>Two different queues.\<close>

definition take_over :: "'e ConcurrentQueue \<Rightarrow> 'e ConcurrentQueue \<Rightarrow> 'e ConcurrentQueue" where
  "take_over this other =
     this\<lparr>blocks := blocks other, initialBlockPool := initialBlockPool other, initialBlockPoolSize := initialBlockPoolSize other,
       initialBlockPoolIndex := initialBlockPoolIndex other, freeListHead := freeListHead other, producers := producers other,
       producerCount := producerCount other, nextExplicitConsumerId := nextExplicitConsumerId other,
       globalExplicitConsumerOffset := globalExplicitConsumerOffset other\<rparr>"

definition swap_internal :: "'e ConcurrentQueue \<Rightarrow> 'e ConcurrentQueue \<Rightarrow> 'e ConcurrentQueue \<times> 'e ConcurrentQueue" where
  "swap_internal this other = swap_implicit_producer_hashes (take_over this other) (take_over other this)"

text \<open>The queue made from another one, and what is left of that one.\<close>

definition move_queue :: "'e ConcurrentQueue \<Rightarrow> 'e ConcurrentQueue \<times> 'e ConcurrentQueue" where
  "move_queue other =
     (let this = populate_initial_implicit_producer_hash (other\<lparr>implicitProducerHashResizeInProgress := False\<rparr>);
          (this1, other1) = swap_implicit_producer_hashes this other
      in (this1, other1\<lparr>blocks := Map.empty, producers := [], producerCount := 0, nextExplicitConsumerId := 0,
        globalExplicitConsumerOffset := 0, initialBlockPoolIndex := 0, initialBlockPoolSize := 0, initialBlockPool := nullptr,
        freeListHead := nullptr\<rparr>))"

section \<open>The producers\<close>

lemma producers_inv_remove:
  assumes inv: "producers_inv (ps @ [p]) q (xss @ [xs]) (Us @ [U])" "length xss = length ps" "length Us = length ps"
  shows "\<exists>q'. destroy_implicit_producer p q = Some (xs, q') \<and> producers_inv ps q' xss Us"
proof -
  have ot: "others (length ps) (Us @ [U]) = \<Union> (set Us)"
  proof -
    have "{(Us @ [U]) ! j |j. j < length (Us @ [U]) \<and> j \<noteq> length ps} = {(Us @ [U]) ! j |j. j < length ps}" using assms(3) by auto
    also have "\<dots> = {Us ! j |j. j < length Us}" using assms(3) by (auto simp: nth_append)
    finally show ?thesis unfolding others_def set_conv_nth by simp
  qed
  have at: "producer_inv ((ps @ [p]) ! i) q (others i (Us @ [U])) ((xss @ [xs]) ! i) ((Us @ [U]) ! i)" if "i \<le> length ps" for i
    using inv(1) that by (simp add: producers_inv_def)
  from at [of "length ps"] have "producer_inv p q (\<Union> (set Us)) xs U" using assms(2,3) by (simp add: ot nth_append)
  from destroy_implicit_producer_inv [OF this] obtain q' fs where
    q': "destroy_implicit_producer p q = Some (xs, q')" "pool_inv q' fs (\<Union> (set Us))" "agree_on (\<Union> (set Us)) q q'" by blast
  have "producer_inv (ps ! j) q' (others j Us) (xss ! j) (Us ! j)" if j: "j < length ps" for j
  proof (rule producer_inv_frame)
    show p: "producer_inv (ps ! j) q (others j (Us @ [U])) (xss ! j) (Us ! j)"
      using at [of j] j assms(2,3) by (simp add: nth_append)
    have "others j Us \<subseteq> others j (Us @ [U])" unfolding others_def by (fastforce simp: nth_append)
    with producer_inv_pool(2) [OF p] show "Us ! j \<inter> others j Us = {}" by blast
    show "agree_on (Us ! j) q q'" using q'(3) others_Un [of j Us] j assms(3) by (auto simp: agree_on_def)
    show "pool_inv q' fs (Us ! j \<union> others j Us)" using q'(2) others_Un [of j Us] j assms(3) by simp
  qed
  then have "producers_inv ps q' xss Us" using q'(2) assms(2,3) by (auto simp: producers_inv_def)
  with q'(1) show ?thesis by blast
qed

lemma destroy_producers_inv:
  assumes "producers_inv (take m (producers q)) q (take m xss) (take m Us)" "m \<le> length (producers q)" "length xss = length (producers q)"
    "length Us = length (producers q)"
  shows "\<exists>q' fs. destroy_producers (rev [0..<m]) q = Some (concat (rev (take m xss)), q') \<and> pool_inv q' fs {} \<and> rest_of q' = rest_of q"
  using assms
proof (induction m arbitrary: q)
  case 0
  then show ?case by (auto simp: producers_inv_def)
next
  case (Suc m)
  have m: "m < length (producers q)" "m < length xss" "m < length Us" using Suc.prems by simp_all
  have "producers_inv (take m (producers q) @ [producers q ! m]) q (take m xss @ [xss ! m]) (take m Us @ [Us ! m])"
    using Suc.prems(1) m by (simp add: take_Suc_conv_app_nth)
  from producers_inv_remove [OF this] m obtain q1 where q1: "destroy_implicit_producer (producers q ! m) q = Some (xss ! m, q1)"
    "producers_inv (take m (producers q)) q1 (take m xss) (take m Us)" by auto
  have rest: "rest_of q1 = rest_of q" by (rule destroy_implicit_producer_rest [OF q1(1)])
  then have ps: "producers q1 = producers q" by (rule rest_fields)
  from Suc.IH [of q1] q1(2) Suc.prems ps obtain q' fs where
    q': "destroy_producers (rev [0..<m]) q1 = Some (concat (rev (take m xss)), q')" "pool_inv q' fs {}" "rest_of q' = rest_of q1" by auto
  have "rev (take (Suc m) xss) = xss ! m # rev (take m xss)" using m(2) by (simp add: take_Suc_conv_app_nth)
  then have "destroy_producers (rev [0..<Suc m]) q = Some (concat (rev (take (Suc m) xss)), q')"
    using q1(1) q'(1) m(1) by (simp add: nth_opt_def)
  with q'(2,3) rest show ?case by auto
qed

section \<open>The memory\<close>

text \<open>Blocks on the free list come from the initial pool, so none of them is given back on its own.\<close>

lemma destroy_free_blocks_none:
  assumes "free_list (blocks q) p fs"
  shows "destroy_free_blocks p q = Some q"
  using assms
proof (induction fs arbitrary: p)
  case Nil
  then show ?case by (simp add: destroy_free_blocks.simps)
next
  case (Cons f fs)
  then obtain b where "p = f" "f \<noteq> nullptr" "blocks q f = Some b" "\<not> dynamicallyAllocated b" "free_list (blocks q) (freeListNext b) fs"
    by auto
  with Cons.IH show ?case by (subst destroy_free_blocks.simps) simp
qed

text \<open>With no block in use, all live blocks are those of the initial pool.\<close>

lemma free_list_static: "free_list B p fs \<Longrightarrow> f \<in> set fs \<Longrightarrow> \<exists>b. B f = Some b \<and> \<not> dynamicallyAllocated b"
  by (induction fs arbitrary: p) auto

lemma pool_inv_unused:
  assumes "pool_inv q fs {}"
  shows "dom (blocks q) = initial_blocks q"
proof -
  have "set fs \<subseteq> initial_blocks q"
  proof
    fix f assume "f \<in> set fs"
    moreover have "free_list (blocks q) (freeListHead q) fs" using assms by (simp only: pool_inv_def)
    ultimately obtain b where b: "blocks q f = Some b" "\<not> dynamicallyAllocated b" using free_list_static by metis
    from assms b(1) have "block_ok q f b" by (simp add: pool_inv_def)
    with b(2) show "f \<in> initial_blocks q" by (simp add: block_ok_def)
  qed
  moreover have "dom (blocks q) = set fs \<union> pool_rest q" "initial_blocks q \<subseteq> dom (blocks q)"
    using assms unfolding pool_inv_def by blast+
  ultimately show ?thesis using pool_rest_sub [of q] by blast
qed

lemma destroy_array_pool:
  assumes "pool_inv q fs {}"
  shows "destroy_array (initialBlockPool q) (initialBlockPoolSize q) q = Some (q\<lparr>blocks := Map.empty\<rparr>)"
proof (cases "initialBlockPool q = nullptr")
  case True
  have "initial_blocks q = {}"
  proof (rule ccontr)
    assume "initial_blocks q \<noteq> {}"
    then have "nullptr \<in> initial_blocks q" using True by (simp add: initial_blocks_def)
    then have "nullptr \<in> dom (blocks q)" using pool_inv_unused [OF assms] by blast
    moreover have "blocks q nullptr = None" using assms by (simp add: pool_inv_def)
    ultimately show False by blast
  qed
  then have "blocks q = Map.empty" using pool_inv_unused [OF assms] by simp
  then have "q\<lparr>blocks := Map.empty\<rparr> = q" by (cases q) simp
  with True show ?thesis by (simp add: destroy_array_def)
next
  case False
  let ?p = "initialBlockPool q" and ?n = "initialBlockPoolSize q"
  have d: "blocks q a \<noteq> None \<longleftrightarrow> ?p \<le> a \<and> a < ?p + unat ?n" for a
    using pool_inv_unused [OF assms] by (auto simp: initial_blocks_def domIff set_eq_iff)
  have "(if ?p \<le> a \<and> a < ?p + unat ?n then None else blocks q a) = None" for a using d [of a] by argo
  then have "(\<lambda>a. if ?p \<le> a \<and> a < ?p + unat ?n then None else blocks q a) = Map.empty" by blast
  moreover have "?n \<noteq> 0" using False assms by (auto simp: pool_inv_def)
  moreover have "list_all (\<lambda>i. blocks q (?p + i) \<noteq> None) [0..<unat ?n]" unfolding d by (simp add: list_all_iff)
  ultimately show ?thesis using False by (simp add: destroy_array_def)
qed

lemma destroy_queue_inv:
  assumes "queue_inv q"
  shows "\<exists>q'. destroy_queue q = Some (concat (rev (streams q)), q') \<and> blocks q' = Map.empty \<and> producers q' = [] \<and>
    implicitProducerHash q' = destroy_hashes (implicitProducerHash q)"
proof -
  from assms obtain Us where us: "producers_inv (producers q) q (streams q) Us" by (auto simp: queue_inv_def streams_inv_def)
  then have len: "length Us = length (producers q)" by (simp add: producers_inv_def)
  from destroy_producers_inv [of "length (producers q)" q "streams q" Us] us len obtain q1 fs where
    q1: "destroy_producers (producer_order q) q = Some (concat (rev (streams q)), q1)" "pool_inv q1 fs {}" "rest_of q1 = rest_of q"
    by (auto simp: producer_order_def)
  let ?q2 = "q1\<lparr>producers := [], implicitProducerHash := destroy_hashes (implicitProducerHash q1)\<rparr>"
  have "pool_inv ?q2 fs {}" using q1(2) by simp
  moreover from this have "free_list (blocks ?q2) (freeListHead ?q2) fs" by (simp only: pool_inv_def)
  ultimately have "destroy_queue q = Some (concat (rev (streams q)), ?q2\<lparr>blocks := Map.empty\<rparr>)"
    unfolding destroy_queue_def by (simp only: q1(1) Option.bind.simps prod.case Let_def destroy_free_blocks_none destroy_array_pool)
  then show ?thesis using rest_fields(2) [OF q1(3)] by auto
qed

section \<open>What moving keeps\<close>

lemma queue_cong:
  assumes "blocks q' = blocks q" "initialBlockPool q' = initialBlockPool q" "initialBlockPoolSize q' = initialBlockPoolSize q"
    "initialBlockPoolIndex q' = initialBlockPoolIndex q" "freeListHead q' = freeListHead q" "producers q' = producers q"
    "implicitProducerHash q' = implicitProducerHash q" "implicitProducerHashCount q' = implicitProducerHashCount q"
    "implicitProducerHashResizeInProgress q' = implicitProducerHashResizeInProgress q"
  shows "queue_inv q' \<longleftrightarrow> queue_inv q" "spec_of q' = spec_of q"
proof -
  have eq: "streams q' = streams q" "owner q' = owner q"
    by (simp_all add: streams_def producer_elements_def element_at_def owner_def fun_eq_iff assms)
  then show "spec_of q' = spec_of q" by (simp only: spec_of_def)
  show "queue_inv q' \<longleftrightarrow> queue_inv q"
    by (simp_all add: queue_inv_def threads_inv_def streams_inv_def producers_inv_def producer_inv_def producer_blocks_def pool_part_def
        stream_mem_def pool_inv_def pool_rest_def initial_blocks_def block_ok_def assms eq)
qed

lemma not_resizing: "queue_inv q \<Longrightarrow> \<not> implicitProducerHashResizeInProgress q"
  by (simp add: queue_inv_def threads_inv_def)

lemma swap_internal_inv:
  assumes "queue_inv a" "queue_inv b" "swap_internal a b = (a', b')"
  shows "queue_inv a' \<and> queue_inv b' \<and> spec_of a' = spec_of b \<and> spec_of b' = spec_of a"
  using assms(3) not_resizing [OF assms(1)] not_resizing [OF assms(2)] queue_cong [of a' b] queue_cong [of b' a] assms(1,2)
  by (auto simp: swap_internal_def swap_implicit_producer_hashes_def take_over_def)

lemma move_queue_inv:
  fixes q :: "'e ConcurrentQueue"
  assumes "queue_inv q" "move_queue q = (q', left)"
  shows "queue_inv q' \<and> spec_of q' = spec_of q \<and> implicitProducerHashCount q' = implicitProducerHashCount q \<and>
    queue_inv left \<and> spec_of left = ([], \<lambda>_. None) \<and> implicitProducerHashCount left = 0 \<and> blocks left = Map.empty"
proof -
  let ?new = "new_queue (\<lambda>_. 0) 0 :: 'e ConcurrentQueue"
  have new: "?new = populate_initial_implicit_producer_hash bare_queue"
    by (simp add: new_queue_def populate_initial_block_list_def BLOCK_SIZE_def bare_queue_def populate_initial_implicit_producer_hash_def)
  have "queue_inv left \<longleftrightarrow> queue_inv ?new" "spec_of left = spec_of ?new"
    using assms(2) not_resizing [OF assms(1)] unfolding new
    by (intro queue_cong; auto simp: move_queue_def swap_implicit_producer_hashes_def populate_initial_implicit_producer_hash_def
        bare_queue_def Let_def)+
  moreover have "queue_inv q' \<longleftrightarrow> queue_inv q" "spec_of q' = spec_of q"
    using assms(2) not_resizing [OF assms(1)]
    by (intro queue_cong; auto simp: move_queue_def swap_implicit_producer_hashes_def populate_initial_implicit_producer_hash_def Let_def)+
  ultimately show ?thesis
    using assms new_queue_inv [of "\<lambda>_. 0" 0, where 'e = 'e]
    by (auto simp: move_queue_def swap_implicit_producer_hashes_def populate_initial_implicit_producer_hash_def Let_def)
qed

text \<open>The other constructor makes an empty queue as well, but when it is asked for no capacity and no producers, it asks
  for the largest number of blocks there is: the number of blocks wraps around.\<close>

lemma new_queue_for_inv:
  "queue_inv (new_queue_for mem c e i :: 'e ConcurrentQueue)" "spec_of (new_queue_for mem c e i :: 'e ConcurrentQueue) = ([], \<lambda>_. None)"
proof -
  let ?n = "((c + of_nat BLOCK_SIZE - 1) div of_nat BLOCK_SIZE - 1) * (e + 1) + 2 * (e + i)"
  let ?q = "new_queue_for mem c e i :: 'e ConcurrentQueue"
  have eq: "?q = populate_initial_block_list mem ?n (populate_initial_implicit_producer_hash bare_queue)"
    by (simp only: new_queue_for_def Let_def)
  then have "pool_inv ?q [] {}"
    by (simp only:) (rule populate_initial_block_list_inv; simp add: populate_initial_implicit_producer_hash_def bare_queue_def)
  moreover have f: "producers ?q = []" "implicitProducerHash ?q = [empty_hash 32]" "implicitProducerHashCount ?q = 0"
    "\<not> implicitProducerHashResizeInProgress ?q"
    unfolding eq by (auto simp: populate_initial_block_list_def create_array_def malloc_blocks_def Let_def
      populate_initial_implicit_producer_hash_def bare_queue_def INITIAL_IMPLICIT_PRODUCER_HASH_SIZE_def split: prod.splits if_splits)
  ultimately have "producers_inv (producers ?q) ?q [] []" by (auto simp: producers_inv_def)
  note streams = streams_invI [OF this]
  let ?new = "new_queue (\<lambda>_. 0) 0 :: 'e ConcurrentQueue"
  have g: "producers ?new = []" "implicitProducerHash ?new = [empty_hash 32]" "implicitProducerHashCount ?new = 0"
    "\<not> implicitProducerHashResizeInProgress ?new"
    by (simp_all add: new_queue_def populate_initial_block_list_def BLOCK_SIZE_def bare_queue_def populate_initial_implicit_producer_hash_def
      INITIAL_IMPLICIT_PRODUCER_HASH_SIZE_def)
  have own: "owner ?q = owner ?new" by (simp add: owner_def f g fun_eq_iff)
  then have "threads_inv ?q \<longleftrightarrow> threads_inv ?new" by (simp add: threads_inv_def f g)
  with streams(2) new_queue_inv(1) [of "\<lambda>_. 0" 0, where 'e = 'e] show "queue_inv ?q" by (simp add: queue_inv_def)
  have "spec_of ?q = spec_of ?new" using streams(1) own by (simp only: spec_of_def new_queue_streams(2))
  then show "spec_of ?q = ([], \<lambda>_. None)" by (simp only: new_queue_inv(2))
qed

lemma new_queue_for_nothing: "new_queue_for mem 0 0 0 =
    populate_initial_block_list mem (- 1) (populate_initial_implicit_producer_hash bare_queue)"
  by (simp add: new_queue_for_def BLOCK_SIZE_def)

section \<open>Properties\<close>

text \<open>
  C9. Nothing leaks: destroying a queue after any history destroys each element that was stored and not taken, once,
  those of one producer oldest first, and gives back every block; it reads no element that is not there and frees
  nothing twice.
\<close>

theorem destroyed_queue_frees_all:
  assumes "list_all op_ok ops" "length ops \<le> 2 ^ 59" "run_ops mem ops (new_queue mem capacity) = Some (rs, q)"
  shows "\<exists>xs q'. destroy_queue q = Some (xs, q') \<and> xs = concat (rev (streams q)) \<and> blocks q' = Map.empty \<and> producers q' = [] \<and>
    mset (stored_elements ops rs) = mset (taken_elements rs @ xs)"
proof -
  from destroy_queue_inv [OF history(1) [OF assms]] obtain q' where
    "destroy_queue q = Some (concat (rev (streams q)), q')" "blocks q' = Map.empty" "producers q' = []" by blast
  moreover have "mset (stored_elements ops rs) = mset (taken_elements rs @ concat (rev (streams q)))"
    using queue_steps_mset [OF history(2) [OF assms]] by (simp add: mset_concat_rev)
  ultimately show ?thesis by blast
qed

theorem destroyed_queue_frees_all_witness:
  "\<exists>rs q xs q'. run_ops (\<lambda>k. 4096 * (k + 1)) example_ops (new_queue (\<lambda>k. 4096 * (k + 1)) 0) = Some (rs, q) \<and>
    destroy_queue q = Some (xs, q') \<and> blocks q' = Map.empty \<and> mset (stored_elements example_ops rs) = mset (taken_elements rs @ xs)"
  using example_history destroyed_queue_frees_all [OF example_ops_ok(1,2)] by blast

text \<open>
  Moving a queue moves everything: the new queue has the streams and the threads of the old one, which is left empty,
  owns no block and can be used like a new queue. Swapping two queues exchanges them.
\<close>

theorem moved_queue_keeps_all:
  assumes "list_all op_ok ops" "length ops \<le> 2 ^ 59" "run_ops mem ops (new_queue mem capacity) = Some (rs, q)"
    "list_all op_ok ops'" "length ops + length ops' \<le> 2 ^ 59" "move_queue q = (q', left)"
  shows "spec_of q' = spec_of q \<and> blocks left = Map.empty \<and>
    (\<exists>rs' q''. run_ops mem ops' left = Some (rs', q'') \<and> queue_steps ([], \<lambda>_. None) ops' rs' (spec_of q'')) \<and>
    (\<exists>a b. swap_internal q left = (a, b) \<and> spec_of a = ([], \<lambda>_. None) \<and> spec_of b = spec_of q)"
proof -
  have q: "queue_inv q" by (rule history(1) [OF assms(1-3)])
  note m = move_queue_inv [OF q assms(6)]
  from run_ops_steps [of left ops' mem] m assms(4,5) have
    "\<exists>rs' q''. run_ops mem ops' left = Some (rs', q'') \<and> queue_steps ([], \<lambda>_. None) ops' rs' (spec_of q'')" by auto
  moreover obtain a b where s: "swap_internal q left = (a, b)" by fastforce
  with swap_internal_inv [OF q _ s] m have "\<exists>a b. swap_internal q left = (a, b) \<and> spec_of a = ([], \<lambda>_. None) \<and> spec_of b = spec_of q" by auto
  ultimately show ?thesis using m by blast
qed

theorem moved_queue_keeps_all_witness:
  "\<exists>rs q q' left. run_ops (\<lambda>k. 4096 * (k + 1)) example_ops (new_queue (\<lambda>k. 4096 * (k + 1)) 0) = Some (rs, q) \<and>
    move_queue q = (q', left) \<and> spec_of q' = spec_of q \<and> blocks left = Map.empty"
proof -
  from example_history obtain rs q where
    h: "run_ops (\<lambda>k. 4096 * (k + 1)) example_ops (new_queue (\<lambda>k. 4096 * (k + 1)) 0) = Some (rs, q)" by blast
  obtain q' left where m: "move_queue q = (q', left)" by fastforce
  have "length example_ops + length example_ops \<le> 2 ^ 59" by (simp add: example_ops_def)
  from moved_queue_keeps_all [OF example_ops_ok(1,2) h example_ops_ok(1) this m] h m show ?thesis by blast
qed

end
