(* ===== verification/Explicit_Producer.thy ===== *)
theory Explicit_Producer
  imports Producer_Destroy
begin

text \<open>
  The producer of a token (\<open>concurrentqueue.h\<close>: \<open>ExplicitProducer\<close>): its blocks form a ring linked by \<open>next\<close>, in
  which the block after the tail is used again once it is empty; a circular index finds the block of a position
  from the distance to the block that was started last. Only consumers set the flags of a block, and only the producer
  clears them.

  As for the implicit producer, the list of headers is the current one followed by those it replaced, an entry that
  was never written is \<open>None\<close>, and only the branches for moves that do not throw are modelled.
\<close>

section \<open>Data\<close>

definition EXPLICIT_INITIAL_INDEX_SIZE :: u64 where
  "EXPLICIT_INITIAL_INDEX_SIZE = 32"

record ExplicitIndexHeader =
  eh_size :: u64
  eh_front :: u64
  eh_entries :: "(u64 \<times> ptr) option list"

record ExplicitProducer =
  ep_inactive :: bool
  ep_tailIndex :: u64
  ep_headIndex :: u64
  ep_dequeueOptimisticCount :: u64
  ep_dequeueOvercommit :: u64
  ep_tailBlock :: ptr
  ep_blockIndex :: "ExplicitIndexHeader list"
  pr_blockIndexSlotsUsed :: u64
  pr_blockIndexSize :: u64
  pr_blockIndexFront :: u64

section \<open>The block index\<close>

text \<open>The entries of the old index from a place on, up to the front.\<close>

partial_function (option) copy_slots :: "'a list \<Rightarrow> u64 \<Rightarrow> u64 \<Rightarrow> u64 \<Rightarrow> 'a list option" where
  "copy_slots entries sizeMask front i =
     do {
       e \<leftarrow> nth_opt entries (unat i);
       let j = (i + 1) AND sizeMask;
       if j = front then Some [e]
       else do { es \<leftarrow> copy_slots entries sizeMask front j; Some (e # es) }
     }"

declare copy_slots.simps [code]

definition pr_blockIndexEntries :: "ExplicitProducer \<Rightarrow> (u64 \<times> ptr) option list" where
  "pr_blockIndexEntries p = (case ep_blockIndex p of [] \<Rightarrow> [] | h # _ \<Rightarrow> eh_entries h)"

definition explicit_new_block_index ::
  "(nat \<Rightarrow> ptr) \<Rightarrow> u64 \<Rightarrow> ExplicitProducer \<times> ('e, 'z) block_pool_scheme \<Rightarrow>
     (bool \<times> ExplicitProducer \<times> ('e, 'z) block_pool_scheme) option" where
  "explicit_new_block_index mem numberOfFilledSlotsToExpose s =
     (let (p, q) = s;
          prevBlockSizeMask = pr_blockIndexSize p - 1;
          size = push_bit 1 (pr_blockIndexSize p)
      in case malloc mem q of (ok, q1) \<Rightarrow>
           if \<not> ok then Some (False, p\<lparr>pr_blockIndexSize := drop_bit 1 size\<rparr>, q1)
           else do {
             es \<leftarrow> (if pr_blockIndexSlotsUsed p \<noteq> 0
                   then copy_slots (pr_blockIndexEntries p) prevBlockSizeMask (pr_blockIndexFront p)
                     ((pr_blockIndexFront p - pr_blockIndexSlotsUsed p) AND prevBlockSizeMask)
                   else Some []);
             if unat size < length es then None
             else Some (True,
               p\<lparr>ep_blockIndex := \<lparr>eh_size = size, eh_front = numberOfFilledSlotsToExpose - 1,
                     eh_entries = es @ replicate (unat size - length es) None\<rparr> # ep_blockIndex p,
                 pr_blockIndexSize := size, pr_blockIndexFront := of_nat (length es)\<rparr>, q1)
           })"

definition new_explicit_producer ::
  "(nat \<Rightarrow> ptr) \<Rightarrow> ('e, 'z) block_pool_scheme \<Rightarrow> (ExplicitProducer \<times> ('e, 'z) block_pool_scheme) option" where
  "new_explicit_producer mem q =
     (let size = drop_bit 1 EXPLICIT_INITIAL_INDEX_SIZE;
          poolBasedIndexSize = drop_bit 1 (ceil_to_pow_2 (initialBlockPoolSize q))
      in do {
        (_, p, q1) \<leftarrow> explicit_new_block_index mem 0
          (\<lparr>ep_inactive = False, ep_tailIndex = 0, ep_headIndex = 0, ep_dequeueOptimisticCount = 0,
            ep_dequeueOvercommit = 0, ep_tailBlock = nullptr, ep_blockIndex = [], pr_blockIndexSlotsUsed = 0,
            pr_blockIndexSize = (if poolBasedIndexSize > size then poolBasedIndexSize else size),
            pr_blockIndexFront = 0\<rparr>, q);
        Some (p, q1)
      })"

text \<open>Writing the entry of the tail block, at the front, and showing the index up to a place to the consumers.\<close>

definition put_entry :: "u64 \<Rightarrow> ExplicitProducer \<Rightarrow> ExplicitProducer option" where
  "put_entry base p =
     (case ep_blockIndex p of
        [] \<Rightarrow> None
      | h # hs \<Rightarrow>
          if unat (pr_blockIndexFront p) < length (eh_entries h)
          then Some (p\<lparr>ep_blockIndex :=
              h\<lparr>eh_entries := (eh_entries h)[unat (pr_blockIndexFront p) := Some (base, ep_tailBlock p)]\<rparr> # hs,
            pr_blockIndexFront := (pr_blockIndexFront p + 1) AND (pr_blockIndexSize p - 1)\<rparr>)
          else None)"

definition publish_front :: "u64 \<Rightarrow> ExplicitProducer \<Rightarrow> ExplicitProducer option" where
  "publish_front i p =
     (case ep_blockIndex p of [] \<Rightarrow> None | h # hs \<Rightarrow> Some (p\<lparr>ep_blockIndex := h\<lparr>eh_front := i\<rparr> # hs\<rparr>))"

text \<open>The place of an index's block, as a consumer finds it, and the block at a place.\<close>

definition explicit_place :: "u64 \<Rightarrow> ExplicitIndexHeader \<Rightarrow> u64 option" where
  "explicit_place i h =
     do {
       cell \<leftarrow> nth_opt (eh_entries h) (unat (eh_front h));
       (headBase, _) \<leftarrow> cell;
       let offset = word_of_int (sint (block_base i - headBase) sdiv int BLOCK_SIZE);
       Some ((eh_front h + offset) AND (eh_size h - 1))
     }"

definition block_at :: "u64 \<Rightarrow> ExplicitIndexHeader \<Rightarrow> ptr option" where
  "block_at i h = do { cell \<leftarrow> nth_opt (eh_entries h) (unat i); (_, block) \<leftarrow> cell; Some block }"

section \<open>One element\<close>

text \<open>The block after the tail, if it can be used again.\<close>

definition block_ahead :: "ptr \<Rightarrow> ('e, 'z) block_pool_scheme \<Rightarrow> ptr option option" where
  "block_ahead tail q =
     do {
       t \<leftarrow> blocks q tail;
       b \<leftarrow> blocks q (next_block t);
       e \<leftarrow> is_empty explicit_context b;
       Some (if e then Some (next_block t) else None)
     }"

text \<open>A new block goes into the ring after the tail.\<close>

definition link_block ::
  "ptr \<Rightarrow> ExplicitProducer \<times> ('e, 'z) block_pool_scheme \<Rightarrow> (ExplicitProducer \<times> ('e, 'z) block_pool_scheme) option" where
  "link_block newBlock s =
     (let (p, q) = s
      in do {
        q1 \<leftarrow> (if ep_tailBlock p = nullptr then update_block newBlock (\<lambda>b. b\<lparr>next_block := newBlock\<rparr>) q
              else do {
                t \<leftarrow> blocks q (ep_tailBlock p);
                q1 \<leftarrow> update_block newBlock (\<lambda>b. b\<lparr>next_block := next_block t\<rparr>) q;
                update_block (ep_tailBlock p) (\<lambda>b. b\<lparr>next_block := newBlock\<rparr>) q1
              });
        Some (p\<lparr>ep_tailBlock := newBlock, pr_blockIndexSlotsUsed := pr_blockIndexSlotsUsed p + 1\<rparr>, q1)
      })"

text \<open>The parts of \<open>enqueue\<close> that start a block: a new one, after making room in the index, or any.\<close>

definition insert_block ::
  "(nat \<Rightarrow> ptr) \<Rightarrow> AllocationMode \<Rightarrow> ExplicitProducer \<times> ('e, 'z) block_pool_scheme \<Rightarrow>
     (bool \<times> ExplicitProducer \<times> ('e, 'z) block_pool_scheme) option" where
  "insert_block mem allocMode s =
     (let (p, q) = s
      in do {
        (room, p1, q1) \<leftarrow>
          (if ep_blockIndex p = [] \<or> pr_blockIndexSlotsUsed p = pr_blockIndexSize p then
             (if allocMode = CannotAlloc then Some (False, p, q)
              else explicit_new_block_index mem (pr_blockIndexSlotsUsed p) (p, q))
           else Some (True, p, q));
        if \<not> room then Some (False, p1, q1)
        else do {
          (newBlock, q2) \<leftarrow> requisition_block mem allocMode q1;
          if newBlock = nullptr then Some (False, p1, q2)
          else do {
            q3 \<leftarrow> update_block newBlock (reset_empty explicit_context) q2;
            (p2, q4) \<leftarrow> link_block newBlock (p1, q3);
            Some (True, p2, q4)
          }
        }
      })"

definition start_block ::
  "(nat \<Rightarrow> ptr) \<Rightarrow> AllocationMode \<Rightarrow> ExplicitProducer \<times> ('e, 'z) block_pool_scheme \<Rightarrow>
     (bool \<times> ExplicitProducer \<times> ('e, 'z) block_pool_scheme) option" where
  "start_block mem allocMode s =
     (let (p, q) = s; currentTailIndex = ep_tailIndex p; head = ep_headIndex p
      in do {
        ahead \<leftarrow> (if ep_tailBlock p \<noteq> nullptr then block_ahead (ep_tailBlock p) q else Some None);
        (ok, p1, q1) \<leftarrow>
          (case ahead of
             Some b \<Rightarrow> do {
               q1 \<leftarrow> update_block b (reset_empty explicit_context) q;
               Some (True, p\<lparr>ep_tailBlock := b\<rparr>, q1)
             }
           | None \<Rightarrow>
               if circular_less_than currentTailIndex head then None
               else if sub_queue_full head currentTailIndex then Some (False, p, q)
               else insert_block mem allocMode (p, q));
        if \<not> ok then Some (False, p1, q1)
        else do {
          p2 \<leftarrow> put_entry currentTailIndex p1;
          p3 \<leftarrow> publish_front (pr_blockIndexFront p1) p2;
          Some (True, p3, q1)
        }
      })"

definition explicit_enqueue ::
  "(nat \<Rightarrow> ptr) \<Rightarrow> AllocationMode \<Rightarrow> 'e \<Rightarrow> ExplicitProducer \<times> ('e, 'z) block_pool_scheme \<Rightarrow>
     (bool \<times> ExplicitProducer \<times> ('e, 'z) block_pool_scheme) option" where
  "explicit_enqueue mem allocMode element s =
     (let (p, q) = s; currentTailIndex = ep_tailIndex p; newTailIndex = 1 + currentTailIndex
      in do {
        (ok, p1, q1) \<leftarrow>
          (if currentTailIndex AND of_nat (BLOCK_SIZE - 1) = 0 then start_block mem allocMode (p, q) else Some (True, p, q));
        if \<not> ok then Some (False, p1, q1)
        else do {
          q2 \<leftarrow> construct (ep_tailBlock p1) currentTailIndex element q1;
          Some (True, p1\<lparr>ep_tailIndex := newTailIndex\<rparr>, q2)
        }
      })"

definition explicit_dequeue ::
  "ExplicitProducer \<times> ('e, 'z) block_pool_scheme \<Rightarrow>
     ('e option \<times> ExplicitProducer \<times> ('e, 'z) block_pool_scheme) option" where
  "explicit_dequeue s =
     (let (p, q) = s; overcommit = ep_dequeueOvercommit p
      in if circular_less_than (ep_dequeueOptimisticCount p - overcommit) (ep_tailIndex p) then
           (let myDequeueCount = ep_dequeueOptimisticCount p;
                p1 = p\<lparr>ep_dequeueOptimisticCount := myDequeueCount + 1\<rparr>
            in if circular_less_than (myDequeueCount - overcommit) (ep_tailIndex p1) then
                 (let index = ep_headIndex p1; p2 = p1\<lparr>ep_headIndex := index + 1\<rparr>
                  in case ep_blockIndex p2 of
                       [] \<Rightarrow> None
                     | localBlockIndex # _ \<Rightarrow>
                         do {
                           i \<leftarrow> explicit_place index localBlockIndex;
                           block \<leftarrow> block_at i localBlockIndex;
                           (x, q1) \<leftarrow> take_element block index q;
                           b \<leftarrow> blocks q1 block;
                           (_, b1) \<leftarrow> set_empty explicit_context index b;
                           q2 \<leftarrow> update_block block (\<lambda>_. b1) q1;
                           Some (Some x, p2, q2)
                         })
               else Some (None, p1\<lparr>ep_dequeueOvercommit := overcommit + 1\<rparr>, q))
         else Some (None, p, q))"

section \<open>Many elements\<close>

text \<open>The first loop: blocks ahead of the tail that are empty. It ends with what is still to be allocated, the start
  of the last block and the first block of the operation.\<close>

partial_function (option) reuse_ahead ::
  "u64 \<Rightarrow> u64 \<Rightarrow> ptr \<Rightarrow> ExplicitProducer \<times> ('e, 'z) block_pool_scheme \<Rightarrow>
     (u64 \<times> u64 \<times> ptr \<times> ExplicitProducer) option" where
  "reuse_ahead blockBaseDiff currentTailIndex firstAllocatedBlock s =
     (if blockBaseDiff = 0 then Some (blockBaseDiff, currentTailIndex, firstAllocatedBlock, fst s)
      else do {
        around \<leftarrow> (if ep_tailBlock (fst s) = nullptr then Some True
                  else map_option (\<lambda>t. next_block t = firstAllocatedBlock) (blocks (snd s) (ep_tailBlock (fst s))));
        ahead \<leftarrow> (if around then Some None else block_ahead (ep_tailBlock (fst s)) (snd s));
        case ahead of
          None \<Rightarrow> Some (blockBaseDiff, currentTailIndex, firstAllocatedBlock, fst s)
        | Some b \<Rightarrow> do {
            p1 \<leftarrow> put_entry (currentTailIndex + of_nat BLOCK_SIZE) ((fst s)\<lparr>ep_tailBlock := b\<rparr>);
            reuse_ahead (blockBaseDiff - of_nat BLOCK_SIZE) (currentTailIndex + of_nat BLOCK_SIZE)
              (if firstAllocatedBlock = nullptr then b else firstAllocatedBlock) (p1, snd s)
          }
      })"

declare reuse_ahead.simps [code]

text \<open>Giving up, as the code does in three places: the blocks that were put into the ring stay there.\<close>

definition undo_bulk :: "u64 \<Rightarrow> u64 \<Rightarrow> ptr \<Rightarrow> ptr \<Rightarrow> ExplicitProducer \<Rightarrow> ExplicitProducer" where
  "undo_bulk originalBlockIndexFront originalBlockIndexSlotsUsed startBlock firstAllocatedBlock p =
     p\<lparr>pr_blockIndexFront := originalBlockIndexFront, pr_blockIndexSlotsUsed := originalBlockIndexSlotsUsed,
       ep_tailBlock := (if startBlock = nullptr then firstAllocatedBlock else startBlock)\<rparr>"

text \<open>The second loop: blocks from the pool. It ends with the first block, or (\<open>None\<close>) after giving up.\<close>

partial_function (option) allocate_ahead ::
  "(nat \<Rightarrow> ptr) \<Rightarrow> AllocationMode \<Rightarrow> u64 \<Rightarrow> u64 \<Rightarrow> ptr \<Rightarrow> u64 \<Rightarrow> u64 \<Rightarrow> ptr \<Rightarrow> ExplicitProducer \<times> ('e, 'z) block_pool_scheme \<Rightarrow>
     (ptr option \<times> ExplicitProducer \<times> ('e, 'z) block_pool_scheme) option" where
  "allocate_ahead mem allocMode originalFront originalSlots startBlock blockBaseDiff currentTailIndex firstAllocatedBlock s =
     (if blockBaseDiff = 0 then Some (Some firstAllocatedBlock, s)
      else
        (let (p, q) = s;
             cti = currentTailIndex + of_nat BLOCK_SIZE;
             head = ep_headIndex p;
             full = sub_queue_full head cti
         in if circular_less_than cti head then None
            else do {
              (room, front, p1, q1) \<leftarrow>
                (if ep_blockIndex p = [] \<or> pr_blockIndexSlotsUsed p = pr_blockIndexSize p \<or> full then
                   (if allocMode = CannotAlloc \<or> full then Some (False, originalFront, p, q)
                    else do {
                      (ok, p1, q1) \<leftarrow> explicit_new_block_index mem originalSlots (p, q);
                      Some (ok, if ok then originalSlots else originalFront, p1, q1)
                    })
                 else Some (True, originalFront, p, q));
              if \<not> room then Some (None, undo_bulk front originalSlots startBlock firstAllocatedBlock p1, q1)
              else do {
                (newBlock, q2) \<leftarrow> requisition_block mem allocMode q1;
                if newBlock = nullptr
                then Some (None, undo_bulk front originalSlots startBlock firstAllocatedBlock p1, q2)
                else do {
                  q3 \<leftarrow> update_block newBlock (set_all_empty explicit_context) q2;
                  (p2, q4) \<leftarrow> link_block newBlock (p1, q3);
                  p3 \<leftarrow> put_entry cti p2;
                  allocate_ahead mem allocMode front originalSlots startBlock (blockBaseDiff - of_nat BLOCK_SIZE) cti
                    (if firstAllocatedBlock = nullptr then newBlock else firstAllocatedBlock) (p3, q4)
                }
              }
            }))"

declare allocate_ahead.simps [code]

text \<open>The flags of the blocks from the first one to the tail are cleared.\<close>

partial_function (option) reset_blocks ::
  "ptr \<Rightarrow> ptr \<Rightarrow> ('e, 'z) block_pool_scheme \<Rightarrow> ('e, 'z) block_pool_scheme option" where
  "reset_blocks block lastBlock q =
     do {
       q1 \<leftarrow> update_block block (reset_empty explicit_context) q;
       if block = lastBlock then Some q1
       else do {
         b \<leftarrow> blocks q1 block;
         reset_blocks (next_block b) lastBlock q1
       }
     }"

declare reset_blocks.simps [code]

definition explicit_enqueue_bulk ::
  "(nat \<Rightarrow> ptr) \<Rightarrow> AllocationMode \<Rightarrow> 'e list \<Rightarrow> ExplicitProducer \<times> ('e, 'z) block_pool_scheme \<Rightarrow>
     (bool \<times> ExplicitProducer \<times> ('e, 'z) block_pool_scheme) option" where
  "explicit_enqueue_bulk mem allocMode items s =
     (let (p, q) = s;
          cnt = of_nat (length items);
          startTailIndex = ep_tailIndex p;
          startBlock = ep_tailBlock p;
          blockBaseDiff = block_base (startTailIndex + cnt - 1) - block_base (startTailIndex - 1)
      in do {
        (allocated, p3, q3) \<leftarrow>
          (if blockBaseDiff > 0 then do {
             (diff, currentTailIndex, first, p1) \<leftarrow> reuse_ahead blockBaseDiff (block_base (startTailIndex - 1)) nullptr (p, q);
             (allocated, p2, q2) \<leftarrow> allocate_ahead mem allocMode (pr_blockIndexFront p) (pr_blockIndexSlotsUsed p) startBlock
               diff currentTailIndex first (p1, q);
             case allocated of
               None \<Rightarrow> Some (None, p2, q2)
             | Some firstAllocatedBlock \<Rightarrow> do {
                 q3 \<leftarrow> reset_blocks firstAllocatedBlock (ep_tailBlock p2) q2;
                 p3 \<leftarrow> publish_front ((pr_blockIndexFront p2 - 1) AND (pr_blockIndexSize p2 - 1)) p2;
                 Some (Some firstAllocatedBlock, p3, q3)
               }
           }
           else Some (Some nullptr, p, q));
        case allocated of
          None \<Rightarrow> Some (False, p3, q3)
        | Some firstAllocatedBlock \<Rightarrow>
            (let newTailIndex = startTailIndex + cnt;
                 endBlock = ep_tailBlock p3;
                 aligned = (startTailIndex AND of_nat (BLOCK_SIZE - 1) = 0)
             in if aligned \<and> firstAllocatedBlock = nullptr \<and> cnt \<noteq> 0 then None
                else do {
                  (lastBlock, q4) \<leftarrow> fill_blocks endBlock
                    (if aligned \<and> firstAllocatedBlock \<noteq> nullptr then firstAllocatedBlock else startBlock)
                    startTailIndex newTailIndex items q3;
                  Some (True, p3\<lparr>ep_tailBlock := lastBlock, ep_tailIndex := newTailIndex\<rparr>, q4)
                })
      })"

text \<open>Dequeueing: the loop over the blocks, from the place \<open>indexIndex\<close> of the index on.\<close>

partial_function (option) explicit_dequeue_blocks ::
  "ExplicitIndexHeader \<Rightarrow> u64 \<Rightarrow> u64 \<Rightarrow> u64 \<Rightarrow> ('e, 'z) block_pool_scheme \<Rightarrow>
     ('e list \<times> ('e, 'z) block_pool_scheme) option" where
  "explicit_dequeue_blocks localBlockIndex lastIndex index indexIndex q =
     (let blockEnd = block_base index + of_nat BLOCK_SIZE;
          endIndex = (if circular_less_than lastIndex blockEnd then lastIndex else blockEnd)
      in do {
        block \<leftarrow> block_at indexIndex localBlockIndex;
        (xs, q1) \<leftarrow> take_elements block index endIndex q;
        b \<leftarrow> blocks q1 block;
        (_, b1) \<leftarrow> set_many_empty explicit_context index (endIndex - index) b;
        q2 \<leftarrow> update_block block (\<lambda>_. b1) q1;
        if endIndex = lastIndex then Some (xs, q2)
        else do {
          (ys, q3) \<leftarrow> explicit_dequeue_blocks localBlockIndex lastIndex endIndex
            ((indexIndex + 1) AND (eh_size localBlockIndex - 1)) q2;
          Some (xs @ ys, q3)
        }
      })"

declare explicit_dequeue_blocks.simps [code]

definition explicit_dequeue_bulk ::
  "u64 \<Rightarrow> ExplicitProducer \<times> ('e, 'z) block_pool_scheme \<Rightarrow>
     ((u64 \<times> 'e list) \<times> ExplicitProducer \<times> ('e, 'z) block_pool_scheme) option" where
  "explicit_dequeue_bulk maximum s =
     (let (p, q) = s;
          overcommit = ep_dequeueOvercommit p;
          available = ep_tailIndex p - (ep_dequeueOptimisticCount p - overcommit)
      in if circular_less_than 0 available then
           (let desiredCount = (if available < maximum then available else maximum);
                myDequeueCount = ep_dequeueOptimisticCount p;
                p1 = p\<lparr>ep_dequeueOptimisticCount := myDequeueCount + desiredCount\<rparr>;
                remaining = ep_tailIndex p1 - (myDequeueCount - overcommit)
            in if circular_less_than 0 remaining then
                 (let actualCount = (if desiredCount < remaining then desiredCount else remaining);
                      p2 = (if actualCount < desiredCount
                            then p1\<lparr>ep_dequeueOvercommit := overcommit + (desiredCount - actualCount)\<rparr> else p1);
                      firstIndex = ep_headIndex p2;
                      p3 = p2\<lparr>ep_headIndex := firstIndex + actualCount\<rparr>
                  in case ep_blockIndex p3 of
                       [] \<Rightarrow> None
                     | localBlockIndex # _ \<Rightarrow>
                         do {
                           indexIndex \<leftarrow> explicit_place firstIndex localBlockIndex;
                           (xs, q1) \<leftarrow> explicit_dequeue_blocks localBlockIndex (firstIndex + actualCount) firstIndex indexIndex q;
                           Some ((actualCount, xs), p3, q1)
                         })
               else Some ((0, []), p1\<lparr>ep_dequeueOvercommit := overcommit + desiredCount\<rparr>, q))
         else Some ((0, []), p, q))"

section \<open>The destructor\<close>

text \<open>The first entry, from a place on, whose block does not end before the head.\<close>

partial_function (option) find_half_dequeued :: "(u64 \<times> ptr) option list \<Rightarrow> u64 \<Rightarrow> u64 \<Rightarrow> u64 \<Rightarrow> (u64 \<times> ptr) option" where
  "find_half_dequeued entries sizeMask head i =
     do {
       cell \<leftarrow> nth_opt entries (unat i);
       (base, block) \<leftarrow> cell;
       if circular_less_than (base + of_nat BLOCK_SIZE) head
       then find_half_dequeued entries sizeMask head ((i + 1) AND sizeMask)
       else Some (base, block)
     }"

declare find_half_dequeued.simps [code]

text \<open>The elements of one block, from an offset on; in the tail block up to \<open>lastValidIndex\<close>. Destroyed elements are listed.\<close>

partial_function (option) destroy_cells ::
  "ptr \<Rightarrow> bool \<Rightarrow> u64 \<Rightarrow> u64 \<Rightarrow> ('e, 'z) block_pool_scheme \<Rightarrow> ('e list \<times> ('e, 'z) block_pool_scheme) option" where
  "destroy_cells block isTail lastValidIndex i q =
     (if i \<noteq> of_nat BLOCK_SIZE \<and> (\<not> isTail \<or> i \<noteq> lastValidIndex) then do {
        (x, q1) \<leftarrow> take_element block i q;
        (xs, q2) \<leftarrow> destroy_cells block isTail lastValidIndex (i + 1) q1;
        Some (x # xs, q2)
      }
      else Some ([], q))"

declare destroy_cells.simps [code]

text \<open>The ring, from the block after \<open>block\<close> to the tail.\<close>

partial_function (option) destroy_ring ::
  "ptr \<Rightarrow> ExplicitProducer \<Rightarrow> ptr \<Rightarrow> ('e, 'z) block_pool_scheme \<Rightarrow> ('e list \<times> ('e, 'z) block_pool_scheme) option" where
  "destroy_ring halfDequeuedBlock p prev q =
     do {
       b0 \<leftarrow> blocks q prev;
       let block = next_block b0;
       b \<leftarrow> blocks q block;
       e \<leftarrow> is_empty explicit_context b;
       (xs, q1) \<leftarrow>
         (if e then Some ([], q)
          else
            (let tailOffset = ep_tailIndex p AND of_nat (BLOCK_SIZE - 1);
                 lastValidIndex = (if tailOffset = 0 then of_nat BLOCK_SIZE else tailOffset)
             in destroy_cells block (block = ep_tailBlock p) lastValidIndex
                  (if block = halfDequeuedBlock then ep_headIndex p AND of_nat (BLOCK_SIZE - 1) else 0) q));
       if block = ep_tailBlock p then Some (xs, q1)
       else do {
         (ys, q2) \<leftarrow> destroy_ring halfDequeuedBlock p block q1;
         Some (xs @ ys, q2)
       }
     }"

declare destroy_ring.simps [code]

partial_function (option) give_back_ring ::
  "ptr \<Rightarrow> ptr \<Rightarrow> ('e, 'z) block_pool_scheme \<Rightarrow> ('e, 'z) block_pool_scheme option" where
  "give_back_ring tail block q =
     do {
       b \<leftarrow> blocks q block;
       q1 \<leftarrow> add_block_to_free_list block q;
       if next_block b = tail then Some q1 else give_back_ring tail (next_block b) q1
     }"

declare give_back_ring.simps [code]

definition destroy_explicit_producer ::
  "ExplicitProducer \<Rightarrow> ('e, 'z) block_pool_scheme \<Rightarrow> ('e list \<times> ('e, 'z) block_pool_scheme) option" where
  "destroy_explicit_producer p q =
     (if ep_tailBlock p = nullptr then Some ([], q)
      else do {
        halfDequeuedBlock \<leftarrow>
          (if ep_headIndex p AND of_nat (BLOCK_SIZE - 1) \<noteq> 0 then do {
             (base, block) \<leftarrow> find_half_dequeued (pr_blockIndexEntries p) (pr_blockIndexSize p - 1) (ep_headIndex p)
               ((pr_blockIndexFront p - pr_blockIndexSlotsUsed p) AND (pr_blockIndexSize p - 1));
             if circular_less_than base (ep_headIndex p) then Some block else None
           }
           else Some nullptr);
        (xs, q1) \<leftarrow> destroy_ring halfDequeuedBlock p (ep_tailBlock p) q;
        q2 \<leftarrow> give_back_ring (ep_tailBlock p) (ep_tailBlock p) q1;
        Some (xs, q2)
      })"

end
