(* ===== verification/Explicit_Ring.thy ===== *)
theory Explicit_Ring
  imports Explicit_Producer
begin

text \<open>
  The two data structures of an explicit producer: the circular index, which has an entry for each of the last \<open>L\<close>
  blocks that were started, and the ring of those blocks in memory. Blocks are numbered in the order in which they
  were started; the window of the ring is the numbers from \<open>M - L\<close> to \<open>M\<close>.
\<close>

section \<open>The index\<close>

definition slot_at :: "nat \<Rightarrow> ExplicitProducer \<Rightarrow> nat \<Rightarrow> (u64 \<times> ptr) option" where
  "slot_at k p i = eh_entries (hd (ep_blockIndex p)) ! (i mod 2 ^ k)"

definition index_shape :: "ExplicitProducer \<Rightarrow> nat \<Rightarrow> bool" where
  "index_shape p k \<longleftrightarrow> ep_blockIndex p \<noteq> [] \<and> pr_blockIndexSize p = 2 ^ k \<and> eh_size (hd (ep_blockIndex p)) = 2 ^ k \<and>
     length (eh_entries (hd (ep_blockIndex p))) = 2 ^ k \<and> k \<le> 63"

text \<open>Block \<open>b\<close> has the place \<open>b + c\<close> of the circle of \<open>2 ^ k\<close> entries.\<close>

definition ring_index :: "ExplicitProducer \<Rightarrow> nat \<Rightarrow> nat \<Rightarrow> (nat \<Rightarrow> ptr) \<Rightarrow> nat \<Rightarrow> nat \<Rightarrow> bool" where
  "ring_index p k c V L M \<longleftrightarrow> index_shape p k \<and> L \<le> 2 ^ k \<and> pr_blockIndexFront p = take_bit k (of_nat (M + c)) \<and>
     (\<forall>b. M - L \<le> b \<and> b < M \<longrightarrow> slot_at k p (b + c) = Some (of_nat (32 * b), V b))"

text \<open>The index, which may be missing when its memory could not be had.\<close>

definition index_or_none :: "ExplicitProducer \<Rightarrow> (nat \<Rightarrow> ptr) \<Rightarrow> nat \<Rightarrow> nat \<Rightarrow> bool" where
  "index_or_none p V L M \<longleftrightarrow>
     (if ep_blockIndex p = [] then L = 0 \<and> (\<exists>k \<le> 62. pr_blockIndexSize p = 2 ^ k) else \<exists>k c. ring_index p k c V L M)"

text \<open>What the operations on the index leave alone.\<close>

definition same_counts :: "ExplicitProducer \<Rightarrow> ExplicitProducer \<Rightarrow> bool" where
  "same_counts p p' \<longleftrightarrow> ep_inactive p' = ep_inactive p \<and> ep_tailIndex p' = ep_tailIndex p \<and> ep_headIndex p' = ep_headIndex p \<and>
     ep_dequeueOptimisticCount p' = ep_dequeueOptimisticCount p \<and> ep_dequeueOvercommit p' = ep_dequeueOvercommit p \<and>
     ep_tailBlock p' = ep_tailBlock p \<and> pr_blockIndexSlotsUsed p' = pr_blockIndexSlotsUsed p"

lemma same_counts_refl [simp]: "same_counts p p"
  by (simp add: same_counts_def)

lemma same_counts_trans: "same_counts p p' \<Longrightarrow> same_counts p' p'' \<Longrightarrow> same_counts p p''"
  by (simp add: same_counts_def)

lemma u64_pow2: "k \<le> 63 \<Longrightarrow> unat ((2 :: u64) ^ k) = 2 ^ k"
  using unat64_of_nat [of "2 ^ k"] power_strict_increasing [of k 64 "2 :: nat"] by simp

lemma u64_pow2_eq:
  assumes "k \<le> 63" "L \<le> 2 ^ k"
  shows "(of_nat L :: u64) = 2 ^ k \<longleftrightarrow> L = 2 ^ k"
proof -
  have "(2 :: nat) ^ k < 2 ^ 64" using assms(1) power_strict_increasing [of k 64 "2 :: nat"] by simp
  then have "unat (of_nat L :: u64) = L" using assms(2) by (intro unat64_of_nat) simp
  then show ?thesis using u64_pow2 [OF assms(1)] by (metis word_unat_eq_iff)
qed

lemma place_nat:
  assumes "k \<le> 63"
  shows "unat (take_bit k (of_nat i :: u64)) = i mod 2 ^ k"
  using unat_take_bit_of_nat [of k i] assms by simp

text \<open>Writing the entry of the next block.\<close>

lemma put_entry_ring:
  assumes "ring_index p k c V L M" "L' \<le> 2 ^ k" "M - L \<le> Suc M - L'" "\<And>b. b < M \<Longrightarrow> V' b = V b" "V' M = ep_tailBlock p"
  shows "\<exists>p'. put_entry (of_nat (32 * M)) p = Some p' \<and> ring_index p' k c V' L' (Suc M) \<and> same_counts p p' \<and>
    eh_front (hd (ep_blockIndex p')) = eh_front (hd (ep_blockIndex p))"
proof -
  obtain h hs where h: "ep_blockIndex p = h # hs" using assms(1) by (auto simp: ring_index_def index_shape_def neq_Nil_conv)
  have sh: "pr_blockIndexSize p = 2 ^ k" "eh_size h = 2 ^ k" "length (eh_entries h) = 2 ^ k" "k \<le> 63"
    and front: "pr_blockIndexFront p = take_bit k (of_nat (M + c))"
    and old: "\<And>b. M - L \<le> b \<Longrightarrow> b < M \<Longrightarrow> eh_entries h ! ((b + c) mod 2 ^ k) = Some (of_nat (32 * b), V b)"
    using assms(1) h by (auto simp: ring_index_def index_shape_def slot_at_def)
  let ?i = "(M + c) mod 2 ^ k"
  let ?p = "p\<lparr>ep_blockIndex := h\<lparr>eh_entries := (eh_entries h)[?i := Some (of_nat (32 * M), V' M)]\<rparr> # hs,
    pr_blockIndexFront := take_bit k (of_nat (Suc M + c))\<rparr>"
  have nxt: "(pr_blockIndexFront p + 1) AND (pr_blockIndexSize p - 1) = take_bit k (of_nat (Suc M + c))"
    unfolding front sh(1) and_capacity take_bit_absorb by (simp add: ac_simps)
  have i: "unat (pr_blockIndexFront p) = ?i" unfolding front by (rule place_nat [OF sh(4)])
  have "put_entry (of_nat (32 * M)) p = Some ?p"
    unfolding put_entry_def h list.case nxt i sh(3) assms(5) by simp
  moreover have "slot_at k ?p (b + c) = Some (of_nat (32 * b), V' b)" if b: "Suc M - L' \<le> b" "b < Suc M" for b
  proof (cases "b = M")
    case True
    then show ?thesis by (simp add: slot_at_def sh(3))
  next
    case False
    then have bM: "b < M" "M - L \<le> b" using b assms(3) by auto
    have "M < b + 2 ^ k" using b(1) assms(2) by linarith
    then have "(b + c) mod 2 ^ k \<noteq> ?i"
      using mod_window [of b c "2 ^ k" M b] bM by auto
    then show ?thesis using old [OF bM(2,1)] assms(4) [OF bM(1)] by (simp add: slot_at_def)
  qed
  then have "ring_index ?p k c V' L' (Suc M)"
    using sh assms(2) unfolding ring_index_def by (simp add: index_shape_def)
  ultimately show ?thesis by (auto simp: same_counts_def h)
qed

text \<open>A larger index: the entries of the window, oldest first.\<close>

lemma copy_slots_ring:
  assumes "length es = 2 ^ k" "k \<le> 63" "j < 2 ^ k"
  shows "copy_slots es (2 ^ k - 1) (take_bit k (of_nat a)) (take_bit k (of_nat (a + j))) =
    Some (map (\<lambda>i. es ! ((a + i) mod 2 ^ k)) [j..<2 ^ k])"
  using assms(3)
proof (induction "2 ^ k - j" arbitrary: j)
  case (Suc n)
  have e: "nth_opt es (unat (take_bit k (of_nat (a + j) :: u64))) = Some (es ! ((a + j) mod 2 ^ k))"
    unfolding place_nat [OF assms(2)] by (simp add: nth_opt_def assms(1))
  have nxt: "(take_bit k (of_nat (a + j)) + 1) AND ((2 :: u64) ^ k - 1) = take_bit k (of_nat (a + Suc j))"
    unfolding and_capacity take_bit_absorb by (simp add: ac_simps)
  have last: "take_bit k (of_nat (a + Suc j)) = (take_bit k (of_nat a) :: u64) \<longleftrightarrow> Suc j = 2 ^ k"
  proof -
    have "take_bit k (of_nat (a + Suc j)) = (take_bit k (of_nat a) :: u64) \<longleftrightarrow> (a + Suc j) mod 2 ^ k = a mod 2 ^ k"
      using assms(2) by (intro take_bit_of_nat_eq) simp
    also have "\<dots> \<longleftrightarrow> Suc j = 2 ^ k"
    proof
      assume "(a + Suc j) mod 2 ^ k = a mod 2 ^ k"
      then have "2 ^ k dvd Suc j" by (metis add_diff_cancel_left' mod_eq_dvd_iff_nat le_add1)
      then show "Suc j = 2 ^ k" using Suc.prems by (metis Suc_leI dvd_imp_le le_antisym zero_less_Suc)
    qed simp
    finally show ?thesis .
  qed
  have rng: "[j..<2 ^ k] = j # [Suc j..<2 ^ k]" using Suc.prems by (simp add: upt_conv_Cons)
  show ?case
  proof (cases "Suc j = 2 ^ k")
    case True
    then have "[j..<2 ^ k] = [j]" unfolding rng by simp
    with True last e nxt show ?thesis by (subst copy_slots.simps) (simp add: Let_def del: of_nat_add)
  next
    case False
    then have "copy_slots es (2 ^ k - 1) (take_bit k (of_nat a)) (take_bit k (of_nat (a + Suc j))) =
        Some (map (\<lambda>i. es ! ((a + i) mod 2 ^ k)) [Suc j..<2 ^ k])" using Suc by (intro Suc.hyps(1)) auto
    with False last e nxt show ?thesis
      unfolding rng by (subst copy_slots.simps) (simp add: Let_def del: of_nat_add)
  qed
qed simp


lemma explicit_new_block_index_ring:
  assumes idx: "index_or_none p V L M" and L: "pr_blockIndexSlotsUsed p = of_nat L" "L \<le> M" "L < 2 ^ 59"
    and full: "ep_blockIndex p = [] \<or> pr_blockIndexSlotsUsed p = pr_blockIndexSize p"
  shows "\<exists>ok p' n. explicit_new_block_index mem e (p, q) = Some (ok, p', q\<lparr>allocations := n\<rparr>) \<and>
    (if ok then (\<exists>k' c'. ring_index p' k' c' V L M \<and> L < 2 ^ k') \<and> same_counts p p' \<and> eh_front (hd (ep_blockIndex p')) = e - 1 \<and>
       pr_blockIndexFront p' = of_nat L
     else p' = p)"
proof -
  from idx full have "\<exists>k. k \<le> 62 \<and> pr_blockIndexSize p = 2 ^ k \<and>
    (if ep_blockIndex p = [] then L = 0 else L = 2 ^ k \<and> (\<exists>c. ring_index p k c V L M))"
  proof (cases "ep_blockIndex p = []")
    case False
    with idx obtain k c where r: "ring_index p k c V L M" by (auto simp: index_or_none_def)
    then have k: "k \<le> 63" "L \<le> 2 ^ k" "pr_blockIndexSize p = 2 ^ k" by (simp_all add: ring_index_def index_shape_def)
    then have "L = 2 ^ k" using full False L(1) u64_pow2_eq [OF k(1,2)] by simp
    moreover from this have "k \<le> 62" using L(3) power_less_imp_less_exp [of "2 :: nat" k 59] by simp
    ultimately show ?thesis using False r k by auto
  qed (auto simp: index_or_none_def)
  then obtain k where k: "k \<le> 62" "pr_blockIndexSize p = 2 ^ k"
    "if ep_blockIndex p = [] then L = 0 else L = 2 ^ k \<and> (\<exists>c. ring_index p k c V L M)" by blast
  have size: "push_bit 1 ((2 :: u64) ^ k) = 2 ^ Suc k" "drop_bit 1 ((2 :: u64) ^ Suc k) = 2 ^ k"
  proof -
    show p: "push_bit 1 ((2 :: u64) ^ k) = 2 ^ Suc k" by (simp add: push_bit_eq_mult)
    have "unat (drop_bit 1 ((2 :: u64) ^ Suc k)) = 2 ^ k"
      using k(1) u64_pow2 [of "Suc k"] by (simp add: drop_bit_eq_div unat_div)
    then show "drop_bit 1 ((2 :: u64) ^ Suc k) = 2 ^ k" using u64_pow2 [of k] k(1) by (simp add: word_unat_eq_iff)
  qed
  show ?thesis
  proof (cases "mem (allocations q) = nullptr")
    case True
    moreover have "p\<lparr>pr_blockIndexSize := 2 ^ k\<rparr> = p" by (simp flip: k(2))
    ultimately have "explicit_new_block_index mem e (p, q) = Some (False, p, q\<lparr>allocations := Suc (allocations q)\<rparr>)"
      unfolding explicit_new_block_index_def Let_def k(2) size malloc_def prod.case by (simp del: power_Suc)
    then show ?thesis by auto
  next
    case False
    define c' where "c' = 2 ^ Suc k - (M - L) mod 2 ^ Suc k"
    define es where "es = map (\<lambda>i. Some (of_nat (32 * (M - L + i)) :: u64, V (M - L + i))) [0..<L]"
    have "(if pr_blockIndexSlotsUsed p \<noteq> 0
        then copy_slots (pr_blockIndexEntries p) (pr_blockIndexSize p - 1) (pr_blockIndexFront p)
          ((pr_blockIndexFront p - pr_blockIndexSlotsUsed p) AND (pr_blockIndexSize p - 1))
        else Some []) = Some es"
    proof (cases "ep_blockIndex p = []")
      case True
      then show ?thesis using k(3) L(1) by (simp add: es_def)
    next
      case False
      then obtain h hs c where h: "ep_blockIndex p = h # hs" and Lk: "L = 2 ^ k" and r: "ring_index p k c V L M"
        using k(3) by (auto simp: neq_Nil_conv)
      have es: "length (eh_entries h) = 2 ^ k" "pr_blockIndexFront p = take_bit k (of_nat (M + c))"
        "\<And>b. M - L \<le> b \<Longrightarrow> b < M \<Longrightarrow> eh_entries h ! ((b + c) mod 2 ^ k) = Some (of_nat (32 * b), V b)"
        using r h by (auto simp: ring_index_def index_shape_def slot_at_def)
      have nz: "pr_blockIndexSlotsUsed p \<noteq> 0"
        using u64_pow2 [of k] k(1) unfolding L(1) Lk by (auto simp: word_unat_eq_iff)
      have start: "(pr_blockIndexFront p - pr_blockIndexSlotsUsed p) AND (pr_blockIndexSize p - 1) = take_bit k (of_nat (M + c + 0))"
      proof -
        have "(of_nat (M + c) :: u64) - of_nat L = of_nat (M + c - L)" using L(2) by (simp add: of_nat_diff)
        moreover have "(M + c - L) mod 2 ^ k = (M + c + 0) mod 2 ^ k"
          using mod_add_self2 [of "M + c - L" "2 ^ k"] L(2) Lk by simp
        ultimately show ?thesis
          unfolding es(2) L(1) k(2) and_capacity take_bit_absorb using k(1) by (simp only: take_bit_of_nat_eq)
      qed
      have "copy_slots (pr_blockIndexEntries p) (pr_blockIndexSize p - 1) (pr_blockIndexFront p)
          ((pr_blockIndexFront p - pr_blockIndexSlotsUsed p) AND (pr_blockIndexSize p - 1)) =
        Some (map (\<lambda>i. eh_entries h ! ((M + c + i) mod 2 ^ k)) [0..<2 ^ k])"
        unfolding start unfolding es(2) k(2) pr_blockIndexEntries_def h list.case
        by (rule copy_slots_ring [OF es(1)]) (use k(1) in simp_all)
      moreover have "eh_entries h ! ((M + c + i) mod 2 ^ k) = Some (of_nat (32 * (M - L + i)), V (M - L + i))" if "i < 2 ^ k" for i
      proof -
        have "M + c + i = (M - L + i + c) + 2 ^ k" using L(2) Lk by simp
        then have "(M + c + i) mod 2 ^ k = (M - L + i + c) mod 2 ^ k" by (simp only: mod_add_self2)
        with es(3) [of "M - L + i"] that Lk L(2) show ?thesis by simp
      qed
      ultimately show ?thesis using nz Lk by (simp add: es_def)
    qed
    moreover have len: "length es = L" by (simp add: es_def)
    have Lle: "L < 2 ^ Suc k" "L \<le> 2 ^ k" using k(3) by (auto split: if_splits)
    define p' where "p' = p\<lparr>ep_blockIndex := \<lparr>eh_size = 2 ^ Suc k, eh_front = e - 1, eh_entries = es @ replicate (2 ^ Suc k - L) None\<rparr> # ep_blockIndex p,
      pr_blockIndexSize := 2 ^ Suc k, pr_blockIndexFront := of_nat L\<rparr>"
    have "unat ((2 :: u64) ^ Suc k) = 2 ^ Suc k" using k(1) by (intro u64_pow2) simp
    ultimately have "explicit_new_block_index mem e (p, q) = Some (True, p', q\<lparr>allocations := Suc (allocations q)\<rparr>)"
      using False k(2) size(1) Lle len unfolding explicit_new_block_index_def p'_def
      by (simp add: malloc_def Let_def cong: if_cong del: power_Suc)
    moreover have c: "b + c' = (b - (M - L)) + 2 ^ Suc k * Suc ((M - L) div 2 ^ Suc k)" if "M - L \<le> b" for b
      unfolding c'_def by (rule ring_origin [OF that])
    have "slot_at (Suc k) p' (b + c') = Some (of_nat (32 * b), V b)" if b: "M - L \<le> b" "b < M" for b
    proof -
      have "(b + c') mod 2 ^ Suc k = b - (M - L)"
        unfolding c [OF b(1)] mod_mult_self2 using b Lle by (intro mod_less) linarith
      moreover have "es ! (b - (M - L)) = Some (of_nat (32 * b), V b)" "b - (M - L) < length es"
        using b L(2) by (auto simp: es_def)
      ultimately show ?thesis by (simp add: slot_at_def p'_def nth_append)
    qed
    moreover have "take_bit (Suc k) (of_nat (M + c')) = (of_nat L :: u64)"
    proof -
      have "M + c' = L + 2 ^ Suc k * Suc ((M - L) div 2 ^ Suc k)" using c [of M] L(2) by simp
      then have "take_bit (Suc k) (of_nat (M + c') :: u64) = take_bit (Suc k) (of_nat L)"
        using k(1) by (simp only: take_bit_of_nat_eq mod_mult_self2)
      moreover have "unat (take_bit (Suc k) (of_nat L :: u64)) = unat (of_nat L :: u64)"
        using Lle L(3) k(1) by (subst place_nat) (simp_all add: unat64_of_nat)
      ultimately show ?thesis by (simp add: word_unat_eq_iff)
    qed
    ultimately have "ring_index p' (Suc k) c' V L M"
      using k(1) Lle len unfolding ring_index_def by (simp add: index_shape_def p'_def)
    with \<open>explicit_new_block_index mem e (p, q) = _\<close> Lle show ?thesis
      by (intro exI [of _ True] exI [of _ p'] exI [of _ "Suc (allocations q)"]) (auto simp: same_counts_def p'_def)
  qed
qed

end
