(* ===== verification/Explicit_Stream.thy ===== *)
theory Explicit_Stream
  imports Explicit_Ring
begin

text \<open>
  The stream of an explicit producer: the ring of blocks in memory with the elements from head to tail, the
  invariant of the producer, and one element going in or out.
\<close>

section \<open>The ring\<close>

text \<open>The flags of block \<open>b\<close>, the last offset first: set up to the head \<open>H\<close>, and in the blocks from \<open>R\<close> on.\<close>

definition flags :: "nat \<Rightarrow> nat \<Rightarrow> nat \<Rightarrow> bool list" where
  "flags H R b = map (\<lambda>s. 32 * b + s < H \<or> R \<le> b) (rev [0..<32])"

definition ring_block :: "(nat \<Rightarrow> ptr) \<Rightarrow> nat \<Rightarrow> nat \<Rightarrow> nat \<Rightarrow> nat \<Rightarrow> nat \<Rightarrow> 'e Block \<Rightarrow> bool" where
  "ring_block V L M H R b blk \<longleftrightarrow> next_block blk = V (if Suc b = M then M - L else Suc b) \<and> emptyFlags blk = flags H R b"

definition ring ::
  "('e, 'z) block_pool_scheme \<Rightarrow> ptr set \<Rightarrow> (nat \<Rightarrow> ptr) \<Rightarrow> nat \<Rightarrow> nat \<Rightarrow> nat \<Rightarrow> nat \<Rightarrow> 'e list \<Rightarrow> bool" where
  "ring q F V L M H R xs \<longleftrightarrow>
     L \<le> M \<and> M - L \<le> H div 32 \<and> H + length xs \<le> 32 * M \<and> R \<le> M \<and>
     (\<exists>fs. pool_inv q fs (V ` {M - L..<M} \<union> F)) \<and> inj_on V {M - L..<M} \<and> V ` {M - L..<M} \<inter> F = {} \<and>
     (\<forall>b. M - L \<le> b \<and> b < M \<longrightarrow> (\<exists>blk. blocks q (V b) = Some blk \<and> ring_block V L M H R b blk)) \<and>
     (\<forall>i < length xs. cell q V (H + i) = Some (xs ! i))"

lemma ring_pool:
  assumes "ring q F V L M H R xs" "M - L \<le> b" "b < M"
  shows "V b \<noteq> nullptr" "V b \<notin> F"
    "\<exists>blk. blocks q (V b) = Some blk \<and> length (elements blk) = 32 \<and> ring_block V L M H R b blk"
proof -
  from assms obtain fs blk where fs: "pool_inv q fs (V ` {M - L..<M} \<union> F)" "V ` {M - L..<M} \<inter> F = {}"
    and blk: "blocks q (V b) = Some blk" "ring_block V L M H R b blk" by (auto simp: ring_def)
  have "V b \<in> V ` {M - L..<M}" using assms(2,3) by auto
  then have "V b \<in> V ` {M - L..<M} \<union> F" "V b \<notin> F" using fs(2) by blast+
  from pool_inv_used [OF fs(1) this(1)] this(2) blk
  show "V b \<noteq> nullptr" "V b \<notin> F"
    "\<exists>blk. blocks q (V b) = Some blk \<and> length (elements blk) = 32 \<and> ring_block V L M H R b blk"
    by (auto simp: BLOCK_SIZE_def)
qed

lemma ring_inj:
  assumes "ring q F V L M H R xs" "V b = V b'" "M - L \<le> b" "b < M" "M - L \<le> b'" "b' < M"
  shows "b = b'"
  using assms by (auto simp: ring_def inj_on_def)

lemma ring_allocations [simp]: "ring (q\<lparr>allocations := n\<rparr>) F V L M H R xs = ring q F V L M H R xs"
  by (simp add: ring_def cell_def)

lemma ring_frame:
  assumes "ring q F V L M H R xs" "M - L \<le> b" "b < M"
  shows "agree_on F q (q\<lparr>blocks := (blocks q)(V b \<mapsto> blk)\<rparr>)"
  using ring_pool(2) [OF assms] by (auto simp: agree_on_def)

text \<open>Writing to one block of the ring.\<close>

lemma ring_update:
  assumes r: "ring q F V L M H R xs" and b: "M - L \<le> b" "b < M" and blk: "blocks q (V b) = Some blk"
    and keep: "length (elements blk') = length (elements blk)" "freeListRefs blk' = freeListRefs blk"
      "dynamicallyAllocated blk' = dynamicallyAllocated blk" "next_block blk' = next_block blk" "emptyFlags blk' = flags H' R' b"
    and new: "H \<le> H'" "H' + length xs' \<le> 32 * M" "R' \<le> M"
      "\<And>b'. M - L \<le> b' \<Longrightarrow> b' < M \<Longrightarrow> b' \<noteq> b \<Longrightarrow> flags H' R' b' = flags H R b'"
      "\<And>i. i < length xs' \<Longrightarrow> cell (q\<lparr>blocks := (blocks q)(V b \<mapsto> blk')\<rparr>) V (H' + i) = Some (xs' ! i)"
  shows "ring (q\<lparr>blocks := (blocks q)(V b \<mapsto> blk')\<rparr>) F V L M H' R' xs'"
proof -
  let ?q = "q\<lparr>blocks := (blocks q)(V b \<mapsto> blk')\<rparr>"
  from r obtain fs where fs: "pool_inv q fs (V ` {M - L..<M} \<union> F)" by (auto simp: ring_def)
  have "V b \<in> V ` {M - L..<M} \<union> F" using b by auto
  from pool_inv_update [OF fs this blk keep(1-3)] have pool: "\<exists>fs. pool_inv ?q fs (V ` {M - L..<M} \<union> F)" by blast
  have "\<exists>blk. blocks ?q (V b') = Some blk \<and> ring_block V L M H' R' b' blk" if "M - L \<le> b'" "b' < M" for b'
  proof (cases "b' = b")
    case True
    moreover have "ring_block V L M H R b blk" using r b blk by (auto simp: ring_def)
    ultimately show ?thesis using keep by (simp add: ring_block_def)
  next
    case False
    then have "V b' \<noteq> V b" using ring_inj [OF r _ that b] by blast
    moreover obtain blk2 where "blocks q (V b') = Some blk2" "ring_block V L M H R b' blk2"
      using ring_pool(3) [OF r \<open>M - L \<le> b'\<close> \<open>b' < M\<close>] by blast
    ultimately show ?thesis using new(4) [OF that False] by (simp add: ring_block_def)
  qed
  moreover have "M - L \<le> H' div 32" using r new(1) div_le_mono [OF new(1), of 32] by (simp add: ring_def)
  ultimately show ?thesis using r pool new(2,3,5) by (simp add: ring_def)
qed

lemma list_all_flags: "list_all (\<lambda>f. f) (flags H R b) \<longleftrightarrow> b < H div 32 \<or> R \<le> b"
proof -
  have "(\<forall>s \<in> {0..<32}. 32 * b + s < H) \<longleftrightarrow> b < H div 32"
  proof
    assume "\<forall>s \<in> {0..<32}. 32 * b + s < H"
    then have "32 * b + 31 < H" by simp
    then show "b < H div 32" by linarith
  next
    assume "b < H div 32"
    then have "32 * b + 32 \<le> H" by linarith
    then show "\<forall>s \<in> {0..<32}. 32 * b + s < H" by auto
  qed
  then show ?thesis by (auto simp: flags_def list_all_iff)
qed

text \<open>Looking at the block after the tail.\<close>

lemma ring_ahead:
  assumes r: "ring q F V L M H R xs" and L: "0 < L"
  shows "block_ahead (V (M - 1)) q = Some (if M - L < H div 32 \<or> R \<le> M - L then Some (V (M - L)) else None)"
    "\<exists>t. blocks q (V (M - 1)) = Some t \<and> next_block t = V (M - L)"
proof -
  have LM: "L \<le> M" using r by (simp add: ring_def)
  then have b: "M - L \<le> M - 1" "M - 1 < M" "Suc (M - 1) = M" "M - L < M" using L by auto
  obtain t where t: "blocks q (V (M - 1)) = Some t" "next_block t = V (M - L)"
    using ring_pool(3) [OF r b(1,2)] b(3) by (auto simp: ring_block_def)
  then show "\<exists>t. blocks q (V (M - 1)) = Some t \<and> next_block t = V (M - L)" by blast
  obtain h where h: "blocks q (V (M - L)) = Some h" "emptyFlags h = flags H R (M - L)"
    using ring_pool(3) [OF r order_refl b(4)] by (auto simp: ring_block_def)
  show "block_ahead (V (M - 1)) q = Some (if M - L < H div 32 \<or> R \<le> M - L then Some (V (M - L)) else None)"
    using t h unfolding block_ahead_def is_empty_def
    by (simp add: list_all_flags uses_flags_def BLOCK_SIZE_def EXPLICIT_BLOCK_EMPTY_COUNTER_THRESHOLD_def)
qed

text \<open>The oldest block becomes the next one.\<close>

lemma ring_reuse:
  assumes r: "ring q F V L M H R xs" and L: "0 < L" and e: "M - L < H div 32"
  shows "ring q F (V(M := V (M - L))) L (Suc M) H R xs" "(V(M := V (M - L))) ` {Suc M - L..<Suc M} = V ` {M - L..<M}"
proof -
  let ?V = "V(M := V (M - L))"
  have LM: "L \<le> M" using r by (simp add: ring_def)
  then have w: "Suc M - L = Suc (M - L)" "M - L < M" using L by auto
  have rng: "{Suc M - L..<Suc M} = insert M {Suc (M - L)..<M}" "{M - L..<M} = insert (M - L) {Suc (M - L)..<M}" using w by auto
  show im: "?V ` {Suc M - L..<Suc M} = V ` {M - L..<M}" unfolding rng by auto
  have "inj_on V {M - L..<M}" using r by (simp add: ring_def)
  then have inj: "inj_on ?V {Suc M - L..<Suc M}" unfolding rng by (auto simp: inj_on_def)
  have blk: "\<exists>blk. blocks q (?V b) = Some blk \<and> ring_block ?V L (Suc M) H R b blk" if b: "Suc M - L \<le> b" "b < Suc M" for b
  proof (cases "b = M")
    case True
    obtain blk where blk: "blocks q (V (M - L)) = Some blk" "ring_block V L M H R (M - L) blk" using r w(2) by (auto simp: ring_def)
    have "flags H R M = flags H R (M - L)"
      using list_all_flags [of H R "M - L"] list_all_flags [of H R M] e r
      by (simp add: flags_def list_all_iff ring_def)
    with blk show ?thesis using True w by (auto simp: ring_block_def split: if_splits)
  next
    case False
    then have "M - L \<le> b" "b < M" "b \<noteq> M - L" using b w by auto
    moreover from this obtain blk where "blocks q (V b) = Some blk" "ring_block V L M H R b blk" using r by (auto simp: ring_def)
    ultimately show ?thesis using w by (auto simp: ring_block_def)
  qed
  have cells: "cell q ?V (H + i) = Some (xs ! i)" if "i < length xs" for i
  proof -
    have "H + i < 32 * M" using r that by (simp add: ring_def)
    then have "(H + i) div 32 \<noteq> M" by simp
    then show ?thesis using r that by (simp add: ring_def cell_def)
  qed
  show "ring q F ?V L (Suc M) H R xs"
    using r LM w e inj blk cells unfolding ring_def im by auto
qed

text \<open>The flags of a block are cleared.\<close>

lemma reset_explicit: "reset_empty explicit_context b = b\<lparr>emptyFlags := replicate 32 False\<rparr>"
  "set_all_empty explicit_context b = b\<lparr>emptyFlags := replicate 32 True\<rparr>"
  by (simp_all add: reset_empty_def set_all_empty_def uses_flags_def BLOCK_SIZE_def EXPLICIT_BLOCK_EMPTY_COUNTER_THRESHOLD_def)

lemma flags_replicate:
  "H \<le> 32 * b \<Longrightarrow> b < R \<Longrightarrow> flags H R b = replicate 32 False" "R \<le> b \<Longrightarrow> flags H R b = replicate 32 True"
  by (auto simp: flags_def map_replicate_const [symmetric] intro!: nth_equalityI)

lemma ring_reset:
  assumes r: "ring q F V L M H R xs" and b: "R < M" "M - L \<le> R" "H \<le> 32 * R"
  shows "\<exists>q'. update_block (V R) (reset_empty explicit_context) q = Some q' \<and> ring q' F V L M H (Suc R) xs \<and> agree_on F q q' \<and> same_links q q'"
proof -
  obtain blk where blk: "blocks q (V R) = Some blk" using ring_pool(3) [OF r b(2,1)] by blast
  let ?q = "q\<lparr>blocks := (blocks q)(V R \<mapsto> reset_empty explicit_context blk)\<rparr>"
  have c: "cell ?q V i = cell q V i" for i using blk by (auto simp: cell_def reset_explicit)
  have "flags H (Suc R) b' = flags H R b'" if "b' \<noteq> R" for b' using that by (auto simp: flags_def)
  then have "ring ?q F V L M H (Suc R) xs"
    using r b flags_replicate(1) [of H R "Suc R"] c
    by (intro ring_update [OF r b(2,1) blk]) (simp_all add: reset_explicit ring_def)
  moreover have "agree_on F q ?q" by (rule ring_frame [OF r b(2,1)])
  moreover have "same_links q ?q" using blk by (simp add: same_links_def reset_explicit)
  ultimately show ?thesis using blk by simp
qed

lemma ring_cell_update:
  assumes "ring q F V L M H R xs" "M - L \<le> b" "b < M" "H \<le> i" "i < 32 * M"
  shows "cell (q\<lparr>blocks := (blocks q)(V b \<mapsto> blk)\<rparr>) V i = (if i div 32 = b then elements blk ! (i mod 32) else cell q V i)"
proof -
  have "M - L \<le> i div 32" "i div 32 < M" using assms(1,4,5) div_le_mono [of H i 32] by (auto simp: ring_def)
  then have "V (i div 32) = V b \<Longrightarrow> i div 32 = b" using ring_inj [OF assms(1)] assms(2,3) by blast
  then show ?thesis by (auto simp: cell_def)
qed

text \<open>The next element is constructed.\<close>

lemma ring_construct:
  assumes r: "ring q F V L M H R xs" and T: "H + length xs < 32 * M"
  shows "\<exists>q'. construct (V ((H + length xs) div 32)) (of_nat (H + length xs)) x q = Some q' \<and> ring q' F V L M H R (xs @ [x]) \<and>
    agree_on F q q' \<and> same_links q q'"
proof -
  let ?T = "H + length xs"
  let ?b = "?T div 32"
  have b: "M - L \<le> ?b" "?b < M" using r T div_le_mono [of H ?T 32] by (auto simp: ring_def)
  obtain blk where blk: "blocks q (V ?b) = Some blk" "length (elements blk) = 32" "ring_block V L M H R ?b blk"
    using ring_pool(3) [OF r b] by blast
  let ?blk = "blk\<lparr>elements := (elements blk)[?T mod 32 := Some x]\<rparr>"
  let ?q = "q\<lparr>blocks := (blocks q)(V ?b \<mapsto> ?blk)\<rparr>"
  have "cell ?q V (H + i) = Some ((xs @ [x]) ! i)" if i: "i < length (xs @ [x])" for i
  proof (cases "i = length xs")
    case True
    then show ?thesis using ring_cell_update [OF r b, of ?T ?blk] T blk(2) by simp
  next
    case False
    then have lt: "i < length xs" using i by simp
    have "(H + i) div 32 = ?b \<Longrightarrow> (H + i) mod 32 \<noteq> ?T mod 32"
    proof
      assume "(H + i) div 32 = ?b" "(H + i) mod 32 = ?T mod 32"
      then have "H + i = ?T" by (metis mult_div_mod_eq)
      with lt show False by simp
    qed
    moreover have "cell q V (H + i) = Some (xs ! i)" using r lt by (simp add: ring_def)
    moreover have "cell q V (H + i) = elements blk ! ((H + i) mod 32)" if "(H + i) div 32 = ?b"
      using that blk(1) by (simp add: cell_def)
    ultimately show ?thesis using ring_cell_update [OF r b, of "H + i" ?blk] T lt by (auto simp: nth_append)
  qed
  moreover have "emptyFlags blk = flags H R ?b" using blk(3) by (simp add: ring_block_def)
  ultimately have "ring ?q F V L M H R (xs @ [x])"
    using r T by (intro ring_update [OF r b blk(1)]) (simp_all add: ring_def)
  moreover have "agree_on F q ?q" by (rule ring_frame [OF r b])
  moreover have "construct (V ?b) (of_nat ?T) x q = Some ?q" using blk(1) by (simp add: construct_def slot_of_nat del: of_nat_add)
  moreover have "same_links q ?q" using blk(1) by (auto simp: same_links_def)
  ultimately show ?thesis by blast
qed

interpretation explicit_filling: filling "\<lambda>q xs. ring q F V L M H R xs" F V H M for F V L M H R
proof unfold_locales
  fix q :: "('a, 'b) block_pool_scheme" and xs :: "'a list" and b
  assume r: "ring q F V L M H R xs" and b: "H div 32 \<le> b" "Suc b < M"
  then have "M - L \<le> b" "M - L \<le> M - 1" "b < M" "M - 1 < M" "b \<noteq> M - 1" by (auto simp: ring_def)
  then show "V b \<noteq> V (M - 1)" using ring_inj [OF r] by blast
qed (rule ring_construct)

text \<open>A block that nobody uses goes into the ring, after the tail; its flags are all set, or all cleared.\<close>

lemma ring_add:
  assumes r: "ring q F V L M H R xs" and nb: "nb \<noteq> nullptr" "nb \<notin> V ` {M - L..<M} \<union> F"
    and pool: "pool_inv q1 fs (insert nb (V ` {M - L..<M} \<union> F))" "agree_on (V ` {M - L..<M} \<union> F) q q1"
    and tail: "ep_tailBlock p = (if L = 0 then nullptr else V (M - 1))"
    and f: "\<And>b. f b = b\<lparr>emptyFlags := flags H R' M\<rparr>" and R': "R \<le> R'" "R' \<le> Suc M" "R' \<noteq> R \<longrightarrow> R = M"
  shows "\<exists>q2 q3. update_block nb f q1 = Some q2 \<and>
    link_block nb (p, q2) = Some (p\<lparr>ep_tailBlock := nb, pr_blockIndexSlotsUsed := pr_blockIndexSlotsUsed p + 1\<rparr>, q3) \<and>
    ring q3 F (V(M := nb)) (Suc L) (Suc M) H R' xs \<and> agree_on F q q3"
proof -
  let ?W = "V ` {M - L..<M}" and ?V = "V(M := nb)"
  have LM: "L \<le> M" using r by (simp add: ring_def)
  obtain b0 where b0: "blocks q1 nb = Some b0" "length (elements b0) = 32"
    using pool_inv_used(2) [OF pool(1) insertI1] by (auto simp: BLOCK_SIZE_def)
  define nx where "nx = (if L = 0 then nb else V (M - L))"
  define B where "B = (\<lambda>a. if a = nb then Some (b0\<lparr>emptyFlags := flags H R' M, next_block := nx\<rparr>)
    else if L \<noteq> 0 \<and> a = V (M - 1) then map_option (\<lambda>t. t\<lparr>next_block := nb\<rparr>) (blocks q1 a) else blocks q1 a)"
  let ?q2 = "q1\<lparr>blocks := (blocks q1)(nb \<mapsto> f b0)\<rparr>" and ?q3 = "q1\<lparr>blocks := B\<rparr>"
  have up: "update_block nb f q1 = Some ?q2" using b0 by simp
  have old: "blocks q1 (V b) = blocks q (V b)" "V b \<noteq> nb" if "M - L \<le> b" "b < M" for b
    using that pool(2) nb(2) by (auto simp: agree_on_def)
  have link: "link_block nb (p, ?q2) = Some (p\<lparr>ep_tailBlock := nb, pr_blockIndexSlotsUsed := pr_blockIndexSlotsUsed p + 1\<rparr>, ?q3)"
  proof (cases "L = 0")
    case True
    then have "(blocks ?q2)(nb \<mapsto> (f b0)\<lparr>next_block := nb\<rparr>) = B" by (auto simp: B_def nx_def f)
    then show ?thesis using True tail b0 by (simp add: link_block_def)
  next
    case False
    then have b: "M - L \<le> M - 1" "M - 1 < M" "Suc (M - 1) = M" using LM by auto
    obtain t where t: "blocks q (V (M - 1)) = Some t" "next_block t = V (M - L)"
      using ring_ahead(2) [OF r] False by auto
    note tl = old [OF b(1,2)]
    have "V (M - 1) \<noteq> nullptr" using ring_pool(1) [OF r b(1,2)] .
    moreover have "((blocks ?q2)(nb \<mapsto> (f b0)\<lparr>next_block := next_block t\<rparr>))(V (M - 1) \<mapsto> t\<lparr>next_block := nb\<rparr>) = B"
      using False tl t by (auto simp: B_def nx_def f)
    ultimately show ?thesis using False tail tl t b0 by (simp add: link_block_def)
  qed
  have rng: "{Suc M - Suc L..<Suc M} = insert M {M - L..<M}" using LM by auto
  have im: "?V ` {Suc M - Suc L..<Suc M} = insert nb ?W" unfolding rng by (auto simp: image_iff)
  have "inj_on V {M - L..<M}" using r by (simp add: ring_def)
  then have inj: "inj_on ?V {Suc M - Suc L..<Suc M}" using nb(2) unfolding rng by (auto simp: inj_on_def)
  have pool2: "\<exists>fs. pool_inv (q1\<lparr>blocks := B\<rparr>) fs (insert nb (?W \<union> F))"
  proof -
    let ?Q = "q1\<lparr>blocks := (blocks q1)(nb \<mapsto> b0\<lparr>emptyFlags := flags H R' M, next_block := nx\<rparr>)\<rparr>"
    have Q: "pool_inv ?Q fs (insert nb (?W \<union> F))" by (rule pool_inv_update [OF pool(1) insertI1 b0(1)]) simp_all
    show ?thesis
    proof (cases "L = 0")
      case True
      then have "B = (blocks q1)(nb \<mapsto> b0\<lparr>emptyFlags := flags H R' M, next_block := nx\<rparr>)" by (auto simp: B_def)
      with Q show ?thesis by auto
    next
      case False
      then have b: "M - L \<le> M - 1" "M - 1 < M" using LM by auto
      then have W: "V (M - 1) \<in> insert nb (?W \<union> F)" by auto
      obtain t where t: "blocks q1 (V (M - 1)) = Some t" using ring_pool(3) [OF r b] old [OF b] by auto
      have t': "blocks ?Q (V (M - 1)) = Some t" using t old(2) [OF b] by simp
      have "B = (blocks ?Q)(V (M - 1) \<mapsto> t\<lparr>next_block := nb\<rparr>)"
        using False old(2) [OF b] t by (auto simp: B_def)
      moreover have "pool_inv (?Q\<lparr>blocks := (blocks ?Q)(V (M - 1) \<mapsto> t\<lparr>next_block := nb\<rparr>)\<rparr>) fs (insert nb (?W \<union> F))"
        by (rule pool_inv_update [OF Q W t']) simp_all
      ultimately show ?thesis by auto
    qed
  qed
  have blk: "\<exists>blk. B (?V b) = Some blk \<and> ring_block ?V (Suc L) (Suc M) H R' b blk" if b: "M - L \<le> b" "b < Suc M" for b
  proof (cases "b = M")
    case True
    then show ?thesis using LM by (auto simp: B_def ring_block_def nx_def)
  next
    case False
    then have bM: "b < M" using b(2) by simp
    obtain blk where k: "blocks q (V b) = Some blk" "ring_block V L M H R b blk" using r b(1) bM by (auto simp: ring_def)
    have fl: "flags H R' b = flags H R b" using R'(1,3) bM by (cases "R' = R") (auto simp: flags_def)
    have last: "V b = V (M - 1) \<longleftrightarrow> b = M - 1" using ring_inj [OF r, of b "M - 1"] b(1) bM by auto
    have "Suc b = M \<longleftrightarrow> b = M - 1" using bM by auto
    then show ?thesis
      using k fl last old [OF b(1) bM] bM b(1) by (cases "b = M - 1") (auto simp: B_def ring_block_def)
  qed
  have cells: "cell ?q3 ?V (H + i) = Some (xs ! i)" if "i < length xs" for i
  proof -
    have le: "H + i < 32 * M" "M - L \<le> H div 32" using r that by (simp_all add: ring_def)
    then have k: "M - L \<le> (H + i) div 32" "(H + i) div 32 < M" using div_le_mono [of H "H + i" 32] by auto
    have "cell q V (H + i) = Some (xs ! i)" using r that by (simp add: ring_def)
    then show ?thesis using old [OF k] k by (auto simp: cell_def B_def split: option.splits)
  qed
  have disj: "insert nb ?W \<inter> F = {}" using r nb(2) by (auto simp: ring_def)
  have "ring ?q3 F ?V (Suc L) (Suc M) H R' xs"
    using r LM inj pool2 blk cells disj R'(2) unfolding ring_def im by simp
  moreover have "agree_on F q ?q3"
  proof -
    have "B a = blocks q a" if "a \<in> F" for a
    proof -
      have "a \<noteq> nb" "blocks q1 a = blocks q a" using that nb(2) pool(2) by (auto simp: agree_on_def)
      moreover have "a \<noteq> V (M - 1)" if "L \<noteq> 0"
      proof -
        have "M - L \<le> M - 1" "M - 1 < M" using that LM by linarith+
        with ring_pool(2) [OF r this] show ?thesis using \<open>a \<in> F\<close> by auto
      qed
      ultimately show ?thesis by (auto simp: B_def)
    qed
    then show ?thesis by (simp add: agree_on_def)
  qed
  ultimately show ?thesis using up link by blast
qed


section \<open>The invariant\<close>

definition producer_part :: "ExplicitProducer \<Rightarrow> (nat \<Rightarrow> ptr) \<Rightarrow> nat \<Rightarrow> nat \<Rightarrow> nat \<Rightarrow> bool" where
  "producer_part p V L H M \<longleftrightarrow> index_or_none p V L M \<and> ep_headIndex p = of_nat H \<and>
     ep_dequeueOptimisticCount p - ep_dequeueOvercommit p = of_nat H \<and> pr_blockIndexSlotsUsed p = of_nat L \<and>
     ep_tailBlock p = (if L = 0 then nullptr else V (M - 1)) \<and> 32 * M < H + 2 ^ 63 \<and> 32 * L \<le> 2 ^ 63"

text \<open>The consumers see the index up to the last block.\<close>

definition shown :: "ExplicitProducer \<Rightarrow> (nat \<Rightarrow> ptr) \<Rightarrow> nat \<Rightarrow> nat \<Rightarrow> bool" where
  "shown p V L M \<longleftrightarrow> (0 < L \<longrightarrow>
     (\<exists>k c. ring_index p k c V L M \<and> eh_front (hd (ep_blockIndex p)) = take_bit k (of_nat (M - 1 + c))))"

definition explicit_inv :: "ExplicitProducer \<Rightarrow> ('e, 'z) block_pool_scheme \<Rightarrow> ptr set \<Rightarrow> 'e list \<Rightarrow> ptr set \<Rightarrow> bool" where
  "explicit_inv p q F xs U \<longleftrightarrow>
     (\<exists>V L H M. M = (H + length xs + 31) div 32 \<and> ring q F V L M H M xs \<and> producer_part p V L H M \<and> shown p V L M \<and>
        ep_tailIndex p = of_nat (H + length xs) \<and> U = V ` {M - L..<M})"

lemma explicit_invI:
  assumes "ring q F V L M H M xs" "producer_part p V L H M" "shown p V L M" "ep_tailIndex p = of_nat (H + length xs)"
    "M = (H + length xs + 31) div 32"
  shows "\<exists>U. explicit_inv p q F xs U"
  using assms unfolding explicit_inv_def by blast

lemma producer_part_same:
  assumes "producer_part p V L H M" "same_counts p p'" "index_or_none p' V L M"
  shows "producer_part p' V L H M"
  using assms by (simp add: producer_part_def same_counts_def)

lemma index_or_noneI: "ring_index p k c V L M \<Longrightarrow> index_or_none p V L M"
  unfolding index_or_none_def by (cases "ep_blockIndex p = []") (simp add: ring_index_def index_shape_def, auto)

lemma producer_part_index:
  assumes "producer_part p V L H M" "0 < L \<or> ep_blockIndex p \<noteq> []"
  shows "\<exists>k c. ring_index p k c V L M"
  using assms by (auto simp: producer_part_def index_or_none_def split: if_splits)

lemma ring_index_tailBlock [simp]: "ring_index (p\<lparr>ep_tailBlock := a\<rparr>) k c V L M = ring_index p k c V L M"
  "ring_index (p\<lparr>pr_blockIndexSlotsUsed := n\<rparr>) k c V L M = ring_index p k c V L M"
  "ring_index (p\<lparr>ep_tailIndex := t\<rparr>) k c V L M = ring_index p k c V L M"
  by (simp_all add: ring_index_def index_shape_def slot_at_def)

lemma publish_front_ring:
  assumes "ring_index p k c V L M"
  shows "\<exists>p'. publish_front i p = Some p' \<and> ring_index p' k c V L M \<and> same_counts p p' \<and> eh_front (hd (ep_blockIndex p')) = i"
  using assms by (cases "ep_blockIndex p")
    (auto simp: publish_front_def ring_index_def index_shape_def slot_at_def same_counts_def)

text \<open>Room in the index for one more block.\<close>

lemma make_room:
  assumes r: "ring q F V L M H R xs" and p: "producer_part p V L H M" and old: "L = 0 \<or> H div 32 \<le> M - L"
  shows "\<exists>ok p1 n. (if ep_blockIndex p = [] \<or> pr_blockIndexSlotsUsed p = pr_blockIndexSize p
      then explicit_new_block_index mem e (p, q) else Some (True, p, q)) = Some (ok, p1, q\<lparr>allocations := n\<rparr>) \<and>
    (if ok then producer_part p1 V L H M \<and> same_counts p p1 \<and> (\<exists>k c. ring_index p1 k c V L M \<and> L < 2 ^ k) \<and>
       (p1 = p \<or> eh_front (hd (ep_blockIndex p1)) = e - 1 \<and> pr_blockIndexFront p1 = of_nat L)
     else p1 = p)"
proof (cases "ep_blockIndex p = [] \<or> pr_blockIndexSlotsUsed p = pr_blockIndexSize p")
  case True
  have M: "32 * M < H + 2 ^ 63" "L \<le> M" "M - L \<le> H div 32" "pr_blockIndexSlotsUsed p = of_nat L" "index_or_none p V L M"
    using r p by (simp_all add: ring_def producer_part_def)
  then have "L < 2 ^ 59" using old by (cases "L = 0") simp_all
  from explicit_new_block_index_ring [OF M(5,4,2) this True, of mem e q] obtain ok p1 n where
    n: "explicit_new_block_index mem e (p, q) = Some (ok, p1, q\<lparr>allocations := n\<rparr>)"
      "if ok then (\<exists>k' c'. ring_index p1 k' c' V L M \<and> L < 2 ^ k') \<and> same_counts p p1 \<and> eh_front (hd (ep_blockIndex p1)) = e - 1 \<and>
         pr_blockIndexFront p1 = of_nat L
       else p1 = p" by blast
  moreover from this have "ok \<Longrightarrow> producer_part p1 V L H M" using producer_part_same [OF p] index_or_noneI by fastforce
  ultimately show ?thesis using True by (intro exI [of _ ok] exI [of _ p1] exI [of _ n]) auto
next
  case False
  with producer_part_index [OF p] obtain k c where k: "ring_index p k c V L M" by blast
  then have "pr_blockIndexSize p = 2 ^ k" "k \<le> 63" "L \<le> 2 ^ k" by (simp_all add: ring_index_def index_shape_def)
  moreover have "pr_blockIndexSlotsUsed p = of_nat L" using p by (simp add: producer_part_def)
  ultimately have "L < 2 ^ k" using False u64_pow2_eq [of k L] by auto
  with False k p show ?thesis by (intro exI [of _ True] exI [of _ p] exI [of _ "allocations q"]) auto
qed

lemma shown_grown:
  assumes "ring_index p k c V L M" "eh_front (hd (ep_blockIndex p)) = of_nat L - 1" "pr_blockIndexFront p = of_nat L" "L \<le> 2 ^ k" "L \<le> M"
  shows "shown p V L M"
  unfolding shown_def
proof (intro impI exI conjI)
  assume L: "0 < L"
  have k: "k \<le> 63" "pr_blockIndexFront p = take_bit k (of_nat (M + c))" using assms(1) by (simp_all add: ring_index_def index_shape_def)
  have "(2 :: nat) ^ k < 2 ^ 64" using k(1) power_strict_increasing [of k 64 "2 :: nat"] by simp
  then have u: "unat (of_nat (L - 1) :: u64) = L - 1" using assms(4) by (intro unat64_of_nat) simp
  have "(of_nat (M - 1 + c) :: u64) = of_nat (M + c - 1)" using L assms(5) by simp
  also have "\<dots> = of_nat (M + c) - 1" using L assms(5) by (simp only: of_nat_diff) simp
  finally have "take_bit k (of_nat (M - 1 + c)) = (take_bit k (of_nat L - 1) :: u64)"
    using take_bit_absorb(2) [of k "of_nat (M + c)" 1] k(2) assms(3) by metis
  also have "\<dots> = take_bit k (of_nat (L - 1))" using L by (simp add: of_nat_diff)
  also have "\<dots> = of_nat (L - 1)"
    using u L assms(4) place_nat [OF k(1), of "L - 1"] by (simp add: word_unat_eq_iff)
  finally show "eh_front (hd (ep_blockIndex p)) = take_bit k (of_nat (M - 1 + c))"
    using assms(2) L by (simp add: of_nat_diff)
qed (rule assms(1))

text \<open>The next block, from the pool.\<close>

lemma new_block_step:
  assumes r: "ring q F V L M H R xs" and p: "producer_part p V L H M" and k: "ring_index p k c V L M" "L < 2 ^ k"
    and room: "32 * Suc M < H + 2 ^ 63" and old: "L = 0 \<or> H div 32 \<le> M - L"
    and f: "\<And>b. f b = b\<lparr>emptyFlags := flags H R' M\<rparr>" and R': "R \<le> R'" "R' \<le> Suc M" "R' \<noteq> R \<longrightarrow> R = M"
  shows "\<exists>nb q2. requisition_block mem m q = Some (nb, q2) \<and> agree_on F q q2 \<and>
    (if nb = nullptr then ring q2 F V L M H R xs
     else \<exists>q3 q4 p4. update_block nb f q2 = Some q3 \<and>
       link_block nb (p, q3) = Some (p\<lparr>ep_tailBlock := nb, pr_blockIndexSlotsUsed := pr_blockIndexSlotsUsed p + 1\<rparr>, q4) \<and>
       put_entry (of_nat (32 * M)) (p\<lparr>ep_tailBlock := nb, pr_blockIndexSlotsUsed := pr_blockIndexSlotsUsed p + 1\<rparr>) = Some p4 \<and>
       ring q4 F (V(M := nb)) (Suc L) (Suc M) H R' xs \<and> producer_part p4 (V(M := nb)) (Suc L) H (Suc M) \<and>
       ring_index p4 k c (V(M := nb)) (Suc L) (Suc M) \<and>
       agree_on F q q4 \<and> ep_tailIndex p4 = ep_tailIndex p \<and> ep_inactive p4 = ep_inactive p)"
proof -
  let ?W = "V ` {M - L..<M}"
  from r obtain fs where fs: "pool_inv q fs (?W \<union> F)" by (auto simp: ring_def)
  from requisition_block_inv [OF this, of mem m] obtain nb q2 where
    q2: "requisition_block mem m q = Some (nb, q2)" "agree_on (?W \<union> F) q q2"
    "if nb = nullptr then blocks q2 = blocks q \<and> pool_inv q2 fs (?W \<union> F)
     else nb \<notin> ?W \<union> F \<and> (\<exists>fs'. pool_inv q2 fs' (insert nb (?W \<union> F)))" by blast
  have fr: "agree_on F q q2" using q2(2) by (simp add: agree_on_def)
  show ?thesis
  proof (cases "nb = nullptr")
    case True
    then have "ring q2 F V L M H R xs" using r q2(3) unfolding ring_def cell_def by auto
    with True q2(1) fr show ?thesis by auto
  next
    case False
    then obtain fs' where nb: "nb \<notin> ?W \<union> F" "pool_inv q2 fs' (insert nb (?W \<union> F))" using q2(3) by auto
    have tail: "ep_tailBlock p = (if L = 0 then nullptr else V (M - 1))" using p by (simp add: producer_part_def)
    from ring_add [OF r False nb q2(2) tail f R'] obtain q3 q4 where st: "update_block nb f q2 = Some q3"
      "link_block nb (p, q3) = Some (p\<lparr>ep_tailBlock := nb, pr_blockIndexSlotsUsed := pr_blockIndexSlotsUsed p + 1\<rparr>, q4)"
      "ring q4 F (V(M := nb)) (Suc L) (Suc M) H R' xs" "agree_on F q q4" by blast
    let ?p = "p\<lparr>ep_tailBlock := nb, pr_blockIndexSlotsUsed := pr_blockIndexSlotsUsed p + 1\<rparr>"
    have "ring_index ?p k c V L M" using k(1) by simp
    from put_entry_ring [OF this, of "Suc L" "V(M := nb)"] k(2) obtain p4 where p4:
      "put_entry (of_nat (32 * M)) ?p = Some p4" "ring_index p4 k c (V(M := nb)) (Suc L) (Suc M)" "same_counts ?p p4" by auto
    have "32 * Suc L \<le> 2 ^ 63" using old room r by (auto simp: ring_def)
    then have "producer_part p4 (V(M := nb)) (Suc L) H (Suc M)"
      using p4(3) p room index_or_noneI [OF p4(2)] by (simp add: producer_part_def same_counts_def)
    with st p4 q2(1) fr False show ?thesis by (auto simp: same_counts_def)
  qed
qed

text \<open>The next block, from the ring.\<close>

lemma reuse_step:
  assumes r: "ring q F V L M H R xs" and p: "producer_part p V L H M" and L: "0 < L" "M - L < H div 32"
    and room: "32 * Suc M < H + 2 ^ 63" and k: "ring_index p k c V L M"
  shows "\<exists>p'. put_entry (of_nat (32 * M)) (p\<lparr>ep_tailBlock := V (M - L)\<rparr>) = Some p' \<and>
    ring q F (V(M := V (M - L))) L (Suc M) H R xs \<and> producer_part p' (V(M := V (M - L))) L H (Suc M) \<and>
    ring_index p' k c (V(M := V (M - L))) L (Suc M) \<and> ep_tailIndex p' = ep_tailIndex p \<and> ep_inactive p' = ep_inactive p"
proof -
  let ?p = "p\<lparr>ep_tailBlock := V (M - L)\<rparr>"
  have "ring_index ?p k c V L M" "L \<le> 2 ^ k" "M - L \<le> Suc M - L" using k by (simp, simp add: ring_index_def, simp)
  from put_entry_ring [OF this, of "V(M := V (M - L))"] obtain p' where p':
    "put_entry (of_nat (32 * M)) ?p = Some p'" "ring_index p' k c (V(M := V (M - L))) L (Suc M)" "same_counts ?p p'" by auto
  have "producer_part p' (V(M := V (M - L))) L H (Suc M)"
    using p'(3) p room L index_or_noneI [OF p'(2)] by (simp add: producer_part_def same_counts_def)
  with p' ring_reuse(1) [OF r L] show ?thesis by (auto simp: same_counts_def)
qed

end
