(* ===== verification/Explicit_Steps.thy ===== *)
theory Explicit_Steps
  imports Explicit_Stream
begin

text \<open>Starting a block and enqueueing one element.\<close>

lemma explicit_room:
  assumes "producer_part p V L H M" "H \<le> 32 * M"
  shows "\<not> circular_less_than (of_nat (32 * M)) (ep_headIndex p)"
    and "32 * Suc M < H + 2 ^ 63 \<Longrightarrow> \<not> sub_queue_full (ep_headIndex p) (of_nat (32 * M))"
proof -
  have h: "ep_headIndex p = of_nat H" "32 * M < H + 2 ^ 63" using assms(1) by (simp_all add: producer_part_def)
  show "\<not> circular_less_than (of_nat (32 * M)) (ep_headIndex p)"
    unfolding h(1) by (rule not_circular_less_than_of_nat [OF assms(2) h(2)])
  assume room: "32 * Suc M < H + 2 ^ 63"
  have "circular_less_than (of_nat H) (of_nat (32 * Suc M))"
    using circular_less_than_of_nat [of H "32 * Suc M"] assms(2) room by simp
  moreover have "(of_nat (32 * M) :: u64) + of_nat BLOCK_SIZE = of_nat (32 * Suc M)" by (simp add: BLOCK_SIZE_def)
  ultimately show "\<not> sub_queue_full (ep_headIndex p) (of_nat (32 * M))"
    unfolding sub_queue_full_def h(1) MAX_SUBQUEUE_SIZE_def by (simp add: add.commute)
qed

text \<open>The result of starting block \<open>M\<close>.\<close>

definition started ::
  "bool \<Rightarrow> ExplicitProducer \<Rightarrow> ('e, 'z) block_pool_scheme \<Rightarrow> ptr set \<Rightarrow> nat \<Rightarrow> nat \<Rightarrow> 'e list \<Rightarrow> bool" where
  "started ok p q F H M xs \<longleftrightarrow>
     (\<exists>V L. ring q F V L (if ok then Suc M else M) H (if ok then Suc M else M) xs \<and>
        producer_part p V L H (if ok then Suc M else M) \<and> shown p V L (if ok then Suc M else M))"

lemma publish_step:
  assumes p: "producer_part p V L H (Suc M)" "ring_index p k c V L (Suc M)" and r: "ring q F V L (Suc M) H (Suc M) xs"
  shows "\<exists>p'. publish_front (take_bit k (of_nat (M + c))) p = Some p' \<and> started True p' q F H M xs \<and>
    ep_tailIndex p' = ep_tailIndex p \<and> ep_inactive p' = ep_inactive p"
proof -
  from publish_front_ring [OF p(2)] obtain p' where p': "publish_front (take_bit k (of_nat (M + c))) p = Some p'"
    "ring_index p' k c V L (Suc M)" "same_counts p p'" "eh_front (hd (ep_blockIndex p')) = take_bit k (of_nat (M + c))" by blast
  have "producer_part p' V L H (Suc M)" using producer_part_same [OF p(1) p'(3)] index_or_noneI [OF p'(2)] by blast
  moreover have "shown p' V L (Suc M)" unfolding shown_def using p'(2,4) by (intro impI exI conjI) simp_all
  ultimately have "started True p' q F H M xs" using r unfolding started_def if_True by blast
  then show ?thesis using p'(1,3) by (auto simp: same_counts_def)
qed

text \<open>A new block, or none.\<close>

definition inserted ::
  "bool \<Rightarrow> ExplicitProducer \<Rightarrow> ('e, 'z) block_pool_scheme \<Rightarrow> ptr set \<Rightarrow> nat \<Rightarrow> nat \<Rightarrow> 'e list \<Rightarrow> bool" where
  "inserted ok p q F H M xs \<longleftrightarrow>
     (if ok then \<exists>V L p2 k c. ring q F V L (Suc M) H (Suc M) xs \<and> put_entry (of_nat (32 * M)) p = Some p2 \<and>
        producer_part p2 V L H (Suc M) \<and> ring_index p2 k c V L (Suc M) \<and> pr_blockIndexFront p = take_bit k (of_nat (M + c)) \<and>
        ep_tailIndex p2 = ep_tailIndex p \<and> ep_inactive p2 = ep_inactive p
      else started False p q F H M xs)"

lemma insert_block_inv:
  assumes r: "ring q F V L M H M xs" and p: "producer_part p V L H M" "shown p V L M"
    and le: "H \<le> 32 * M" and room: "32 * Suc M < H + 2 ^ 63" and old: "L = 0 \<or> H div 32 \<le> M - L"
  shows "\<exists>ok p' q'. insert_block mem m (p, q) = Some (ok, p', q') \<and> inserted ok p' q' F H M xs \<and> agree_on F q q' \<and>
    ep_tailIndex p' = ep_tailIndex p \<and> ep_inactive p' = ep_inactive p"
proof -
  let ?need = "ep_blockIndex p = [] \<or> pr_blockIndexSlotsUsed p = pr_blockIndexSize p"
  have LM: "L \<le> M" "pr_blockIndexSlotsUsed p = of_nat L" using r p(1) by (simp_all add: ring_def producer_part_def)
  from make_room [OF r p(1) old, of mem "pr_blockIndexSlotsUsed p"] obtain ok p1 n where
    rm: "(if ?need then explicit_new_block_index mem (pr_blockIndexSlotsUsed p) (p, q) else Some (True, p, q)) = Some (ok, p1, q\<lparr>allocations := n\<rparr>)"
    "if ok then producer_part p1 V L H M \<and> same_counts p p1 \<and> (\<exists>k c. ring_index p1 k c V L M \<and> L < 2 ^ k) \<and>
       (p1 = p \<or> eh_front (hd (ep_blockIndex p1)) = pr_blockIndexSlotsUsed p - 1 \<and> pr_blockIndexFront p1 = of_nat L)
     else p1 = p" by blast
  have failed: "inserted False p' q' F H M xs" if "ring q' F V L M H M xs" "producer_part p' V L H M" "shown p' V L M" for p' q'
    using that unfolding inserted_def started_def by auto
  show ?thesis
  proof (cases "ok \<and> \<not> (m = CannotAlloc \<and> ?need)")
    case False
    have "\<exists>n'. insert_block mem m (p, q) = Some (False, p, q\<lparr>allocations := n'\<rparr>)"
    proof (cases "m = CannotAlloc \<and> ?need")
      case True
      then show ?thesis by (intro exI [of _ "allocations q"]) (simp add: insert_block_def)
    next
      case no: False
      then have "\<not> ok" "p1 = p" using False rm(2) by auto
      moreover from this rm(1) have need: ?need by (auto split: if_splits)
      ultimately have "explicit_new_block_index mem (pr_blockIndexSlotsUsed p) (p, q) = Some (False, p, q\<lparr>allocations := n\<rparr>)"
        using rm(1) by simp
      then show ?thesis using no need by (intro exI [of _ n]) (simp add: insert_block_def)
    qed
    then obtain n' where "insert_block mem m (p, q) = Some (False, p, q\<lparr>allocations := n'\<rparr>)" by blast
    moreover have "inserted False p (q\<lparr>allocations := n'\<rparr>) F H M xs" using r p by (intro failed) simp_all
    ultimately show ?thesis by (auto simp: agree_on_def)
  next
    case True
    then have p1: "producer_part p1 V L H M" "same_counts p p1"
      "p1 = p \<or> eh_front (hd (ep_blockIndex p1)) = pr_blockIndexSlotsUsed p - 1 \<and> pr_blockIndexFront p1 = of_nat L"
      using rm(2) by auto
    from True rm(2) obtain k c where k: "ring_index p1 k c V L M" "L < 2 ^ k" by auto
    have sh: "shown p1 V L M" using p1(3) p(2) shown_grown [OF k(1)] k(2) LM by auto
    have r1: "ring (q\<lparr>allocations := n\<rparr>) F V L M H M xs" using r by simp
    have clear: "reset_empty explicit_context b = b\<lparr>emptyFlags := flags H (Suc M) M\<rparr>" for b :: "'a Block"
      using flags_replicate(1) [OF le] by (simp add: reset_explicit)
    let ?p1 = "\<lambda>nb. p1\<lparr>ep_tailBlock := nb, pr_blockIndexSlotsUsed := pr_blockIndexSlotsUsed p1 + 1\<rparr>"
    from new_block_step [OF r1 p1(1) k room old clear, where mem = mem and m = m] obtain nb q2 where
      nb: "requisition_block mem m (q\<lparr>allocations := n\<rparr>) = Some (nb, q2)" "agree_on F (q\<lparr>allocations := n\<rparr>) q2"
      "if nb = nullptr then ring q2 F V L M H M xs
       else \<exists>q3 q4 p4. update_block nb (reset_empty explicit_context) q2 = Some q3 \<and> link_block nb (p1, q3) = Some (?p1 nb, q4) \<and>
         put_entry (of_nat (32 * M)) (?p1 nb) = Some p4 \<and>
         ring q4 F (V(M := nb)) (Suc L) (Suc M) H (Suc M) xs \<and> producer_part p4 (V(M := nb)) (Suc L) H (Suc M) \<and>
         ring_index p4 k c (V(M := nb)) (Suc L) (Suc M) \<and>
         agree_on F (q\<lparr>allocations := n\<rparr>) q4 \<and> ep_tailIndex p4 = ep_tailIndex p1 \<and> ep_inactive p4 = ep_inactive p1"
      by auto
    have eq: "insert_block mem m (p, q) =
        (if nb = nullptr then Some (False, p1, q2)
         else do {
           q3 \<leftarrow> update_block nb (reset_empty explicit_context) q2;
           (p2, q4) \<leftarrow> link_block nb (p1, q3);
           Some (True, p2, q4)
         })"
      using True rm(1) nb(1) unfolding insert_block_def by (auto split: if_splits)
    have counts: "ep_tailIndex p1 = ep_tailIndex p" "ep_inactive p1 = ep_inactive p" using p1(2) by (simp_all add: same_counts_def)
    show ?thesis
    proof (cases "nb = nullptr")
      case True
      with nb(3) have "inserted False p1 q2 F H M xs" using p1(1) sh by (intro failed) simp_all
      with eq True nb(2) counts show ?thesis by (auto simp: agree_on_def)
    next
      case False
      with nb(3) obtain q3 q4 p4 where st: "update_block nb (reset_empty explicit_context) q2 = Some q3" "link_block nb (p1, q3) = Some (?p1 nb, q4)"
        "put_entry (of_nat (32 * M)) (?p1 nb) = Some p4"
        "ring q4 F (V(M := nb)) (Suc L) (Suc M) H (Suc M) xs" "producer_part p4 (V(M := nb)) (Suc L) H (Suc M)"
        "ring_index p4 k c (V(M := nb)) (Suc L) (Suc M)" "agree_on F (q\<lparr>allocations := n\<rparr>) q4"
        "ep_tailIndex p4 = ep_tailIndex p1" "ep_inactive p4 = ep_inactive p1" by auto
      have "pr_blockIndexFront p1 = take_bit k (of_nat (M + c))" using k by (simp add: ring_index_def)
      then have "inserted True (?p1 nb) q4 F H M xs"
        unfolding inserted_def if_True using st(3-6,8,9)
        by (intro exI [of _ "V(M := nb)"] exI [of _ "Suc L"] exI [of _ p4] exI [of _ k] exI [of _ c]) simp
      with eq False st(1,2,7) counts show ?thesis by (auto simp: agree_on_def)
    qed
  qed
qed

lemma start_block_inv:
  assumes r: "ring q F V L M H M xs" and p: "producer_part p V L H M" "shown p V L M" and T: "ep_tailIndex p = of_nat (32 * M)"
    and le: "H \<le> 32 * M" and room: "32 * Suc M < H + 2 ^ 63"
  shows "\<exists>ok p' q'. start_block mem m (p, q) = Some (ok, p', q') \<and> started ok p' q' F H M xs \<and> agree_on F q q' \<and>
    ep_tailIndex p' = ep_tailIndex p \<and> ep_inactive p' = ep_inactive p"
proof -
  have LM: "L \<le> M" using r by (simp add: ring_def)
  note full = explicit_room [OF p(1) le]
  have tail: "ep_tailBlock p = (if L = 0 then nullptr else V (M - 1))" using p(1) by (simp add: producer_part_def)
  have nz: "V (M - 1) \<noteq> nullptr" if "L \<noteq> 0"
  proof -
    have "M - L \<le> M - 1" "M - 1 < M" using that LM by auto
    then show ?thesis by (rule ring_pool(1) [OF r])
  qed
  have ahead: "(if ep_tailBlock p \<noteq> nullptr then block_ahead (ep_tailBlock p) q else Some None) =
      Some (if L \<noteq> 0 \<and> M - L < H div 32 then Some (V (M - L)) else None)"
    using ring_ahead(1) [OF r] tail nz LM by (cases "L = 0") simp_all
  show ?thesis
  proof (cases "L \<noteq> 0 \<and> M - L < H div 32")
    case True
    then have L: "0 < L" "M - L < H div 32" by auto
    from producer_part_index [OF p(1)] L obtain k c where k: "ring_index p k c V L M" by blast
    from reuse_step [OF r p(1) L room k] obtain p1 where p1:
      "put_entry (of_nat (32 * M)) (p\<lparr>ep_tailBlock := V (M - L)\<rparr>) = Some p1" "ring q F (V(M := V (M - L))) L (Suc M) H M xs"
      "producer_part p1 (V(M := V (M - L))) L H (Suc M)" "ring_index p1 k c (V(M := V (M - L))) L (Suc M)"
      "ep_tailIndex p1 = ep_tailIndex p" "ep_inactive p1 = ep_inactive p" by blast
    have "Suc M - L \<le> M" using L(1) by simp
    from ring_reset [OF p1(2) lessI this le] obtain q1 where q1: "update_block (V (M - L)) (reset_empty explicit_context) q = Some q1"
      "ring q1 F (V(M := V (M - L))) L (Suc M) H (Suc M) xs" "agree_on F q q1" by auto
    from publish_step [OF p1(3,4) q1(2)] obtain p2 where p2: "publish_front (take_bit k (of_nat (M + c))) p1 = Some p2"
      "started True p2 q1 F H M xs" "ep_tailIndex p2 = ep_tailIndex p1" "ep_inactive p2 = ep_inactive p1" by blast
    have "pr_blockIndexFront p = take_bit k (of_nat (M + c))" using k by (simp add: ring_index_def)
    then have "start_block mem m (p, q) = Some (True, p2, q1)"
      unfolding start_block_def Let_def split_conv ahead if_P [OF True] using q1(1) p1(1) p2(1) T by simp
    with p2(2-4) p1(5,6) q1(3) show ?thesis by auto
  next
    case False
    then have old: "L = 0 \<or> H div 32 \<le> M - L" by auto
    from insert_block_inv [OF r p le room old, of mem m] obtain ok p1 q1 where
      i: "insert_block mem m (p, q) = Some (ok, p1, q1)" "inserted ok p1 q1 F H M xs" "agree_on F q q1"
        "ep_tailIndex p1 = ep_tailIndex p" "ep_inactive p1 = ep_inactive p" by blast
    have eq: "start_block mem m (p, q) =
        (if \<not> ok then Some (False, p1, q1)
         else do { p2 \<leftarrow> put_entry (of_nat (32 * M)) p1; p3 \<leftarrow> publish_front (pr_blockIndexFront p1) p2; Some (True, p3, q1) })"
      unfolding start_block_def Let_def split_conv ahead if_not_P [OF False] T using full room i(1) by simp
    show ?thesis
    proof (cases ok)
      case True
      with i(2) obtain V1 L1 p2 k c where st: "ring q1 F V1 L1 (Suc M) H (Suc M) xs" "put_entry (of_nat (32 * M)) p1 = Some p2"
        "producer_part p2 V1 L1 H (Suc M)" "ring_index p2 k c V1 L1 (Suc M)" "pr_blockIndexFront p1 = take_bit k (of_nat (M + c))"
        "ep_tailIndex p2 = ep_tailIndex p1" "ep_inactive p2 = ep_inactive p1"
        unfolding inserted_def by auto
      from publish_step [OF st(3,4,1)] obtain p3 where "publish_front (take_bit k (of_nat (M + c))) p2 = Some p3"
        "started True p3 q1 F H M xs" "ep_tailIndex p3 = ep_tailIndex p2" "ep_inactive p3 = ep_inactive p2" by blast
      with eq True st i(3-5) show ?thesis by auto
    next
      case False
      with eq i show ?thesis by (auto simp: inserted_def)
    qed
  qed
qed

lemma explicit_enqueue_inv:
  assumes "explicit_inv p q F xs U" "length xs + 32 < 2 ^ 63"
  shows "\<exists>ok p' q' U'. explicit_enqueue mem m x (p, q) = Some (ok, p', q') \<and>
    explicit_inv p' q' F (if ok then xs @ [x] else xs) U' \<and> agree_on F q q' \<and> ep_inactive p' = ep_inactive p"
proof -
  from assms(1) obtain V L H M where M: "M = (H + length xs + 31) div 32" and r: "ring q F V L M H M xs"
    and p: "producer_part p V L H M" "shown p V L M" and t: "ep_tailIndex p = of_nat (H + length xs)"
    unfolding explicit_inv_def by blast
  define T where "T = H + length xs"
  have al: "(of_nat T :: u64) AND of_nat (BLOCK_SIZE - 1) = 0 \<longleftrightarrow> T mod 32 = 0" by (rule aligned_of_nat)
  have put: "\<exists>q2 U'. construct (ep_tailBlock p1) (of_nat T) x q1 = Some q2 \<and>
      explicit_inv (p1\<lparr>ep_tailIndex := 1 + of_nat T\<rparr>) q2 F (xs @ [x]) U' \<and> agree_on F q1 q2"
    if "ring q1 F V1 L1 M1 H M1 xs" "producer_part p1 V1 L1 H M1" "shown p1 V1 L1 M1" "M1 = Suc (T div 32)" for p1 q1 V1 L1 M1
  proof -
    have lt: "H + length xs < 32 * M1" unfolding that(4) T_def [symmetric] by (rule ceil_block(5))
    have "L1 \<noteq> 0" using that(1,4) div_le_mono [of H T 32] by (auto simp: ring_def T_def)
    then have tb: "ep_tailBlock p1 = V1 (T div 32)" using that(2,4) by (simp add: producer_part_def)
    from ring_construct [OF that(1) lt, of x] obtain q2 where q2: "construct (V1 (T div 32)) (of_nat T) x q1 = Some q2"
      "ring q2 F V1 L1 M1 H M1 (xs @ [x])" "agree_on F q1 q2" unfolding T_def by blast
    have "\<exists>U'. explicit_inv (p1\<lparr>ep_tailIndex := 1 + of_nat T\<rparr>) q2 F (xs @ [x]) U'"
    proof (rule explicit_invI [OF q2(2)])
      show "producer_part (p1\<lparr>ep_tailIndex := 1 + of_nat T\<rparr>) V1 L1 H M1"
        using that(2) by (simp add: producer_part_def index_or_none_def)
      show "shown (p1\<lparr>ep_tailIndex := 1 + of_nat T\<rparr>) V1 L1 M1" using that(3) by (simp add: shown_def)
      show "M1 = (H + length (xs @ [x]) + 31) div 32" using ceil_block(3) [of T] that(4) by (simp add: T_def)
    qed (simp add: T_def)
    with q2(1,3) tb show ?thesis by auto
  qed
  show ?thesis
  proof (cases "T mod 32 = 0")
    case False
    then have "M = Suc (T div 32)" using ceil_block(1) [OF False] by (simp add: M T_def)
    from put [OF r p this] obtain q2 U' where q2: "construct (ep_tailBlock p) (of_nat T) x q = Some q2"
      "explicit_inv (p\<lparr>ep_tailIndex := 1 + of_nat T\<rparr>) q2 F (xs @ [x]) U'" "agree_on F q q2" by blast
    then have "explicit_enqueue mem m x (p, q) = Some (True, p\<lparr>ep_tailIndex := 1 + of_nat T\<rparr>, q2)"
      using False al t by (simp add: explicit_enqueue_def Let_def T_def)
    with q2 show ?thesis by auto
  next
    case True
    then have T: "T = 32 * M" "T div 32 = M" using M ceil_block(2) [OF True] by (auto simp: T_def elim!: dvdE)
    then have pre: "ep_tailIndex p = of_nat (32 * M)" "H \<le> 32 * M" "32 * Suc M < H + 2 ^ 63"
      using t assms(2) by (auto simp: T_def)
    from start_block_inv [OF r p pre, of mem m] obtain ok p1 q1 where s: "start_block mem m (p, q) = Some (ok, p1, q1)"
      "started ok p1 q1 F H M xs" "agree_on F q q1" "ep_tailIndex p1 = ep_tailIndex p" "ep_inactive p1 = ep_inactive p" by blast
    have eq: "explicit_enqueue mem m x (p, q) =
        (if \<not> ok then Some (False, p1, q1)
         else do {
           q2 \<leftarrow> construct (ep_tailBlock p1) (of_nat T) x q1;
           Some (True, p1\<lparr>ep_tailIndex := 1 + of_nat T\<rparr>, q2)
         })"
      using True al t s(1) by (simp add: explicit_enqueue_def Let_def T_def)
    show ?thesis
    proof (cases ok)
      case False
      with s(2) obtain V1 L1 where "ring q1 F V1 L1 M H M xs" "producer_part p1 V1 L1 H M" "shown p1 V1 L1 M"
        by (auto simp: started_def)
      then have "\<exists>U'. explicit_inv p1 q1 F xs U'" by (rule explicit_invI) (use s(4) t M in simp_all)
      with eq False s(3,5) show ?thesis by auto
    next
      case ok: True
      with s(2) obtain V1 L1 where v: "ring q1 F V1 L1 (Suc M) H (Suc M) xs" "producer_part p1 V1 L1 H (Suc M)" "shown p1 V1 L1 (Suc M)"
        by (auto simp: started_def)
      from put [OF v] T(2) obtain q2 U' where "construct (ep_tailBlock p1) (of_nat T) x q1 = Some q2"
        "explicit_inv (p1\<lparr>ep_tailIndex := 1 + of_nat T\<rparr>) q2 F (xs @ [x]) U'" "agree_on F q1 q2" by auto
      with eq ok s(3,5) show ?thesis by (auto simp: agree_on_def)
    qed
  qed
qed

end
