(* ===== verification/Explicit_Take.thy ===== *)
theory Explicit_Take
  imports Explicit_Steps
begin

text \<open>Dequeueing from an explicit producer, one element or many: the blocks stay in the ring, with their flags set.\<close>

section \<open>Flags\<close>

lemma flags_nth: "j < 32 \<Longrightarrow> flags H R b ! j \<longleftrightarrow> 32 * b + (31 - j) < H \<or> R \<le> b"
  by (simp add: flags_def rev_nth)

lemma set_flags_range:
  assumes "i + cnt \<le> length fs" "\<forall>j < cnt. \<not> fs ! (i + j)"
  shows "\<exists>fs'. set_flags i cnt fs = Some fs' \<and> length fs' = length fs \<and>
    (\<forall>j < length fs. fs' ! j \<longleftrightarrow> fs ! j \<or> i \<le> j \<and> j < i + cnt)"
  using assms
proof (induction cnt arbitrary: i fs)
  case (Suc cnt)
  have i: "i < length fs" "\<not> fs ! i" using Suc.prems(1) Suc.prems(2) [rule_format, of 0] by auto
  have "\<not> fs[i := True] ! (Suc i + j)" if "j < cnt" for j using Suc.prems(2) [rule_format, of "Suc j"] that by simp
  with Suc.IH [of "Suc i" "fs[i := True]"] Suc.prems(1) obtain fs' where
    fs': "set_flags (Suc i) cnt (fs[i := True]) = Some fs'" "length fs' = length fs"
      "\<forall>j < length fs. fs' ! j \<longleftrightarrow> fs[i := True] ! j \<or> Suc i \<le> j \<and> j < Suc i + cnt" by auto
  have "fs' ! j \<longleftrightarrow> fs ! j \<or> i \<le> j \<and> j < i + Suc cnt" if "j < length fs" for j
    using fs'(3) that by (cases "j = i") auto
  with fs' i show ?case by auto
qed auto

lemma explicit_uses_flags [simp]: "uses_flags explicit_context"
  by (simp add: uses_flags_def BLOCK_SIZE_def EXPLICIT_BLOCK_EMPTY_COUNTER_THRESHOLD_def)

lemma set_many_empty_flags:
  assumes "emptyFlags blk = flags H R (H div 32)" "H div 32 < R" "H mod 32 + m \<le> 32"
  shows "set_many_empty explicit_context (of_nat H) (of_nat m) blk = Some (False, blk\<lparr>emptyFlags := flags (H + m) R (H div 32)\<rparr>)"
proof -
  let ?h = "H mod 32" and ?b = "H div 32"
  have h: "?h < 32" "H = 32 * ?b + ?h" by simp_all
  have "(of_nat (31 - ?h) :: u64) - of_nat m + 1 = of_nat (32 - ?h - m)"
    using assms(3) h(1) by (simp add: of_nat_diff)
  moreover have "unat (of_nat (32 - ?h - m) :: u64) = 32 - ?h - m" by (intro unat64_of_nat) simp
  ultimately have start: "unat ((of_nat (flag_of (of_nat H)) :: u64) - of_nat m + 1) = 32 - ?h - m"
    by (simp only: flag_of_def slot_of_nat BLOCK_SIZE_def) simp
  have cnt: "unat (of_nat m :: u64) = m" using assms(3) by (intro unat64_of_nat) simp
  have len: "length (flags H R ?b) = 32" "length (flags (H + m) R ?b) = 32" by (simp_all add: flags_def)
  have "\<not> flags H R ?b ! (32 - ?h - m + j)" if "j < m" for j
    using that assms(2,3) h by (subst flags_nth) auto
  with set_flags_range [of "32 - ?h - m" m "flags H R ?b"] assms(3) len obtain fs where
    fs: "set_flags (32 - ?h - m) m (flags H R ?b) = Some fs" "length fs = 32"
      "\<forall>j < 32. fs ! j \<longleftrightarrow> flags H R ?b ! j \<or> 32 - ?h - m \<le> j \<and> j < 32 - ?h - m + m" by auto
  have "fs = flags (H + m) R ?b"
  proof (rule nth_equalityI)
    fix j assume j: "j < length fs"
    then have "fs ! j \<longleftrightarrow> (32 * ?b + (31 - j) < H \<or> R \<le> ?b) \<or> 32 - ?h - m \<le> j \<and> j < 32 - ?h - m + m"
      using fs(2,3) flags_nth by auto
    also have "\<dots> \<longleftrightarrow> 32 * ?b + (31 - j) < H + m \<or> R \<le> ?b" using j fs(2) h assms(2,3) by arith
    finally show "fs ! j = flags (H + m) R ?b ! j" using j fs(2) flags_nth by simp
  qed (simp add: fs(2) len)
  with fs(1) start cnt assms(1) show ?thesis by (simp add: set_many_empty_def)
qed

lemma flags_other:
  assumes "b \<noteq> H div 32" "H mod 32 + m \<le> 32"
  shows "flags (H + m) R b = flags H R b"
proof -
  have "32 * b + s < H + m \<longleftrightarrow> 32 * b + s < H" if "s < 32" for s
  proof (cases "b < H div 32")
    case True
    then have "32 * b + 32 \<le> 32 * (H div 32)" by simp
    then show ?thesis using that mult_div_mod_eq [of 32 H] by linarith
  next
    case False
    then have "32 * (H div 32) + 32 \<le> 32 * b" using assms(1) by simp
    then show ?thesis using assms(2) mult_div_mod_eq [of 32 H] by linarith
  qed
  then show ?thesis by (simp add: flags_def)
qed

section \<open>The elements of one block\<close>

lemma pops_rest [simp]: "emptyFlags (pops H m blk) = emptyFlags blk" "next_block (pops H m blk) = next_block blk"
  by (induction m arbitrary: H blk) (simp_all add: popped_def)

lemma pops_other:
  "H mod 32 + m \<le> 32 \<Longrightarrow> H mod 32 + m \<le> j \<Longrightarrow> elements (pops H m blk) ! j = elements blk ! j"
proof (induction m arbitrary: H blk)
  case (Suc m)
  then have p: "elements (popped H blk) ! j = elements blk ! j" by (simp add: popped_def)
  show ?case
  proof (cases m)
    case 0
    with p show ?thesis by simp
  next
    case (Suc m')
    then have "Suc H mod 32 = Suc (H mod 32)" using Suc.prems(1) by (simp add: mod_Suc)
    with Suc.IH [of "Suc H" "popped H blk"] Suc.prems p show ?thesis by simp
  qed
qed simp

lemma ring_take:
  assumes r: "ring q F V L M H R (xs @ ys)" and R: "H div 32 < R" and m: "H mod 32 + length xs \<le> 32"
  shows "\<exists>q1 b1 b2 q2. take_elements (V (H div 32)) (of_nat H) (of_nat (H + length xs)) q = Some (xs, q1) \<and>
    blocks q1 (V (H div 32)) = Some b1 \<and> set_many_empty explicit_context (of_nat H) (of_nat (length xs)) b1 = Some (False, b2) \<and>
    update_block (V (H div 32)) (\<lambda>_. b2) q1 = Some q2 \<and> ring q2 F V L M (H + length xs) R ys \<and> agree_on F q q2"
proof -
  let ?b = "H div 32" and ?m = "length xs"
  have b: "M - L \<le> ?b" "?b < M" using r R by (auto simp: ring_def)
  obtain blk where blk: "blocks q (V ?b) = Some blk" "length (elements blk) = 32" "ring_block V L M H R ?b blk"
    using ring_pool(3) [OF r b] by blast
  have fl: "emptyFlags blk = flags H R ?b" using blk(3) by (simp add: ring_block_def)
  have at: "(H + j) div 32 = ?b" "(H + j) mod 32 = H mod 32 + j" if "H mod 32 + j < 32" for j
    using that block_end(1) by (simp_all add: mod_add_left_eq [of H 32 j, symmetric])
  have cells: "cell q V (H + j) = Some ((xs @ ys) ! j)" if "j < ?m + length ys" for j using r that by (simp add: ring_def)
  have el: "elements blk ! (H mod 32 + j) = Some (xs ! j)" if "j < ?m" for j
    using cells [of j] at [of j] that m blk(1) by (simp add: cell_def nth_append)
  let ?b1 = "(pops H ?m blk)\<lparr>elementsCompletelyDequeued := elementsCompletelyDequeued blk\<rparr>"
  let ?b2 = "?b1\<lparr>emptyFlags := flags (H + ?m) R ?b\<rparr>"
  let ?q1 = "q\<lparr>blocks := (blocks q)(V ?b \<mapsto> ?b1)\<rparr>" and ?q2 = "q\<lparr>blocks := (blocks q)(V ?b \<mapsto> ?b2)\<rparr>"
  have "cell ?q2 V (H + ?m + i) = Some (ys ! i)" if "i < length ys" for i
  proof -
    have c: "cell q V (H + ?m + i) = Some (ys ! i)" using cells [of "?m + i"] that by (simp add: add.assoc nth_append)
    have lt: "H \<le> H + ?m + i" "H + ?m + i < 32 * M" using r that by (simp_all add: ring_def)
    have "elements ?b2 ! ((H + ?m + i) mod 32) = elements blk ! ((H + ?m + i) mod 32)" if "(H + ?m + i) div 32 = ?b"
    proof -
      have "H + ?m + i = 32 * ?b + (H + ?m + i) mod 32" using that by (metis mult_div_mod_eq)
      then have "H mod 32 + ?m \<le> (H + ?m + i) mod 32" using mult_div_mod_eq [of 32 H] by linarith
      with pops_other [OF m] show ?thesis by simp
    qed
    with c ring_cell_update [OF r b lt, of ?b2] blk(1) show ?thesis by (auto simp: cell_def)
  qed
  moreover have "flags (H + ?m) R b' = flags H R b'" if "b' \<noteq> ?b" for b' using flags_other [OF that m] .
  ultimately have "ring ?q2 F V L M (H + ?m) R ys"
    using r by (intro ring_update [OF r b blk(1)]) (simp_all add: ring_def)
  moreover have "agree_on F q ?q2" by (rule ring_frame [OF r b])
  moreover have "take_elements (V ?b) (of_nat H) (of_nat (H + ?m)) q = Some (xs, ?q1)"
    using take_elements_pops [OF blk(1,2) m] el by blast
  moreover have "set_many_empty explicit_context (of_nat H) (of_nat ?m) ?b1 = Some (False, ?b2)"
    using R m fl by (intro set_many_empty_flags) simp_all
  moreover have "update_block (V ?b) (\<lambda>_. ?b2) ?q1 = Some ?q2" by simp
  ultimately show ?thesis by (intro exI [of _ ?q1] exI [of _ ?b1] exI [of _ ?b2] exI [of _ ?q2]) simp
qed

section \<open>The blocks\<close>

lemma block_at_ring:
  assumes "ring_index p k c V L M" "M - L \<le> b" "b < M"
  shows "block_at (take_bit k (of_nat (b + c))) (hd (ep_blockIndex p)) = Some (V b)"
proof -
  have "k \<le> 63" "length (eh_entries (hd (ep_blockIndex p))) = 2 ^ k" "slot_at k p (b + c) = Some (of_nat (32 * b), V b)"
    using assms by (simp_all add: ring_index_def index_shape_def)
  then show ?thesis unfolding block_at_def place_nat [OF \<open>k \<le> 63\<close>] by (simp add: nth_opt_def slot_at_def)
qed

lemma explicit_place_ring:
  assumes "ring_index p k c V L M" "M - L \<le> b" "b < M" "block_base i = of_nat (32 * b)" "M - 1 < b + 2 ^ 58"
    "eh_front (hd (ep_blockIndex p)) = take_bit k (of_nat (M - 1 + c))"
  shows "explicit_place i (hd (ep_blockIndex p)) = Some (take_bit k (of_nat (b + c)))"
proof -
  have h: "k \<le> 63" "length (eh_entries (hd (ep_blockIndex p))) = 2 ^ k" "eh_size (hd (ep_blockIndex p)) = 2 ^ k"
    "slot_at k p (M - 1 + c) = Some (of_nat (32 * (M - 1)), V (M - 1))"
  proof -
    have "M - L \<le> M - 1" "M - 1 < M" using assms(2,3) by auto
    with assms(1) show "k \<le> 63" "length (eh_entries (hd (ep_blockIndex p))) = 2 ^ k" "eh_size (hd (ep_blockIndex p)) = 2 ^ k"
      "slot_at k p (M - 1 + c) = Some (of_nat (32 * (M - 1)), V (M - 1))"
      unfolding ring_index_def index_shape_def by blast+
  qed
  have near: "b < M - 1 + 2 ^ 58" using assms(3) by simp
  have "(take_bit k (of_nat (M - 1 + c)) + (of_nat b - of_nat (M - 1))) AND (2 ^ k - 1) = take_bit k (of_nat (b + c) :: u64)"
    unfolding and_capacity take_bit_absorb by (simp add: add.commute)
  then show ?thesis
    unfolding explicit_place_def assms(4,6) place_nat [OF h(1)] Let_def
    using h block_offset [OF near assms(5)] by (simp add: nth_opt_def slot_at_def)
qed

lemma explicit_dequeue_blocks_inv:
  assumes "ring q F V L M H M (xs @ ys)" "ring_index p k c V L M" "H div 32 < M" "length xs < 2 ^ 63"
  shows "\<exists>q'. explicit_dequeue_blocks (hd (ep_blockIndex p)) (of_nat (H + length xs)) (of_nat H) (take_bit k (of_nat (H div 32 + c))) q =
      Some (xs, q') \<and> ring q' F V L M (H + length xs) M ys \<and> agree_on F q q'"
  using assms
proof (induction "length xs" arbitrary: xs q H rule: less_induct)
  case less
  let ?L = "length xs" and ?B = "H div 32" and ?h = "hd (ep_blockIndex p)"
  define m where "m = min ?L (32 - H mod 32)"
  define us where "us = take m xs"
  define vs where "vs = drop m xs"
  have xs: "xs = us @ vs" and m: "length us = m" "H mod 32 + m \<le> 32" "m \<le> ?L" by (auto simp: us_def vs_def m_def)
  have r: "ring q F V L M H M (us @ (vs @ ys))" using less.prems(1) xs by simp
  have TM: "H + ?L \<le> 32 * M" using less.prems(1) by (simp add: ring_def)
  note B = less.prems(3)
  have stop: "(if circular_less_than (of_nat (H + ?L)) (block_base (of_nat H) + of_nat BLOCK_SIZE) then of_nat (H + ?L)
      else block_base (of_nat H) + of_nat BLOCK_SIZE) = (of_nat (H + m) :: u64)"
    using stop_index [OF less.prems(4), of H] by (simp add: m_def block_end(3))
  have at: "block_at (take_bit k (of_nat (?B + c))) ?h = Some (V ?B)"
    using block_at_ring [OF less.prems(2) _ B] r by (simp add: ring_def)
  from ring_take [OF r B] m obtain q1 b1 b2 q2 where
    ch: "take_elements (V ?B) (of_nat H) (of_nat (H + m)) q = Some (us, q1)" "blocks q1 (V ?B) = Some b1"
      "set_many_empty explicit_context (of_nat H) (of_nat m) b1 = Some (False, b2)" "update_block (V ?B) (\<lambda>_. b2) q1 = Some q2"
    and r2: "ring q2 F V L M (H + m) M (vs @ ys)" "agree_on F q q2" by auto
  have diff: "(of_nat (H + m) :: u64) - of_nat H = of_nat m" by simp
  have loop: "explicit_dequeue_blocks ?h (of_nat (H + ?L)) (of_nat H) (take_bit k (of_nat (?B + c))) q =
    (if (of_nat (H + m) :: u64) = of_nat (H + ?L) then Some (us, q2)
     else do {
       (zs, q3) \<leftarrow> explicit_dequeue_blocks ?h (of_nat (H + ?L)) (of_nat (H + m)) ((take_bit k (of_nat (?B + c)) + 1) AND (eh_size ?h - 1)) q2;
       Some (us @ zs, q3)
     })"
    by (subst explicit_dequeue_blocks.simps) (simp only: Let_def prod.case stop at ch diff Option.bind.simps)
  show ?case
  proof (cases "m = ?L")
    case True
    then have "vs = []" "us = xs" by (simp_all add: vs_def us_def True)
    with r2 loop True show ?thesis by auto
  next
    case False
    then have lt: "m < ?L" "H mod 32 + m = 32" using m(3) by (auto simp: m_def)
    have B': "(H + m) div 32 = Suc ?B" using lt(2) by (rule block_end(2))
    have len: "length vs = ?L - m" "H + m + length vs = H + ?L" using lt by (simp_all add: vs_def)
    have "0 < m" using lt(2) mod_less_divisor [of 32 H] by linarith
    then have pre: "length vs < ?L" "(H + m) div 32 < M" "length vs < 2 ^ 63" using lt len less.prems(4) TM by auto
    from less.hyps [OF pre(1) r2(1) less.prems(2) pre(2,3)] obtain q' where
      q': "explicit_dequeue_blocks ?h (of_nat (H + ?L)) (of_nat (H + m)) (take_bit k (of_nat (Suc ?B + c))) q2 = Some (vs, q')"
        "ring q' F V L M (H + ?L) M ys" "agree_on F q2 q'" unfolding B' len(2) by blast
    have "of_nat (H + m + (?L - m)) \<noteq> (of_nat (H + m) :: u64)" using lt(1) less.prems(4) by (intro of_nat_add_neq) simp_all
    then have ne: "of_nat (H + m) \<noteq> (of_nat (H + ?L) :: u64)" using lt(1) by simp
    have nxt: "(take_bit k (of_nat (?B + c)) + 1) AND (eh_size ?h - 1) = take_bit k (of_nat (Suc ?B + c))"
    proof -
      have "eh_size ?h = 2 ^ k" using less.prems(2) by (simp add: ring_index_def index_shape_def)
      then show ?thesis using take_bit_absorb [of k "of_nat (?B + c)" 1] by (simp add: and_capacity algebra_simps)
    qed
    have "explicit_dequeue_blocks ?h (of_nat (H + ?L)) (of_nat H) (take_bit k (of_nat (?B + c))) q = Some (xs, q')"
      unfolding loop nxt q'(1) using ne by (simp only: if_False Option.bind.simps prod.case xs [symmetric])
    then show ?thesis using q'(2,3) agree_on_trans [OF r2(2)] by blast
  qed
qed

section \<open>The operations\<close>

text \<open>What the invariant says about the place of the head.\<close>

lemma explicit_head:
  assumes r: "ring q F V L M H M xs" and p: "producer_part p V L H M" "shown p V L M" and xs: "xs \<noteq> []"
  shows "\<exists>k c h hs. ring_index p k c V L M \<and> ep_blockIndex p = h # hs \<and>
    explicit_place (of_nat H) h = Some (take_bit k (of_nat (H div 32 + c)))" "length xs < 2 ^ 63" "H div 32 < M"
proof -
  have T: "H + length xs \<le> 32 * M" "M - L \<le> H div 32" "32 * M < H + 2 ^ 63"
    using r p(1) by (simp_all add: ring_def producer_part_def)
  then show "length xs < 2 ^ 63" by linarith
  show B: "H div 32 < M" using T(1) xs by (cases xs) auto
  then have "0 < L" using T(2) by linarith
  with p(2) obtain k c where k: "ring_index p k c V L M" "eh_front (hd (ep_blockIndex p)) = take_bit k (of_nat (M - 1 + c))"
    by (auto simp: shown_def)
  obtain h hs where h: "ep_blockIndex p = h # hs" using k(1) by (auto simp: ring_index_def index_shape_def neq_Nil_conv)
  have "M - 1 < H div 32 + 2 ^ 58" using T(3) B mult_div_mod_eq [of 32 H] mod_less_divisor [of 32 H] by simp
  from explicit_place_ring [OF k(1) T(2) B block_base_of_nat this k(2)] h k(1)
  show "\<exists>k c h hs. ring_index p k c V L M \<and> ep_blockIndex p = h # hs \<and>
    explicit_place (of_nat H) h = Some (take_bit k (of_nat (H div 32 + c)))" by auto
qed

lemma ring_index_counts [simp]:
  "ring_index (p\<lparr>ep_dequeueOptimisticCount := n, ep_headIndex := i\<rparr>) k c V L M = ring_index p k c V L M"
  by (simp add: ring_index_def index_shape_def slot_at_def)

lemma explicit_taken:
  assumes "ring q F V L M (H + n) M ys" "producer_part p V L H M" "shown p V L M" "ep_tailIndex p = of_nat (H + n + length ys)"
    "M = (H + n + length ys + 31) div 32"
    and p': "p' = p\<lparr>ep_dequeueOptimisticCount := ep_dequeueOptimisticCount p + of_nat n, ep_headIndex := ep_headIndex p + of_nat n\<rparr>"
  shows "\<exists>U. explicit_inv p' q F ys U"
proof (rule explicit_invI [OF assms(1)])
  have "ep_dequeueOptimisticCount p + of_nat n - ep_dequeueOvercommit p = (of_nat (H + n) :: u64)"
    using assms(2) by (simp add: producer_part_def algebra_simps)
  then show "producer_part p' V L (H + n) M"
    using assms(2) unfolding p' by (simp add: producer_part_def index_or_none_def)
  show "shown p' V L M" using assms(3) unfolding p' by (simp add: shown_def)
qed (use assms(4,5) p' in simp_all)

lemma set_empty_one: "set_empty explicit_context i b = set_many_empty explicit_context i 1 b"
proof -
  have "unat (of_nat (flag_of i) - 1 + 1 :: u64) = flag_of i"
    using unat64_of_nat [of "flag_of i"] by (simp add: flag_of_def BLOCK_SIZE_def)
  then show ?thesis by (simp add: set_empty_def set_many_empty_def numeral_nat)
qed

lemma take_element_one:
  assumes "take_elements a i (i + 1) q = Some ([x], q')"
  shows "take_element a i q = Some (x, q')"
  using assms by (subst (asm) take_elements.simps) (auto simp: bind_eq_Some_conv take_elements.simps split: if_splits)

lemma explicit_dequeue_inv:
  assumes "explicit_inv p q F xs U"
  shows "\<exists>p' q' U'. explicit_dequeue (p, q) = Some (case xs of [] \<Rightarrow> None | x # _ \<Rightarrow> Some x, p', q') \<and>
    explicit_inv p' q' F (tl xs) U' \<and> agree_on F q q' \<and> ep_inactive p' = ep_inactive p"
proof -
  from assms obtain V L H M where M: "M = (H + length xs + 31) div 32" and r: "ring q F V L M H M xs"
    and p: "producer_part p V L H M" "shown p V L M" and t: "ep_tailIndex p = of_nat (H + length xs)"
    unfolding explicit_inv_def by blast
  have ph: "ep_headIndex p = of_nat H" "ep_dequeueOptimisticCount p - ep_dequeueOvercommit p = of_nat H"
    "H + length xs \<le> 32 * M" "32 * M < H + 2 ^ 63"
    using p r by (simp_all add: producer_part_def ring_def)
  have less: "circular_less_than (of_nat H) (of_nat (H + length xs)) \<longleftrightarrow> xs \<noteq> []"
    using circular_less_than_of_nat [of H "H + length xs"] ph by auto
  show ?thesis
  proof (cases xs)
    case Nil
    then have "explicit_dequeue (p, q) = Some (None, p, q)" using less by (simp add: explicit_dequeue_def Let_def ph(2) t)
    with Nil assms show ?thesis by fastforce
  next
    case (Cons x ys)
    then have ne: "xs \<noteq> []" by simp
    from explicit_head(1) [OF r p ne] obtain k c h hs where k: "ring_index p k c V L M" "ep_blockIndex p = h # hs"
      "explicit_place (of_nat H) h = Some (take_bit k (of_nat (H div 32 + c)))" by blast
    note B = explicit_head(3) [OF r p ne]
    have at: "block_at (take_bit k (of_nat (H div 32 + c))) h = Some (V (H div 32))"
      using block_at_ring [OF k(1) _ B] r k(2) by (simp add: ring_def)
    have m: "H mod 32 + length [x] \<le> 32" using mod_less_divisor [of 32 H] by simp
    from ring_take [OF _ B m, of q F V L M ys] r Cons obtain q1 b1 b2 q2 where
      ch: "take_elements (V (H div 32)) (of_nat H) (of_nat (H + 1)) q = Some ([x], q1)" "blocks q1 (V (H div 32)) = Some b1"
        "set_many_empty explicit_context (of_nat H) 1 b1 = Some (False, b2)" "update_block (V (H div 32)) (\<lambda>_. b2) q1 = Some q2"
        "ring q2 F V L M (H + 1) M ys" "agree_on F q q2" by auto
    have "take_element (V (H div 32)) (of_nat H) q = Some (x, q1)" by (rule take_element_one) (use ch(1) in \<open>simp add: add.commute\<close>)
    let ?p = "p\<lparr>ep_dequeueOptimisticCount := ep_dequeueOptimisticCount p + 1, ep_headIndex := ep_headIndex p + 1\<rparr>"
    have "explicit_dequeue (p, q) = Some (Some x, ?p, q2)"
      using less ne k(2,3) at ch(2,4) \<open>take_element _ _ q = _\<close> ch(3)
      unfolding explicit_dequeue_def Let_def split_conv ph t by (simp add: ph t set_empty_one)
    moreover have "\<exists>U'. explicit_inv ?p q2 F ys U'"
      using ch(5) p t M Cons by (intro explicit_taken [of q2 F V L M H 1]) simp_all
    ultimately show ?thesis using ch(6) Cons by auto
  qed
qed

lemma explicit_dequeue_bulk_inv:
  assumes "explicit_inv p q F xs U"
  shows "\<exists>p' q' U'. explicit_dequeue_bulk maximum (p, q) =
      Some ((of_nat (min (unat maximum) (length xs)), take (unat maximum) xs), p', q') \<and>
    explicit_inv p' q' F (drop (unat maximum) xs) U' \<and> agree_on F q q' \<and> ep_inactive p' = ep_inactive p"
proof -
  from assms obtain V L H M where M: "M = (H + length xs + 31) div 32" and r: "ring q F V L M H M xs"
    and p: "producer_part p V L H M" "shown p V L M" and t: "ep_tailIndex p = of_nat (H + length xs)"
    unfolding explicit_inv_def by blast
  let ?L = "length xs"
  define n where "n = min (unat maximum) ?L"
  have ph: "ep_headIndex p = of_nat H" "ep_dequeueOptimisticCount p - ep_dequeueOvercommit p = of_nat H"
    using p by (simp_all add: producer_part_def)
  have avail: "ep_tailIndex p - (ep_dequeueOptimisticCount p - ep_dequeueOvercommit p) = of_nat ?L" unfolding t ph(2) by simp
  show ?thesis
  proof (cases "xs = []")
    case True
    then have "explicit_dequeue_bulk maximum (p, q) = Some ((0, []), p, q)"
      using circular_less_than_of_nat [of 0 0] by (simp add: explicit_dequeue_bulk_def Let_def avail)
    with True assms show ?thesis by fastforce
  next
    case False
    note hd = explicit_head [OF r p False]
    from hd(1) obtain k c h hs where k: "ring_index p k c V L M" "ep_blockIndex p = h # hs"
      "explicit_place (of_nat H) h = Some (take_bit k (of_nat (H div 32 + c)))" by blast
    have less: "circular_less_than 0 (of_nat ?L)" using circular_less_than_of_nat [of 0 ?L] hd(2) False by simp
    have uL: "unat (of_nat ?L :: u64) = ?L" using hd(2) by (intro unat64_of_nat) simp
    have n: "n \<le> ?L" "unat (of_nat n :: u64) = n" using uL by (auto simp: n_def min_def)
    have n3: "(if of_nat ?L < maximum then of_nat ?L else maximum) = of_nat n"
    proof (cases "of_nat ?L < maximum")
      case False
      then have "n = unat maximum" using uL by (simp add: n_def word_less_nat_alt)
      with False show ?thesis by simp
    qed (use uL in \<open>simp add: n_def word_less_nat_alt\<close>)
    have actual: "(if of_nat n < (of_nat ?L :: u64) then of_nat n else of_nat ?L) = (of_nat n :: u64)"
      using n uL by (auto simp: word_less_nat_alt)
    have tk: "length (take n xs) = n" "length (take n xs) < 2 ^ 63" using n(1) hd(2) by simp_all
    have "ring q F V L M H M (take n xs @ drop n xs)" using r by simp
    from explicit_dequeue_blocks_inv [OF this k(1) hd(3) tk(2)] obtain q' where
      d: "explicit_dequeue_blocks h (of_nat (H + n)) (of_nat H) (take_bit k (of_nat (H div 32 + c))) q = Some (take n xs, q')"
        "ring q' F V L M (H + n) M (drop n xs)" "agree_on F q q'" unfolding tk(1) k(2) list.sel by blast
    let ?p = "p\<lparr>ep_dequeueOptimisticCount := ep_dequeueOptimisticCount p + of_nat n, ep_headIndex := ep_headIndex p + of_nat n\<rparr>"
    have "explicit_dequeue_bulk maximum (p, q) = Some ((of_nat n, take n xs), ?p, q')"
    proof -
      have "ep_tailIndex (p\<lparr>ep_dequeueOptimisticCount := x\<rparr>) = ep_tailIndex p" "ep_headIndex (p\<lparr>ep_dequeueOptimisticCount := x\<rparr>) = ep_headIndex p"
        "ep_blockIndex (p\<lparr>ep_dequeueOptimisticCount := x, ep_headIndex := y\<rparr>) = h # hs" for x y using k(2) by simp_all
      then show ?thesis
        using d(1) k(3) less unfolding ph(1) of_nat_add
        by (simp only: explicit_dequeue_bulk_def Let_def prod.case avail n3 if_True actual less_irrefl if_False ph(1) Option.bind.simps list.case)
    qed
    moreover have "\<exists>U'. explicit_inv ?p q' F (drop n xs) U'"
      using d(2) p t M n(1) by (intro explicit_taken [of q' F V L M H n]) simp_all
    moreover have "take n xs = take (unat maximum) xs" "drop n xs = drop (unat maximum) xs" by (simp_all add: n_def min_def)
    ultimately show ?thesis using d(3) unfolding n_def [symmetric] by auto
  qed
qed

end
