(* ===== verification/Explicit_Bulk.thy ===== *)
theory Explicit_Bulk
  imports Explicit_Take
begin

text \<open>
  Enqueueing in bulk at an explicit producer: the blocks for all elements are gathered first, from the ring and then from
  the pool, with all their flags set; then the flags are cleared and the blocks filled.
\<close>

section \<open>Gathering blocks\<close>

text \<open>Blocks \<open>N\<close> to \<open>M\<close> are gathered; \<open>first\<close> is the first of them.\<close>

definition gathering ::
  "ExplicitProducer \<Rightarrow> ('e, 'z) block_pool_scheme \<Rightarrow> ptr set \<Rightarrow> (nat \<Rightarrow> ptr) \<Rightarrow> nat \<Rightarrow> nat \<Rightarrow> nat \<Rightarrow> 'e list \<Rightarrow> nat \<Rightarrow> ptr \<Rightarrow> bool" where
  "gathering p q F V L H M xs N first \<longleftrightarrow> ring q F V L M H N xs \<and> producer_part p V L H M \<and> M - N \<le> L \<and> H + length xs \<le> 32 * N \<and>
     first = (if M = N then nullptr else V N)"

definition counts_of :: "ExplicitProducer \<Rightarrow> u64 \<times> u64 \<times> bool" where
  "counts_of p = (ep_tailIndex p, ep_headIndex p, ep_inactive p)"

lemma gathering_window:
  assumes "gathering p q F V L H M xs N first" "N < M"
  shows "M - L \<le> N" "first = V N" "V N \<noteq> nullptr"
proof -
  have "N \<le> M" "L \<le> M" "M - N \<le> L" "first = V N" using assms by (simp_all add: gathering_def ring_def)
  then show w: "M - L \<le> N" "first = V N" by auto
  show "V N \<noteq> nullptr" using assms ring_pool(1) [OF _ w(1) assms(2)] by (auto simp: gathering_def)
qed

lemma gathering_ahead:
  assumes g: "gathering p q F V L H M xs N first"
  shows "\<exists>around. (if ep_tailBlock p = nullptr then Some True
      else map_option (\<lambda>t. next_block t = first) (blocks q (ep_tailBlock p))) = Some around \<and>
    (if around then Some None else block_ahead (ep_tailBlock p) q) =
      Some (if 0 < L \<and> M - L < H div 32 then Some (V (M - L)) else None)"
proof -
  have r: "ring q F V L M H N xs" and p: "producer_part p V L H M" and le: "H \<le> 32 * N" "L \<le> M" "N \<le> M"
    and f: "first = (if M = N then nullptr else V N)" "M - N \<le> L"
    using g by (simp_all add: gathering_def ring_def)
  show ?thesis
  proof (cases "L = 0")
    case True
    then show ?thesis using p by (intro exI [of _ True]) (simp add: producer_part_def)
  next
    case False
    then have L: "0 < L" "M - L \<le> M - 1" "M - 1 < M" "M - L < M" using le(2) by auto
    have tb: "ep_tailBlock p = V (M - 1)" "V (M - 1) \<noteq> nullptr"
      using p False ring_pool(1) [OF r L(2,3)] by (simp_all add: producer_part_def)
    obtain t where t: "blocks q (V (M - 1)) = Some t" "next_block t = V (M - L)" using ring_ahead(2) [OF r L(1)] by blast
    have around: "V (M - L) = first \<longleftrightarrow> M - L = N"
    proof (cases "M = N")
      case True
      then show ?thesis using f(1) ring_pool(1) [OF r order_refl L(4)] L(4) by auto
    next
      case False
      then have "N < M" using le(3) by simp
      with gathering_window [OF g this] ring_inj [OF r _ order_refl L(4), of N] show ?thesis by auto
    qed
    show ?thesis
    proof (cases "M - L = N")
      case True
      then have "\<not> M - L < H div 32" using le(1) by auto
      with True t tb around show ?thesis by (intro exI [of _ True]) simp
    next
      case False
      then have "M - L < N" using f(2) le(2,3) L by auto
      with False t tb around ring_ahead(1) [OF r L(1)] L(1) show ?thesis by auto
    qed
  qed
qed

lemma gathering_grow:
  assumes g: "gathering p q F V L H M xs N first" and r: "ring q' F (V(M := b)) L' (Suc M) H N xs"
    and p: "producer_part p' (V(M := b)) L' H (Suc M)" and L: "Suc M - N \<le> L'"
  shows "gathering p' q' F (V(M := b)) L' H (Suc M) xs N (if first = nullptr then b else first)"
proof -
  have "N \<le> M" using g by (simp add: gathering_def ring_def)
  moreover have "first = nullptr \<longleftrightarrow> M = N"
    using gathering_window [OF g] g \<open>N \<le> M\<close> by (cases "M = N") (auto simp: gathering_def)
  ultimately show ?thesis using g r p L by (auto simp: gathering_def)
qed

text \<open>The first loop.\<close>

lemma cti_next: "of_nat (32 * M) - 32 + of_nat BLOCK_SIZE = (of_nat (32 * M) :: u64)"
  "of_nat (32 * Suc M) - 32 = (of_nat (32 * M) :: u64)"
  "of_nat (32 * Suc d) - of_nat BLOCK_SIZE = (of_nat (32 * d) :: u64)"
  by (simp_all add: BLOCK_SIZE_def)

lemma diff_positive: "32 * d < 2 ^ 63 \<Longrightarrow> (of_nat (32 * d) :: u64) = 0 \<longleftrightarrow> d = 0"
  using unat64_of_nat [of "32 * d"] by (auto simp: unat_eq_0 [symmetric] simp del: unat_eq_zero)

lemma reuse_ahead_inv:
  assumes "gathering p q F V L H M xs N first" "32 * (M + d) < H + 2 ^ 63" "32 * d < 2 ^ 63"
  shows "\<exists>d' M' V' p' first'. reuse_ahead (of_nat (32 * d)) (of_nat (32 * M) - 32) first (p, q) =
      Some (of_nat (32 * d'), of_nat (32 * M') - 32, first', p') \<and>
    gathering p' q F V' L H M' xs N first' \<and> M' + d' = M + d \<and> (d' = 0 \<or> L = 0 \<or> H div 32 \<le> M' - L) \<and>
    counts_of p' = counts_of p \<and> (\<forall>b < M. V' b = V b) \<and> d' \<le> d"
  using assms
proof (induction d arbitrary: p V M first)
  case 0
  then show ?case
    by (intro exI [of _ 0] exI [of _ M] exI [of _ V] exI [of _ p] exI [of _ first]) (simp add: reuse_ahead.simps)
next
  case (Suc d)
  note g = Suc.prems(1)
  have nz: "(of_nat (32 * Suc d) :: u64) \<noteq> 0" using diff_positive [OF Suc.prems(3)] by blast
  from gathering_ahead [OF g] obtain around where ar: "(if ep_tailBlock p = nullptr then Some True
      else map_option (\<lambda>t. next_block t = first) (blocks q (ep_tailBlock p))) = Some around"
    "(if around then Some None else block_ahead (ep_tailBlock p) q) =
      Some (if 0 < L \<and> M - L < H div 32 then Some (V (M - L)) else None)" by blast
  show ?case
  proof (cases "0 < L \<and> M - L < H div 32")
    case False
    then have "reuse_ahead (of_nat (32 * Suc d)) (of_nat (32 * M) - 32) first (p, q) = Some (of_nat (32 * Suc d), of_nat (32 * M) - 32, first, p)"
      using nz ar by (subst reuse_ahead.simps) (simp only: if_False fst_conv snd_conv Option.bind.simps option.case)
    moreover have "L = 0 \<or> H div 32 \<le> M - L" using False by auto
    ultimately show ?thesis using g by blast
  next
    case True
    have r: "ring q F V L M H N xs" and p: "producer_part p V L H M" using g by (simp_all add: gathering_def)
    from producer_part_index [OF p] True obtain k c where k: "ring_index p k c V L M" by blast
    have room: "32 * Suc M < H + 2 ^ 63" using Suc.prems(2) by simp
    from reuse_step [OF r p _ _ room k] True obtain p1 where p1:
      "put_entry (of_nat (32 * M)) (p\<lparr>ep_tailBlock := V (M - L)\<rparr>) = Some p1" "ring q F (V(M := V (M - L))) L (Suc M) H N xs"
      "producer_part p1 (V(M := V (M - L))) L H (Suc M)" "ep_tailIndex p1 = ep_tailIndex p" "ep_inactive p1 = ep_inactive p" by blast
    have "Suc M - N \<le> L"
    proof -
      have "H div 32 \<le> N" using g by (auto simp: gathering_def)
      then show ?thesis using True r by (auto simp: ring_def)
    qed
    note g1 = gathering_grow [OF g p1(2,3) this]
    have pre: "32 * (Suc M + d) < H + 2 ^ 63" "32 * d < 2 ^ 63" using Suc.prems(2,3) by simp_all
    from Suc.IH [OF g1 pre] obtain d' M' V' p' first' where IH:
      "reuse_ahead (of_nat (32 * d)) (of_nat (32 * Suc M) - 32) (if first = nullptr then V (M - L) else first) (p1, q) =
        Some (of_nat (32 * d'), of_nat (32 * M') - 32, first', p')"
      "gathering p' q F V' L H M' xs N first'" "M' + d' = Suc M + d" "d' = 0 \<or> L = 0 \<or> H div 32 \<le> M' - L"
      "counts_of p' = counts_of p1" "\<forall>b < Suc M. V' b = (V(M := V (M - L))) b" "d' \<le> d" by blast
    have "reuse_ahead (of_nat (32 * Suc d)) (of_nat (32 * M) - 32) first (p, q) = Some (of_nat (32 * d'), of_nat (32 * M') - 32, first', p')"
      using nz ar [unfolded if_P [OF True]] p1(1) IH(1) unfolding cti_next(2)
      by (subst reuse_ahead.simps) (simp only: if_False fst_conv snd_conv Option.bind.simps option.case cti_next)
    moreover have "counts_of p1 = counts_of p" using p p1(3-5) by (simp add: counts_of_def producer_part_def)
    ultimately show ?thesis using IH(2-7) by (intro exI [of _ d'] exI [of _ M'] exI [of _ V'] exI [of _ p'] exI [of _ first']) auto
  qed
qed

text \<open>The second loop.\<close>

lemma allocate_ahead_inv:
  assumes "gathering p q F V L H M xs N first" "32 * (M + d) < H + 2 ^ 63" "32 * d < 2 ^ 63" "d = 0 \<or> L = 0 \<or> H div 32 \<le> M - L"
  shows "\<exists>r p' q'. allocate_ahead mem m front slots start (of_nat (32 * d)) (of_nat (32 * M) - 32) first (p, q) = Some (r, p', q') \<and>
    agree_on F q q' \<and> counts_of p' = counts_of p \<and>
    (r \<noteq> None \<longrightarrow> (\<exists>V' L'. gathering p' q' F V' L' H (M + d) xs N (the r) \<and> (\<forall>b < M. V' b = V b)))"
  using assms
proof (induction d arbitrary: p q V L M first front)
  case 0
  then show ?case by (auto simp: allocate_ahead.simps agree_on_def)
next
  case (Suc d)
  note g = Suc.prems(1)
  have nz: "(of_nat (32 * Suc d) :: u64) \<noteq> 0" using diff_positive [OF Suc.prems(3)] by blast
  have r: "ring q F V L M H N xs" and p: "producer_part p V L H M" using g by (simp_all add: gathering_def)
  have old: "L = 0 \<or> H div 32 \<le> M - L" using Suc.prems(4) by simp
  have le: "H \<le> 32 * M" using r by (simp add: ring_def)
  have room: "32 * Suc M < H + 2 ^ 63" using Suc.prems(2) by simp
  note full = explicit_room(1) [OF p le] explicit_room(2) [OF p le room]
  let ?need = "ep_blockIndex p = [] \<or> pr_blockIndexSlotsUsed p = pr_blockIndexSize p"
  from make_room [OF r p old, of mem slots] obtain ok p1 n where
    rm: "(if ?need then explicit_new_block_index mem slots (p, q) else Some (True, p, q)) = Some (ok, p1, q\<lparr>allocations := n\<rparr>)"
    "if ok then producer_part p1 V L H M \<and> same_counts p p1 \<and> (\<exists>k c. ring_index p1 k c V L M \<and> L < 2 ^ k) \<and>
       (p1 = p \<or> eh_front (hd (ep_blockIndex p1)) = slots - 1 \<and> pr_blockIndexFront p1 = of_nat L)
     else p1 = p" by blast
  define room' where "room' = (if ?need then
      (if m = CannotAlloc then Some (False, front, p, q)
       else do { (ok, p1, q1) \<leftarrow> explicit_new_block_index mem slots (p, q); Some (ok, if ok then slots else front, p1, q1) })
    else Some (True, front, p, q))"
  have eq: "allocate_ahead mem m front slots start (of_nat (32 * Suc d)) (of_nat (32 * M) - 32) first (p, q) =
      do {
        (room, front, p1, q1) \<leftarrow> room';
        if \<not> room then Some (None, undo_bulk front slots start first p1, q1)
        else do {
          (newBlock, q2) \<leftarrow> requisition_block mem m q1;
          if newBlock = nullptr then Some (None, undo_bulk front slots start first p1, q2)
          else do {
            q3 \<leftarrow> update_block newBlock (set_all_empty explicit_context) q2;
            (p2, q4) \<leftarrow> link_block newBlock (p1, q3);
            p3 \<leftarrow> put_entry (of_nat (32 * M)) p2;
            allocate_ahead mem m front slots start (of_nat (32 * d)) (of_nat (32 * Suc M) - 32)
              (if first = nullptr then newBlock else first) (p3, q4)
          }
        }
      }"
    unfolding room'_def cti_next(2) using nz full
    by (subst allocate_ahead.simps) (simp only: if_False Let_def split_conv cti_next simp_thms)
  have undo: "counts_of (undo_bulk f s st b p) = counts_of p" for f s st b p by (simp add: counts_of_def undo_bulk_def)
  show ?case
  proof (cases "ok \<and> \<not> (m = CannotAlloc \<and> ?need)")
    case False
    have "\<exists>f n'. room' = Some (False, f, p, q\<lparr>allocations := n'\<rparr>)"
    proof (cases "m = CannotAlloc \<and> ?need")
      case True
      then show ?thesis unfolding room'_def by (intro exI [of _ front] exI [of _ "allocations q"]) simp
    next
      case no: False
      then have "\<not> ok" "p1 = p" using False rm(2) by auto
      moreover from this rm(1) have need: ?need by (auto split: if_splits)
      ultimately have "explicit_new_block_index mem slots (p, q) = Some (False, p, q\<lparr>allocations := n\<rparr>)" using rm(1) by simp
      then show ?thesis unfolding room'_def using no need by (intro exI [of _ front] exI [of _ n]) simp
    qed
    then obtain f n' where "room' = Some (False, f, p, q\<lparr>allocations := n'\<rparr>)" by blast
    then show ?thesis unfolding eq using undo by (auto simp: agree_on_def)
  next
    case True
    then have p1: "producer_part p1 V L H M" "same_counts p p1" using rm(2) by auto
    from True rm(2) obtain k c where k: "ring_index p1 k c V L M" "L < 2 ^ k" by auto
    have "\<exists>f. room' = Some (True, f, p1, q\<lparr>allocations := n\<rparr>)" using True rm(1) by (auto simp: room'_def split: if_splits)
    then obtain f where rm': "room' = Some (True, f, p1, q\<lparr>allocations := n\<rparr>)" by blast
    have counts: "counts_of p1 = counts_of p" using p1(2) by (simp add: same_counts_def counts_of_def)
    have r1: "ring (q\<lparr>allocations := n\<rparr>) F V L M H N xs" using r by simp
    have NM: "N \<le> M" using r by (simp add: ring_def)
    have allset: "set_all_empty explicit_context b = b\<lparr>emptyFlags := flags H N M\<rparr>" for b :: "'a Block"
      using flags_replicate(2) [OF NM] by (simp add: reset_explicit)
    have keep: "N \<le> N" "N \<le> Suc M" "N \<noteq> N \<longrightarrow> N = M" using NM by auto
    let ?p1 = "\<lambda>nb. p1\<lparr>ep_tailBlock := nb, pr_blockIndexSlotsUsed := pr_blockIndexSlotsUsed p1 + 1\<rparr>"
    from new_block_step [OF r1 p1(1) k room old allset keep, where mem = mem and m = m] obtain nb q2 where
      nb: "requisition_block mem m (q\<lparr>allocations := n\<rparr>) = Some (nb, q2)" "agree_on F (q\<lparr>allocations := n\<rparr>) q2"
      "if nb = nullptr then ring q2 F V L M H N xs
       else \<exists>q3 q4 p4. update_block nb (set_all_empty explicit_context) q2 = Some q3 \<and> link_block nb (p1, q3) = Some (?p1 nb, q4) \<and>
         put_entry (of_nat (32 * M)) (?p1 nb) = Some p4 \<and>
         ring q4 F (V(M := nb)) (Suc L) (Suc M) H N xs \<and> producer_part p4 (V(M := nb)) (Suc L) H (Suc M) \<and>
         ring_index p4 k c (V(M := nb)) (Suc L) (Suc M) \<and>
         agree_on F (q\<lparr>allocations := n\<rparr>) q4 \<and> ep_tailIndex p4 = ep_tailIndex p1 \<and> ep_inactive p4 = ep_inactive p1"
      by auto
    show ?thesis
    proof (cases "nb = nullptr")
      case True
      with nb(1,2) counts show ?thesis unfolding eq rm' using undo by (auto simp: agree_on_def)
    next
      case False
      with nb(3) obtain q3 q4 p4 where st: "update_block nb (set_all_empty explicit_context) q2 = Some q3" "link_block nb (p1, q3) = Some (?p1 nb, q4)"
        "put_entry (of_nat (32 * M)) (?p1 nb) = Some p4"
        "ring q4 F (V(M := nb)) (Suc L) (Suc M) H N xs" "producer_part p4 (V(M := nb)) (Suc L) H (Suc M)"
        "agree_on F (q\<lparr>allocations := n\<rparr>) q4" "ep_tailIndex p4 = ep_tailIndex p1" "ep_inactive p4 = ep_inactive p1" by auto
      have "M - N \<le> L" using g by (simp add: gathering_def)
      then have "Suc M - N \<le> Suc L" by linarith
      note g1 = gathering_grow [OF g st(4,5) this]
      have "d = 0 \<or> Suc L = 0 \<or> H div 32 \<le> Suc M - Suc L" using old le r by (auto simp: ring_def)
      moreover have "32 * (Suc M + d) < H + 2 ^ 63" "32 * d < 2 ^ 63" using Suc.prems(2,3) by simp_all
      ultimately obtain r p' q' where IH:
        "allocate_ahead mem m f slots start (of_nat (32 * d)) (of_nat (32 * Suc M) - 32) (if first = nullptr then nb else first) (p4, q4) = Some (r, p', q')"
        "agree_on F q4 q'" "counts_of p' = counts_of p4"
        "r \<noteq> None \<longrightarrow> (\<exists>V' L'. gathering p' q' F V' L' H (Suc M + d) xs N (the r) \<and> (\<forall>b < Suc M. V' b = (V(M := nb)) b))" using Suc.IH [OF g1, of f] by blast
      have "allocate_ahead mem m front slots start (of_nat (32 * Suc d)) (of_nat (32 * M) - 32) first (p, q) = Some (r, p', q')"
        unfolding eq rm' using False nb(1) st(1-3) IH(1) by simp
      moreover have "counts_of p4 = counts_of p" using p1(1) st(5,7,8) counts by (simp add: counts_of_def producer_part_def)
      moreover have "agree_on F q q'" using st(6) IH(2) by (auto simp: agree_on_def)
      ultimately show ?thesis using IH(3,4) by (intro exI [of _ r] exI [of _ p'] exI [of _ q']) (force simp: add.commute)
    qed
  qed
qed


section \<open>Clearing and filling\<close>

lemma reset_blocks_inv:
  assumes "ring q F V L M H R xs" "M - L \<le> R" "R < M" "H \<le> 32 * R"
  shows "\<exists>q'. reset_blocks (V R) (V (M - 1)) q = Some q' \<and> ring q' F V L M H M xs \<and> agree_on F q q'"
  using assms
proof (induction "M - R" arbitrary: R q)
  case (Suc n)
  from ring_reset [OF Suc.prems(1,3,2,4)] obtain q1 where q1: "update_block (V R) (reset_empty explicit_context) q = Some q1"
    "ring q1 F V L M H (Suc R) xs" "agree_on F q q1" by blast
  have last: "V R = V (M - 1) \<longleftrightarrow> R = M - 1" using ring_inj [OF Suc.prems(1), of R "M - 1"] Suc.prems(2,3) by auto
  show ?case
  proof (cases "R = M - 1")
    case True
    then have "Suc R = M" using Suc.prems(3) by simp
    moreover have "reset_blocks (V R) (V (M - 1)) q = Some q1" using q1(1) last True by (subst reset_blocks.simps) simp
    ultimately show ?thesis using q1(2,3) by auto
  next
    case False
    then have lt: "Suc R < M" using Suc.prems(3) by simp
    obtain b where b: "blocks q1 (V R) = Some b" "next_block b = V (Suc R)"
      using ring_pool(3) [OF q1(2) Suc.prems(2,3)] lt by (auto simp: ring_block_def)
    have "n = M - Suc R" using Suc.hyps(2) by simp
    with Suc.hyps(1) [of "Suc R" q1] Suc.prems(2,4) q1(2) lt obtain q2 where
      "reset_blocks (V (Suc R)) (V (M - 1)) q1 = Some q2" "ring q2 F V L M H M xs" "agree_on F q1 q2" by auto
    with q1 b last False show ?thesis
      by (intro exI [of _ q2]) (auto simp: reset_blocks.simps [of "V R"] agree_on_def)
  qed
qed simp

lemma ring_links: "ring q F V L M H R xs \<Longrightarrow> H \<le> T \<Longrightarrow> links_from q V (T div 32) M"
  unfolding links_from_def
proof (intro allI impI)
  fix j assume r: "ring q F V L M H R xs" and j: "H \<le> T" "T div 32 \<le> j \<and> Suc j < M"
  then have "M - L \<le> j" using div_le_mono [OF j(1), of 32] by (auto simp: ring_def)
  with ring_pool(3) [OF r this] j(2) show "map_option next_block (blocks q (V j)) = Some (V (Suc j))"
    by (auto simp: ring_block_def)
qed

text \<open>The gathered blocks are filled.\<close>

lemma explicit_fill:
  assumes r: "ring q F V L M H M xs" and p: "producer_part p V L H M" "shown p V L M" and items: "items \<noteq> []" "length items < 2 ^ 62"
    and M: "M = (H + length xs + length items + 31) div 32"
  shows "\<exists>q'. fill_blocks (V (M - 1)) (V ((H + length xs) div 32)) (of_nat (H + length xs)) (of_nat (H + length xs + length items)) items q =
      Some (V (M - 1), q') \<and> agree_on F q q' \<and>
    (\<exists>U. explicit_inv (p\<lparr>ep_tailBlock := V (M - 1), ep_tailIndex := of_nat (H + length xs + length items)\<rparr>) q' F (xs @ items) U)"
proof -
  have "H \<le> H + length xs" by simp
  from explicit_filling.fill_blocks_inv [OF r refl items M ring_links [OF r this]] obtain q' where
    q': "fill_blocks (V (M - 1)) (V ((H + length xs) div 32)) (of_nat (H + length xs)) (of_nat (H + length xs + length items)) items q = Some (V (M - 1), q')"
    "ring q' F V L M H M (xs @ items)" "agree_on F q q'" by blast
  have "0 < L"
  proof -
    have "(H + length xs) div 32 < M" using items(1) unfolding M by (cases items) (simp_all add: div_le_mono)
    then show ?thesis using r div_le_mono [of H "H + length xs" 32] by (auto simp: ring_def)
  qed
  then have "p\<lparr>ep_tailBlock := V (M - 1), ep_tailIndex := t\<rparr> = p\<lparr>ep_tailIndex := t\<rparr>" for t
    using p(1) by (simp add: producer_part_def)
  moreover have "\<exists>U. explicit_inv (p\<lparr>ep_tailIndex := of_nat (H + length xs + length items)\<rparr>) q' F (xs @ items) U"
    using p M by (intro explicit_invI [OF q'(2)]) (simp_all add: producer_part_def index_or_none_def shown_def add.assoc)
  ultimately show ?thesis using q'(1,3) by auto
qed

lemma explicit_enqueue_bulk_inv:
  assumes inv: "explicit_inv p q F xs U" and few: "length xs + length items < 2 ^ 62"
  shows "\<exists>ok p' q'. explicit_enqueue_bulk mem m items (p, q) = Some (ok, p', q') \<and> agree_on F q q' \<and>
    ep_inactive p' = ep_inactive p \<and> (ok \<longrightarrow> (\<exists>U'. explicit_inv p' q' F (xs @ items) U'))"
proof -
  from inv obtain V L H N where N: "N = (H + length xs + 31) div 32" and r: "ring q F V L N H N xs"
    and p: "producer_part p V L H N" "shown p V L N" and t: "ep_tailIndex p = of_nat (H + length xs)"
    unfolding explicit_inv_def by blast
  define T n where "T = H + length xs" and "n = length items"
  define M where "M = (T + n + 31) div 32"
  have n: "n < 2 ^ 62" using few by (simp add: n_def)
  have NT: "N = (T + 31) div 32" "ep_tailIndex p = of_nat T" using N t by (simp_all add: T_def)
  have NM: "N \<le> M" unfolding NT M_def by (intro div_le_mono) simp
  have TN: "T \<le> 32 * N" unfolding NT(1) by (rule ceil_block)
  have M63: "32 * M < H + 2 ^ 63"
  proof -
    have "32 * M \<le> T + n + 31" unfolding M_def by simp
    then show ?thesis using few by (simp add: T_def n_def)
  qed
  have d63: "32 * (M - N) < 2 ^ 63" using M63 TN NM by (simp add: T_def)
  have bases: "block_base (of_nat T + of_nat n - 1) - block_base (of_nat T - 1) = (of_nat (32 * (M - N)) :: u64)"
    using block_base_pred [of "T + n"] block_base_pred [of T] NM by (simp add: M_def NT)
  have base0: "block_base (of_nat T - 1) = of_nat (32 * N) - 32" using block_base_pred [of T] by (simp add: NT)
  have al: "(of_nat T :: u64) AND of_nat (BLOCK_SIZE - 1) = 0 \<longleftrightarrow> T mod 32 = 0" by (rule aligned_of_nat)
  have tb: "ep_tailBlock p = (if L = 0 then nullptr else V (N - 1))" using p(1) by (simp add: producer_part_def)
  have odd: "N = Suc (T div 32)" "0 < L" if "T mod 32 \<noteq> 0"
  proof -
    show N1: "N = Suc (T div 32)" using ceil_block(1) [OF that] NT by simp
    then show "0 < L" using r div_le_mono [of H T 32] by (auto simp: ring_def T_def)
  qed
  show ?thesis
  proof (cases "N = M")
    case True
    have un: "explicit_enqueue_bulk mem m items (p, q) =
        (if T mod 32 = 0 \<and> (of_nat n :: u64) \<noteq> 0 then None
         else do {
           (lastBlock, q2) \<leftarrow> fill_blocks (ep_tailBlock p) (ep_tailBlock p) (of_nat T) (of_nat (T + n)) items q;
           Some (True, p\<lparr>ep_tailBlock := lastBlock, ep_tailIndex := of_nat (T + n)\<rparr>, q2)
         })"
      unfolding explicit_enqueue_bulk_def Let_def split_conv NT(2) n_def [symmetric] bases al True by simp
    show ?thesis
    proof (cases "items = []")
      case nil: True
      then have "n = 0" by (simp add: n_def)
      then have "fill_blocks (ep_tailBlock p) (ep_tailBlock p) (of_nat T) (of_nat (T + n)) items q = Some (ep_tailBlock p, q)"
        using stop_index [of 0 T] nil by (subst fill_blocks.simps) (auto simp: Let_def fill_block.simps split: if_splits)
      then have "explicit_enqueue_bulk mem m items (p, q) = Some (True, p, q)" unfolding un using \<open>n = 0\<close> NT(2) by simp
      with inv nil show ?thesis by auto
    next
      case False
      then have o: "T mod 32 \<noteq> 0"
        using True ceil_block(2) [of T] ceil_block(4) [of "T + n"] unfolding NT M_def n_def
        by (metis add_le_same_cancel1 le_zero_eq length_0_conv minus_mod_eq_mult_div minus_nat.diff_0)
      then have tb': "ep_tailBlock p = V (M - 1)" "T div 32 = M - 1" using odd tb True by simp_all
      have "M = (H + length xs + length items + 31) div 32" "length items < 2 ^ 62" using n by (simp_all add: M_def T_def n_def)
      from explicit_fill [OF r [unfolded True] p [unfolded True] False this(2,1), folded T_def n_def, unfolded tb'(2)]
      obtain q' where "fill_blocks (V (M - 1)) (V (M - 1)) (of_nat T) (of_nat (T + n)) items q = Some (V (M - 1), q')" "agree_on F q q'"
        "\<exists>U. explicit_inv (p\<lparr>ep_tailBlock := V (M - 1), ep_tailIndex := of_nat (T + n)\<rparr>) q' F (xs @ items) U" by blast
      then show ?thesis unfolding un tb'(1) using o by (intro exI [of _ True]) simp
    qed
  next
    case False
    then have lt: "N < M" using NM by simp
    then have "n \<noteq> 0" using NT M_def by auto
    then have ne: "items \<noteq> []" by (simp add: n_def)
    have pos: "(of_nat (32 * (M - N)) :: u64) > 0"
      using diff_positive [OF d63] lt by (simp add: word_greater_zero_iff del: of_nat_mult)
    have g0: "gathering p q F V L H N xs N nullptr" using r p(1) TN by (simp add: gathering_def T_def)
    have sum: "N + (M - N) = M" using lt by simp
    then have "32 * (N + (M - N)) < H + 2 ^ 63" using M63 by simp
    from reuse_ahead_inv [OF g0 this d63, unfolded sum] obtain d1 M1 V1 p1 f1 where
      re: "reuse_ahead (of_nat (32 * (M - N))) (of_nat (32 * N) - 32) nullptr (p, q) = Some (of_nat (32 * d1), of_nat (32 * M1) - 32, f1, p1)"
        "gathering p1 q F V1 L H M1 xs N f1" "M1 + d1 = M" "d1 = 0 \<or> L = 0 \<or> H div 32 \<le> M1 - L"
        "counts_of p1 = counts_of p" "\<forall>b < N. V1 b = V b" "d1 \<le> M - N" by blast
    have "32 * (M1 + d1) < H + 2 ^ 63" "32 * d1 < 2 ^ 63" using M63 re(3,7) d63 by auto
    from allocate_ahead_inv [OF re(2) this re(4), of mem m "pr_blockIndexFront p" "pr_blockIndexSlotsUsed p" "ep_tailBlock p"]
    obtain res p2 q2 where aa: "allocate_ahead mem m (pr_blockIndexFront p) (pr_blockIndexSlotsUsed p) (ep_tailBlock p)
        (of_nat (32 * d1)) (of_nat (32 * M1) - 32) f1 (p1, q) = Some (res, p2, q2)" "agree_on F q q2" "counts_of p2 = counts_of p1"
      "res \<noteq> None \<longrightarrow> (\<exists>V' L'. gathering p2 q2 F V' L' H M xs N (the res) \<and> (\<forall>b < M1. V' b = V1 b))" unfolding re(3) by blast
    have un: "explicit_enqueue_bulk mem m items (p, q) =
        (case res of
           None \<Rightarrow> Some (False, p2, q2)
         | Some first \<Rightarrow> do {
             q3 \<leftarrow> reset_blocks first (ep_tailBlock p2) q2;
             p3 \<leftarrow> publish_front ((pr_blockIndexFront p2 - 1) AND (pr_blockIndexSize p2 - 1)) p2;
             if T mod 32 = 0 \<and> first = nullptr \<and> (of_nat n :: u64) \<noteq> 0 then None
             else do {
               (lastBlock, q4) \<leftarrow> fill_blocks (ep_tailBlock p3) (if T mod 32 = 0 \<and> first \<noteq> nullptr then first else ep_tailBlock p)
                 (of_nat T) (of_nat (T + n)) items q3;
               Some (True, p3\<lparr>ep_tailBlock := lastBlock, ep_tailIndex := of_nat (T + n)\<rparr>, q4)
             }
           })"
      unfolding explicit_enqueue_bulk_def Let_def split_conv NT(2) n_def [symmetric] base0 bases [unfolded base0] al if_P [OF pos]
        re(1) aa(1) Option.bind.bind_lunit of_nat_add
      by (cases res) (simp_all add: bind_assoc)
    show ?thesis
    proof (cases res)
      case None
      then show ?thesis unfolding un using aa(2,3) re(5) by (intro exI [of _ False]) (simp add: counts_of_def)
    next
      case (Some first)
      with aa(4) obtain V2 L2 where g2: "gathering p2 q2 F V2 L2 H M xs N first" "\<forall>b < M1. V2 b = V1 b" by auto
      note w = gathering_window [OF g2(1) lt]
      have r2: "ring q2 F V2 L2 M H N xs" and p2: "producer_part p2 V2 L2 H M" using g2(1) by (simp_all add: gathering_def)
      have "0 < L2" using w(1) lt by linarith
      with p2 have tb2: "ep_tailBlock p2 = V2 (M - 1)" by (simp add: producer_part_def)
      have "H \<le> 32 * N" using TN by (simp add: T_def)
      from reset_blocks_inv [OF r2 w(1) lt this] obtain q3 where q3: "reset_blocks (V2 N) (V2 (M - 1)) q2 = Some q3"
        "ring q3 F V2 L2 M H M xs" "agree_on F q2 q3" by blast
      from producer_part_index [OF p2] \<open>0 < L2\<close> obtain k c where k: "ring_index p2 k c V2 L2 M" by blast
      have front: "(pr_blockIndexFront p2 - 1) AND (pr_blockIndexSize p2 - 1) = take_bit k (of_nat (M - 1 + c))"
      proof -
        have "(of_nat (M - 1 + c) :: u64) = of_nat (M + c - 1)" using lt by simp
        also have "\<dots> = of_nat (M + c) - 1" using lt by (simp only: of_nat_diff) simp
        finally have e: "(of_nat (M - 1 + c) :: u64) = of_nat (M + c) - 1" .
        have "pr_blockIndexFront p2 = take_bit k (of_nat (M + c))" "pr_blockIndexSize p2 = 2 ^ k"
          using k by (simp_all only: ring_index_def index_shape_def)
        then show ?thesis unfolding e by (simp only: and_capacity take_bit_absorb)
      qed
      from publish_front_ring [OF k, of "take_bit k (of_nat (M - 1 + c))"] obtain p3 where p3:
        "publish_front (take_bit k (of_nat (M - 1 + c))) p2 = Some p3" "ring_index p3 k c V2 L2 M" "same_counts p2 p3"
        "eh_front (hd (ep_blockIndex p3)) = take_bit k (of_nat (M - 1 + c))" by blast
      have pp3: "producer_part p3 V2 L2 H M" using producer_part_same [OF p2 p3(3)] index_or_noneI [OF p3(2)] by blast
      have sh3: "shown p3 V2 L2 M" unfolding shown_def using p3(2,4) by blast
      have start: "(if T mod 32 = 0 \<and> first \<noteq> nullptr then first else ep_tailBlock p) = V2 (T div 32)"
      proof (cases "T mod 32 = 0")
        case True
        then show ?thesis using w(2,3) ceil_block(2) [OF True] NT by simp
      next
        case False
        note o = odd [OF False]
        have "N \<le> M1" using re(2) by (simp add: gathering_def ring_def)
        then have "V2 (N - 1) = V (N - 1)" using g2(2) re(6) o by auto
        then show ?thesis using False tb o by simp
      qed
      have "M = (H + length xs + length items + 31) div 32" "length items < 2 ^ 62" using n by (simp_all add: M_def T_def n_def)
      from explicit_fill [OF q3(2) pp3 sh3 ne this(2,1), folded T_def n_def] obtain q4 where
        q4: "fill_blocks (V2 (M - 1)) (V2 (T div 32)) (of_nat T) (of_nat (T + n)) items q3 = Some (V2 (M - 1), q4)" "agree_on F q3 q4"
          "\<exists>U. explicit_inv (p3\<lparr>ep_tailBlock := V2 (M - 1), ep_tailIndex := of_nat (T + n)\<rparr>) q4 F (xs @ items) U" by blast
      have "ep_tailBlock p3 = V2 (M - 1)" using p3(3) tb2 by (simp add: same_counts_def)
      then have "explicit_enqueue_bulk mem m items (p, q) = Some (True, p3\<lparr>ep_tailBlock := V2 (M - 1), ep_tailIndex := of_nat (T + n)\<rparr>, q4)"
        unfolding un Some option.case w(2) tb2 q3(1) front start [unfolded w(2)] using p3(1) q4(1) w(2,3) by simp
      moreover have "ep_inactive p3 = ep_inactive p" using p3(3) aa(3) re(5) by (simp add: same_counts_def counts_of_def)
      moreover have "agree_on F q q4" using aa(2) q3(3) q4(2) by (simp add: agree_on_def)
      ultimately show ?thesis using q4(3) by auto
    qed
  qed
qed

end
