(* ===== verification/Explicit_Destroy.thy ===== *)
theory Explicit_Destroy
  imports Explicit_Bulk
begin

text \<open>The beginning and the end of an explicit producer.\<close>

section \<open>The constructor\<close>

lemma initial_index_size:
  "\<exists>k \<le> 62. (if drop_bit 1 (ceil_to_pow_2 n) > drop_bit 1 EXPLICIT_INITIAL_INDEX_SIZE then drop_bit 1 (ceil_to_pow_2 n)
     else drop_bit 1 EXPLICIT_INITIAL_INDEX_SIZE) = (2 :: u64) ^ k"
proof -
  have "\<exists>k \<le> 62. drop_bit 1 EXPLICIT_INITIAL_INDEX_SIZE = (2 :: u64) ^ k"
    by (intro exI [of _ 4]) (simp add: EXPLICIT_INITIAL_INDEX_SIZE_def)
  moreover have "drop_bit 1 (ceil_to_pow_2 n) = 0 \<or> (\<exists>k \<le> 62. drop_bit 1 (ceil_to_pow_2 n) = 2 ^ k)"
  proof (cases "0 < n \<and> unat n \<le> 2 ^ 63")
    case False
    then have "n = 0 \<or> 2 ^ 63 < unat n" by (auto simp: word_gt_0)
    then have "ceil_to_pow_2 n = 0" using ceil_to_pow_2_least [of n] by blast
    then show ?thesis by simp
  next
    case True
    then obtain k where k: "k \<le> 63" "ceil_to_pow_2 n = 2 ^ k" using ceil_to_pow_2_least [of n] by blast
    show ?thesis
    proof (cases k)
      case 0
      then show ?thesis using k(2) by (simp add: drop_bit_eq_div)
    next
      case (Suc j)
      have "unat (drop_bit 1 ((2 :: u64) ^ Suc j)) = 2 ^ j"
        using k(1) Suc u64_pow2 [of "Suc j"] by (simp add: drop_bit_eq_div unat_div)
      then have "drop_bit 1 ((2 :: u64) ^ Suc j) = 2 ^ j" using u64_pow2 [of j] k(1) Suc by (simp add: word_unat_eq_iff)
      then show ?thesis using k Suc by auto
    qed
  qed
  ultimately show ?thesis by auto
qed

lemma new_explicit_producer_inv:
  assumes "pool_inv q fs F"
  shows "\<exists>p n. new_explicit_producer mem q = Some (p, q\<lparr>allocations := n\<rparr>) \<and> explicit_inv p (q\<lparr>allocations := n\<rparr>) F [] {} \<and> \<not> ep_inactive p"
proof -
  from initial_index_size [of "initialBlockPoolSize q"] obtain k where k: "k \<le> 62"
    "(if drop_bit 1 (ceil_to_pow_2 (initialBlockPoolSize q)) > drop_bit 1 EXPLICIT_INITIAL_INDEX_SIZE
      then drop_bit 1 (ceil_to_pow_2 (initialBlockPoolSize q)) else drop_bit 1 EXPLICIT_INITIAL_INDEX_SIZE) = (2 :: u64) ^ k" by blast
  define p0 where "p0 = \<lparr>ep_inactive = False, ep_tailIndex = 0, ep_headIndex = 0, ep_dequeueOptimisticCount = 0,
            ep_dequeueOvercommit = 0, ep_tailBlock = nullptr, ep_blockIndex = [], pr_blockIndexSlotsUsed = 0,
            pr_blockIndexSize = (2 :: u64) ^ k, pr_blockIndexFront = 0\<rparr>"
  have p0: "index_or_none p0 (\<lambda>_. nullptr) 0 0" "producer_part p0 (\<lambda>_. nullptr) 0 0 0"
    using k(1) by (auto simp: producer_part_def index_or_none_def p0_def)
  have "ring q F (\<lambda>_. nullptr) 0 0 0 0 []" using assms by (auto simp: ring_def)
  from make_room [OF this p0(2), of mem 0] obtain ok p n where
    n: "explicit_new_block_index mem 0 (p0, q) = Some (ok, p, q\<lparr>allocations := n\<rparr>)"
    "if ok then producer_part p (\<lambda>_. nullptr) 0 0 0 \<and> same_counts p0 p else p = p0"
    by (auto simp: p0_def split: if_splits)
  then have p: "producer_part p (\<lambda>_. nullptr) 0 0 0" "same_counts p0 p" using p0(2) by (auto split: if_splits)
  have "ring (q\<lparr>allocations := n\<rparr>) F (\<lambda>_. nullptr) 0 0 0 0 []" using assms by (auto simp: ring_def)
  then have "explicit_inv p (q\<lparr>allocations := n\<rparr>) F [] {}"
    using p unfolding explicit_inv_def
    by (intro exI [of _ "\<lambda>_. nullptr"] exI [of _ 0]) (auto simp: shown_def same_counts_def p0_def)
  moreover have "new_explicit_producer mem q = Some (p, q\<lparr>allocations := n\<rparr>)"
    using n(1) unfolding new_explicit_producer_def Let_def k(2) p0_def by simp
  moreover have "\<not> ep_inactive p" using p(2) by (simp add: same_counts_def p0_def)
  ultimately show ?thesis by blast
qed

section \<open>The destructor\<close>

text \<open>The block that the head is in.\<close>

lemma find_half_dequeued_inv:
  assumes "ring_index p k c V L M" "M - L \<le> b" "b \<le> H div 32" "H div 32 < M" "H mod 32 \<noteq> 0" "H < 32 * b + 32 + 2 ^ 63"
  shows "find_half_dequeued (eh_entries (hd (ep_blockIndex p))) (2 ^ k - 1) (of_nat H) (take_bit k (of_nat (b + c))) =
    Some (of_nat (32 * (H div 32)), V (H div 32))"
  using assms(2,3,6)
proof (induction "H div 32 - b" arbitrary: b)
  case 0
  then have b: "b = H div 32" by simp
  have "\<not> circular_less_than (of_nat (32 * b + 32)) (of_nat H)"
    using b mod_less_divisor [of 32 H] mult_div_mod_eq [of 32 H] by (intro not_circular_less_than_of_nat) simp_all
  moreover have "k \<le> 63" "length (eh_entries (hd (ep_blockIndex p))) = 2 ^ k" "slot_at k p (b + c) = Some (of_nat (32 * b), V b)"
    using assms(1,4) 0(2) b by (simp_all add: ring_index_def index_shape_def)
  moreover from this have "nth_opt (eh_entries (hd (ep_blockIndex p))) (unat (take_bit k (of_nat (b + c) :: u64))) = Some (Some (of_nat (32 * b), V b))"
    by (simp add: place_nat nth_opt_def slot_at_def del: of_nat_add)
  moreover have "(of_nat (32 * b) :: u64) + of_nat BLOCK_SIZE = of_nat (32 * b + 32)" by (simp add: BLOCK_SIZE_def)
  ultimately show ?case
    unfolding b [symmetric] by (subst find_half_dequeued.simps) (simp only: Option.bind.simps prod.case if_False)
next
  case (Suc n)
  then have lt: "b < H div 32" by simp
  then have "32 * b + 32 < H" using assms(5) mult_div_mod_eq [of 32 H] by linarith
  then have less: "circular_less_than (of_nat (32 * b + 32)) (of_nat H)"
    using circular_less_than_of_nat [of "32 * b + 32" H] Suc.prems(3) by simp
  have h: "k \<le> 63" "length (eh_entries (hd (ep_blockIndex p))) = 2 ^ k" "slot_at k p (b + c) = Some (of_nat (32 * b), V b)"
    using assms(1,4) Suc.prems lt by (simp_all add: ring_index_def index_shape_def)
  have nxt: "(take_bit k (of_nat (b + c)) + 1) AND ((2 :: u64) ^ k - 1) = take_bit k (of_nat (Suc b + c))"
    unfolding and_capacity take_bit_absorb by (simp add: ac_simps)
  have IH: "find_half_dequeued (eh_entries (hd (ep_blockIndex p))) (2 ^ k - 1) (of_nat H) (take_bit k (of_nat (Suc b + c))) =
      Some (of_nat (32 * (H div 32)), V (H div 32))"
    using Suc.hyps(2) Suc.prems lt by (intro Suc.hyps(1)) auto
  have base: "(of_nat (32 * b) :: u64) + of_nat BLOCK_SIZE = of_nat (32 * b + 32)" by (simp add: BLOCK_SIZE_def)
  have "nth_opt (eh_entries (hd (ep_blockIndex p))) (unat (take_bit k (of_nat (b + c) :: u64))) = Some (Some (of_nat (32 * b), V b))"
    using h unfolding place_nat [OF h(1)] by (simp add: nth_opt_def slot_at_def)
  then show ?case
    using less IH by (subst find_half_dequeued.simps) (simp only: Option.bind.simps prod.case base if_True nxt)
qed

text \<open>The elements of one block.\<close>

lemma small_offset:
  assumes "i \<le> 32" "n \<le> 32"
  shows "(of_nat i :: u64) = of_nat n \<longleftrightarrow> i = n"
proof -
  have "i < 2 ^ 64" "n < 2 ^ 64" using assms by (auto intro: le_less_trans)
  then have "unat (of_nat i :: u64) = i" "unat (of_nat n :: u64) = n" by (simp_all only: unat64_of_nat)
  then show ?thesis by metis
qed

lemma destroy_cells_inv:
  assumes "ring q F V L M H M []" "M - L \<le> b" "b < M" "H \<le> j" "32 * b \<le> j" "j + length ys \<le> 32 * b + 32"
    "\<forall>i < length (ys @ zs). cell q V (j + i) = Some ((ys @ zs) ! i)" "j + length (ys @ zs) \<le> 32 * M"
    "j + length ys = 32 * b + (if tail then lv else 32)" "lv \<le> 32"
  shows "\<exists>q'. destroy_cells (V b) tail (of_nat lv) (of_nat (j - 32 * b)) q = Some (ys, q') \<and> ring q' F V L M H M [] \<and> agree_on F q q' \<and>
    (\<forall>i < length zs. cell q' V (j + length ys + i) = Some (zs ! i))"
  using assms
proof (induction ys arbitrary: q j)
  case Nil
  then have "j - 32 * b = (if tail then lv else 32)" by simp
  then have "destroy_cells (V b) tail (of_nat lv) (of_nat (j - 32 * b)) q = Some ([], q)"
    by (subst destroy_cells.simps) (simp add: BLOCK_SIZE_def)
  with Nil show ?case by (auto simp: agree_on_def)
next
  case (Cons y ys)
  let ?i = "j - 32 * b" and ?s = "if tail then lv else 32"
  have i: "?i < ?s" "?i < 32" "j mod 32 = ?i" "j div 32 = b"
  proof -
    show "?i < ?s" "?i < 32" using Cons.prems(5,6,9) by simp_all
    show "j div 32 = b" using Cons.prems(5,6) by (intro div_nat_eqI) auto
    then show "j mod 32 = ?i" by (metis minus_mult_div_eq_mod)
  qed
  have ne: "(of_nat ?i :: u64) = of_nat n \<longleftrightarrow> ?i = n" if "n \<le> 32" for n
    by (rule small_offset) (use that i(2) in simp_all)
  obtain blk where blk: "blocks q (V b) = Some blk" "length (elements blk) = 32" "ring_block V L M H M b blk"
    using ring_pool(3) [OF Cons.prems(1-3)] by blast
  have y: "elements blk ! ?i = Some y" using Cons.prems(7) [rule_format, of 0] i(3,4) blk(1) by (simp add: cell_def)
  let ?b = "blk\<lparr>elements := (elements blk)[?i := None]\<rparr>"
  let ?q = "q\<lparr>blocks := (blocks q)(V b \<mapsto> ?b)\<rparr>"
  have u: "slot (of_nat ?i) = ?i" using i(2) by (simp only: slot_of_nat mod_less)
  have take: "take_element (V b) (of_nat ?i) q = Some (y, ?q)"
    using blk y i(2) unfolding take_element_def u by (simp add: nth_opt_def)
  have fl: "emptyFlags blk = flags H M b" using blk(3) by (simp add: ring_block_def)
  have r: "ring ?q F V L M H M []"
    using Cons.prems(1) fl by (intro ring_update [OF Cons.prems(1-3) blk(1)]) (simp_all add: ring_def)
  have cells: "cell ?q V (Suc j + k) = Some ((ys @ zs) ! k)" if "k < length (ys @ zs)" for k
  proof -
    have c: "cell q V (Suc j + k) = Some ((ys @ zs) ! k)" using Cons.prems(7) [rule_format, of "Suc k"] that by simp
    have lt: "H \<le> Suc j + k" "Suc j + k < 32 * M" using Cons.prems(4,8) that by simp_all
    have "(Suc j + k) mod 32 \<noteq> ?i" if "(Suc j + k) div 32 = b"
      using that i(3,4) by (metis add_Suc less_add_Suc1 less_irrefl mult_div_mod_eq)
    moreover have "cell q V (Suc j + k) = elements blk ! ((Suc j + k) mod 32)" if "(Suc j + k) div 32 = b"
      using that blk(1) by (simp add: cell_def)
    ultimately show ?thesis using c ring_cell_update [OF Cons.prems(1-3) lt, of ?b] by auto
  qed
  have pre: "H \<le> Suc j" "32 * b \<le> Suc j" "Suc j + length ys \<le> 32 * b + 32" "Suc j + length (ys @ zs) \<le> 32 * M"
    "Suc j + length ys = 32 * b + ?s" using Cons.prems(4-6,8,9) by simp_all
  from Cons.IH [OF r Cons.prems(2,3) pre(1-3) _ pre(4,5) Cons.prems(10)] cells obtain q' where
    q': "destroy_cells (V b) tail (of_nat lv) (of_nat (Suc j - 32 * b)) ?q = Some (ys, q')" "ring q' F V L M H M []" "agree_on F ?q q'"
      "\<forall>i < length zs. cell q' V (Suc j + length ys + i) = Some (zs ! i)" by blast
  have "(of_nat ?i + 1 :: u64) = of_nat (Suc j - 32 * b)" using Cons.prems(5) by (simp add: Suc_diff_le)
  moreover have "(of_nat ?i :: u64) \<noteq> of_nat BLOCK_SIZE \<and> (\<not> tail \<or> (of_nat ?i :: u64) \<noteq> of_nat lv)"
    using ne [of 32] ne [of lv] i(1,2) Cons.prems(10) by (auto simp: BLOCK_SIZE_def simp del: of_nat_diff)
  ultimately have "destroy_cells (V b) tail (of_nat lv) (of_nat ?i) q = Some (y # ys, q')"
    using take q'(1) by (subst destroy_cells.simps) (simp only: if_True Option.bind.simps prod.case simp_thms)
  moreover have "agree_on F q q'" using ring_frame [OF Cons.prems(1-3)] q'(3) by (rule agree_on_trans)
  ultimately show ?case using q'(2,4) by auto
qed

lemma and_offset: "(of_nat T :: u64) AND of_nat (BLOCK_SIZE - 1) = of_nat (T mod 32)"
proof -
  have "of_nat (slot (of_nat T)) = (of_nat T :: u64) AND of_nat (BLOCK_SIZE - 1)" by (simp add: slot_def)
  then show ?thesis by (simp only: slot_of_nat)
qed

lemma destroy_block_step:
  assumes r: "ring q F V L M H M []" and b: "M - L \<le> b" "b < M" and T: "M = (T + 31) div 32" "H \<le> T"
    and len: "max H (32 * b) + length ys = max T (32 * b)"
    and ys: "\<forall>i < length ys. cell q V (max H (32 * b) + i) = Some (ys ! i)"
    and half: "half = (if H mod 32 \<noteq> 0 then V (H div 32) else nullptr)"
    and c: "cells = (if b < H div 32 then Some ([], q)
      else destroy_cells (V b) (V b = V (M - 1))
        (if of_nat T AND of_nat (BLOCK_SIZE - 1) = (0 :: u64) then of_nat BLOCK_SIZE else of_nat T AND of_nat (BLOCK_SIZE - 1))
        (if V b = half then of_nat H AND of_nat (BLOCK_SIZE - 1) else 0) q)"
  shows "\<exists>us zs q1. ys = us @ zs \<and> cells = Some (us, q1) \<and> ring q1 F V L M H M [] \<and> agree_on F q q1 \<and>
    (b = M - 1 \<longrightarrow> zs = []) \<and>
    (b \<noteq> M - 1 \<longrightarrow> max H (32 * Suc b) + length zs = max T (32 * Suc b) \<and>
      (\<forall>i < length zs. cell q1 V (max H (32 * Suc b) + i) = Some (zs ! i)))"
proof -
  have TM: "T \<le> 32 * M" "32 * (M - 1) < T" using ceil_block(4) [of T] b(2) unfolding T(1) by auto
  show ?thesis
  proof (cases "b < H div 32")
    case True
    then have "32 * Suc b \<le> 32 * (H div 32)" by (intro mult_le_mono2) simp
    also have "\<dots> \<le> H" by simp
    finally have le: "32 * Suc b \<le> H" .
    then have m: "max H (32 * b) = H" "max T (32 * b) = T" "max H (32 * Suc b) = H" "max T (32 * Suc b) = T" using T(2) by auto
    have "ys = []" if "b = M - 1"
    proof -
      have M': "Suc b = M" using that b(2) by simp
      have "length ys = 0" using len TM(1) le unfolding m M' by linarith
      then show ?thesis by simp
    qed
    then show ?thesis using c True r len ys unfolding m by (intro exI [of _ "[]"] exI [of _ ys] exI [of _ q]) (simp add: agree_on_def)
  next
    case False
    define lv where "lv = (if T mod 32 = 0 then 32 else T mod 32)"
    define E where "E = 32 * b + (if b = M - 1 then lv else 32)"
    let ?j = "max H (32 * b)"
    have last: "V b = V (M - 1) \<longleftrightarrow> b = M - 1" using ring_inj [OF r, of b "M - 1"] b by auto
    have H: "H < 32 * b + 32" using False mult_div_mod_eq [of 32 H] mod_less_divisor [of 32 H] by linarith
    have ET: "E = T" if "b = M - 1"
    proof (cases "T mod 32 = 0")
      case True
      then show ?thesis using that b(2) ceil_block(2) [OF True] T(1) by (auto simp: E_def lv_def elim!: dvdE)
    next
      case False
      then have "b = T div 32" using that ceil_block(1) [OF False] T(1) by simp
      then show ?thesis using that False by (simp add: E_def lv_def)
    qed
    have En: "E = 32 * Suc b" "32 * Suc b < T" if "b \<noteq> M - 1"
    proof -
      show "E = 32 * Suc b" using that by (simp add: E_def)
      have "Suc b \<le> M - 1" using that b(2) by simp
      then have "32 * Suc b \<le> 32 * (M - 1)" by (rule mult_le_mono2)
      then show "32 * Suc b < T" using TM(2) by (rule le_less_trans)
    qed
    have jE: "?j \<le> E" "E \<le> T" using ET En H T(2) by (cases "b = M - 1"; force simp: E_def)+
    have mT: "max T (32 * b) = T" using jE by simp
    define us zs where "us = take (E - ?j) ys" and "zs = drop (E - ?j) ys"
    have u: "ys = us @ zs" "?j + length us = E" "?j + length (us @ zs) \<le> 32 * M" "E + length zs = T"
      using len jE TM(1) unfolding mT by (auto simp: us_def zs_def)
    have lv: "lv \<le> 32" by (simp add: lv_def less_imp_le)
    have E32: "E \<le> 32 * b + 32" using lv by (simp add: E_def)
    have lvw: "(if of_nat T AND of_nat (BLOCK_SIZE - 1) = (0 :: u64) then of_nat BLOCK_SIZE else of_nat T AND of_nat (BLOCK_SIZE - 1)) = (of_nat lv :: u64)"
      using aligned_of_nat [of T] unfolding and_offset by (simp add: lv_def BLOCK_SIZE_def)
    have start: "(if V b = half then of_nat H AND of_nat (BLOCK_SIZE - 1) else 0) = (of_nat (?j - 32 * b) :: u64)"
    proof (cases "V b = half")
      case True
      then have "H mod 32 \<noteq> 0" "V b = V (H div 32)" using half ring_pool(1) [OF r b] by (auto split: if_splits)
      moreover from this(1) have "H \<noteq> 32 * M" by auto
      then have "H < M * 32" using T(2) TM(1) by simp
      then have "H div 32 < M" by (rule less_mult_imp_div_less)
      moreover have "M - L \<le> H div 32" using r by (simp add: ring_def)
      ultimately have "b = H div 32" using ring_inj [OF r _ b] by blast
      then have "?j = H" "H - 32 * b = H mod 32" by (simp_all add: minus_mult_div_eq_mod)
      then have "?j - 32 * b = H mod 32" by (simp only:)
      then show ?thesis unfolding if_P [OF True] and_offset by (simp only:)
    next
      case F: False
      have "H \<le> 32 * b"
      proof (cases "b = H div 32")
        case True
        then have "H mod 32 = 0" using F half by (auto split: if_splits)
        then show ?thesis using True by auto
      next
        case False
        then show ?thesis using \<open>\<not> b < H div 32\<close> by linarith
      qed
      then show ?thesis using F by simp
    qed
    have "\<forall>i < length (us @ zs). cell q V (?j + i) = Some ((us @ zs) ! i)" using ys unfolding u(1) [symmetric] .
    from destroy_cells_inv [OF r b max.cobounded1 max.cobounded2 _ this u(3) _ lv, of "b = M - 1"] u(2) E32 obtain q1 where
      q1: "destroy_cells (V b) (b = M - 1) (of_nat lv) (of_nat (?j - 32 * b)) q = Some (us, q1)" "ring q1 F V L M H M []" "agree_on F q q1"
        "\<forall>i < length zs. cell q1 V (?j + length us + i) = Some (zs ! i)" unfolding E_def by auto
    have "cells = Some (us, q1)" unfolding c lvw start last using False q1(1) by simp
    moreover have "max H (32 * Suc b) = E" "max T (32 * Suc b) = T" if "b \<noteq> M - 1" using En [OF that] H by auto
    moreover have "zs = []" if "b = M - 1" using ET [OF that] u(4) by simp
    ultimately show ?thesis using u q1 by (intro exI [of _ us] exI [of _ zs] exI [of _ q1]) simp
  qed
qed

text \<open>The blocks of the ring, from block \<open>b\<close> on; \<open>ys\<close> are the elements from there or from the head on.\<close>

lemma destroy_ring_inv:
  assumes "ring q F V L M H M []" "M - L \<le> b" "b < M" "map_option next_block (blocks q prev) = Some (V b)"
    "M = (T + 31) div 32" "H \<le> T" "max H (32 * b) + length ys = max T (32 * b)"
    "\<forall>i < length ys. cell q V (max H (32 * b) + i) = Some (ys ! i)" "ep_tailBlock p = V (M - 1)" "ep_tailIndex p = of_nat T"
    "ep_headIndex p = of_nat H" "half = (if H mod 32 \<noteq> 0 then V (H div 32) else nullptr)"
  shows "\<exists>q'. destroy_ring half p prev q = Some (ys, q') \<and> ring q' F V L M H M [] \<and> agree_on F q q'"
  using assms(1-4,7,8)
proof (induction "M - b" arbitrary: b q prev ys)
  case (Suc n)
  let ?j = "max H (32 * b)"
  obtain b0 where b0: "blocks q prev = Some b0" "next_block b0 = V b" using Suc.prems(4) by auto
  obtain blk where blk: "blocks q (V b) = Some blk" "ring_block V L M H M b blk"
    using ring_pool(3) [OF Suc.prems(1-3)] by blast
  have empty: "is_empty explicit_context blk = Some (b < H div 32)"
    using blk(2) Suc.prems(3) by (simp add: is_empty_def ring_block_def list_all_flags)
  have TM: "T \<le> 32 * M" "32 * (M - 1) < T \<or> M = 0" unfolding assms(5) using ceil_block(4) [of T] by auto
  have last: "V b = V (M - 1) \<longleftrightarrow> b = M - 1" using ring_inj [OF Suc.prems(1), of b "M - 1"] Suc.prems(2,3) by auto
  let ?off = "of_nat T AND of_nat (BLOCK_SIZE - 1) :: u64"
  define cells where "cells = (if b < H div 32 then Some ([], q)
    else destroy_cells (V b) (V b = V (M - 1)) (if ?off = 0 then of_nat BLOCK_SIZE else ?off)
      (if V b = half then of_nat H AND of_nat (BLOCK_SIZE - 1) else 0) q)"
  have eq: "destroy_ring half p prev q = do {
      (xs, q1) \<leftarrow> cells;
      if V b = V (M - 1) then Some (xs, q1)
      else do { (zs, q2) \<leftarrow> destroy_ring half p (V b) q1; Some (xs @ zs, q2) }
    }"
    unfolding cells_def by (subst destroy_ring.simps) (simp add: b0 blk(1) empty assms(9-11) Let_def)
  from destroy_block_step [OF Suc.prems(1-3) assms(5,6) Suc.prems(5,6) assms(12) cells_def] obtain us zs q1 where
    u: "ys = us @ zs" "cells = Some (us, q1)" "ring q1 F V L M H M []" "agree_on F q q1"
    "b = M - 1 \<longrightarrow> zs = []" "b \<noteq> M - 1 \<longrightarrow> max H (32 * Suc b) + length zs = max T (32 * Suc b) \<and>
        (\<forall>i < length zs. cell q1 V (max H (32 * Suc b) + i) = Some (zs ! i))" by blast
  show ?case
  proof (cases "b = M - 1")
    case True
    with eq u last show ?thesis by auto
  next
    case False
    then have lt: "Suc b < M" "n = M - Suc b" "M - L \<le> Suc b" using Suc.prems(2,3) Suc.hyps(2) by auto
    have "map_option next_block (blocks q1 (V b)) = Some (V (Suc b))"
      using ring_pool(3) [OF u(3) Suc.prems(2,3)] lt(1) by (auto simp: ring_block_def)
    from Suc.hyps(1) [OF lt(2) u(3) lt(3,1) this] u(6) False obtain q2 where
      "destroy_ring half p (V b) q1 = Some (zs, q2)" "ring q2 F V L M H M []" "agree_on F q1 q2" by blast
    with eq u(1,2,4) last False show ?thesis by (auto simp: agree_on_def)
  qed
qed simp

section \<open>Giving back the blocks\<close>

lemma give_back_chain:
  assumes "pool_inv q fs (V ` {b..<E} \<union> F)" "b < E" "inj_on V {b..<E}" "V ` {b..<E} \<inter> F = {}"
    "\<forall>j. b \<le> j \<and> j < E \<longrightarrow> map_option next_block (blocks q (V j)) = Some (if Suc j = E then tail else V (Suc j))"
    "tail \<notin> V ` {b..<E}"
  shows "\<exists>q' fs'. give_back_ring tail (V b) q = Some q' \<and> pool_inv q' fs' F \<and> agree_on F q q'"
  using assms
proof (induction "E - b" arbitrary: b q fs)
  case (Suc n)
  have rng: "{b..<E} = insert b {Suc b..<E}" using Suc.prems(2) by auto
  let ?U = "V ` {Suc b..<E} \<union> F"
  have fresh: "V b \<notin> ?U" using Suc.prems(3,4) unfolding rng by (auto simp: inj_on_def)
  have "pool_inv q fs (insert (V b) ?U)" using Suc.prems(1) unfolding rng by simp
  from add_block_to_free_list_inv [OF this fresh] obtain q1 fs1 where
    q1: "add_block_to_free_list (V b) q = Some q1" "agree_on ?U q q1" "pool_inv q1 fs1 ?U" by blast
  obtain blk where blk: "blocks q (V b) = Some blk" "next_block blk = (if Suc b = E then tail else V (Suc b))"
    using Suc.prems(5) [rule_format, of b] Suc.prems(2) by auto
  show ?case
  proof (cases "Suc b = E")
    case True
    then have "give_back_ring tail (V b) q = Some q1" using blk q1(1) by (subst give_back_ring.simps) simp
    with q1(2,3) True show ?thesis by (auto simp: agree_on_def)
  next
    case False
    then have lt: "Suc b < E" "n = E - Suc b" using Suc.prems(2) Suc.hyps(2) by auto
    have "tail \<noteq> V (Suc b)" "tail \<notin> V ` {Suc b..<E}" using Suc.prems(6) lt(1) by auto
    moreover have "\<forall>j. Suc b \<le> j \<and> j < E \<longrightarrow> map_option next_block (blocks q1 (V j)) = Some (if Suc j = E then tail else V (Suc j))"
      using Suc.prems(5) q1(2) by (auto simp: agree_on_def)
    moreover have "inj_on V {Suc b..<E}" "V ` {Suc b..<E} \<inter> F = {}" using Suc.prems(3,4) unfolding rng by auto
    ultimately obtain q2 fs2 where "give_back_ring tail (V (Suc b)) q1 = Some q2" "pool_inv q2 fs2 F" "agree_on F q1 q2"
      using Suc.hyps(1) [OF lt(2) q1(3) lt(1)] by blast
    moreover from this(1) \<open>tail \<noteq> V (Suc b)\<close> have "give_back_ring tail (V b) q = Some q2"
      using blk q1(1) False by (subst give_back_ring.simps) auto
    ultimately show ?thesis using q1(2) by (auto simp: agree_on_def)
  qed
qed simp

lemma give_back_ring_inv:
  assumes r: "ring q F V L M H R xs" and L: "0 < L"
  shows "\<exists>q' fs. give_back_ring (V (M - 1)) (V (M - 1)) q = Some q' \<and> pool_inv q' fs F \<and> agree_on F q q'"
proof -
  have LM: "L \<le> M" using r by (simp add: ring_def)
  define E where "E = M - 1"
  have E: "M - L \<le> E" "E < M" "Suc E = M" using L LM by (auto simp: E_def)
  have rng: "{M - L..<M} = insert E {M - L..<E}" using E by auto
  from r obtain fs where fs: "pool_inv q fs (insert (V E) (V ` {M - L..<E} \<union> F))" and inj: "inj_on V {M - L..<M}" "V ` {M - L..<M} \<inter> F = {}"
    unfolding ring_def rng by auto
  have fresh: "V E \<notin> V ` {M - L..<E} \<union> F" using inj unfolding rng by (auto simp: inj_on_def)
  from add_block_to_free_list_inv [OF fs this] obtain q1 fs1 where q1: "add_block_to_free_list (V E) q = Some q1"
    "agree_on (V ` {M - L..<E} \<union> F) q q1" "pool_inv q1 fs1 (V ` {M - L..<E} \<union> F)" by blast
  obtain blk where blk: "blocks q (V E) = Some blk" "next_block blk = V (M - L)"
    using ring_pool(3) [OF r E(1,2)] E(3) by (auto simp: ring_block_def)
  show ?thesis
  proof (cases "M - L = E")
    case True
    then have "give_back_ring (V E) (V E) q = Some q1" using blk q1(1) by (subst give_back_ring.simps) simp
    with q1(2,3) True show ?thesis by (auto simp: agree_on_def E_def)
  next
    case False
    then have lt: "M - L < E" using E(1) by simp
    have "map_option next_block (blocks q1 (V j)) = Some (if Suc j = E then V E else V (Suc j))" if j: "M - L \<le> j" "j < E" for j
    proof -
      have "blocks q1 (V j) = blocks q (V j)" using q1(2) j by (auto simp: agree_on_def)
      moreover have "j < M" "Suc j \<noteq> M" using j(2) E by auto
      ultimately show ?thesis using ring_pool(3) [OF r j(1)] by (auto simp: ring_block_def)
    qed
    then have "\<forall>j. M - L \<le> j \<and> j < E \<longrightarrow> map_option next_block (blocks q1 (V j)) = Some (if Suc j = E then V E else V (Suc j))" by blast
    moreover have "inj_on V {M - L..<E}" "V ` {M - L..<E} \<inter> F = {}" using inj unfolding rng by auto
    ultimately obtain q2 fs2 where "give_back_ring (V E) (V (M - L)) q1 = Some q2" "pool_inv q2 fs2 F" "agree_on F q1 q2"
      using give_back_chain [OF q1(3) lt] fresh by blast
    moreover have "V (M - L) \<in> V ` {M - L..<E}" using lt by simp
    then have "V (M - L) \<noteq> V E" using fresh by auto
    ultimately have "give_back_ring (V E) (V E) q = Some q2"
      using blk q1(1) by (subst give_back_ring.simps) simp
    with \<open>pool_inv q2 fs2 F\<close> \<open>agree_on F q1 q2\<close> q1(2) show ?thesis by (auto simp: agree_on_def E_def)
  qed
qed

section \<open>The whole destructor\<close>

lemma destroy_explicit_producer_inv:
  assumes "explicit_inv p q F xs U"
  shows "\<exists>q' fs. destroy_explicit_producer p q = Some (xs, q') \<and> pool_inv q' fs F \<and> agree_on F q q'"
proof -
  from assms obtain V L H M where M: "M = (H + length xs + 31) div 32" and r: "ring q F V L M H M xs"
    and p: "producer_part p V L H M" and t: "ep_tailIndex p = of_nat (H + length xs)"
    unfolding explicit_inv_def by blast
  have LM: "L \<le> M" "M - L \<le> H div 32" "H + length xs \<le> 32 * M" using r by (simp_all add: ring_def)
  have ph: "ep_headIndex p = of_nat H" "pr_blockIndexSlotsUsed p = of_nat L" "32 * L \<le> 2 ^ 63"
    "ep_tailBlock p = (if L = 0 then nullptr else V (M - 1))" using p by (simp_all add: producer_part_def)
  show ?thesis
  proof (cases "L = 0")
    case True
    then have "32 * M \<le> 32 * (H div 32)" using LM(2) by simp
    also have "\<dots> \<le> H" by simp
    finally have "length xs = 0" using LM(3) by linarith
    then have "xs = []" by simp
    moreover obtain fs where "pool_inv q fs F" using r True by (auto simp: ring_def)
    ultimately show ?thesis using True ph(4) by (auto simp: destroy_explicit_producer_def agree_on_def)
  next
    case False
    then have L: "0 < L" "M - L \<le> M - 1" "M - 1 < M" "M - L < M" using LM(1) by auto
    have tb: "ep_tailBlock p = V (M - 1)" "V (M - 1) \<noteq> nullptr" using ph(4) False ring_pool(1) [OF r L(2,3)] by simp_all
    let ?half = "if H mod 32 \<noteq> 0 then V (H div 32) else nullptr"
    have half: "(if ep_headIndex p AND of_nat (BLOCK_SIZE - 1) \<noteq> 0 then do {
             (base, block) \<leftarrow> find_half_dequeued (pr_blockIndexEntries p) (pr_blockIndexSize p - 1) (ep_headIndex p)
               ((pr_blockIndexFront p - pr_blockIndexSlotsUsed p) AND (pr_blockIndexSize p - 1));
             if circular_less_than base (ep_headIndex p) then Some block else None
           }
           else Some nullptr) = Some ?half"
    proof (cases "H mod 32 = 0")
      case True
      then show ?thesis using aligned_of_nat [of H] by (simp add: ph(1))
    next
      case False
      from producer_part_index [OF p] L(1) obtain k c where k: "ring_index p k c V L M" by blast
      then obtain h hs where h: "ep_blockIndex p = h # hs" by (auto simp: ring_index_def index_shape_def neq_Nil_conv)
      have HM: "H div 32 < M" "H < 32 * (M - L) + 32 + 2 ^ 63" using False LM(1,3) ph(3) by (cases "H = 32 * M"; simp)+
      have "(of_nat (M + c) :: u64) - of_nat L = of_nat (M - L + c)" using LM(1) by (simp add: of_nat_diff)
      then have place: "(pr_blockIndexFront p - pr_blockIndexSlotsUsed p) AND (pr_blockIndexSize p - 1) = take_bit k (of_nat (M - L + c))"
        using k unfolding ph(2) by (simp only: ring_index_def index_shape_def and_capacity take_bit_absorb)
      have size: "pr_blockIndexSize p = 2 ^ k" using k by (simp add: ring_index_def index_shape_def)
      have "32 * (H div 32) < H" using False mult_div_mod_eq [of 32 H] by linarith
      then have "circular_less_than (of_nat (32 * (H div 32))) (of_nat H)"
        using circular_less_than_of_nat [of "32 * (H div 32)" H] minus_mult_div_eq_mod [of H 32] mod_less_divisor [of 32 H] by simp
      moreover have "find_half_dequeued (pr_blockIndexEntries p) (pr_blockIndexSize p - 1) (of_nat H) (take_bit k (of_nat (M - L + c))) =
          Some (of_nat (32 * (H div 32)), V (H div 32))"
        unfolding size pr_blockIndexEntries_def h list.case
        using find_half_dequeued_inv [OF k order_refl LM(2) HM(1) False HM(2)] by (simp add: h)
      moreover have "(of_nat H :: u64) AND of_nat (BLOCK_SIZE - 1) \<noteq> 0" using False aligned_of_nat [of H] by simp
      ultimately show ?thesis using False unfolding place ph(1) by (simp del: of_nat_mult)
    qed
    have r0: "ring q F V L M H M []" using r by (auto simp: ring_def)
    have nx: "map_option next_block (blocks q (V (M - 1))) = Some (V (M - L))" using ring_ahead(2) [OF r L(1)] by auto
    have "max H (32 * (M - L)) = H" "max (H + length xs) (32 * (M - L)) = H + length xs" using LM(2) by auto
    then have "max H (32 * (M - L)) + length xs = max (H + length xs) (32 * (M - L))"
      "\<forall>i < length xs. cell q V (max H (32 * (M - L)) + i) = Some (xs ! i)" using r by (simp_all add: ring_def)
    from destroy_ring_inv [OF r0 order_refl L(4) nx M le_add1 this tb(1) t ph(1) refl] obtain q1 where
      q1: "destroy_ring ?half p (V (M - 1)) q = Some (xs, q1)" "ring q1 F V L M H M []" "agree_on F q q1" by blast
    from give_back_ring_inv [OF q1(2) L(1)] obtain q2 fs where
      "give_back_ring (V (M - 1)) (V (M - 1)) q1 = Some q2" "pool_inv q2 fs F" "agree_on F q1 q2" by blast
    moreover from this(1) have "destroy_explicit_producer p q = Some (xs, q2)"
      unfolding destroy_explicit_producer_def half using q1(1) tb by simp
    ultimately show ?thesis using q1(3) by (auto simp: agree_on_def)
  qed
qed

end
