(* ===== verification/Explicit_Histories.thy ===== *)
theory Explicit_Histories
  imports Explicit_Destroy
begin

text \<open>
  What an explicit producer promises: in any history, up to the first bulk enqueue that fails, it is a first-in
  first-out queue, next to whatever else uses the memory of the queue; its destructor destroys what is left and gives
  every block back. After a bulk enqueue that fails this is no longer so, which the last section shows on an example.
\<close>

section \<open>Histories\<close>

datatype 'e explicit_op =
    Push AllocationMode 'e
  | Push_many AllocationMode "'e list"
  | Pop
  | Pop_many u64

datatype 'e explicit_result =
    Pushed bool
  | Popped "'e option"
  | Popped_many u64 "'e list"

definition explicit_step ::
  "(nat \<Rightarrow> ptr) \<Rightarrow> 'e explicit_op \<Rightarrow> ExplicitProducer \<times> ('e, 'z) block_pool_scheme \<Rightarrow>
     ('e explicit_result \<times> ExplicitProducer \<times> ('e, 'z) block_pool_scheme) option" where
  "explicit_step mem opn s =
     (case opn of
        Push m x \<Rightarrow> map_option (apfst Pushed) (explicit_enqueue mem m x s)
      | Push_many m xs \<Rightarrow> map_option (apfst Pushed) (explicit_enqueue_bulk mem m xs s)
      | Pop \<Rightarrow> map_option (apfst Popped) (explicit_dequeue s)
      | Pop_many n \<Rightarrow> map_option (apfst (\<lambda>(c, xs). Popped_many c xs)) (explicit_dequeue_bulk n s))"

text \<open>A bulk enqueue that failed.\<close>

fun gave_up :: "'e explicit_op \<Rightarrow> 'e explicit_result \<Rightarrow> bool" where
  "gave_up (Push_many m xs) (Pushed ok) \<longleftrightarrow> \<not> ok"
| "gave_up _ _ \<longleftrightarrow> False"

text \<open>The results of a history up to there, and whether it came to its end.\<close>

fun run_explicit ::
  "(nat \<Rightarrow> ptr) \<Rightarrow> 'e explicit_op list \<Rightarrow> ExplicitProducer \<times> ('e, 'z) block_pool_scheme \<Rightarrow>
     ('e explicit_result list \<times> bool \<times> ExplicitProducer \<times> ('e, 'z) block_pool_scheme) option" where
  "run_explicit mem [] s = Some ([], True, s)"
| "run_explicit mem (opn # ops) s =
     do {
       (r, s1) \<leftarrow> explicit_step mem opn s;
       if gave_up opn r then Some ([r], False, s1)
       else do {
         (rs, complete, s2) \<leftarrow> run_explicit mem ops s1;
         Some (r # rs, complete, s2)
       }
     }"

text \<open>What a first-in first-out queue answers, and what it holds then.\<close>

fun fifo_step :: "'e explicit_op \<Rightarrow> 'e explicit_result \<Rightarrow> 'e list \<Rightarrow> 'e list option" where
  "fifo_step (Push m x) (Pushed ok) xs = Some (if ok then xs @ [x] else xs)"
| "fifo_step (Push_many m ys) (Pushed ok) xs = Some (if ok then xs @ ys else xs)"
| "fifo_step Pop (Popped r) xs =
     (if r = (case xs of [] \<Rightarrow> None | x # _ \<Rightarrow> Some x) then Some (tl xs) else None)"
| "fifo_step (Pop_many n) (Popped_many c ys) xs =
     (if ys = take (unat n) xs \<and> c = of_nat (length ys) then Some (drop (unat n) xs) else None)"
| "fifo_step _ _ _ = None"

fun fifo_results :: "'e list \<Rightarrow> 'e explicit_op list \<Rightarrow> 'e explicit_result list \<Rightarrow> bool \<Rightarrow> 'e list \<Rightarrow> bool" where
  "fifo_results xs [] rs complete ys \<longleftrightarrow> rs = [] \<and> complete \<and> ys = xs"
| "fifo_results xs (opn # ops) [] complete ys \<longleftrightarrow> False"
| "fifo_results xs (opn # ops) (r # rs) complete ys \<longleftrightarrow>
     (case fifo_step opn r xs of
        None \<Rightarrow> False
      | Some xs' \<Rightarrow>
          if gave_up opn r then rs = [] \<and> \<not> complete \<and> ys = xs' else fifo_results xs' ops rs complete ys)"

fun pushed :: "'e explicit_op \<Rightarrow> nat" where
  "pushed (Push m x) = 1"
| "pushed (Push_many m xs) = length xs"
| "pushed _ = 0"

section \<open>Refinement\<close>

lemma explicit_step_inv:
  assumes inv: "explicit_inv p q F xs U" and few: "length xs + pushed opn < 2 ^ 62"
  shows "\<exists>r p' q' xs'. explicit_step mem opn (p, q) = Some (r, p', q') \<and> fifo_step opn r xs = Some xs' \<and> agree_on F q q' \<and>
    length xs' \<le> length xs + pushed opn \<and> (\<not> gave_up opn r \<longrightarrow> (\<exists>U'. explicit_inv p' q' F xs' U'))"
proof (cases opn)
  case (Push m x)
  have "length xs + 32 < 2 ^ 63" using few by simp
  from explicit_enqueue_inv [OF inv this, of mem m x] obtain ok p' q' U' where
    "explicit_enqueue mem m x (p, q) = Some (ok, p', q')" "explicit_inv p' q' F (if ok then xs @ [x] else xs) U'"
    "agree_on F q q'" by blast
  with Push show ?thesis
    by (intro exI [of _ "Pushed ok"] exI [of _ p'] exI [of _ q'] exI [of _ "if ok then xs @ [x] else xs"])
      (auto simp: explicit_step_def simp del: split_paired_Ex split: if_splits)
next
  case (Push_many m ys)
  then have "length xs + length ys < 2 ^ 62" using few by simp
  from explicit_enqueue_bulk_inv [OF inv this, of mem m] obtain ok p' q' where
    "explicit_enqueue_bulk mem m ys (p, q) = Some (ok, p', q')" "agree_on F q q'"
    "ok \<longrightarrow> (\<exists>U'. explicit_inv p' q' F (xs @ ys) U')" by blast
  with Push_many show ?thesis
    by (intro exI [of _ "Pushed ok"] exI [of _ p'] exI [of _ q'] exI [of _ "if ok then xs @ ys else xs"])
      (simp add: explicit_step_def)
next
  case Pop
  from explicit_dequeue_inv [OF inv] obtain p' q' U' where
    "explicit_dequeue (p, q) = Some (case xs of [] \<Rightarrow> None | x # _ \<Rightarrow> Some x, p', q')" "explicit_inv p' q' F (tl xs) U'"
    "agree_on F q q'" by blast
  with Pop show ?thesis
    by (intro exI [of _ "Popped (case xs of [] \<Rightarrow> None | x # _ \<Rightarrow> Some x)"] exI [of _ p'] exI [of _ q'] exI [of _ "tl xs"])
      (auto simp: explicit_step_def)
next
  case (Pop_many n)
  from explicit_dequeue_bulk_inv [OF inv, of n] obtain p' q' U' where
    "explicit_dequeue_bulk n (p, q) = Some ((of_nat (min (unat n) (length xs)), take (unat n) xs), p', q')"
    "explicit_inv p' q' F (drop (unat n) xs) U'" "agree_on F q q'" by blast
  with Pop_many show ?thesis
    by (intro exI [of _ "Popped_many (of_nat (min (unat n) (length xs))) (take (unat n) xs)"] exI [of _ p'] exI [of _ q']
        exI [of _ "drop (unat n) xs"]) (auto simp: explicit_step_def min.commute)
qed

lemma run_explicit_inv:
  assumes "explicit_inv p q F xs U" "length xs + sum_list (map pushed ops) < 2 ^ 62"
  shows "\<exists>rs complete p' q' ys. run_explicit mem ops (p, q) = Some (rs, complete, p', q') \<and> fifo_results xs ops rs complete ys \<and>
    agree_on F q q' \<and> (complete \<longrightarrow> (\<exists>U'. explicit_inv p' q' F ys U'))"
  using assms
proof (induction ops arbitrary: p q xs U)
  case Nil
  then show ?case by (auto simp: agree_on_def)
next
  case (Cons opn ops)
  then have "length xs + pushed opn < 2 ^ 62" by simp
  from explicit_step_inv [OF Cons.prems(1) this, of mem] obtain r p1 q1 xs1 where
    s: "explicit_step mem opn (p, q) = Some (r, p1, q1)" "fifo_step opn r xs = Some xs1" "agree_on F q q1"
      "length xs1 \<le> length xs + pushed opn" "\<not> gave_up opn r \<longrightarrow> (\<exists>U'. explicit_inv p1 q1 F xs1 U')" by blast
  show ?case
  proof (cases "gave_up opn r")
    case True
    with s show ?thesis by (intro exI [of _ "[r]"] exI [of _ False] exI [of _ p1] exI [of _ q1] exI [of _ xs1]) simp
  next
    case False
    with s(5) obtain U1 where "explicit_inv p1 q1 F xs1 U1" by blast
    moreover have "length xs1 + sum_list (map pushed ops) < 2 ^ 62" using s(4) Cons.prems(2) by simp
    ultimately obtain rs complete p' q' ys where
      "run_explicit mem ops (p1, q1) = Some (rs, complete, p', q')" "fifo_results xs1 ops rs complete ys"
      "agree_on F q1 q'" "complete \<longrightarrow> (\<exists>U'. explicit_inv p' q' F ys U')" using Cons.IH by blast
    with s False show ?thesis
      by (intro exI [of _ "r # rs"] exI [of _ complete] exI [of _ p'] exI [of _ q'] exI [of _ ys]) (simp add: agree_on_def)
  qed
qed

text \<open>
  C11. An explicit producer is a first-in first-out queue. Start it on a queue in any valid state, in which the blocks \<open>F\<close> belong to
  others, and let it do any operations, up to the first bulk enqueue that fails (fewer than \<open>2\<^sup>6\<^sup>2\<close> elements are offered in all).
  Every operation returns, whatever \<open>malloc\<close> answers; every answer is that of a first-in first-out queue; no block of others is touched. If no
  bulk enqueue failed, the destructor destroys exactly the elements that are left, in their order, and gives every block back.
\<close>

theorem explicit_producer_is_fifo:
  assumes "pool_inv q fs F" "sum_list (map pushed ops) < 2 ^ 62"
  shows "\<exists>p q1 rs complete p' q' xs. new_explicit_producer mem q = Some (p, q1) \<and>
    run_explicit mem ops (p, q1) = Some (rs, complete, p', q') \<and> fifo_results [] ops rs complete xs \<and> agree_on F q q' \<and>
    (complete \<longrightarrow> (\<exists>q'' fs'. destroy_explicit_producer p' q' = Some (xs, q'') \<and> pool_inv q'' fs' F \<and> agree_on F q q''))"
proof -
  from new_explicit_producer_inv [OF assms(1), of mem] obtain p n where
    p: "new_explicit_producer mem q = Some (p, q\<lparr>allocations := n\<rparr>)" "explicit_inv p (q\<lparr>allocations := n\<rparr>) F [] {}" by blast
  have "length [] + sum_list (map pushed ops) < 2 ^ 62" using assms(2) by simp
  from run_explicit_inv [OF p(2) this, of mem] obtain rs complete p' q' xs where
    r: "run_explicit mem ops (p, q\<lparr>allocations := n\<rparr>) = Some (rs, complete, p', q')" "fifo_results [] ops rs complete xs"
      "agree_on F (q\<lparr>allocations := n\<rparr>) q'" "complete \<longrightarrow> (\<exists>U'. explicit_inv p' q' F xs U')" by blast
  have a: "agree_on F q q'" using r(3) by (simp add: agree_on_def)
  have "\<exists>q'' fs'. destroy_explicit_producer p' q' = Some (xs, q'') \<and> pool_inv q'' fs' F \<and> agree_on F q q''" if complete
    using r(4) that destroy_explicit_producer_inv [of p' q' F xs] a by (auto simp: agree_on_def)
  with p(1) r a show ?thesis by blast
qed

definition two_blocks :: "nat block_pool" where
  "two_blocks = populate_initial_block_list (\<lambda>k. 100 * Suc k) 2 empty_pool"

lemma two_blocks_inv: "pool_inv two_blocks [] {}"
  unfolding two_blocks_def by (rule populate_initial_block_list_inv) (simp_all add: empty_pool_def)

definition sample_history :: "nat explicit_op list" where
  "sample_history = [Push CanAlloc 7, Push_many CannotAlloc [8, 9], Pop]"

lemma sample_history_results:
  "map_option (\<lambda>(rs, complete, _). (rs, complete))
     (do { s \<leftarrow> new_explicit_producer (\<lambda>k. 100 * Suc k) two_blocks; run_explicit (\<lambda>k. 100 * Suc k) sample_history s }) =
   Some ([Pushed True, Pushed True, Popped (Some 7)], True)"
  by code_simp

theorem explicit_producer_is_fifo_witness:
  "\<exists>p q1 p' q' q''. new_explicit_producer (\<lambda>k. 100 * Suc k) two_blocks = Some (p, q1) \<and>
    run_explicit (\<lambda>k. 100 * Suc k) sample_history (p, q1) =
      Some ([Pushed True, Pushed True, Popped (Some 7)], True, p', q') \<and>
    destroy_explicit_producer p' q' = Some ([8, 9], q'')"
proof -
  have "sum_list (map pushed sample_history) < 2 ^ 62" by (simp add: sample_history_def)
  from explicit_producer_is_fifo [OF two_blocks_inv this, of "\<lambda>k. 100 * Suc k"] obtain p q1 rs complete p' q' xs where
    r: "new_explicit_producer (\<lambda>k. 100 * Suc k) two_blocks = Some (p, q1)"
      "run_explicit (\<lambda>k. 100 * Suc k) sample_history (p, q1) = Some (rs, complete, p', q')"
      "fifo_results [] sample_history rs complete xs"
      "complete \<longrightarrow> (\<exists>q'' fs'. destroy_explicit_producer p' q' = Some (xs, q'') \<and> pool_inv q'' fs' {} \<and> agree_on {} two_blocks q'')"
    by blast
  with sample_history_results have a: "rs = [Pushed True, Pushed True, Popped (Some 7)]" "complete" by simp_all
  with r(3) have "xs = [8, 9]" by (simp add: sample_history_def)
  with r a show ?thesis by auto
qed

section \<open>After a bulk enqueue that fails\<close>

definition failed_bulk_history :: "nat explicit_result list \<times> nat explicit_result list \<times> bool" where
  "failed_bulk_history =
     the (do {
       let mem = (\<lambda>k. 100 * Suc k);
       (p, q) \<leftarrow> new_explicit_producer mem two_blocks;
       (rs, _, p1, q1) \<leftarrow> run_explicit mem [Push_many CannotAlloc [0..<10], Pop_many 5, Push_many CannotAlloc [100..<160]] (p, q);
       (rs', _, p2, q2) \<leftarrow> run_explicit mem [Push_many CannotAlloc [10..<40]] (p1, q1);
       Some (rs, rs', destroy_explicit_producer p2 q2 = None)
     })"

text \<open>
  The first operation starts a block, of which five elements are taken. The second needs two more blocks, gets one, which it puts into the
  ring, and fails for want of the other; the count of used slots is put back, though the ring has two blocks now.
  The third uses the block ahead, without counting it. The destructor then begins its search for the block that is dequeued in part
  at the entry of the second block instead of that of the first, and its assertion fails.
\<close>

lemma failed_bulk_history_value:
  "failed_bulk_history = ([Pushed True, Popped_many 5 [0..<5], Pushed False], [Pushed True], True)"
  by code_simp

end
