(* ===== verification/Spec2Isabelle.thy ===== *)
theory Spec2Isabelle
  imports Executor_Rounds Consumer_Tokens Queue_Lifetime Explicit_Histories
begin

text \<open>
  A verification of \<open>preemptive_executor\<close>, a real-time executor for ROS 2.

  \<^bold>\<open>The program.\<close> A user registers callbacks by name and writes chains of them, with deadlines and periods, in a
  YAML file (\<open>yaml_parser.cpp\<close>). \<open>callback_registry.cpp\<close> cuts the graph of chains into thread groups, so that callbacks
  of a mutually exclusive callback group share one, and gives each a priority and a number of threads. \<open>spin\<close>
  (\<open>preemptive_executor.cpp\<close>) classifies the callback groups, spawns a worker group for each thread group
  (\<open>worker_group.cpp\<close>), and then waits for work (\<open>rt_allocator_memory_strategy.hpp\<close>), takes the messages of what is ready
  (\<open>bundled_subscription.cpp\<close>, \<open>bundled_timer.cpp\<close>) and puts the bundles into the ready queues of the worker groups, which
  are lock-free queues (\<open>concurrentqueue.h\<close>); the threads of a group wait on a semaphore, pop and run bundles.

  \<^bold>\<open>The theories\<close>, each beside the code it models, with its operations under the names of the code:

  \<^item> \<open>Prelude\<close>: exceptions as values (\<open>result\<close>), hash maps as association lists in insertion order with a parameter \<open>hash_order\<close>
    for the order of iteration, loops over lists with exceptions.
  \<^item> \<open>Chain_Yaml\<close>: \<open>ChainYamlParser\<close>. \<open>parse\<close> keeps the chains well formed and reads up to the first bad entry.
  \<^item> \<open>Callback_Registry\<close>: the registry, its constructor and its recursions. \<open>Registry_Traversal\<close>: the cut of the callback
    graph ends (fuel \<open>callback_fuel\<close>, one level more than there are callbacks, is enough), keeps the maps consistent and
    gives callbacks of a mutex group one thread group. \<open>Registry_Allocation\<close>: priorities, thread counts (the fuel is the number
    of thread groups plus one; the recursion is proved to end on acyclic graphs and to run for ever on one that the
    constructor accepts) and the export.
  \<^item> \<open>Memory_Strategy\<close>: \<open>RTAllocatorMemoryStrategy\<close>; what it adds to a wait set, keeps after a wait, and hands out.
  \<^item> \<open>Bundles\<close>: the classes of bundles; taking a message, running it, giving back a loan.
  \<^item> \<open>Worker_Group\<close>: one step per access of a worker, the dispatcher or the destructor to what they share; \<open>group_step\<close>
    interleaves them. What a group relies on in its queue is the locale \<open>work_queue\<close>, and \<open>fifo_queue\<close> for the order. The
    invariant \<open>group_inv\<close> relates permits, pending count and queue. \<open>Worker_History\<close>: what becomes of each bundle,
    progress, shutdown.
  \<^item> \<open>Executor\<close>, \<open>Executor_Correctness\<close>: \<open>PreemptiveExecutor\<close>, from \<open>add_node\<close> to \<open>spin\<close>.
  \<^item> \<open>Queue_Details\<close>: rounding, alignment, hashing and circular comparison of \<open>concurrentqueue.h\<close>.
  \<^item> \<open>Block_Pool\<close>, \<open>Block_Pool_Inv\<close>: blocks of 32 elements, the free list, the initial pool. \<open>Implicit_Producer\<close>: the stream of one
    thread. \<open>Producer_Index\<close>: the ring that finds the block of an index, as a map. \<open>Producer_Stream\<close>, \<open>Producer_Bulk\<close>: a producer is a
    list, of which \<open>enqueue\<close> and \<open>enqueue_bulk\<close> extend one end and \<open>dequeue\<close> shortens the other. \<open>Producer_Frame\<close>: what they
    leave alone. \<open>Producer_Take\<close>: \<open>dequeue_bulk\<close> takes a first part of the list. \<open>Producer_Destroy\<close>: the destructor.
  \<^item> \<open>Concurrent_Queue\<close>: the queue. \<open>Queue_Streams\<close>, \<open>Queue_Scan\<close>: all its producers draw on one pool. \<open>Thread_Hash\<close>, \<open>Queue_Threads\<close>: the
    tables from threads to producers are a map, no search in them runs for ever. \<open>Queue_Correct\<close>: every operation returns and
    is a step of the abstract queue, a list of streams with an owner for each (\<open>queue_step\<close>). \<open>Queue_Histories\<close>: what
    follows for every history of operations on a new queue. \<open>Queue_Lifetime\<close>: the end of a queue gives back every block and
    destroys every element left; moving and swapping. \<open>Consumer_Tokens\<close>: the operations with a consumer token, in histories with
    the others.
  \<^item> \<open>Explicit_Producer\<close>: the producer of a token, whose blocks form a ring. \<open>Explicit_Ring\<close>, \<open>Explicit_Stream\<close>: its circular index
    and its ring as functions of a position, the invariant \<open>explicit_inv\<close> (a producer with its list of elements). \<open>Explicit_Steps\<close>,
    \<open>Explicit_Take\<close>, \<open>Explicit_Bulk\<close>, \<open>Explicit_Destroy\<close>: what each operation does to the list. Filling blocks is the locale
    \<open>filling\<close> of \<open>Producer_Bulk\<close>, for both kinds of producers. \<open>Explicit_Histories\<close>: histories, up to a bulk enqueue that fails, and
    what goes wrong after one.
  \<^item> \<open>Ready_Queue\<close>: the queue satisfies \<open>fifo_queue\<close>; what follows for worker groups. \<open>Executor_Queue\<close>: the executor with these groups.
    \<open>Executor_Rounds\<close>: any number of turns of \<open>spin\<close>, between which the threads of all groups run.

  \<^bold>\<open>How the model corresponds to the code.\<close> Integers of the queue have their width and wrap around; \<open>int\<close> counts elsewhere are
  unbounded where the code only counts small things. Exceptions, and uses that are undefined in C++, are values of
  \<open>result\<close>; in the queue \<open>None\<close> is undefined behaviour, a failed \<open>assert\<close> or a loop that does not end, and the theorems show that it
  does not come up. Pointers are numbers; what \<open>malloc\<close> answers is a parameter \<open>mem\<close>, so that each allocation may fail. rclcpp, rcl and
  yaml-cpp are parameters (\<open>rclcpp_api\<close>, \<open>bundle_env\<close>, the parsed tree) of which no more is assumed than each theorem says.

  \<^bold>\<open>Bounds.\<close> A batch has at most \<open>VECTOR_MAX\<close> = 2^60 - 1 bundles, the most a vector of pointers can have. Histories of a queue
  have at most 2^59 operations, so that the tables of threads stay below 2^63 entries; a ready queue, into which one thread
  enqueues, needs no such bound: its indices wrap around. An explicit producer, which uses blocks again without testing
  whether there are too many elements, is offered fewer than 2^62 of them.

  \<^bold>\<open>Not modelled.\<close> The operations of the queue run one at a time: their interleavings under the C++ memory model, which the retry loop of
  the workers is meant for, are not modelled, while the threads of a group interleave between any two accesses to the
  group. Explicit producers stand for themselves: the tokens that hold them, which the executor does not make, and their place in
  the queue's list of producers are left out, and so is the branch for elements whose move may throw, which a \<open>unique_ptr\<close> does not have. The interface \<open>RTMemoryStrategy\<close> has no code but one class of results. Logging, console output, compiler and platform glue
  have no logic of their own. The results of setting thread priorities are not looked at by the code.
\<close>

end
